(* ===== verification/Prelude.thy ===== *)
theory Prelude
  imports Main "HOL-Library.Word"
begin

text \<open>
  Shared vocabulary of the development: names for the machine integers the code uses, the
  result type of operations that may throw, decimal printing as \<open>std::to_string\<close> does it, and
  the generic list facts that several components need. The collections declared here are
  filled by the component theories and used as \<open>simp add: ...\<close> bundles:
  \<open>step_defs\<close> (definitions of handlers, unfolded when one step is analysed) and
  \<open>frame_simps\<close> (what an operation leaves unchanged).
\<close>

named_theorems step_defs
named_theorems frame_simps

type_synonym u8 = "8 word"
type_synonym u16 = "16 word"
type_synonym u32 = "32 word"
type_synonym u64 = "64 word"
type_synonym i16 = "16 word"

section \<open>Results\<close>

text \<open>An operation that may throw returns \<open>Inl\<close> of the exception or \<open>Inr\<close> of its value.\<close>

type_synonym ('x, 'a) result = "'x + 'a"

definition bind_result :: "('x, 'a) result \<Rightarrow> ('a \<Rightarrow> ('x, 'b) result) \<Rightarrow> ('x, 'b) result" where
  "bind_result r f = (case r of Inl x \<Rightarrow> Inl x | Inr a \<Rightarrow> f a)"

lemma bind_result_simps [simp]:
  "bind_result (Inl x) f = Inl x"
  "bind_result (Inr a) f = f a"
  by (simp_all add: bind_result_def)

lemma bind_result_Inr_iff:
  "bind_result r f = Inr b \<longleftrightarrow> (\<exists>a. r = Inr a \<and> f a = Inr b)"
  by (cases r) auto

section \<open>Decimal printing\<close>

definition digit_char :: "nat \<Rightarrow> char" where
  "digit_char d = char_of (48 + d)"

definition char_digit :: "char \<Rightarrow> nat" where
  "char_digit c = of_char c - 48"

fun nat_digits :: "nat \<Rightarrow> string" where
  "nat_digits n =
     (if n < 10 then [digit_char n] else nat_digits (n div 10) @ [digit_char (n mod 10)])"

declare nat_digits.simps [simp del]

definition std_to_string :: "int \<Rightarrow> string" where
  "std_to_string i =
     (if i < 0 then CHR ''-'' # nat_digits (nat (- i)) else nat_digits (nat i))"

definition digits_nat :: "string \<Rightarrow> nat" where
  "digits_nat s = foldl (\<lambda>a c. 10 * a + char_digit c) 0 s"

lemma char_digit_digit_char [simp]: "d < 10 \<Longrightarrow> char_digit (digit_char d) = d"
  by (simp add: char_digit_def digit_char_def)

lemma digit_char_range:
  "d < 10 \<Longrightarrow> 48 \<le> (of_char (digit_char d) :: nat) \<and> (of_char (digit_char d) :: nat) \<le> 57"
  by (simp add: digit_char_def)

lemma digit_char_numerals [simp]:
  "digit_char 0 = CHR ''0''" "digit_char (Suc 0) = CHR ''1''" "digit_char 2 = CHR ''2''"
  "digit_char 3 = CHR ''3''" "digit_char 4 = CHR ''4''" "digit_char 5 = CHR ''5''"
  "digit_char 6 = CHR ''6''" "digit_char 7 = CHR ''7''" "digit_char 8 = CHR ''8''"
  "digit_char 9 = CHR ''9''"
  by code_simp+

lemma digits_nat_append: "digits_nat (xs @ [c]) = 10 * digits_nat xs + char_digit c"
  by (simp add: digits_nat_def)

lemma digits_nat_nat_digits [simp]: "digits_nat (nat_digits n) = n"
proof (induction n rule: nat_digits.induct)
  case (1 n)
  show ?case
  proof (cases "n < 10")
    case True
    then show ?thesis by (simp add: nat_digits.simps [of n] digits_nat_def)
  next
    case False
    then show ?thesis
      using 1 by (simp add: nat_digits.simps [of n] digits_nat_append)
  qed
qed

lemma nat_digits_nonempty [simp]: "nat_digits n \<noteq> []"
  by (subst nat_digits.simps) simp

lemma nat_digits_chars:
  "c \<in> set (nat_digits n) \<Longrightarrow> 48 \<le> (of_char c :: nat) \<and> (of_char c :: nat) \<le> 57"
proof (induction n rule: nat_digits.induct)
  case (1 n)
  show ?case
  proof (cases "n < 10")
    case True
    with 1 show ?thesis by (simp add: nat_digits.simps [of n] digit_char_range)
  next
    case False
    with 1 show ?thesis
      using digit_char_range [of "n mod 10"]
      by (auto simp: nat_digits.simps [of n])
  qed
qed

lemma nat_digits_no_minus: "CHR ''-'' \<notin> set (nat_digits n)"
  using nat_digits_chars [of "CHR ''-''" n] by auto

lemma nat_digits_inject [simp]: "nat_digits m = nat_digits n \<longleftrightarrow> m = n"
  using digits_nat_nat_digits by metis

lemma std_to_string_inject [simp]: "std_to_string i = std_to_string j \<longleftrightarrow> i = j"
proof -
  have no: "nat_digits m \<noteq> CHR ''-'' # s" for m s
    using nat_digits_no_minus [of m] by (metis list.set_intros(1))
  show ?thesis
    using no [symmetric] no by (auto simp: std_to_string_def)
qed

section \<open>Signed 64-bit integers\<close>

definition int64_max :: int where "int64_max = 2 ^ 63 - 1"
definition int64_min :: int where "int64_min = - (2 ^ 63)"

text \<open>The result of 64-bit arithmetic, when it is defined: overflow of a signed type is not.\<close>

definition int64 :: "int \<Rightarrow> int option" where
  "int64 v = (if int64_min \<le> v \<and> v \<le> int64_max then Some v else None)"

section \<open>Lists\<close>

lemma take_1_conv: "take (Suc 0) xs = (case xs of [] \<Rightarrow> [] | x # _ \<Rightarrow> [x])"
  by (cases xs) auto

lemma filter_remove1_not: "\<not> P x \<Longrightarrow> filter P (remove1 x xs) = filter P xs"
  by (induction xs) auto

lemma filter_remove1: "P x \<Longrightarrow> filter P (remove1 x xs) = remove1 x (filter P xs)"
  by (induction xs) auto

end
