(* ===== verification/Map_Contract.thy ===== *)
theory Map_Contract
  imports Prelude
begin

text \<open>
  What the code expects of an associative container (\<open>std::map\<close>, \<open>flat_map\<close>): a well-formedness
  invariant, lookup, assignment and erasure by key. The lemmas for clients are proved here once:
  any sequence of calls acts as on a mathematical map, so any two containers that meet the
  contract give the same answers.
\<close>

datatype ('k, 'v) map_call = Put 'k 'v | Del 'k

primrec apply_call ::
  "('k \<Rightarrow> 'v \<Rightarrow> 's \<Rightarrow> 's) \<Rightarrow> ('k \<Rightarrow> 's \<Rightarrow> 's) \<Rightarrow> ('k, 'v) map_call \<Rightarrow> 's \<Rightarrow> 's" where
  "apply_call put del (Put k v) = put k v"
| "apply_call put del (Del k) = del k"

definition run_calls ::
  "('k \<Rightarrow> 'v \<Rightarrow> 's \<Rightarrow> 's) \<Rightarrow> ('k \<Rightarrow> 's \<Rightarrow> 's) \<Rightarrow> ('k, 'v) map_call list \<Rightarrow> 's \<Rightarrow> 's" where
  "run_calls put del cs s = fold (apply_call put del) cs s"

definition spec_put :: "'k \<Rightarrow> 'v \<Rightarrow> ('k \<rightharpoonup> 'v) \<Rightarrow> ('k \<rightharpoonup> 'v)" where
  "spec_put k v m = m(k \<mapsto> v)"

definition spec_del :: "'k \<Rightarrow> ('k \<rightharpoonup> 'v) \<Rightarrow> ('k \<rightharpoonup> 'v)" where
  "spec_del k m = m(k := None)"

definition map_spec :: "('k, 'v) map_call list \<Rightarrow> ('k \<rightharpoonup> 'v)" where
  "map_spec cs = run_calls spec_put spec_del cs Map.empty"

locale map_interface =
  fixes ok :: "'s \<Rightarrow> bool"
    and fresh :: 's
    and look_up :: "'s \<Rightarrow> 'k \<rightharpoonup> 'v"
    and put :: "'k \<Rightarrow> 'v \<Rightarrow> 's \<Rightarrow> 's"
    and del :: "'k \<Rightarrow> 's \<Rightarrow> 's"
  assumes fresh: "ok fresh" "look_up fresh k = None"
    and put_ok: "ok s \<Longrightarrow> ok (put k v s)"
    and put_look_up: "ok s \<Longrightarrow> look_up (put k v s) = (look_up s)(k \<mapsto> v)"
    and del_ok: "ok s \<Longrightarrow> ok (del k s)"
    and del_look_up: "ok s \<Longrightarrow> look_up (del k s) = (look_up s)(k := None)"
begin

lemma run_from:
  "ok s \<Longrightarrow> ok (run_calls put del cs s) \<and>
    look_up (run_calls put del cs s) =
      run_calls spec_put spec_del cs (look_up s)"
proof (induction cs arbitrary: s)
  case (Cons c cs)
  have "ok (apply_call put del c s) \<and> look_up (apply_call put del c s) =
      apply_call spec_put spec_del c (look_up s)"
    using Cons.prems by (cases c) (simp_all add: spec_put_def spec_del_def put_ok put_look_up del_ok del_look_up)
  with Cons.IH [of "apply_call put del c s"] show ?case by (simp add: run_calls_def)
qed (simp add: run_calls_def)

lemma run_refines: "ok (run_calls put del cs fresh)" "look_up (run_calls put del cs fresh) = map_spec cs"
proof -
  have "look_up fresh = Map.empty" using fresh(2) by auto
  then show "ok (run_calls put del cs fresh)" "look_up (run_calls put del cs fresh) = map_spec cs"
    using run_from [OF fresh(1), of cs] by (simp_all add: map_spec_def)
qed

end

text \<open>Two containers that meet the contract.\<close>

locale map_pair =
  one: map_interface ok1 fresh1 look_up1 put1 del1 +
  two: map_interface ok2 fresh2 look_up2 put2 del2
  for ok1 :: "'s \<Rightarrow> bool" and fresh1 and look_up1 :: "'s \<Rightarrow> 'k \<Rightarrow> 'v option" and put1 and del1
    and ok2 :: "'t \<Rightarrow> bool" and fresh2 and look_up2 :: "'t \<Rightarrow> 'k \<Rightarrow> 'v option" and put2 and del2
begin

lemma same_answers:
  "look_up1 (run_calls put1 del1 cs fresh1) k = look_up2 (run_calls put2 del2 cs fresh2) k"
  by (simp add: one.run_refines two.run_refines)

end

end
