(* ===== verification/Sorted_Map.thy ===== *)
theory Sorted_Map
  imports Map_Contract "HOL-Library.List_Lexorder" "HOL-Library.Char_ord"
begin

text \<open>
  \<open>std::map\<close> as the code uses it: the entries in increasing key order. \<open>std::string\<close> compares
  byte by byte as unsigned values, which is the list order over the order of characters that
  the library theories \<open>List_Lexorder\<close> and \<open>Char_ord\<close> provide. Reading is \<open>map_of\<close>; \<open>map_put\<close>
  is \<open>m[k] = v\<close>, \<open>map_erase\<close> is \<open>m.erase(m.find(k))\<close>.
\<close>

type_synonym ('k, 'v) smap = "('k \<times> 'v) list"

abbreviation map_ok :: "('k::linorder, 'v) smap \<Rightarrow> bool" where
  "map_ok m \<equiv> sorted_wrt (<) (map fst m)"

fun map_put :: "'k::linorder \<Rightarrow> 'v \<Rightarrow> ('k, 'v) smap \<Rightarrow> ('k, 'v) smap" where
  "map_put k v [] = [(k, v)]"
| "map_put k v ((a, b) # m) =
     (if k < a then (k, v) # (a, b) # m
      else if k = a then (k, v) # m
      else (a, b) # map_put k v m)"

fun map_erase :: "'k \<Rightarrow> ('k, 'v) smap \<Rightarrow> ('k, 'v) smap" where
  "map_erase k [] = []"
| "map_erase k ((a, b) # m) = (if k = a then m else (a, b) # map_erase k m)"

lemma map_put_keys [simp]: "fst ` set (map_put k v m) = insert k (fst ` set m)"
  by (induction k v m rule: map_put.induct) auto

lemma set_map_put: "p \<in> set (map_put k v m) \<Longrightarrow> p = (k, v) \<or> p \<in> set m"
  by (induction k v m rule: map_put.induct) (auto split: if_splits)

lemma map_ok_put: "map_ok m \<Longrightarrow> map_ok (map_put k v m)"
proof (induction m)
  case (Cons p m)
  obtain a b where p: "p = (a, b)" by (cases p)
  have "set (map fst (map_put k v m)) = insert k (set (map fst m))" by simp
  with Cons p show ?case by (auto simp: not_less)
qed simp

lemma map_of_put [simp]: "map_of (map_put k v m) = (map_of m)(k \<mapsto> v)"
  by (induction k v m rule: map_put.induct) auto

lemma map_ok_notin: "sorted_wrt (<) ((k::'k::linorder) # map fst m) \<Longrightarrow> map_of m k = None"
  by (auto simp: map_of_eq_None_iff)

lemma map_of_erase: "map_ok m \<Longrightarrow> map_of (map_erase k m) = (map_of m)(k := None)"
proof (induction m)
  case (Cons p m)
  obtain a b where p: "p = (a, b)" by (cases p)
  from Cons p have "map_of m a = None" by (intro map_ok_notin) simp
  with Cons p show ?case by auto
qed simp

lemma map_erase_keys: "set (map fst (map_erase k m)) \<subseteq> set (map fst m)"
  by (induction k m rule: map_erase.induct) auto

lemma map_ok_erase: "map_ok m \<Longrightarrow> map_ok (map_erase k m)"
proof (induction m)
  case (Cons p m)
  obtain a b where p: "p = (a, b)" by (cases p)
  with Cons map_erase_keys [of k m] show ?case by fastforce
qed simp

lemma map_put_last: "sorted_wrt (<) (map fst m @ [k]) \<Longrightarrow> map_put k v m = m @ [(k, v)]"
  by (induction m) auto

lemma map_erase_None: "map_of m k = None \<Longrightarrow> map_erase k m = m"
  by (induction k m rule: map_erase.induct) (auto split: if_splits)

text \<open>The contract of an associative container.\<close>

interpretation std_map: map_interface map_ok "[]" map_of map_put map_erase
  by unfold_locales (simp_all add: map_ok_put map_of_erase map_ok_erase)

end
