(* ===== verification/Json_Value.thy ===== *)
theory Json_Value
  imports Sorted_Map
begin

text \<open>
  \<open>nlohmann::json\<close> values and the accessors the Janus client uses
  (\<open>11_rtc_janus/nlohmann/json.hpp\<close>). An object is a \<open>std::map\<close>, so its members are in key
  order. A floating-point number is a value of a type \<open>'f\<close>, because conversion between text
  and \<open>double\<close> is the C library's.

  Exceptions carry the library's error number; \<open>Std_invalid_argument\<close> is the C++ library's
  exception, which is none of them. The last three are not exceptions: the const \<open>operator[]\<close> only
  asserts that the key exists and dereferences the end iterator otherwise, with an index it reads
  outside the vector, and \<open>Assertion_failed\<close> is a reached \<open>JSON_ASSERT(false)\<close>, which ends the
  program or, compiled without assertions, does nothing.
\<close>

datatype 'f json =
    JNull
  | JObject "(string \<times> 'f json) list"
  | JArray "'f json list"
  | JString string
  | JBoolean bool
  | JInteger int
  | JUnsigned nat
  | JFloat 'f
  | JBinary "nat list" "nat option"
  | JDiscarded

datatype json_error =
    Parse_error nat
  | Out_of_range nat
  | Type_error nat
  | Other_error nat
  | Std_invalid_argument
  | Missing_key
  | Missing_element
  | Assertion_failed

definition is_object :: "'f json \<Rightarrow> bool" where
  "is_object j = (case j of JObject _ \<Rightarrow> True | _ \<Rightarrow> False)"

text \<open>\<open>from_json\<close> into a string and into arithmetic types.\<close>

definition get_string :: "'f json \<Rightarrow> (json_error, string) result" where
  "get_string j = (case j of JString s \<Rightarrow> Inr s | _ \<Rightarrow> Inl (Type_error 302))"

text \<open>
  \<open>static_cast\<close> to a signed integer of \<open>w\<close> bits keeps the low \<open>w\<close> bits (C++20). The
  conversion of a \<open>double\<close> is an argument.
\<close>

definition wrap_signed :: "nat \<Rightarrow> int \<Rightarrow> int" where
  "wrap_signed w i = (i + 2 ^ (w - 1)) mod 2 ^ w - 2 ^ (w - 1)"

definition get_arithmetic_value :: "('f \<Rightarrow> int) \<Rightarrow> 'f json \<Rightarrow> (json_error, int) result" where
  "get_arithmetic_value trunc j =
     (case j of
        JUnsigned n \<Rightarrow> Inr (wrap_signed 64 (int n))
      | JInteger i \<Rightarrow> Inr (wrap_signed 64 i)
      | JFloat f \<Rightarrow> Inr (trunc f)
      | _ \<Rightarrow> Inl (Type_error 302))"

definition get_int32 :: "('f \<Rightarrow> int) \<Rightarrow> 'f json \<Rightarrow> (json_error, int) result" where
  "get_int32 trunc j =
     (case j of
        JUnsigned n \<Rightarrow> Inr (wrap_signed 32 (int n))
      | JInteger i \<Rightarrow> Inr (wrap_signed 32 i)
      | JFloat f \<Rightarrow> Inr (trunc f)
      | JBoolean b \<Rightarrow> Inr (if b then 1 else 0)
      | _ \<Rightarrow> Inl (Type_error 302))"

text \<open>The const \<open>operator[]\<close> with a string key, and \<open>value(key, default)\<close> for strings.\<close>

definition json_at :: "'f json \<Rightarrow> string \<Rightarrow> (json_error, 'f json) result" where
  "json_at j key =
     (case j of
        JObject m \<Rightarrow> (case map_of m key of Some v \<Rightarrow> Inr v | None \<Rightarrow> Inl Missing_key)
      | _ \<Rightarrow> Inl (Type_error 305))"

definition json_value :: "'f json \<Rightarrow> string \<Rightarrow> string \<Rightarrow> (json_error, string) result" where
  "json_value j key default_value =
     (case j of
        JObject m \<Rightarrow>
          (case map_of m key of Some v \<Rightarrow> get_string v | None \<Rightarrow> Inr default_value)
      | _ \<Rightarrow> Inl (Type_error 306))"

lemma wrap_signed_id:
  "- (2 ^ (w - 1)) \<le> i \<Longrightarrow> i < 2 ^ (w - 1) \<Longrightarrow> 0 < w \<Longrightarrow> wrap_signed w i = i"
  by (cases w) (simp_all add: wrap_signed_def)

lemma wrap_signed_range:
  assumes "0 < w"
  shows "- (2 ^ (w - 1)) \<le> wrap_signed w i" and "wrap_signed w i < 2 ^ (w - 1)"
proof -
  obtain v where w: "w = Suc v" using assms by (cases w) auto
  have "(i + 2 ^ v) mod 2 ^ Suc v < 2 ^ Suc v" "0 \<le> (i + 2 ^ v) mod 2 ^ Suc v"
    by (intro pos_mod_bound pos_mod_sign; simp)+
  then show "- (2 ^ (w - 1)) \<le> wrap_signed w i" and "wrap_signed w i < 2 ^ (w - 1)"
    by (simp_all add: w wrap_signed_def)
qed

end
