(* ===== verification/Json_Lexer.thy ===== *)
theory Json_Lexer
  imports Json_Value
begin

text \<open>
  \<open>class lexer\<close> of \<open>json.hpp\<close> over a string input. A scanning function takes the input that is
  left and returns the token and the input left after it; \<open>unget\<close> is not consuming the
  character. The number scanner is the source's state machine, one constructor per label.
\<close>

definition byte :: "char \<Rightarrow> nat" where
  "byte c = of_char c"

datatype 'f token =
    Tok_begin_array | Tok_end_array | Tok_begin_object | Tok_end_object
  | Tok_name_separator | Tok_value_separator
  | Tok_true | Tok_false | Tok_null
  | Tok_string string | Tok_unsigned nat | Tok_integer int
  | Tok_float "'f option"
  | Tok_end_of_input | Tok_parse_error

fun is_space :: "char \<Rightarrow> bool" where
  "is_space c = (c = CHR '' '' \<or> byte c = 9 \<or> byte c = 10 \<or> byte c = 13)"

definition skip_whitespace :: "string \<Rightarrow> string" where
  "skip_whitespace s = dropWhile is_space s"

fun scan_literal :: "string \<Rightarrow> 'f token \<Rightarrow> string \<Rightarrow> 'f token \<times> string" where
  "scan_literal [] t s = (t, s)"
| "scan_literal (l # ls) t [] = (Tok_parse_error, [])"
| "scan_literal (l # ls) t (c # s) =
     (if c = l then scan_literal ls t s else (Tok_parse_error, s))"

section \<open>Strings\<close>

definition hex_value :: "char \<Rightarrow> nat option" where
  "hex_value c =
     (let b = byte c in
      if 48 \<le> b \<and> b \<le> 57 then Some (b - 48)
      else if 65 \<le> b \<and> b \<le> 70 then Some (b - 55)
      else if 97 \<le> b \<and> b \<le> 102 then Some (b - 87)
      else None)"

fun get_codepoint :: "string \<Rightarrow> (nat \<times> string) option" where
  "get_codepoint (a # b # c # d # s) =
     (case (hex_value a, hex_value b, hex_value c, hex_value d) of
        (Some h1, Some h2, Some h3, Some h4) \<Rightarrow>
          Some (h1 * 4096 + h2 * 256 + h3 * 16 + h4, s)
      | _ \<Rightarrow> None)"
| "get_codepoint _ = None"

definition chr :: "nat \<Rightarrow> char" where
  "chr n = char_of n"

definition utf8_bytes :: "nat \<Rightarrow> string" where
  "utf8_bytes cp =
     (if cp < 128 then [chr cp]
      else if cp \<le> 2047 then [chr (192 + cp div 64), chr (128 + cp mod 64)]
      else if cp \<le> 65535 then
        [chr (224 + cp div 4096), chr (128 + cp div 64 mod 64), chr (128 + cp mod 64)]
      else
        [chr (240 + cp div 262144), chr (128 + cp div 4096 mod 64),
         chr (128 + cp div 64 mod 64), chr (128 + cp mod 64)])"

text \<open>The body of a \<open>\u\<close> escape, surrogate pairs included; \<open>None\<close> is \<open>parse_error\<close>.\<close>

definition scan_unicode :: "string \<Rightarrow> (string \<times> string) option" where
  "scan_unicode s =
     (case get_codepoint s of
        None \<Rightarrow> None
      | Some (cp1, s1) \<Rightarrow>
          if 55296 \<le> cp1 \<and> cp1 \<le> 56319 then
            (case s1 of
               b # u # s2 \<Rightarrow>
                 if b = CHR 0x5C \<and> u = CHR ''u'' then
                   (case get_codepoint s2 of
                      None \<Rightarrow> None
                    | Some (cp2, s3) \<Rightarrow>
                        if 56320 \<le> cp2 \<and> cp2 \<le> 57343
                        then Some (utf8_bytes (cp1 * 1024 + cp2 - 56613888), s3)
                        else None)
                 else None
             | _ \<Rightarrow> None)
          else if 56320 \<le> cp1 \<and> cp1 \<le> 57343 then None
          else Some (utf8_bytes cp1, s1))"

definition simple_escape :: "char \<Rightarrow> char option" where
  "simple_escape c =
     (if byte c = 34 \<or> byte c = 92 \<or> byte c = 47 then Some c
      else if c = CHR ''b'' then Some (chr 8)
      else if c = CHR ''f'' then Some (chr 12)
      else if c = CHR ''n'' then Some (chr 10)
      else if c = CHR ''r'' then Some (chr 13)
      else if c = CHR ''t'' then Some (chr 9)
      else None)"

text \<open>The 32 labels of control characters that a string may not contain unescaped.\<close>

definition invalid_control :: "nat \<Rightarrow> bool" where
  [simp]: "invalid_control b \<longleftrightarrow> b < 32"

text \<open>
  The ranges that \<open>next_byte_in_range\<close> requires of the bytes after a lead byte; \<open>None\<close> where the
  switch rejects the byte.
\<close>

definition follow_ranges :: "nat \<Rightarrow> (nat \<times> nat) list option" where
  "follow_ranges b =
     (if invalid_control b then None
      else if b \<le> 127 then Some []
      else if b < 194 then None
      else if b \<le> 223 then Some [(128, 191)]
      else if b = 224 then Some [(160, 191), (128, 191)]
      else if b = 237 then Some [(128, 159), (128, 191)]
      else if b \<le> 239 then Some [(128, 191), (128, 191)]
      else if b = 240 then Some [(144, 191), (128, 191), (128, 191)]
      else if b \<le> 243 then Some [(128, 191), (128, 191), (128, 191)]
      else if b = 244 then Some [(128, 143), (128, 191), (128, 191)]
      else None)"

fun next_byte_in_range :: "(nat \<times> nat) list \<Rightarrow> string \<Rightarrow> (string \<times> string) option" where
  "next_byte_in_range [] s = Some ([], s)"
| "next_byte_in_range ((lo, hi) # rs) [] = None"
| "next_byte_in_range ((lo, hi) # rs) (c # s) =
     (if lo \<le> byte c \<and> byte c \<le> hi
      then map_option (\<lambda>(cs, s'). (c # cs, s')) (next_byte_in_range rs s)
      else None)"

lemma next_byte_in_range_length:
  "next_byte_in_range rs s = Some (cs, s') \<Longrightarrow> s = cs @ s' \<and> length cs = length rs"
  by (induction rs s arbitrary: cs rule: next_byte_in_range.induct)
    (auto split: if_splits)

lemma get_codepoint_length: "get_codepoint s = Some (n, s') \<Longrightarrow> length s = length s' + 4"
  by (cases s rule: get_codepoint.cases) (auto split: option.splits)

lemma scan_unicode_length: "scan_unicode s = Some (cs, s') \<Longrightarrow> length s' < length s"
  by (auto simp: scan_unicode_def dest!: get_codepoint_length
      split: option.splits if_splits list.splits)

text \<open>The loop of \<open>scan_string\<close>; the accumulator is \<open>token_buffer\<close>.\<close>

function (sequential) scan_string :: "string \<Rightarrow> string \<Rightarrow> 'f token \<times> string" where
  "scan_string acc [] = (Tok_parse_error, [])"
| "scan_string acc (c # s) =
     (if byte c = 34 then (Tok_string acc, s)
      else if byte c = 92 then
        (case s of
           [] \<Rightarrow> (Tok_parse_error, [])
         | e # s1 \<Rightarrow>
             (case simple_escape e of
                Some x \<Rightarrow> scan_string (acc @ [x]) s1
              | None \<Rightarrow>
                  if e = CHR ''u'' then
                    (case scan_unicode s1 of
                       None \<Rightarrow> (Tok_parse_error, s1)
                     | Some (cs, s2) \<Rightarrow> scan_string (acc @ cs) s2)
                  else (Tok_parse_error, s1)))
      else
        (case follow_ranges (byte c) of
           None \<Rightarrow> (Tok_parse_error, s)
         | Some rs \<Rightarrow>
             (case next_byte_in_range rs s of
                None \<Rightarrow> (Tok_parse_error, s)
              | Some (cs, s1) \<Rightarrow> scan_string (acc @ c # cs) s1)))"
  by pat_completeness auto
termination
  by (relation "measure (\<lambda>(acc, s). length s)")
    (auto dest: scan_unicode_length next_byte_in_range_length)

section \<open>Numbers\<close>

datatype number_state =
    N_minus | N_zero | N_any1 | N_decimal1 | N_decimal2 | N_exponent | N_sign | N_any2

datatype number_type = Nt_unsigned | Nt_integer | Nt_float

definition is_digit :: "char \<Rightarrow> bool" where
  "is_digit c \<longleftrightarrow> 48 \<le> byte c \<and> byte c \<le> 57"

definition is_exp :: "char \<Rightarrow> bool" where
  "is_exp c \<longleftrightarrow> c = CHR ''e'' \<or> c = CHR ''E''"

text \<open>
  One \<open>get\<close> in a state: go on in another state with the character added, stop before the
  character (\<open>scan_number_done\<close>), or fail.
\<close>

datatype number_move = Go number_state | Done | Fail

fun number_next :: "number_state \<Rightarrow> char \<Rightarrow> number_move" where
  "number_next N_minus c =
     (if c = CHR ''0'' then Go N_zero else if is_digit c then Go N_any1 else Fail)"
| "number_next N_zero c =
     (if c = CHR ''.'' then Go N_decimal1 else if is_exp c then Go N_exponent else Done)"
| "number_next N_any1 c =
     (if is_digit c then Go N_any1 else if c = CHR ''.'' then Go N_decimal1
      else if is_exp c then Go N_exponent else Done)"
| "number_next N_decimal1 c = (if is_digit c then Go N_decimal2 else Fail)"
| "number_next N_decimal2 c =
     (if is_digit c then Go N_decimal2 else if is_exp c then Go N_exponent else Done)"
| "number_next N_exponent c =
     (if c = CHR ''+'' \<or> c = CHR ''-'' then Go N_sign
      else if is_digit c then Go N_any2 else Fail)"
| "number_next N_sign c = (if is_digit c then Go N_any2 else Fail)"
| "number_next N_any2 c = (if is_digit c then Go N_any2 else Done)"

text \<open>At the end of the input every state behaves as on a character it does not accept.\<close>

fun number_at_end :: "number_state \<Rightarrow> number_move" where
  "number_at_end N_zero = Done"
| "number_at_end N_any1 = Done"
| "number_at_end N_decimal2 = Done"
| "number_at_end N_any2 = Done"
| "number_at_end _ = Fail"

text \<open>Entering a state may change the type of the number.\<close>

fun enter_type :: "number_state \<Rightarrow> number_type \<Rightarrow> number_type" where
  "enter_type N_minus t = Nt_integer"
| "enter_type N_decimal1 t = Nt_float"
| "enter_type N_exponent t = Nt_float"
| "enter_type _ t = t"

text \<open>
  \<open>scan_number_done\<close>: \<open>strtoull\<close> and \<open>strtoll\<close> set \<open>errno\<close> on overflow, and the number is then
  converted as floating point, as is one with a fraction or an exponent. \<open>strtod\<close> is an
  argument; \<open>None\<close> stands for a value that is not finite.
\<close>

definition number_done ::
  "(string \<Rightarrow> 'f option) \<Rightarrow> number_type \<Rightarrow> string \<Rightarrow> 'f token" where
  "number_done strtod t buf =
     (case t of
        Nt_unsigned \<Rightarrow>
          (let x = digits_nat buf in
           if x < 2 ^ 64 then Tok_unsigned x else Tok_float (strtod buf))
      | Nt_integer \<Rightarrow>
          (let x = - int (digits_nat (tl buf)) in
           if - (2 ^ 63) \<le> x then Tok_integer x else Tok_float (strtod buf))
      | Nt_float \<Rightarrow> Tok_float (strtod buf))"

fun number_loop ::
  "(string \<Rightarrow> 'f option) \<Rightarrow> number_state \<Rightarrow> number_type \<Rightarrow> string \<Rightarrow> string \<Rightarrow> 'f token \<times> string"
  where
  "number_loop strtod st t buf [] =
     (case number_at_end st of Done \<Rightarrow> (number_done strtod t buf, []) | _ \<Rightarrow> (Tok_parse_error, []))"
| "number_loop strtod st t buf (c # s) =
     (case number_next st c of
        Go st' \<Rightarrow> number_loop strtod st' (enter_type st' t) (buf @ [c]) s
      | Done \<Rightarrow> (number_done strtod t buf, c # s)
      | Fail \<Rightarrow> (Tok_parse_error, s))"

text \<open>The first character is a minus or a digit: \<open>scan\<close> calls \<open>scan_number\<close> for those only.\<close>

definition scan_number :: "(string \<Rightarrow> 'f option) \<Rightarrow> char \<Rightarrow> string \<Rightarrow> 'f token \<times> string" where
  "scan_number strtod c s =
     (let st = (if c = CHR ''-'' then N_minus else if c = CHR ''0'' then N_zero else N_any1)
      in number_loop strtod st (enter_type st Nt_unsigned) [c] s)"

section \<open>Tokens\<close>

definition skip_bom :: "string \<Rightarrow> string option" where
  "skip_bom s =
     (case s of
        c # s1 \<Rightarrow>
          if byte c = 239 then
            (case s1 of
               c2 # c3 # s2 \<Rightarrow> if byte c2 = 187 \<and> byte c3 = 191 then Some s2 else None
             | _ \<Rightarrow> None)
          else Some s
      | [] \<Rightarrow> Some s)"

text \<open>\<open>scan\<close> after the first call; comments are not ignored (\<open>parse\<close> passes the default).\<close>

definition scan :: "(string \<Rightarrow> 'f option) \<Rightarrow> string \<Rightarrow> 'f token \<times> string" where
  "scan strtod s0 =
     (case skip_whitespace s0 of
        [] \<Rightarrow> (Tok_end_of_input, [])
      | c # s \<Rightarrow>
          if c = CHR ''['' then (Tok_begin_array, s)
          else if c = CHR '']'' then (Tok_end_array, s)
          else if c = CHR ''{'' then (Tok_begin_object, s)
          else if c = CHR ''}'' then (Tok_end_object, s)
          else if c = CHR '':'' then (Tok_name_separator, s)
          else if c = CHR '','' then (Tok_value_separator, s)
          else if c = CHR ''t'' then scan_literal ''rue'' Tok_true s
          else if c = CHR ''f'' then scan_literal ''alse'' Tok_false s
          else if c = CHR ''n'' then scan_literal ''ull'' Tok_null s
          else if byte c = 34 then scan_string [] s
          else if c = CHR ''-'' \<or> is_digit c then scan_number strtod c s
          else if byte c = 0 then (Tok_end_of_input, s)
          else (Tok_parse_error, s))"

definition scan_first :: "(string \<Rightarrow> 'f option) \<Rightarrow> string \<Rightarrow> 'f token \<times> string" where
  "scan_first strtod s =
     (case skip_bom s of None \<Rightarrow> (Tok_parse_error, s) | Some s' \<Rightarrow> scan strtod s')"

section \<open>Every token but the last consumes input\<close>

lemma scan_literal_length:
  "scan_literal ls t s = (t', s') \<Longrightarrow> length s' \<le> length s"
  by (induction ls t s rule: scan_literal.induct) (auto split: if_splits)

lemma scan_string_length:
  "scan_string acc s = (t, s') \<Longrightarrow> length s' \<le> length s"
proof (induction acc s rule: scan_string.induct)
  case (2 acc c s)
  then show ?case
    by (fastforce split: if_splits list.splits option.splits
        dest: scan_unicode_length next_byte_in_range_length)
qed simp

lemma number_loop_length:
  "number_loop strtod st t buf s = (t', s') \<Longrightarrow> length s' \<le> length s"
  by (induction strtod st t buf s rule: number_loop.induct)
    (auto split: number_move.splits)

lemma skip_whitespace_length: "length (skip_whitespace s) \<le> length s"
  by (simp add: skip_whitespace_def length_dropWhile_le)

lemma scan_length:
  assumes "scan strtod s = (t, s')" and "t \<noteq> Tok_end_of_input"
  shows "length s' < length s"
proof -
  from assms obtain c r where r: "skip_whitespace s = c # r"
    by (auto simp: scan_def split: list.splits)
  have "length r < length s" using skip_whitespace_length [of s] r by simp
  moreover have "length s' \<le> length r"
    using assms r
    by (auto simp: scan_def scan_number_def Let_def split: if_splits
        dest!: scan_literal_length scan_string_length number_loop_length)
  ultimately show ?thesis by simp
qed

lemma scan_length_le: "scan strtod s = (t, s') \<Longrightarrow> length s' \<le> length s"
proof (cases "t = Tok_end_of_input")
  case True
  assume a: "scan strtod s = (t, s')"
  show ?thesis
  proof (cases "skip_whitespace s")
    case Nil
    with a show ?thesis by (simp add: scan_def)
  next
    case (Cons c r)
    with a have "length s' \<le> length r"
      by (auto simp: scan_def scan_number_def Let_def split: if_splits
          dest!: scan_literal_length scan_string_length number_loop_length)
    with Cons skip_whitespace_length [of s] show ?thesis by simp
  qed
qed (auto dest: scan_length)

end
