(* ===== verification/Json_Parser.thy ===== *)
theory Json_Parser
  imports Json_Lexer
begin

text \<open>
  \<open>parser::sax_parse_internal\<close> driving \<open>json_sax_dom_parser\<close>. The two stacks of the source, the
  vector \<open>states\<close> (array or object) and the builder's \<open>ref_stack\<close> (the containers being filled),
  always agree and are one list of frames here. A frame holds the members so far; for an object
  also the key whose value comes next. The builder writes a value into its container when the
  value starts and this model when the value ends, which no caller can see: a parse error throws.

  \<open>parse_value\<close> is the switch on the last token, \<open>value_done\<close> the code after it that looks at
  the innermost container. The floats' \<open>strtod\<close> is an argument.
\<close>

datatype 'f frame =
    Frame_array "'f json list"
  | Frame_object "(string \<times> 'f json) list" string

definition token_weight :: "'f token \<Rightarrow> nat" where
  "token_weight t = (if t = Tok_end_of_input then 0 else 1)"

lemma scan_weight:
  "scan strtod s = (t, s') \<Longrightarrow> length s' + token_weight t \<le> length s"
  using scan_length [of strtod s t s'] scan_length_le [of strtod s t s']
  by (auto simp: token_weight_def)

fun leaf_value :: "'f token \<Rightarrow> (json_error, 'f json) result" where
  "leaf_value (Tok_float (Some f)) = Inr (JFloat f)"
| "leaf_value (Tok_float None) = Inl (Out_of_range 406)"
| "leaf_value Tok_false = Inr (JBoolean False)"
| "leaf_value Tok_null = Inr JNull"
| "leaf_value Tok_true = Inr (JBoolean True)"
| "leaf_value (Tok_integer i) = Inr (JInteger i)"
| "leaf_value (Tok_string s) = Inr (JString s)"
| "leaf_value (Tok_unsigned n) = Inr (JUnsigned n)"
| "leaf_value _ = Inl (Parse_error 101)"

text \<open>The key and the colon of a member: \<open>tok\<close> must be the key.\<close>

definition scan_key ::
  "(string \<Rightarrow> 'f option) \<Rightarrow> 'f token \<Rightarrow> string \<Rightarrow> (json_error, string \<times> string) result" where
  "scan_key strtod tok s =
     (case tok of
        Tok_string k \<Rightarrow>
          (case scan strtod s of (t1, s1) \<Rightarrow>
             if t1 = Tok_name_separator then Inr (k, s1) else Inl (Parse_error 101))
      | _ \<Rightarrow> Inl (Parse_error 101))"

lemma scan_key_length: "scan_key strtod tok s = Inr (k, s') \<Longrightarrow> length s' < length s"
  by (auto simp: scan_key_def dest: scan_length split: token.splits prod.splits if_splits)

lemma leaf_token_weight: "leaf_value t = Inr v \<Longrightarrow> token_weight t = 1"
  by (cases t rule: leaf_value.cases) (auto simp: token_weight_def)

lemma token_weight_simps [simp]:
  "token_weight Tok_begin_object = 1" "token_weight Tok_begin_array = 1"
  "token_weight Tok_end_object = 1" "token_weight Tok_end_array = 1"
  "token_weight Tok_value_separator = 1" "token_weight Tok_true = 1"
  "token_weight Tok_false = 1" "token_weight Tok_null = 1" "token_weight (Tok_string a) = 1"
  "token_weight (Tok_unsigned n) = 1" "token_weight (Tok_integer i) = 1"
  "token_weight (Tok_float f) = 1"
  by (simp_all add: token_weight_def)

function (sequential) parse_value ::
  "(string \<Rightarrow> 'f option) \<Rightarrow> 'f token \<Rightarrow> string \<Rightarrow> 'f frame list \<Rightarrow>
     (json_error, 'f json \<times> string) result"
and value_done ::
  "(string \<Rightarrow> 'f option) \<Rightarrow> 'f json \<Rightarrow> string \<Rightarrow> 'f frame list \<Rightarrow>
     (json_error, 'f json \<times> string) result"
where
  "parse_value strtod Tok_begin_object s fs =
     (case scan strtod s of (t1, s1) \<Rightarrow>
        if t1 = Tok_end_object then value_done strtod (JObject []) s1 fs
        else
          (case scan_key strtod t1 s1 of
             Inl e \<Rightarrow> Inl e
           | Inr (k, s2) \<Rightarrow>
               (case scan strtod s2 of (t3, s3) \<Rightarrow>
                  parse_value strtod t3 s3 (Frame_object [] k # fs))))"
| "parse_value strtod Tok_begin_array s fs =
     (case scan strtod s of (t1, s1) \<Rightarrow>
        if t1 = Tok_end_array then value_done strtod (JArray []) s1 fs
        else parse_value strtod t1 s1 (Frame_array [] # fs))"
| "parse_value strtod t s fs =
     (case leaf_value t of
        Inl e \<Rightarrow> Inl e
      | Inr v \<Rightarrow> value_done strtod v s fs)"
| "value_done strtod v s [] = Inr (v, s)"
| "value_done strtod v s (Frame_array vs # fs) =
     (case scan strtod s of (t1, s1) \<Rightarrow>
        if t1 = Tok_value_separator then
          (case scan strtod s1 of (t2, s2) \<Rightarrow>
             parse_value strtod t2 s2 (Frame_array (vs @ [v]) # fs))
        else if t1 = Tok_end_array then value_done strtod (JArray (vs @ [v])) s1 fs
        else Inl (Parse_error 101))"
| "value_done strtod v s (Frame_object m k # fs) =
     (case scan strtod s of (t1, s1) \<Rightarrow>
        if t1 = Tok_value_separator then
          (case scan strtod s1 of (t2, s2) \<Rightarrow>
             (case scan_key strtod t2 s2 of
                Inl e \<Rightarrow> Inl e
              | Inr (k', s3) \<Rightarrow>
                  (case scan strtod s3 of (t4, s4) \<Rightarrow>
                     parse_value strtod t4 s4 (Frame_object (map_put k v m) k' # fs))))
        else if t1 = Tok_end_object then value_done strtod (JObject (map_put k v m)) s1 fs
        else Inl (Parse_error 101))"
  by pat_completeness auto

termination
  by (relation "measure (\<lambda>x. case x of
      Inl (_, t, s, _) \<Rightarrow> 2 * (length s + token_weight t)
    | Inr (_, _, s, _) \<Rightarrow> 2 * length s + 1)")
    (auto dest!: scan_weight [OF sym] scan_key_length leaf_token_weight)

text \<open>\<open>basic_json::parse\<close>: one value, then only white space.\<close>

definition json_parse ::
  "(string \<Rightarrow> 'f option) \<Rightarrow> string \<Rightarrow> (json_error, 'f json) result" where
  "json_parse strtod input =
     (case scan_first strtod input of
        (t, s) \<Rightarrow>
          bind_result (parse_value strtod t s [])
            (\<lambda>(v, s1).
               if fst (scan strtod s1) = Tok_end_of_input then Inr v else Inl (Parse_error 101)))"

end
