(* ===== verification/Json_Dump.thy ===== *)
theory Json_Dump
  imports Json_Lexer
begin

text \<open>
  \<open>basic_json::dump()\<close> with its default arguments: \<open>class serializer\<close> without indentation, with
  \<open>ensure_ascii\<close> false and the strict error handler. The UTF-8 automaton is the table of the
  source. The text of a floating-point number comes from an argument.
\<close>

unbundle bit_operations_syntax

section \<open>The UTF-8 automaton\<close>

definition utf8d_rows :: "nat list" where
  "utf8d_rows =
     replicate 128 0 @
     replicate 16 1 @ replicate 16 9 @
     replicate 32 7 @
     [8, 8] @ replicate 30 2 @
     [10, 3, 3, 3, 3, 3, 3, 3, 3, 3, 3, 3, 3, 4, 3, 3] @
     [11, 6, 6, 6, 5, 8, 8, 8, 8, 8, 8, 8, 8, 8, 8, 8]"

definition utf8d_states :: "nat list" where
  "utf8d_states =
     [0, 1, 2, 3, 5, 8, 7, 1, 1, 1, 4, 6, 1, 1, 1, 1,
      1, 1, 1, 1, 1, 1, 1, 1, 1, 1, 1, 1, 1, 1, 1, 1, 1, 0, 1, 1, 1, 1, 1, 0, 1, 0, 1, 1, 1, 1, 1, 1,
      1, 2, 1, 1, 1, 1, 1, 2, 1, 2, 1, 1, 1, 1, 1, 1, 1, 1, 1, 1, 1, 1, 1, 2, 1, 1, 1, 1, 1, 1, 1, 1,
      1, 2, 1, 1, 1, 1, 1, 1, 1, 2, 1, 1, 1, 1, 1, 1, 1, 1, 1, 1, 1, 1, 1, 3, 1, 3, 1, 1, 1, 1, 1, 1,
      1, 3, 1, 1, 1, 1, 1, 3, 1, 3, 1, 1, 1, 1, 1, 1, 1, 3, 1, 1, 1, 1, 1, 1, 1, 1, 1, 1, 1, 1, 1, 1]"

text \<open>The source keeps both parts in one array and indexes the second with an offset of 256.\<close>

definition utf8d :: "nat list" where
  "utf8d = utf8d_rows @ utf8d_states"

definition decode_state :: "nat \<Rightarrow> nat \<Rightarrow> nat" where
  "decode_state state b = utf8d ! (256 + state * 16 + utf8d ! b)"

definition decode_codepoint :: "nat \<Rightarrow> nat \<Rightarrow> nat \<Rightarrow> nat" where
  "decode_codepoint state cp b =
     (if state \<noteq> 0 then b mod 64 + cp * 64 else (255 div 2 ^ (utf8d ! b)) AND b)"

section \<open>Escaping\<close>

definition hex_digit :: "nat \<Rightarrow> char" where
  "hex_digit d = (if d < 10 then chr (48 + d) else chr (87 + d))"

definition hex4 :: "nat \<Rightarrow> string" where
  "hex4 n = [hex_digit (n div 4096 mod 16), hex_digit (n div 256 mod 16),
             hex_digit (n div 16 mod 16), hex_digit (n mod 16)]"

text \<open>What an accepted code point writes; \<open>c\<close> is its last byte.\<close>

definition escape_accepted :: "nat \<Rightarrow> char \<Rightarrow> string" where
  "escape_accepted cp c =
     (if cp = 8 then [CHR 0x5C, CHR ''b'']
      else if cp = 9 then [CHR 0x5C, CHR ''t'']
      else if cp = 10 then [CHR 0x5C, CHR ''n'']
      else if cp = 12 then [CHR 0x5C, CHR ''f'']
      else if cp = 13 then [CHR 0x5C, CHR ''r'']
      else if cp = 34 then [CHR 0x5C, CHR 0x22]
      else if cp = 92 then [CHR 0x5C, CHR 0x5C]
      else if cp \<le> 31 then [CHR 0x5C, CHR ''u''] @ hex4 cp
      else [c])"

text \<open>
  The loop of \<open>dump_escaped\<close>. \<open>string_buffer\<close> and the output together are the text written so
  far; under the strict handler a rejected byte throws, so \<open>bytes_after_last_accept\<close> is unused.
\<close>

fun escape_loop :: "nat \<Rightarrow> nat \<Rightarrow> string \<Rightarrow> (json_error, string) result" where
  "escape_loop state cp [] = (if state = 0 then Inr [] else Inl (Type_error 316))"
| "escape_loop state cp (c # s) =
     (let cp' = decode_codepoint state cp (byte c); st' = decode_state state (byte c) in
      if st' = 1 then Inl (Type_error 316)
      else
        bind_result (escape_loop st' cp' s)
          (\<lambda>out. Inr ((if st' = 0 then escape_accepted cp' c else [c]) @ out)))"

definition dump_escaped :: "string \<Rightarrow> (json_error, string) result" where
  "dump_escaped s = escape_loop 0 0 s"

section \<open>Values\<close>

fun dump_bytes :: "nat list \<Rightarrow> string" where
  "dump_bytes [] = []"
| "dump_bytes [b] = nat_digits b"
| "dump_bytes (b # bs) = nat_digits b @ '','' @ dump_bytes bs"

fun dump :: "('f \<Rightarrow> string) \<Rightarrow> 'f json \<Rightarrow> (json_error, string) result"
and dump_members :: "('f \<Rightarrow> string) \<Rightarrow> (string \<times> 'f json) list \<Rightarrow> (json_error, string) result"
and dump_elements :: "('f \<Rightarrow> string) \<Rightarrow> 'f json list \<Rightarrow> (json_error, string) result"
where
  "dump ftoa (JObject m) =
     (if m = [] then Inr ''{}''
      else bind_result (dump_members ftoa m) (\<lambda>s. Inr (''{'' @ s @ ''}'')))"
| "dump ftoa (JArray vs) =
     (if vs = [] then Inr ''[]''
      else bind_result (dump_elements ftoa vs) (\<lambda>s. Inr (''['' @ s @ '']'')))"
| "dump ftoa (JString s) =
     bind_result (dump_escaped s) (\<lambda>e. Inr (CHR 0x22 # e @ [CHR 0x22]))"
| "dump ftoa (JBinary bs st) =
     Inr (''{'' @ CHR 0x22 # ''bytes'' @ CHR 0x22 # '':['' @ dump_bytes bs @ ''],''
       @ CHR 0x22 # ''subtype'' @ CHR 0x22 # '':''
       @ (case st of None \<Rightarrow> ''null'' | Some n \<Rightarrow> nat_digits n) @ ''}'')"
| "dump ftoa (JBoolean b) = Inr (if b then ''true'' else ''false'')"
| "dump ftoa (JInteger i) = Inr (std_to_string i)"
| "dump ftoa (JUnsigned n) = Inr (nat_digits n)"
| "dump ftoa (JFloat f) = Inr (ftoa f)"
| "dump ftoa JDiscarded = Inr ''<discarded>''"
| "dump ftoa JNull = Inr ''null''"
| "dump_members ftoa [] = Inr []"
| "dump_members ftoa ((k, v) # m) =
     bind_result (dump_escaped k) (\<lambda>ek.
       bind_result (dump ftoa v) (\<lambda>ev.
         let member = CHR 0x22 # ek @ CHR 0x22 # CHR '':'' # ev in
         if m = [] then Inr member
         else bind_result (dump_members ftoa m) (\<lambda>rest. Inr (member @ '','' @ rest))))"
| "dump_elements ftoa [] = Inr []"
| "dump_elements ftoa (v # vs) =
     bind_result (dump ftoa v) (\<lambda>ev.
       if vs = [] then Inr ev
       else bind_result (dump_elements ftoa vs) (\<lambda>rest. Inr (ev @ '','' @ rest)))"

end
