(* ===== verification/Json_Roundtrip.thy ===== *)
theory Json_Roundtrip
  imports Json_Parser Json_Dump
begin

text \<open>
  What \<open>dump\<close> writes, \<open>parse\<close> reads back. The serializer checks UTF-8 with a table-driven
  automaton and the lexer with ranges of bytes, written independently in the source; the first
  section proves that they agree, the second carries it through escaping and scanning of
  strings, the rest through numbers and values.
\<close>

section \<open>The automaton and the byte ranges agree\<close>

definition byte_class :: "nat \<Rightarrow> nat" where
  "byte_class b =
     (if b < 128 then 0 else if b < 144 then 1 else if b < 160 then 9 else if b < 192 then 7
      else if b < 194 then 8 else if b < 224 then 2 else if b = 224 then 10 else if b < 237 then 3
      else if b = 237 then 4 else if b < 240 then 3 else if b = 240 then 11 else if b < 244 then 6
      else if b = 244 then 5 else 8)"

lemma byte_less [simp]: "byte c < 256"
  by (simp add: byte_def)

lemma byte_chr [simp]: "n < 256 \<Longrightarrow> byte (chr n) = n"
  by (simp add: byte_def chr_def)

lemma chr_byte [simp]: "chr (byte c) = c"
  by (simp add: byte_def chr_def)

lemma byte_inject: "byte c = byte d \<longleftrightarrow> c = d"
  by (metis chr_byte)

lemma length_utf8d_rows: "length utf8d_rows = 256"
  by (simp add: utf8d_rows_def)

lemma utf8d_row:
  assumes "b < 256" shows "utf8d ! b = byte_class b"
proof -
  have "map ((!) utf8d_rows) [0..<256] = map byte_class [0..<256]"
    by code_simp
  with assms show ?thesis by (simp add: utf8d_def nth_append length_utf8d_rows)
qed

definition next_state :: "nat \<Rightarrow> nat \<Rightarrow> nat" where
  "next_state st cl =
     (if st = 0 then
        (if cl = 0 then 0 else if cl = 2 then 2 else if cl = 3 then 3 else if cl = 4 then 5
         else if cl = 5 then 8 else if cl = 6 then 7 else if cl = 10 then 4
         else if cl = 11 then 6 else 1)
      else if st = 2 then (if cl = 1 \<or> cl = 7 \<or> cl = 9 then 0 else 1)
      else if st = 3 then (if cl = 1 \<or> cl = 7 \<or> cl = 9 then 2 else 1)
      else if st = 4 then (if cl = 7 then 2 else 1)
      else if st = 5 then (if cl = 1 \<or> cl = 9 then 2 else 1)
      else if st = 6 then (if cl = 7 \<or> cl = 9 then 3 else 1)
      else if st = 7 then (if cl = 1 \<or> cl = 7 \<or> cl = 9 then 3 else 1)
      else if st = 8 then (if cl = 1 then 3 else 1)
      else 1)"

lemma byte_class_less: "byte_class b < 12"
  by (simp add: byte_class_def)

lemma utf8d_state:
  assumes "st < 9" and "cl < 12"
  shows "utf8d_states ! (st * 16 + cl) = next_state st cl"
proof -
  have "list_all (\<lambda>st. list_all (\<lambda>cl. utf8d_states ! (st * 16 + cl) = next_state st cl) [0..<12]) [0..<9]"
    by code_simp
  then have "\<forall>st \<in> {0..<9}. \<forall>cl \<in> {0..<12}. utf8d_states ! (st * 16 + cl) = next_state st cl"
    by (simp only: list_all_iff set_upt)
  with assms show ?thesis by simp
qed

lemma decode_state_class:
  assumes "b < 256" and "st < 9"
  shows "decode_state st b = next_state st (byte_class b)"
proof -
  have "decode_state st b = utf8d_states ! (st * 16 + byte_class b)"
    unfolding decode_state_def utf8d_row [OF assms(1)]
    by (simp add: utf8d_def nth_append length_utf8d_rows)
  then show ?thesis by (simp add: utf8d_state assms(2) byte_class_less)
qed

text \<open>The bytes each state of the automaton still expects.\<close>

definition state_ranges :: "nat \<Rightarrow> (nat \<times> nat) list" where
  "state_ranges n =
     (if n = 2 then [(128, 191)]
      else if n = 3 then [(128, 191), (128, 191)]
      else if n = 4 then [(160, 191), (128, 191)]
      else if n = 5 then [(128, 159), (128, 191)]
      else if n = 6 then [(144, 191), (128, 191), (128, 191)]
      else if n = 7 then [(128, 191), (128, 191), (128, 191)]
      else if n = 8 then [(128, 143), (128, 191), (128, 191)]
      else [])"

definition good_state :: "nat \<Rightarrow> bool" where
  "good_state st \<longleftrightarrow> 2 \<le> st \<and> st \<le> 8"

text \<open>
  The part of the code point a state has seen, bounded below: a complete sequence is then never
  one of the ASCII characters that are escaped.
\<close>

definition cp_ok :: "nat \<Rightarrow> nat \<Rightarrow> bool" where
  "cp_ok st cp \<longleftrightarrow> (st = 2 \<longrightarrow> 2 \<le> cp) \<and> (st = 3 \<or> st = 5 \<or> st = 7 \<or> st = 8 \<longrightarrow> 1 \<le> cp)"

definition lead_cp :: "nat \<Rightarrow> nat" where
  "lead_cp b = (if byte_class b \<le> 8 then b mod 2 ^ (8 - byte_class b) else 0)"

definition lead_ok :: "nat \<Rightarrow> bool" where
  "lead_ok b =
     (let st = next_state 0 (byte_class b) in
      if st = 1 then follow_ranges b = None
      else good_state st \<and> follow_ranges b = Some (state_ranges st) \<and> cp_ok st (lead_cp b))"

lemma shifted_mask:
  assumes "k < 12"
  shows "(255 div 2 ^ k) AND b = (if k \<le> 8 then b mod 2 ^ (8 - k) else (0 :: nat))"
proof -
  have "k \<in> {0, 1, 2, 3, 4, 5, 6, 7, 8, 9, 10, 11}" using assms by simp presburger
  then have "(255 :: nat) div 2 ^ k = (if k \<le> 8 then mask (8 - k) else 0)"
    by (auto simp: mask_eq_exp_minus_1)
  then show ?thesis by (simp add: take_bit_eq_mod and.commute flip: take_bit_eq_mask)
qed

lemma good_state_cases:
  assumes "good_state st"
  obtains "st = 2" | "st = 3" | "st = 4" | "st = 5" | "st = 6" | "st = 7" | "st = 8"
  using assms by (fastforce simp: good_state_def)

lemma state_ranges_inv:
  "good_state st \<Longrightarrow> state_ranges st = [(128, 191)] \<longleftrightarrow> st = 2"
  "good_state st \<Longrightarrow> state_ranges st = [(128, 191), (128, 191)] \<longleftrightarrow> st = 3"
  "good_state st \<Longrightarrow> state_ranges st \<noteq> []"
  by (auto elim!: good_state_cases simp: state_ranges_def)

definition follow_ok :: "nat \<Rightarrow> nat \<Rightarrow> bool" where
  "follow_ok st b =
     (let st' = next_state st (byte_class b) in
      case state_ranges st of
        [] \<Rightarrow> False
      | (lo, hi) # rs \<Rightarrow>
          if lo \<le> b \<and> b \<le> hi then state_ranges st' = rs \<and> (st' = 0 \<or> good_state st')
          else st' = 1)"

lemmas table_defs =
  byte_class_def next_state_def state_ranges_def good_state_def Let_def

lemma mod_sub: "q * m \<le> (b :: nat) \<Longrightarrow> b < q * m + m \<Longrightarrow> b mod m = b - q * m"
  by (rule mod_nat_eqI) auto

lemma lead_table:
  assumes "128 \<le> b" and "b < 256" shows "lead_ok b"
proof -
  have m: "194 \<le> b \<Longrightarrow> b < 224 \<Longrightarrow> 2 \<le> b mod 64" "225 \<le> b \<Longrightarrow> b < 240 \<Longrightarrow> 1 \<le> b mod 32"
    "241 \<le> b \<Longrightarrow> b < 244 \<Longrightarrow> 1 \<le> b mod 4"
    using mod_sub [of 3 64 b] mod_sub [of 7 32 b] mod_sub [of 60 4 b] by simp_all
  show ?thesis
    using assms m
    by (simp add: lead_ok_def lead_cp_def follow_ranges_def cp_ok_def table_defs)
qed

lemma follow_table:
  assumes "good_state st" and "b < 256" shows "follow_ok st b"
  using assms(1)
  by (cases rule: good_state_cases) (simp_all add: follow_ok_def table_defs)

lemma lead_state:
  assumes "128 \<le> b" and "b < 256" and "decode_state 0 b \<noteq> 1"
  shows "good_state (decode_state 0 b)"
    "follow_ranges b = Some (state_ranges (decode_state 0 b))"
    "cp_ok (decode_state 0 b) (decode_codepoint 0 cp b)"
  using lead_table [OF assms(1,2)] assms
  by (simp_all add: lead_ok_def lead_cp_def decode_state_class decode_codepoint_def utf8d_row
      Let_def shifted_mask byte_class_less)

lemma follow_state:
  assumes "good_state st" and "b < 256" and "decode_state st b \<noteq> 1" and "cp_ok st cp"
  obtains lo hi where "state_ranges st = (lo, hi) # state_ranges (decode_state st b)"
    "lo \<le> b" "b \<le> hi"
    "decode_state st b = 0 \<and> 128 \<le> decode_codepoint st cp b \<or>
     good_state (decode_state st b) \<and> cp_ok (decode_state st b) (decode_codepoint st cp b)"
proof -
  let ?st = "decode_state st b"
  have "st < 9" using assms(1) by (simp add: good_state_def)
  with assms(2) have d: "next_state st (byte_class b) = ?st" by (simp add: decode_state_class)
  from follow_table [OF assms(1,2)] assms(3) obtain lo hi where
    r: "state_ranges st = (lo, hi) # state_ranges ?st" "lo \<le> b" "b \<le> hi"
      "?st = 0 \<or> good_state ?st"
    by (auto simp: follow_ok_def d Let_def split: list.splits if_splits)
  have "st \<noteq> 0" using assms(1) by (simp add: good_state_def)
  then have cp: "decode_codepoint st cp b = b mod 64 + cp * 64"
    by (simp add: decode_codepoint_def)
  have mod: "16 \<le> b mod 64" if "144 \<le> b" "b \<le> 191" using that mod_sub [of 2 64 b] by simp
  have mod2: "32 \<le> b mod 64" if "160 \<le> b" "b \<le> 191" using that mod_sub [of 2 64 b] by simp
  have "?st = 0 \<and> 128 \<le> decode_codepoint st cp b \<or>
      good_state ?st \<and> cp_ok ?st (decode_codepoint st cp b)"
  proof (cases "?st = 0")
    case True
    with r(1) have "state_ranges st = [(lo, hi)]" by (simp add: state_ranges_def)
    with assms(1,4) True show ?thesis
      by (auto elim!: good_state_cases simp: state_ranges_def cp_ok_def cp)
  next
    case False
    with r(4) have g: "good_state ?st" by simp
    have to2: ?thesis if "state_ranges st = [(lo, hi), (128, 191)]" "2 \<le> b mod 64 + cp * 64"
    proof -
      from that(1) r(1) have "state_ranges ?st = [(128, 191)]" by simp
      with state_ranges_inv(1) [OF g] have "?st = 2" by simp
      with g that(2) show ?thesis by (simp add: cp_ok_def cp)
    qed
    have to3: ?thesis
      if "state_ranges st = [(lo, hi), (128, 191), (128, 191)]" "1 \<le> b mod 64 + cp * 64"
    proof -
      from that(1) r(1) have "state_ranges ?st = [(128, 191), (128, 191)]" by simp
      with state_ranges_inv(2) [OF g] have "?st = 3" by simp
      with g that(2) show ?thesis by (simp add: cp_ok_def cp)
    qed
    from assms(1) show ?thesis
    proof (cases rule: good_state_cases)
      case 1
      with r(1) have "state_ranges ?st = []" by (auto simp: state_ranges_def [of 2])
      with state_ranges_inv(3) [OF g] show ?thesis by simp
    next
      case 2
      with r(1) have s: "state_ranges st = (lo, hi) # [(128, 191)]"
        and b: "128 \<le> b" "b \<le> 191" using r(2,3) by (simp_all add: state_ranges_def)
      show ?thesis by (rule to2 [OF s]) (use 2 assms(4) mod [OF _ _] mod2 b in \<open>auto simp: cp_ok_def\<close>)
    next
      case 3
      with r(1) have s: "state_ranges st = (lo, hi) # [(128, 191)]"
        and b: "160 \<le> b" "b \<le> 191" using r(2,3) by (simp_all add: state_ranges_def)
      show ?thesis by (rule to2 [OF s]) (use 3 assms(4) mod [OF _ _] mod2 b in \<open>auto simp: cp_ok_def\<close>)
    next
      case 4
      with r(1) have s: "state_ranges st = (lo, hi) # [(128, 191)]"
        and b: "128 \<le> b" "b \<le> 159" using r(2,3) by (simp_all add: state_ranges_def)
      show ?thesis by (rule to2 [OF s]) (use 4 assms(4) mod [OF _ _] mod2 b in \<open>auto simp: cp_ok_def\<close>)
    next
      case 5
      with r(1) have s: "state_ranges st = (lo, hi) # [(128, 191), (128, 191)]"
        and b: "144 \<le> b" "b \<le> 191" using r(2,3) by (simp_all add: state_ranges_def)
      show ?thesis by (rule to3 [OF s]) (use 5 assms(4) mod [OF _ _] mod2 b in \<open>auto simp: cp_ok_def\<close>)
    next
      case 6
      with r(1) have s: "state_ranges st = (lo, hi) # [(128, 191), (128, 191)]"
        and b: "128 \<le> b" "b \<le> 191" using r(2,3) by (simp_all add: state_ranges_def)
      show ?thesis by (rule to3 [OF s]) (use 6 assms(4) mod [OF _ _] mod2 b in \<open>auto simp: cp_ok_def\<close>)
    next
      case 7
      with r(1) have s: "state_ranges st = (lo, hi) # [(128, 191), (128, 191)]"
        and b: "128 \<le> b" "b \<le> 143" using r(2,3) by (simp_all add: state_ranges_def)
      show ?thesis by (rule to3 [OF s]) (use 7 assms(4) mod [OF _ _] mod2 b in \<open>auto simp: cp_ok_def\<close>)
    qed
  qed
  with r that show thesis by blast
qed

lemma ascii_state:
  assumes "b < 128"
  shows "decode_state 0 b = 0" "decode_codepoint 0 cp b = b"
proof -
  show "decode_state 0 b = 0"
    using assms by (simp add: decode_state_class byte_class_def next_state_def)
  have "255 AND b = b AND mask 8" by (simp add: and.commute mask_eq_exp_minus_1)
  also have "\<dots> = b" using assms by (simp add: take_bit_nat_eq_self flip: take_bit_eq_mask)
  finally show "decode_codepoint 0 cp b = b"
    using assms by (simp add: decode_codepoint_def utf8d_row byte_class_def)
qed

section \<open>Strings\<close>

text \<open>
  The bytes of a multi-byte sequence are copied one by one, and read back by
  \<open>next_byte_in_range\<close> in one go.
\<close>

lemma escape_accepted_high: "128 \<le> cp \<Longrightarrow> escape_accepted cp c = [c]"
  by (simp add: escape_accepted_def)

lemma escape_follow:
  assumes "good_state st" and "cp_ok st cp" and "escape_loop st cp s = Inr e"
  shows "\<exists>cs s' e' cp'. s = cs @ s' \<and> e = cs @ e' \<and> escape_loop 0 cp' s' = Inr e' \<and>
    length s' < length s \<and>
    (\<forall>r. next_byte_in_range (state_ranges st) (cs @ r) = Some (cs, r))"
  using assms
proof (induction s arbitrary: st cp e)
  case Nil
  then show ?case by (simp add: good_state_def)
next
  case (Cons c s)
  let ?st = "decode_state st (byte c)" and ?cp = "decode_codepoint st cp (byte c)"
  from Cons.prems(3) have ne: "?st \<noteq> 1" by (auto simp: Let_def)
  from Cons.prems(1) byte_less ne Cons.prems(2) obtain lo hi where
    r: "state_ranges st = (lo, hi) # state_ranges ?st" "lo \<le> byte c" "byte c \<le> hi" and
    next_st: "?st = 0 \<and> 128 \<le> ?cp \<or> good_state ?st \<and> cp_ok ?st ?cp"
    by (rule follow_state)
  from Cons.prems(3) ne obtain e1 where e1: "escape_loop ?st ?cp s = Inr e1"
    and e: "e = (if ?st = 0 then escape_accepted ?cp c else [c]) @ e1"
    by (auto simp: Let_def bind_result_Inr_iff)
  from next_st show ?case
  proof
    assume "?st = 0 \<and> 128 \<le> ?cp"
    with r e e1 show ?thesis
      by (rule_tac x = "[c]" in exI, rule_tac x = s in exI, rule_tac x = e1 in exI,
          rule_tac x = ?cp in exI) (simp add: escape_accepted_high state_ranges_def [of 0])
  next
    assume st: "good_state ?st \<and> cp_ok ?st ?cp"
    then have "?st \<noteq> 0" by (auto simp: good_state_def)
    from Cons.IH [OF conjunct1 [OF st] conjunct2 [OF st] e1] obtain cs s' e' cp' where
      "s = cs @ s'" "e1 = cs @ e'" "escape_loop 0 cp' s' = Inr e'" "length s' < length s"
      "\<forall>r. next_byte_in_range (state_ranges ?st) (cs @ r) = Some (cs, r)"
      by blast
    with r e \<open>?st \<noteq> 0\<close> show ?thesis
      by (intro exI [of _ "c # cs"] exI [of _ s'] exI [of _ e'] exI [of _ cp'])
        (simp)
  qed
qed

lemma escape_loop_cp: "escape_loop 0 cp s = escape_loop 0 cp' s"
  by (cases s) (simp_all add: decode_codepoint_def)

text \<open>An escaped ASCII character is read back as itself.\<close>

lemma hex_value_digit: "d < 16 \<Longrightarrow> hex_value (hex_digit d) = Some d"
  by (auto simp: hex_value_def hex_digit_def Let_def)

lemma get_codepoint_hex4: "n < 65536 \<Longrightarrow> get_codepoint (hex4 n @ r) = Some (n, r)"
proof -
  assume "n < 65536"
  moreover have "n div 4096 * 4096 + n div 256 mod 16 * 256 + n div 16 mod 16 * 16 + n mod 16 = n"
  proof -
    have "n div 256 = n div 16 div 16" "n div 4096 = n div 256 div 16"
      by (simp_all flip: div_mult2_eq)
    then show ?thesis
      using div_mult_mod_eq [of n 16] div_mult_mod_eq [of "n div 16" 16]
        div_mult_mod_eq [of "n div 256" 16] by linarith
  qed
  ultimately show ?thesis by (simp add: hex4_def hex_value_digit)
qed

lemma char_of_34: "chr 34 = CHR 0x22" and char_of_92: "chr 92 = CHR 0x5C"
  by (simp_all flip: byte_inject) (simp_all add: byte_def)

lemma byte_literals:
  "byte (CHR 0x22) = 34" "byte (CHR 0x5C) = 92" "byte (CHR ''b'') = 98" "byte (CHR ''f'') = 102"
  "byte (CHR ''n'') = 110" "byte (CHR ''r'') = 114" "byte (CHR ''t'') = 116"
  "byte (CHR ''u'') = 117"
  by (simp_all add: byte_def)

lemma scan_escaped_ascii:
  assumes "byte c < 128"
  shows "scan_string acc (escape_accepted (byte c) c @ r) = scan_string (acc @ [c]) r"
proof -
  have b: "byte c = n \<Longrightarrow> c = chr n" for n by auto
  show ?thesis
  proof (cases "byte c \<in> {8, 9, 10, 12, 13, 34, 92}")
    case True
    then have "c \<in> {chr 8, chr 9, chr 10, chr 12, chr 13, chr 34, chr 92}"
      using b by blast
    then show ?thesis
      by (auto simp: escape_accepted_def simple_escape_def char_of_34 char_of_92 byte_literals)
  next
    case False
    show ?thesis
    proof (cases "byte c \<le> 31")
      case True
      with False have "scan_unicode (hex4 (byte c) @ r) = Some ([c], r)"
        by (simp add: scan_unicode_def get_codepoint_hex4 utf8_bytes_def)
      with True False show ?thesis
        by (simp add: escape_accepted_def simple_escape_def byte_literals)
    next
      case hi: False
      with False assms show ?thesis by (simp add: escape_accepted_def follow_ranges_def)
    qed
  qed
qed

lemma scan_escaped:
  assumes "escape_loop 0 cp s = Inr e"
  shows "scan_string acc (e @ CHR 0x22 # r) = (Tok_string (acc @ s), r)"
  using assms
proof (induction "length s" arbitrary: s cp e acc rule: less_induct)
  case less
  show ?case
  proof (cases s)
    case Nil
    with less.prems show ?thesis by (auto simp: byte_def)
  next
    case (Cons c s1)
    let ?st = "decode_state 0 (byte c)" and ?cp = "decode_codepoint 0 cp (byte c)"
    from less.prems Cons have ne: "?st \<noteq> 1" by (auto simp: Let_def)
    from less.prems Cons ne obtain e1 where e1: "escape_loop ?st ?cp s1 = Inr e1"
      and e: "e = (if ?st = 0 then escape_accepted ?cp c else [c]) @ e1"
      by (auto simp: Let_def bind_result_Inr_iff)
    show ?thesis
    proof (cases "byte c < 128")
      case True
      with e have "e = escape_accepted (byte c) c @ e1" by (simp add: ascii_state)
      moreover note less.hyps [of s1 ?cp e1 "acc @ [c]"]
      ultimately show ?thesis using True Cons e1 by (simp add: scan_escaped_ascii ascii_state)
    next
      case False
      then have hi: "128 \<le> byte c" by simp
      note lead = lead_state [OF hi byte_less ne]
      from lead(1) have "?st \<noteq> 0" by (auto simp: good_state_def)
      from escape_follow [OF lead(1) lead(3) e1] obtain cs s' e' cp' where
        f: "s1 = cs @ s'" "e1 = cs @ e'" "escape_loop 0 cp' s' = Inr e'" "length s' < length s1"
        "\<forall>r. next_byte_in_range (state_ranges ?st) (cs @ r) = Some (cs, r)"
        by blast
      from less.hyps [OF _ f(3), of "acc @ c # cs"] f e \<open>?st \<noteq> 0\<close> hi lead(2) Cons show ?thesis
        by (simp)
    qed
  qed
qed

section \<open>Numbers\<close>

text \<open>What may follow a value in a dumped text.\<close>

definition delim :: "string \<Rightarrow> bool" where
  "delim r \<longleftrightarrow> r = [] \<or> hd r = CHR '','' \<or> hd r = CHR '']'' \<or> hd r = CHR ''}''
    \<or> hd r = CHR 0x0A"

lemma delim_simps [simp]:
  "delim []" "delim (CHR '','' # r)" "delim (CHR '']'' # r)" "delim (CHR ''}'' # r)"
  "delim (CHR 0x0A # r)"
  by (simp_all add: delim_def)

lemma nat_digits_digit: "c \<in> set (nat_digits n) \<Longrightarrow> is_digit c"
  using nat_digits_chars by (auto simp: is_digit_def byte_def)

lemma nat_digits_head:
  "n < 10 \<and> nat_digits n = [digit_char n] \<or>
   (\<exists>c cs. nat_digits n = c # cs \<and> c \<noteq> CHR ''0'' \<and> is_digit c \<and> (\<forall>d \<in> set cs. is_digit d))"
proof (induction n rule: nat_digits.induct)
  case (1 n)
  show ?case
  proof (cases "n < 10")
    case True
    then show ?thesis by (simp add: nat_digits.simps [of n])
  next
    case False
    then have d: "nat_digits n = nat_digits (n div 10) @ [digit_char (n mod 10)]"
      by (simp add: nat_digits.simps [of n])
    have last: "is_digit (digit_char (n mod 10))"
      using nat_digits_digit [of "digit_char (n mod 10)" n] d by simp
    have "digit_char (n div 10) \<noteq> CHR ''0''" if "n div 10 < 10"
    proof
      assume "digit_char (n div 10) = CHR ''0''"
      then have "(of_char (digit_char (n div 10)) :: nat) = of_char (CHR ''0'')" by simp
      with that False show False by (simp add: digit_char_def)
    qed
    moreover have "is_digit (digit_char (n div 10))" if "n div 10 < 10"
      using nat_digits_digit [of "digit_char (n div 10)" "n div 10"] that
      by (simp add: nat_digits.simps [of "n div 10"])
    ultimately show ?thesis using 1 [OF False] d last by auto
  qed
qed

lemma delim_number:
  "delim r \<Longrightarrow> st = N_any1 \<or> st = N_zero \<Longrightarrow>
    number_loop strtod st t buf r = (number_done strtod t buf, r)"
  by (cases r) (auto simp: delim_def is_exp_def is_digit_def byte_def)

lemma number_loop_digits:
  "\<forall>d \<in> set ds. is_digit d \<Longrightarrow> delim r \<Longrightarrow>
    number_loop strtod N_any1 t buf (ds @ r) = (number_done strtod t (buf @ ds), r)"
  by (induction ds arbitrary: buf) (simp_all add: delim_number)

lemma is_digit_0: "is_digit (CHR ''0'')"
  by (simp add: is_digit_def byte_def)

text \<open>The digits of a number, entered after the sign or at once.\<close>

lemma number_loop_nat_digits:
  assumes "delim r" and "nat_digits n = c # cs"
  shows "number_loop strtod (if c = CHR ''0'' then N_zero else N_any1) t (buf @ [c]) (cs @ r) =
    (number_done strtod t (buf @ nat_digits n), r)"
proof -
  from nat_digits_head [of n] assms(2)
  have "cs = [] \<or> c \<noteq> CHR ''0'' \<and> (\<forall>d \<in> set cs. is_digit d)" by auto
  with assms show ?thesis
    by (auto simp: delim_number number_loop_digits)
qed

lemma first_digit:
  assumes "nat_digits n = c # cs" shows "is_digit c" "48 \<le> byte c" "byte c \<le> 57"
  using nat_digits_digit [of c n] assms by (simp_all add: is_digit_def)

lemma digit_not_punct:
  assumes "is_digit c"
  shows "c \<noteq> CHR ''-''" "c \<noteq> CHR ''[''" "c \<noteq> CHR '']''" "c \<noteq> CHR ''{''" "c \<noteq> CHR ''}''"
    "c \<noteq> CHR '':''" "c \<noteq> CHR '',''" "c \<noteq> CHR ''t''" "c \<noteq> CHR ''f''" "c \<noteq> CHR ''n''"
    "c \<noteq> CHR '' ''"
  using assms by (auto simp: is_digit_def byte_def)

lemma scan_unsigned:
  assumes "delim r" and "n < 2 ^ 64"
  shows "scan strtod (nat_digits n @ r) = (Tok_unsigned n, r)"
proof -
  obtain c cs where c: "nat_digits n = c # cs" by (cases "nat_digits n") auto
  note d = first_digit [OF c]
  have "scan_number strtod c (cs @ r) = (number_done strtod Nt_unsigned (nat_digits n), r)"
    using number_loop_nat_digits [OF assms(1) c, of strtod Nt_unsigned "[]"] c d(1)
    by (simp add: scan_number_def digit_not_punct split: if_splits)
  also have "\<dots> = (Tok_unsigned n, r)" using assms(2) by (simp add: number_done_def)
  finally show ?thesis
    using c d by (simp add: scan_def skip_whitespace_def digit_not_punct)
qed

lemma scan_negative:
  assumes "delim r" and "i < 0" and "- (2 ^ 63) \<le> i"
  shows "scan strtod (std_to_string i @ r) = (Tok_integer i, r)"
proof -
  obtain c cs where c: "nat_digits (nat (- i)) = c # cs" by (cases "nat_digits (nat (- i))") auto
  note d = first_digit [OF c]
  have "scan_number strtod (CHR ''-'') (c # cs @ r) =
      (number_done strtod Nt_integer (CHR ''-'' # nat_digits (nat (- i))), r)"
    using number_loop_nat_digits [OF assms(1) c, of strtod Nt_integer "''-''"] c d(1)
    by (auto simp add: scan_number_def split: if_splits)
  also have "\<dots> = (Tok_integer i, r)" using assms(2,3) by (simp add: number_done_def)
  finally show ?thesis
    using c assms(2) by (simp add: scan_def skip_whitespace_def std_to_string_def byte_def)
qed

section \<open>Values\<close>

text \<open>
  The values that text can represent: no floating-point number (its text is the C library's),
  no binary value, and a number in the type the lexer would choose for it.
\<close>

fun storable :: "'f json \<Rightarrow> bool" where
  "storable (JObject m) \<longleftrightarrow> map_ok m \<and> (\<forall>(k, v) \<in> set m. storable v)"
| "storable (JArray vs) \<longleftrightarrow> (\<forall>v \<in> set vs. storable v)"
| "storable (JInteger i) \<longleftrightarrow> i < 0 \<and> - (2 ^ 63) \<le> i"
| "storable (JUnsigned n) \<longleftrightarrow> n < 2 ^ 64"
| "storable JNull \<longleftrightarrow> True"
| "storable (JString s) \<longleftrightarrow> True"
| "storable (JBoolean b) \<longleftrightarrow> True"
| "storable _ \<longleftrightarrow> False"

text \<open>The same with those floating-point numbers whose text is read back.\<close>

fun storable_with :: "('f \<Rightarrow> bool) \<Rightarrow> 'f json \<Rightarrow> bool" where
  "storable_with P (JObject m) \<longleftrightarrow> map_ok m \<and> (\<forall>(k, v) \<in> set m. storable_with P v)"
| "storable_with P (JArray vs) \<longleftrightarrow> (\<forall>v \<in> set vs. storable_with P v)"
| "storable_with P (JFloat f) \<longleftrightarrow> P f"
| "storable_with P j \<longleftrightarrow> storable j"

text \<open>The parser at the start of a value and at the start of a member.\<close>

definition read_value ::
  "(string \<Rightarrow> 'f option) \<Rightarrow> string \<Rightarrow> 'f frame list \<Rightarrow> (json_error, 'f json \<times> string) result"
  where
  "read_value strtod s fs = (case scan strtod s of (t, s1) \<Rightarrow> parse_value strtod t s1 fs)"

definition read_member ::
  "(string \<Rightarrow> 'f option) \<Rightarrow> string \<Rightarrow> (string \<times> 'f json) list \<Rightarrow> 'f frame list \<Rightarrow>
    (json_error, 'f json \<times> string) result"
  where
  "read_member strtod s m fs =
     (case scan strtod s of (t1, s1) \<Rightarrow>
       (case scan_key strtod t1 s1 of
          Inl e \<Rightarrow> Inl e
        | Inr (k, s2) \<Rightarrow> read_value strtod s2 (Frame_object m k # fs)))"

lemma scan_punct [simp]:
  "scan strtod (CHR ''['' # s) = (Tok_begin_array, s)"
  "scan strtod (CHR '']'' # s) = (Tok_end_array, s)"
  "scan strtod (CHR ''{'' # s) = (Tok_begin_object, s)"
  "scan strtod (CHR ''}'' # s) = (Tok_end_object, s)"
  "scan strtod (CHR '':'' # s) = (Tok_name_separator, s)"
  "scan strtod (CHR '','' # s) = (Tok_value_separator, s)"
  by (simp_all add: scan_def skip_whitespace_def byte_def)

lemma scan_empty [simp]: "scan strtod [] = (Tok_end_of_input, [])"
  by (simp add: scan_def skip_whitespace_def)

lemma scan_quote: "scan strtod (CHR 0x22 # s) = scan_string [] s"
  by (simp add: scan_def skip_whitespace_def byte_def)

lemma scan_words [simp]:
  "scan strtod (CHR ''t'' # CHR ''r'' # CHR ''u'' # CHR ''e'' # s) = (Tok_true, s)"
  "scan strtod (CHR ''f'' # CHR ''a'' # CHR ''l'' # CHR ''s'' # CHR ''e'' # s) = (Tok_false, s)"
  "scan strtod (CHR ''n'' # CHR ''u'' # CHR ''l'' # CHR ''l'' # s) = (Tok_null, s)"
  by (simp_all add: scan_def skip_whitespace_def byte_def)

lemma scan_dumped_string:
  "dump_escaped a = Inr e \<Longrightarrow> scan strtod (CHR 0x22 # e @ CHR 0x22 # r) = (Tok_string a, r)"
  using scan_escaped [of 0 a e "[]" r] by (simp add: scan_quote dump_escaped_def)

lemma read_begin_object:
  "fst (scan strtod s) \<noteq> Tok_end_object \<Longrightarrow>
    parse_value strtod Tok_begin_object s fs = read_member strtod s [] fs"
  by (cases "scan strtod s") (auto simp: read_member_def read_value_def split: prod.split sum.split)

lemma read_begin_array:
  "fst (scan strtod s) \<noteq> Tok_end_array \<Longrightarrow>
    parse_value strtod Tok_begin_array s fs = read_value strtod s (Frame_array [] # fs)"
  by (cases "scan strtod s") (simp add: read_value_def)

lemma value_done_comma [simp]:
  "value_done strtod v (CHR '','' # s) (Frame_array vs # fs) =
    read_value strtod s (Frame_array (vs @ [v]) # fs)"
  "value_done strtod v (CHR '','' # s) (Frame_object m k # fs) =
    read_member strtod s (map_put k v m) fs"
  by (simp_all add: read_value_def read_member_def split: prod.split sum.split)

lemma value_done_close [simp]:
  "value_done strtod v (CHR '']'' # s) (Frame_array vs # fs) =
    value_done strtod (JArray (vs @ [v])) s fs"
  "value_done strtod v (CHR ''}'' # s) (Frame_object m k # fs) =
    value_done strtod (JObject (map_put k v m)) s fs"
  by simp_all

lemma read_leaf:
  "scan strtod s = (t, r) \<Longrightarrow> leaf_value t = Inr v \<Longrightarrow> read_value strtod s fs = value_done strtod v r fs"
  by (cases t rule: leaf_value.cases) (simp_all add: read_value_def)

text \<open>
  A dumped value is read as that value, whatever may follow it; it starts with neither a
  closing bracket nor a byte-order mark.
\<close>

definition value_reads :: "(string \<Rightarrow> 'f option) \<Rightarrow> 'f json \<Rightarrow> string \<Rightarrow> bool" where
  "value_reads strtod v s \<longleftrightarrow>
     (\<forall>r fs. delim r \<longrightarrow>
        read_value strtod (s @ r) fs = value_done strtod v r fs \<and>
        fst (scan strtod (s @ r)) \<noteq> Tok_end_array) \<and> s \<noteq> [] \<and> byte (hd s) < 128"

lemma value_readsI:
  assumes "\<And>r. delim r \<Longrightarrow> scan strtod (s @ r) = (t, r)" and "leaf_value t = Inr v"
    and "s \<noteq> []" and "byte (hd s) < 128"
  shows "value_reads strtod v s"
  using assms read_leaf [OF assms(1) assms(2)] by (auto simp: value_reads_def)

lemma value_readsD:
  "value_reads strtod v s \<Longrightarrow> delim r \<Longrightarrow> read_value strtod (s @ r) fs = value_done strtod v r fs"
  "value_reads strtod v s \<Longrightarrow> delim r \<Longrightarrow> fst (scan strtod (s @ r)) \<noteq> Tok_end_array"
  by (simp_all add: value_reads_def)

lemma member_reads:
  assumes "dump_escaped k = Inr ek" and "value_reads strtod v ev" and "delim r"
  shows "read_member strtod (CHR 0x22 # ek @ CHR 0x22 # CHR '':'' # ev @ r) m fs =
    value_done strtod v r (Frame_object m k # fs)"
  using assms by (simp add: read_member_def scan_dumped_string scan_key_def value_readsD)

lemma nat_digits_hd: "byte (hd (nat_digits n)) < 128"
  using first_digit [of n] by (cases "nat_digits n") auto

lemma map_put_snoc:
  "map_ok (m0 @ (k, v) # m) \<Longrightarrow> map_put k v m0 = m0 @ [(k, v)]"
  by (rule map_put_last) (auto simp: sorted_wrt_append)

definition floats_read :: "(string \<Rightarrow> 'f option) \<Rightarrow> ('f \<Rightarrow> string) \<Rightarrow> ('f \<Rightarrow> bool) \<Rightarrow> bool" where
  "floats_read strtod ftoa P \<longleftrightarrow> (\<forall>f. P f \<longrightarrow> value_reads strtod (JFloat f) (ftoa f))"

lemma dump_reads:
  "dump ftoa j = Inr s \<Longrightarrow> storable_with P j \<Longrightarrow> floats_read strtod ftoa P \<Longrightarrow> value_reads strtod j s"
  "dump_members ftoa m = Inr s \<Longrightarrow> \<forall>(k, v) \<in> set m. storable_with P v \<Longrightarrow> m \<noteq> [] \<Longrightarrow>
    map_ok (m0 @ m) \<Longrightarrow> floats_read strtod ftoa P \<Longrightarrow>
    read_member strtod (s @ CHR ''}'' # r) m0 fs = value_done strtod (JObject (m0 @ m)) r fs \<and>
    fst (scan strtod (s @ CHR ''}'' # r)) \<noteq> Tok_end_object"
  "dump_elements ftoa vs = Inr s \<Longrightarrow> \<forall>v \<in> set vs. storable_with P v \<Longrightarrow> vs \<noteq> [] \<Longrightarrow>
    floats_read strtod ftoa P \<Longrightarrow>
    read_value strtod (s @ CHR '']'' # r) (Frame_array vs0 # fs) =
      value_done strtod (JArray (vs0 @ vs)) r fs \<and>
    fst (scan strtod (s @ CHR '']'' # r)) \<noteq> Tok_end_array"
proof (induction ftoa j and ftoa m and ftoa vs arbitrary: s and s m0 r fs and s vs0 r fs
    rule: dump_dump_members_dump_elements.induct)
  case (1 ftoa m)
  show ?case
  proof (cases "m = []")
    case True
    with 1 show ?thesis
      by (auto simp: value_reads_def read_value_def byte_def)
  next
    case False
    with 1 obtain e where e: "dump_members ftoa m = Inr e" "s = ''{'' @ e @ ''}''"
      by (auto simp: bind_result_Inr_iff)
    from 1(1) [OF False e(1) _ False _ 1(4), of "[]"] 1(3) e(2) show ?thesis
      by (auto simp: value_reads_def read_value_def [of _ "_ # _"] byte_def read_begin_object
          simp del: parse_value.simps(1))
  qed
next
  case (2 ftoa vs)
  show ?case
  proof (cases "vs = []")
    case True
    with 2 show ?thesis
      by (auto simp: value_reads_def read_value_def byte_def)
  next
    case False
    with 2 obtain e where e: "dump_elements ftoa vs = Inr e" "s = ''['' @ e @ '']''"
      by (auto simp: bind_result_Inr_iff)
    from 2(1) [OF False e(1) _ False 2(4), of _ "[]"] 2(3) e(2) show ?thesis
      by (auto simp: value_reads_def read_value_def [of _ "_ # _"] byte_def read_begin_array
          simp del: parse_value.simps(2))
  qed
next
  case (3 ftoa a)
  then show ?case
    by (auto simp: bind_result_Inr_iff byte_def scan_dumped_string
        intro!: value_readsI [where t = "Tok_string a"])
next
  case (5 ftoa b)
  then show ?case
    by (cases b) (auto simp: byte_def intro!: value_readsI [where t = "if b then Tok_true else Tok_false"])
next
  case (6 ftoa i)
  then have "byte (hd s) < 128" "s \<noteq> []" by (auto simp: std_to_string_def byte_def)
  with 6 show ?case
    by (auto simp: scan_negative intro!: value_readsI [where t = "Tok_integer i"])
next
  case (7 ftoa n)
  then show ?case
    by (auto simp: scan_unsigned nat_digits_hd intro!: value_readsI [where t = "Tok_unsigned n"])
next
  case (10 ftoa)
  then show ?case
    by (auto simp: byte_def intro!: value_readsI [where t = "Tok_null"])
next
  case (12 ftoa k v m)
  from 12(3) obtain ek ev where e: "dump_escaped k = Inr ek" "dump ftoa v = Inr ev"
    by (auto simp: bind_result_Inr_iff)
  from 12(1) [OF e(2) _ 12(7)] 12(4) e have v: "value_reads strtod v ev" by auto
  have put: "map_put k v m0 = m0 @ [(k, v)]" using 12(6) by (rule map_put_snoc)
  show ?case
  proof (cases "m = []")
    case True
    with 12(3) e have "s = CHR 0x22 # ek @ CHR 0x22 # CHR '':'' # ev" by simp
    with True e v put show ?thesis
      by (simp add: member_reads scan_dumped_string del: value_done.simps(3))
  next
    case False
    with 12(3) e obtain em where em: "dump_members ftoa m = Inr em"
      "s = CHR 0x22 # ek @ CHR 0x22 # CHR '':'' # ev @ '','' @ em"
      by (auto simp: bind_result_Inr_iff)
    with 12(2) [OF refl False em(1) _ False _ 12(7), of "m0 @ [(k, v)]"] 12(4,6) em(2) e v put show ?thesis
      by (simp add: member_reads scan_dumped_string del: value_done.simps(3))
  qed
next
  case (14 ftoa v vs)
  from 14(3) obtain ev where e: "dump ftoa v = Inr ev" by (auto simp: bind_result_Inr_iff)
  from 14(1) [OF e _ 14(6)] 14(4) have v: "value_reads strtod v ev" by auto
  show ?case
  proof (cases "vs = []")
    case True
    with 14 e v show ?thesis by (simp add: value_readsD del: value_done.simps(2))
  next
    case False
    with 14(3) e obtain es where es: "dump_elements ftoa vs = Inr es" "s = ev @ '','' @ es"
      by (auto simp: bind_result_Inr_iff)
    with 14(2) [OF False es(1) _ False 14(6), of _ "vs0 @ [v]"] 14(4) v show ?thesis
      by (simp add: value_readsD del: value_done.simps(2))
  qed
qed (simp_all add: floats_read_def)

lemma json_parse_reads:
  assumes "value_reads strtod j s"
  shows "json_parse strtod s = Inr j"
proof -
  from assms obtain c s1 where c: "s = c # s1" "byte c < 128" by (cases s) (auto simp: value_reads_def)
  then have "scan_first strtod s = scan strtod s"
    by (simp add: scan_first_def skip_bom_def)
  moreover have "read_value strtod s [] = Inr (j, [])"
    using value_readsD(1) [OF assms, of "[]"] by simp
  ultimately show ?thesis
    by (simp add: json_parse_def read_value_def split: prod.splits)
qed

lemma storable_any: "storable j \<Longrightarrow> storable_with P j"
  by (induction j rule: storable.induct) fastforce+

lemma json_parse_dump_with:
  assumes "dump ftoa j = Inr s" and "storable_with P j" and "floats_read strtod ftoa P"
  shows "json_parse strtod s = Inr j"
  using dump_reads(1) [OF assms] by (rule json_parse_reads)

lemma json_parse_dump:
  assumes "dump ftoa j = Inr s" and "storable j"
  shows "json_parse strtod s = Inr j"
  using json_parse_dump_with [OF assms(1) storable_any [OF assms(2)], where P = "\<lambda>_. False" and strtod = strtod]
  by (simp add: floats_read_def)

end
