(* ===== verification/Json_Utf8.thy ===== *)
theory Json_Utf8
  imports Json_Roundtrip
begin

text \<open>
  Which values can be printed: those whose strings are well-formed UTF-8, stated with the byte
  ranges of the Unicode standard and independently of the serializer's table. What the parser
  accepts is always of that kind, so a parsed value can be printed and read again.
\<close>

section \<open>Well-formed UTF-8\<close>

function (sequential) utf8_ok :: "string \<Rightarrow> bool" where
  "utf8_ok [] = True"
| "utf8_ok (c # s) =
     (if byte c < 128 then utf8_ok s
      else
        (case follow_ranges (byte c) of
           None \<Rightarrow> False
         | Some rs \<Rightarrow>
             (case next_byte_in_range rs s of None \<Rightarrow> False | Some (cs, s') \<Rightarrow> utf8_ok s')))"
  by pat_completeness auto
termination
  by (relation "measure length") (auto dest: next_byte_in_range_length)

abbreviation escapes :: "nat \<Rightarrow> nat \<Rightarrow> string \<Rightarrow> bool" where
  "escapes st cp s \<equiv> \<exists>e. escape_loop st cp s = Inr e"

lemma escapes_Cons:
  "escapes st cp (c # s) \<longleftrightarrow>
     decode_state st (byte c) \<noteq> 1 \<and>
     escapes (decode_state st (byte c)) (decode_codepoint st cp (byte c)) s"
  by (auto simp: Let_def bind_result_Inr_iff)

lemma escapes_0: "escapes 0 cp s = escapes 0 0 s"
  using escape_loop_cp [of cp s 0] by simp

lemma escapes_follow:
  assumes "good_state st"
  shows "escapes st cp s \<longleftrightarrow>
    (case next_byte_in_range (state_ranges st) s of
       None \<Rightarrow> False | Some (cs, s') \<Rightarrow> escapes 0 0 s')"
  using assms
proof (induction s arbitrary: st cp)
  case Nil
  then have "state_ranges st \<noteq> []" by (rule state_ranges_inv)
  with Nil show ?case by (cases "state_ranges st") (auto simp: good_state_def)
next
  case (Cons c s)
  let ?st = "decode_state st (byte c)"
  have "st < 9" using Cons.prems by (simp add: good_state_def)
  then have d: "next_state st (byte_class (byte c)) = ?st" by (simp add: decode_state_class)
  from state_ranges_inv(3) [OF Cons.prems] obtain lo hi rs where
    r: "state_ranges st = (lo, hi) # rs" by (cases "state_ranges st") auto
  have ok: "if lo \<le> byte c \<and> byte c \<le> hi then state_ranges ?st = rs \<and> (?st = 0 \<or> good_state ?st)
      else ?st = 1"
    using follow_table [OF Cons.prems byte_less [of c]] r d by (simp add: follow_ok_def Let_def)
  show ?case
  proof (cases "lo \<le> byte c \<and> byte c \<le> hi")
    case True
    with ok have st: "?st = 0 \<or> good_state ?st" "?st \<noteq> 1" and rs: "state_ranges ?st = rs"
      by (auto simp: good_state_def)
    have "escapes ?st cp' s \<longleftrightarrow> (case next_byte_in_range rs s of
        None \<Rightarrow> False | Some (cs, s') \<Rightarrow> escapes 0 0 s')" for cp'
      using st(1)
    proof
      assume "?st = 0"
      with rs escapes_0 [of cp' s] show ?thesis by (auto simp: state_ranges_def)
    next
      assume "good_state ?st"
      from Cons.IH [OF this] rs show ?thesis by simp
    qed
    with True st(2) r show ?thesis
      by (simp add: escapes_Cons del: escape_loop.simps split: option.split)
  next
    case False
    with ok r show ?thesis by (auto simp add: escapes_Cons simp del: escape_loop.simps)
  qed
qed

lemma escapes_utf8: "escapes 0 0 s = utf8_ok s"
proof (induction s rule: utf8_ok.induct)
  case (2 c s)
  show ?case
  proof (cases "byte c < 128")
    case True
    with 2(1) escapes_0 [of "byte c" s] show ?thesis
      by (simp add: escapes_Cons ascii_state del: escape_loop.simps)
  next
    case False
    then have hi: "128 \<le> byte c" by simp
    show ?thesis
    proof (cases "decode_state 0 (byte c) = 1")
      case True
      with lead_table [OF hi byte_less] have "follow_ranges (byte c) = None"
        by (simp add: lead_ok_def decode_state_class)
      with True hi show ?thesis by (simp add: escapes_Cons del: escape_loop.simps)
    next
      case ne: False
      note l = lead_state [OF hi byte_less ne]
      show ?thesis
        using ne l(2) hi 2(2) [OF False l(2)] escapes_follow [OF l(1)]
        by (simp add: escapes_Cons del: escape_loop.simps split: option.split)
    qed
  qed
qed simp

section \<open>Printable values\<close>

fun printable :: "'f json \<Rightarrow> bool" where
  "printable (JObject m) \<longleftrightarrow> (\<forall>(k, v) \<in> set m. utf8_ok k \<and> printable v)"
| "printable (JArray vs) \<longleftrightarrow> (\<forall>v \<in> set vs. printable v)"
| "printable (JString s) \<longleftrightarrow> utf8_ok s"
| "printable _ \<longleftrightarrow> True"

lemma dump_escaped_iff: "(\<exists>e. dump_escaped s = Inr e) \<longleftrightarrow> utf8_ok s"
  by (simp add: dump_escaped_def escapes_utf8)

lemma bind_result_ex:
  "(\<exists>b. bind_result r f = Inr b) \<longleftrightarrow> (\<exists>a. r = Inr a \<and> (\<exists>b. f a = Inr b))"
  by (auto simp: bind_result_Inr_iff)

lemma dump_iff:
  "(\<exists>s. dump ftoa j = Inr s) \<longleftrightarrow> printable j"
  "(\<exists>s. dump_members ftoa m = Inr s) \<longleftrightarrow> (\<forall>(k, v) \<in> set m. utf8_ok k \<and> printable v)"
  "(\<exists>s. dump_elements ftoa vs = Inr s) \<longleftrightarrow> (\<forall>v \<in> set vs. printable v)"
proof (induction ftoa j and ftoa m and ftoa vs rule: dump_dump_members_dump_elements.induct)
  case (12 ftoa k v m)
  then have "m \<noteq> [] \<Longrightarrow> (\<exists>s. dump_members ftoa m = Inr s) =
      (\<forall>(k, v) \<in> set m. utf8_ok k \<and> printable v)" by blast
  with 12(1) dump_escaped_iff [of k] show ?case
    by (cases "m = []"; cases "dump_escaped k"; cases "dump ftoa v"; cases "dump_members ftoa m")
      (auto simp: Let_def)
next
  case (14 ftoa v vs)
  then show ?case by (cases "vs = []") (auto simp: bind_result_ex)
qed (auto simp: bind_result_ex dump_escaped_iff)

lemma escape_loop_error: "escape_loop st cp s = Inl e \<Longrightarrow> e = Type_error 316"
  by (induction st cp s rule: escape_loop.induct)
    (auto simp: Let_def bind_result_def split: if_splits sum.splits)

lemma dump_error:
  "dump ftoa j = Inl e \<Longrightarrow> e = Type_error 316"
  "dump_members ftoa m = Inl e \<Longrightarrow> e = Type_error 316"
  "dump_elements ftoa vs = Inl e \<Longrightarrow> e = Type_error 316"
  by (induction ftoa j and ftoa m and ftoa vs rule: dump_dump_members_dump_elements.induct)
    (auto simp: bind_result_def dump_escaped_def Let_def dest: escape_loop_error
      split: if_splits sum.splits)

text \<open>ASCII strings without characters to escape print as themselves.\<close>

definition plain_char :: "char \<Rightarrow> bool" where
  "plain_char c \<longleftrightarrow> 32 \<le> byte c \<and> byte c < 127 \<and> byte c \<noteq> 34 \<and> byte c \<noteq> 92"

lemma escape_loop_plain: "list_all plain_char s \<Longrightarrow> escape_loop 0 cp s = Inr s"
proof (induction s arbitrary: cp)
  case (Cons c s)
  then have "byte c < 128" by (simp add: plain_char_def)
  with Cons show ?case
    by (simp add: ascii_state escape_accepted_def plain_char_def Let_def)
qed simp

lemma dump_escaped_plain: "list_all plain_char s \<Longrightarrow> dump_escaped s = Inr s"
  by (simp add: dump_escaped_def escape_loop_plain)

end
