(* ===== verification/Json_Valid.thy ===== *)
theory Json_Valid
  imports Json_Utf8
begin

text \<open>
  What the parser builds: strings that are well-formed UTF-8, objects with their members in key
  order, integers in the type the lexer chooses. So a parsed value without floating-point
  numbers can be printed, and reading the text gives it back.
\<close>

section \<open>Strings\<close>

lemma next_byte_append:
  "next_byte_in_range rs s = Some (cs, s') \<Longrightarrow>
    next_byte_in_range rs (s @ r) = Some (cs, s' @ r)"
  by (induction rs s arbitrary: cs rule: next_byte_in_range.induct)
    (auto split: if_splits)

lemma utf8_ok_append: "utf8_ok a \<Longrightarrow> utf8_ok b \<Longrightarrow> utf8_ok (a @ b)"
proof (induction a rule: utf8_ok.induct)
  case (2 c s)
  then show ?case
    by (auto simp: next_byte_append split: if_splits option.splits prod.splits)
qed simp

lemma next_byte_prefix:
  "next_byte_in_range rs s = Some (cs, s') \<Longrightarrow> next_byte_in_range rs cs = Some (cs, [])"
  by (induction rs s arbitrary: cs rule: next_byte_in_range.induct) (auto split: if_splits)

lemma utf8_ok_char:
  assumes "follow_ranges (byte c) = Some rs" and "next_byte_in_range rs s = Some (cs, s')"
  shows "utf8_ok (c # cs)"
proof (cases "byte c < 128")
  case True
  with assms have "rs = []" by (auto simp: follow_ranges_def split: if_splits)
  with assms True show ?thesis by simp
next
  case False
  with assms next_byte_prefix [OF assms(2)] show ?thesis by simp
qed

lemma utf8_ok_bytes:
  assumes "cp \<le> 1114111" and "\<not> (55296 \<le> cp \<and> cp \<le> 57343)"
  shows "utf8_ok (utf8_bytes cp)"
proof -
  have m: "n mod 64 < 64" for n :: nat by simp
  consider "cp < 128" | "128 \<le> cp" "cp \<le> 2047" | "2048 \<le> cp" "cp \<le> 65535"
    | "65536 \<le> cp" by linarith
  then show ?thesis
  proof cases
    case 1
    then show ?thesis by (simp add: utf8_bytes_def)
  next
    case 2
    then have "2 \<le> cp div 64" "cp div 64 \<le> 31" by linarith+
    with 2 m [of cp] show ?thesis by (simp add: utf8_bytes_def follow_ranges_def)
  next
    case 3
    let ?a = "cp div 4096" and ?b = "cp div 64 mod 64"
    have "?a \<le> 15" using 3 by linarith
    moreover have "?a = 0 \<Longrightarrow> 32 \<le> ?b"
    proof -
      assume "?a = 0"
      then have "cp div 64 < 64" by linarith
      with 3 show ?thesis by simp
    qed
    moreover have "?a = 13 \<Longrightarrow> ?b \<le> 31"
    proof -
      assume "?a = 13"
      then have "cp div 64 div 64 = 13" by (simp flip: div_mult2_eq)
      moreover have "cp div 64 < 13 * 64 + 32" using assms(2) \<open>?a = 13\<close> by linarith
      ultimately show ?thesis using div_mult_mod_eq [of "cp div 64" 64] by linarith
    qed
    ultimately show ?thesis
      using 3 m [of cp] m [of "cp div 64"]
      by (auto simp: utf8_bytes_def follow_ranges_def)
  next
    case 4
    let ?a = "cp div 262144" and ?b = "cp div 4096 mod 64"
    have "?a \<le> 4" using assms(1) by linarith
    moreover have "cp div 4096 div 64 = ?a" by (simp flip: div_mult2_eq)
    then have b: "cp div 4096 = ?a * 64 + ?b" using div_mult_mod_eq [of "cp div 4096" 64] by simp
    then have "?a = 0 \<Longrightarrow> 16 \<le> ?b" using 4 by simp
    moreover have "?a = 4 \<Longrightarrow> ?b \<le> 15" using b assms(1) by simp
    ultimately show ?thesis
      using 4 m [of cp] m [of "cp div 64"] m [of "cp div 4096"]
      by (auto simp: utf8_bytes_def follow_ranges_def)
  qed
qed

lemma get_codepoint_less: "get_codepoint s = Some (n, s') \<Longrightarrow> n < 65536"
  by (cases s rule: get_codepoint.cases)
    (auto simp: hex_value_def Let_def split: option.splits if_splits)

lemma scan_unicode_ok:
  assumes "scan_unicode s = Some (cs, r)" shows "utf8_ok cs"
proof -
  from assms obtain cp1 s1 where c1: "get_codepoint s = Some (cp1, s1)"
    by (auto simp: scan_unicode_def split: option.splits)
  show ?thesis
  proof (cases "55296 \<le> cp1 \<and> cp1 \<le> 56319")
    case True
    with assms c1 obtain cp2 where "56320 \<le> cp2" "cp2 \<le> 57343"
      "cs = utf8_bytes (cp1 * 1024 + cp2 - 56613888)"
      by (auto simp: scan_unicode_def split: list.splits option.splits if_splits)
    with True show ?thesis by (auto intro!: utf8_ok_bytes)
  next
    case False
    with assms c1 get_codepoint_less [OF c1] show ?thesis
      by (auto simp: scan_unicode_def intro!: utf8_ok_bytes split: if_splits)
  qed
qed

lemma simple_escape_ok: "simple_escape c = Some x \<Longrightarrow> utf8_ok [x]"
  by (auto simp: simple_escape_def split: if_splits)

lemma scan_string_ok:
  "scan_string acc s = (Tok_string t :: 'f token, r) \<Longrightarrow> utf8_ok acc \<Longrightarrow> utf8_ok t"
proof (induction acc s rule: scan_string.induct)
  case (2 acc c s)
  note eq = 2(4) and acc = 2(5)
  consider "byte c = 34" | "byte c = 92" | "byte c \<noteq> 34" "byte c \<noteq> 92" by blast
  then show ?case
  proof cases
    case 1
    with eq acc show ?thesis by simp
  next
    case esc: 2
    with eq obtain e s1 where s: "s = e # s1" by (auto split: list.splits)
    show ?thesis
    proof (cases "simple_escape e")
      case (Some x)
      with eq esc s have "scan_string (acc @ [x]) s1 = (Tok_string t :: 'f token, r)" by simp
      moreover have "utf8_ok (acc @ [x])"
        using acc simple_escape_ok [OF Some] by (rule utf8_ok_append)
      ultimately show ?thesis using 2(2) [OF _ esc s Some] esc by simp
    next
      case None
      with eq esc s obtain cs s2 where u: "e = CHR ''u''" "scan_unicode s1 = Some (cs, s2)"
        by (auto split: if_splits option.splits)
      with eq esc s None have "scan_string (acc @ cs) s2 = (Tok_string t :: 'f token, r)" by simp
      moreover have "utf8_ok (acc @ cs)"
        using acc scan_unicode_ok [OF u(2)] by (rule utf8_ok_append)
      ultimately show ?thesis using 2(1) [OF _ esc s None u(1,2) refl] esc by simp
    qed
  next
    case 3
    with eq obtain rs cs s1 where f: "follow_ranges (byte c) = Some rs"
      "next_byte_in_range rs s = Some (cs, s1)" by (auto split: option.splits)
    with eq 3 have "scan_string (acc @ c # cs) s1 = (Tok_string t :: 'f token, r)" by simp
    moreover have "utf8_ok (acc @ c # cs)" using acc utf8_ok_char [OF f] by (rule utf8_ok_append)
    ultimately show ?thesis using 2(3) [OF 3 f refl] by simp
  qed
qed simp

section \<open>Tokens and values\<close>

fun token_ok :: "'f token \<Rightarrow> bool" where
  "token_ok (Tok_string s) = utf8_ok s"
| "token_ok (Tok_unsigned n) = (n < 2 ^ 64)"
| "token_ok (Tok_integer i) = (i \<le> 0 \<and> - (2 ^ 63) \<le> i)"
| "token_ok t = True"

lemma scan_literal_ok: "scan_literal ls t s = (t', r) \<Longrightarrow> token_ok t \<Longrightarrow> token_ok t'"
  by (induction ls t s rule: scan_literal.induct) (auto split: if_splits)

lemma number_done_ok: "token_ok (number_done strtod t buf)"
  by (simp add: number_done_def Let_def split: number_type.split)

lemma number_loop_ok: "number_loop strtod st t buf s = (t', r) \<Longrightarrow> token_ok t'"
  by (induction strtod st t buf s rule: number_loop.induct)
    (auto simp: number_done_ok split: number_move.splits)

lemma scan_string_token_ok: "scan_string [] s = (t, r) \<Longrightarrow> token_ok t"
proof -
  assume a: "scan_string [] s = (t, r)"
  have "t = Tok_parse_error \<or> (\<exists>x. t = Tok_string x)" if "scan_string acc s = (t, r)" for acc
    using that by (induction acc s rule: scan_string.induct)
      (auto split: if_splits list.splits option.splits)
  with a scan_string_ok [of "[]" s _ r] show ?thesis by fastforce
qed

lemma scan_ok: "scan strtod s = (t, r) \<Longrightarrow> token_ok t"
  by (auto simp: scan_def scan_number_def Let_def split: list.splits if_splits
      dest: scan_literal_ok number_loop_ok scan_string_token_ok)

text \<open>
  A value as the parser builds it. A floating-point number stands for itself; \<open>-0\<close> is the one
  integer that is not negative.
\<close>

fun parsed :: "'f json \<Rightarrow> bool" where
  "parsed (JObject m) \<longleftrightarrow> map_ok m \<and> (\<forall>(k, v) \<in> set m. utf8_ok k \<and> parsed v)"
| "parsed (JArray vs) \<longleftrightarrow> (\<forall>v \<in> set vs. parsed v)"
| "parsed (JString s) \<longleftrightarrow> utf8_ok s"
| "parsed (JInteger i) \<longleftrightarrow> i \<le> 0 \<and> - (2 ^ 63) \<le> i"
| "parsed (JUnsigned n) \<longleftrightarrow> n < 2 ^ 64"
| "parsed (JBinary _ _) \<longleftrightarrow> False"
| "parsed JDiscarded \<longleftrightarrow> False"
| "parsed _ \<longleftrightarrow> True"

fun frame_ok :: "'f frame \<Rightarrow> bool" where
  "frame_ok (Frame_array vs) \<longleftrightarrow> (\<forall>v \<in> set vs. parsed v)"
| "frame_ok (Frame_object m k) \<longleftrightarrow> parsed (JObject m) \<and> utf8_ok k"

lemma leaf_value_ok: "leaf_value t = Inr v \<Longrightarrow> token_ok t \<Longrightarrow> parsed v"
  by (cases t rule: leaf_value.cases) auto

lemma scan_key_ok: "scan_key strtod t s = Inr (k, r) \<Longrightarrow> token_ok t \<Longrightarrow> utf8_ok k"
  by (auto simp: scan_key_def split: token.splits prod.splits if_splits)

lemma parsed_put:
  "parsed (JObject m) \<Longrightarrow> utf8_ok k \<Longrightarrow> parsed v \<Longrightarrow> parsed (JObject (map_put k v m))"
  by (auto simp: map_ok_put dest!: set_map_put)

lemma parse_ok:
  "parse_value strtod t s fs = Inr (v, r) \<Longrightarrow> token_ok t \<Longrightarrow> list_all frame_ok fs \<Longrightarrow> parsed v"
  "value_done strtod v0 s fs = Inr (v, r) \<Longrightarrow> parsed v0 \<Longrightarrow> list_all frame_ok fs \<Longrightarrow> parsed v"
proof (induction strtod t s fs and strtod v0 s fs rule: parse_value_value_done.induct)
  case (1 strtod s fs)
  obtain t1 s1 where t1: "scan strtod s = (t1, s1)" by (cases "scan strtod s")
  show ?case
  proof (cases "t1 = Tok_end_object")
    case True
    with 1 t1 show ?thesis by simp
  next
    case False
    with 1(3) t1 obtain k s2 where k: "scan_key strtod t1 s1 = Inr (k, s2)"
      by (auto split: sum.splits)
    obtain t3 s3 where t3: "scan strtod s2 = (t3, s3)" by (cases "scan strtod s2")
    from False 1(3) t1 k t3 have "parse_value strtod t3 s3 (Frame_object [] k # fs) = Inr (v, r)"
      by simp
    moreover have "utf8_ok k" using k scan_ok [OF t1] by (rule scan_key_ok)
    ultimately show ?thesis
      using 1(2) [OF t1 [symmetric] False k refl t3 [symmetric]] 1(5) scan_ok [OF t3] by simp
  qed
next
  case (2 strtod s fs)
  then show ?case by (auto dest: scan_ok split: prod.splits if_splits)
next
  case (5 strtod v0 s vs fs)
  then show ?case by (auto dest: scan_ok split: prod.splits if_splits)
next
  case (6 strtod v0 s m k fs)
  obtain t1 s1 where t1: "scan strtod s = (t1, s1)" by (cases "scan strtod s")
  have put: "parsed (JObject (map_put k v0 m))"
    using 6(4,5) by (intro parsed_put) auto
  show ?case
  proof (cases "t1 = Tok_value_separator")
    case True
    obtain t2 s2 where t2: "scan strtod s1 = (t2, s2)" by (cases "scan strtod s1")
    from True 6(3) t1 t2 obtain k' s3 where k: "scan_key strtod t2 s2 = Inr (k', s3)"
      by (auto split: sum.splits)
    obtain t4 s4 where t4: "scan strtod s3 = (t4, s4)" by (cases "scan strtod s3")
    from True 6(3) t1 t2 k t4
    have "parse_value strtod t4 s4 (Frame_object (map_put k v0 m) k' # fs) = Inr (v, r)" by simp
    moreover have "utf8_ok k'" using k scan_ok [OF t2] by (rule scan_key_ok)
    ultimately show ?thesis
      using 6(1) [OF t1 [symmetric] True t2 [symmetric] k refl t4 [symmetric]]
        6(5) scan_ok [OF t4] put by simp
  next
    case False
    with 6(2) [OF t1 [symmetric] False] 6(3,5) t1 put show ?thesis
      by (auto split: if_splits)
  qed
qed (auto dest: leaf_value_ok split: sum.splits)

lemma json_parse_ok: "json_parse strtod s = Inr j \<Longrightarrow> parsed j"
proof -
  assume a: "json_parse strtod s = Inr j"
  obtain t r where t: "scan_first strtod s = (t, r)" by (cases "scan_first strtod s")
  then have "token_ok t" by (auto simp: scan_first_def split: option.splits dest: scan_ok)
  with a t parse_ok(1) [of strtod t r "[]" j] show "parsed j"
    by (auto simp: json_parse_def bind_result_Inr_iff split: if_splits)
qed

end
