(* ===== verification/Logging.thy ===== *)
theory Logging
  imports Prelude
begin

text \<open>
  Log severities and log lines (\<open>rtc_base/logging.h\<close>). Every program of the repository
  reports through \<open>RTC_LOG(severity) << part << ...\<close>; the models keep each line as its
  severity and the list of streamed parts. The severities are ordered as the C++ enum orders
  its values, which \<open>LogCheckLevel\<close> compares.
\<close>

datatype severity = LS_VERBOSE | LS_INFO | LS_WARNING | LS_ERROR | LS_NONE

primrec severity_value :: "severity \<Rightarrow> nat" where
  "severity_value LS_VERBOSE = 0"
| "severity_value LS_INFO = 1"
| "severity_value LS_WARNING = 2"
| "severity_value LS_ERROR = 3"
| "severity_value LS_NONE = 4"

lemma severity_value_inject [simp]: "severity_value a = severity_value b \<longleftrightarrow> a = b"
  by (cases a; cases b) simp_all

instantiation severity :: linorder
begin

definition less_eq_severity :: "severity \<Rightarrow> severity \<Rightarrow> bool" where
  "less_eq_severity a b \<longleftrightarrow> severity_value a \<le> severity_value b"

definition less_severity :: "severity \<Rightarrow> severity \<Rightarrow> bool" where
  "less_severity a b \<longleftrightarrow> severity_value a < severity_value b"

instance
  by standard (auto simp: less_eq_severity_def less_severity_def)

end

text \<open>\<open>GetMinLogSeverity() <= sev\<close>, with the sinks' minimum as an argument.\<close>

definition LogCheckLevel :: "severity \<Rightarrow> severity \<Rightarrow> bool" where
  "LogCheckLevel min_sev sev \<longleftrightarrow> min_sev \<le> sev"

text \<open>
  A streamed part: literal text, a number, or the text of an error code (which the Boost
  library produces and the models leave symbolic).
\<close>

datatype log_part = Txt string | Num int | Ec_message nat

type_synonym log_line = "severity \<times> log_part list"

definition visible_lines :: "severity \<Rightarrow> log_line list \<Rightarrow> log_line list" where
  "visible_lines min_sev = filter (\<lambda>l. LogCheckLevel min_sev (fst l))"

lemma visible_lines_append [simp]:
  "visible_lines m (xs @ ys) = visible_lines m xs @ visible_lines m ys"
  by (simp add: visible_lines_def)

lemma visible_lines_antimono:
  "m \<le> n \<Longrightarrow> set (visible_lines n ls) \<subseteq> set (visible_lines m ls)"
  by (auto simp: visible_lines_def LogCheckLevel_def)

end
