(* ===== verification/Asio.thy ===== *)
theory Asio
  imports Logging
begin

text \<open>
  The vocabulary of requests the Janus client makes of Boost.Asio and Boost.Beast, which are not
  part of the repository: one constructor per library call that \<open>websocket_transport.cc\<close> and
  \<open>janus_session.cc\<close> make. Nothing here says what the library computes. A handler of the code
  returns the list of its requests in program order; the step relation of \<open>Ws_Loop\<close> then lets
  the library complete each outstanding operation with any error code and any data.

  An error code is a number and \<open>if (ec)\<close> tests whether it is not \<open>0\<close>.
\<close>

type_synonym error_code = nat

text \<open>The two bodies the transport posts to its strand.\<close>

datatype strand_task = Send_data_inner string | Close_task

text \<open>Operations whose completion the library delivers later.\<close>

datatype async_op =
    Op_resolve | Op_connect | Op_handshake | Op_read | Op_write string | Op_close

datatype effect =
    Log severity "log_part list"
  | Post strand_task
  | Async_resolve string string
  | Expires_after nat
  | Async_connect "string list"
  | Expires_never
  | Set_timeout_suggested_client
  | Set_decorator string
  | Async_handshake string string
  | Async_read
  | Async_write string
  | Async_close
  | Timer_expires_from_now nat
  | Timer_async_wait
  | Timer_cancel

text \<open>
  The operations of a connection attempt and its read loop form a chain: each completion
  starts at most the next one.
\<close>

fun is_chain_op :: "async_op \<Rightarrow> bool" where
  "is_chain_op (Op_write _) = False"
| "is_chain_op Op_close = False"
| "is_chain_op _ = True"

fun is_write_op :: "async_op \<Rightarrow> bool" where
  "is_write_op (Op_write _) = True"
| "is_write_op _ = False"

text \<open>
  What code outside the transport may ask for: logging, timers, name resolution (through
  \<open>Connect\<close>) and posts to the strand (through \<open>SendMsg\<close> and \<open>Disconnect\<close>). The stream's own
  reads, writes, handshakes and closes are reserved to the transport's handlers.
\<close>

fun is_client_effect :: "effect \<Rightarrow> bool" where
  "is_client_effect (Log _ _) = True"
| "is_client_effect (Post _) = True"
| "is_client_effect (Async_resolve _ _) = True"
| "is_client_effect (Timer_expires_from_now _) = True"
| "is_client_effect Timer_async_wait = True"
| "is_client_effect Timer_cancel = True"
| "is_client_effect _ = False"

end
