(* ===== verification/Websocket_Transport.thy ===== *)
theory Websocket_Transport
  imports Asio
begin

text \<open>
  \<open>WebsocketTransport\<close> of \<open>11_rtc_janus/websocket_transport.{h,cc}\<close>, method by method. The
  record holds the members the methods read and write. A method returns the new members and the
  requests it makes, in order.

  The two stored callbacks are values of a type \<open>'k\<close>; what calling one does is an argument of
  the handlers that call it (\<open>call\<close>), because the owner of the transport decides it. A
  callback sees the transport and the owner's state, and may throw.

  \<open>resolver_\<close> and the stream \<open>ws_\<close> belong to the library. \<open>ws_.is_open()\<close> is an argument of
  the code that asks it.
\<close>

record 'k transport =
  host :: string
  port :: i16
  subprotocol :: string
  buffer :: string
  connect_callback :: "'k option"
  msg_callback :: "'k option"
  send_msg_queue :: "string list"
  connected :: bool

type_synonym ('k, 'u, 'x) outcome = "('x, 'k transport \<times> 'u \<times> effect list) result"

definition new_transport :: "string \<Rightarrow> i16 \<Rightarrow> string \<Rightarrow> 'k transport" where
  "new_transport h p s =
     \<lparr>host = h, port = p, subprotocol = s, buffer = [],
      connect_callback = None, msg_callback = None, send_msg_queue = [], connected = False\<rparr>"

text \<open>The three-argument constructor delegates with an empty subprotocol.\<close>

definition new_transport_plain :: "string \<Rightarrow> i16 \<Rightarrow> 'k transport" where
  "new_transport_plain h p = new_transport h p []"

definition set_connect_callback :: "'k \<Rightarrow> 'k transport \<Rightarrow> 'k transport" where
  "set_connect_callback k t = t\<lparr>connect_callback := Some k\<rparr>"

definition set_msg_callback :: "'k \<Rightarrow> 'k transport \<Rightarrow> 'k transport" where
  "set_msg_callback k t = t\<lparr>msg_callback := Some k\<rparr>"

definition fail :: "error_code \<Rightarrow> string \<Rightarrow> effect" where
  "fail ec what = Log LS_ERROR [Txt what, Txt '':'', Ec_message ec]"

definition send_msg :: "string \<Rightarrow> 'k transport \<Rightarrow> effect list" where
  "send_msg msg t =
     (if \<not> connected t
      then [Log LS_WARNING [Txt ''websocket not connect, cannot send msg'']]
      else [Post (Send_data_inner msg)])"

definition connect :: "'k transport \<Rightarrow> effect list" where
  "connect t =
     (if connected t then []
      else [Async_resolve (host t) (std_to_string (sint (port t)))])"

definition disconnect :: "bool \<Rightarrow> effect list" where
  "disconnect is_open = (if is_open then [Post Close_task] else [])"

text \<open>The lambda that \<open>Disconnect\<close> posts.\<close>

definition close_task :: "bool \<Rightarrow> effect list" where
  "close_task is_open = (if \<not> is_open then [] else [Async_close])"

definition on_resolve :: "error_code \<Rightarrow> string list \<Rightarrow> effect list" where
  "on_resolve ec results =
     (if ec \<noteq> 0 then [fail ec ''resolve'']
      else [Expires_after 30, Async_connect results])"

definition on_connect :: "error_code \<Rightarrow> 'k transport \<Rightarrow> effect list" where
  "on_connect ec t =
     (if ec \<noteq> 0 then [fail ec ''connect'']
      else [Expires_never, Set_timeout_suggested_client]
        @ (if subprotocol t = [] then [] else [Set_decorator (subprotocol t)])
        @ [Async_handshake (host t) ''/''])"

definition do_read :: "effect list" where
  "do_read = [Async_read]"

definition on_handshake ::
  "('k \<Rightarrow> 'k transport \<Rightarrow> 'u \<Rightarrow> ('k, 'u, 'x) outcome) \<Rightarrow>
   error_code \<Rightarrow> 'k transport \<Rightarrow> 'u \<Rightarrow> ('k, 'u, 'x) outcome" where
  "on_handshake call ec t u =
     (if ec \<noteq> 0 then Inr (t, u, [fail ec ''handshake''])
      else
        let t1 = t\<lparr>connected := True\<rparr> in
        bind_result
          (case connect_callback t1 of
             None \<Rightarrow> Inr (t1, u, [])
           | Some k \<Rightarrow> call k t1 u)
          (\<lambda>(t2, u2, es). Inr (t2, u2, es @ do_read)))"

definition on_read ::
  "('k \<Rightarrow> string \<Rightarrow> 'k transport \<Rightarrow> 'u \<Rightarrow> ('k, 'u, 'x) outcome) \<Rightarrow>
   error_code \<Rightarrow> 'k transport \<Rightarrow> 'u \<Rightarrow> ('k, 'u, 'x) outcome" where
  "on_read call ec t u =
     (if ec \<noteq> 0 then Inr (t\<lparr>connected := False\<rparr>, u, [fail ec ''read''])
      else
        bind_result
          (case msg_callback t of
             None \<Rightarrow> Inr (t, u, [])
           | Some k \<Rightarrow> call k (buffer t) t u)
          (\<lambda>(t2, u2, es). Inr (t2\<lparr>buffer := []\<rparr>, u2, es @ do_read)))"

text \<open>
  \<open>send_msg_queue.erase(begin())\<close> on an empty vector would be undefined; \<open>Ws_Loop\<close> proves that
  a write completes only while its message is at the front.
\<close>

definition on_write :: "error_code \<Rightarrow> 'k transport \<Rightarrow> 'k transport \<times> effect list" where
  "on_write ec t =
     (if ec \<noteq> 0 then (t\<lparr>connected := False\<rparr>, [fail ec ''write''])
      else
        let q = tl (send_msg_queue t); t1 = t\<lparr>send_msg_queue := q\<rparr> in
        if q \<noteq> [] then (t1, [Async_write (hd q)]) else (t1, []))"

definition on_close :: "error_code \<Rightarrow> 'k transport \<Rightarrow> 'k transport \<times> effect list" where
  "on_close ec t =
     (if ec \<noteq> 0 then (t, [fail ec ''close''])
      else (t\<lparr>connected := False\<rparr>, [Log LS_INFO [Txt ''websocket closed'']]))"

definition send_data_inner :: "string \<Rightarrow> 'k transport \<Rightarrow> 'k transport \<times> effect list" where
  "send_data_inner data t =
     (let q = send_msg_queue t @ [data]; t1 = t\<lparr>send_msg_queue := q\<rparr> in
      if length q > 1 then (t1, []) else (t1, [Async_write (hd q)]))"

text \<open>Running a posted body.\<close>

fun run_task :: "bool \<Rightarrow> strand_task \<Rightarrow> 'k transport \<Rightarrow> 'k transport \<times> effect list" where
  "run_task is_open (Send_data_inner data) t = send_data_inner data t"
| "run_task is_open Close_task t = (t, close_task is_open)"

lemmas handler_defs [step_defs] =
  send_msg_def connect_def disconnect_def close_task_def on_resolve_def on_connect_def
  do_read_def on_handshake_def on_read_def on_write_def on_close_def send_data_inner_def
  fail_def

text \<open>A message is accepted only while connected, and is otherwise dropped with a warning.\<close>

lemma send_msg_connected: "connected t \<Longrightarrow> send_msg m t = [Post (Send_data_inner m)]"
  by (simp add: send_msg_def)

lemma send_msg_client: "e \<in> set (send_msg m t) \<Longrightarrow> is_client_effect e"
  by (auto simp: send_msg_def split: if_splits)

lemma connect_client: "e \<in> set (connect t) \<Longrightarrow> is_client_effect e"
  by (auto simp: connect_def split: if_splits)

lemma disconnect_client: "e \<in> set (disconnect b) \<Longrightarrow> is_client_effect e"
  by (auto simp: disconnect_def split: if_splits)

end
