(* ===== verification/Ws_Loop.thy ===== *)
theory Ws_Loop
  imports Websocket_Transport
begin

text \<open>
  The transport running on its event loop. A \<open>world\<close> is the transport, the state of its owner,
  what the library holds for them (the strand's queue of posted bodies, the outstanding
  operations, the timer's waits and its queued completions) and histories that only the
  statements read: the messages \<open>SendMsg\<close> accepted, those handed to \<open>async_write\<close>, those whose
  write succeeded, the queries of \<open>Connect\<close>, the log.

  One event is one handler run to completion: the program runs \<open>io_context::run\<close> on one thread,
  so handlers never overlap. The library is free: any outstanding operation may complete next,
  with any error code and data. What it guarantees, and all that is used, is that an operation
  completes at most once, that a strand runs posted bodies in order, and for the timer that
  \<open>cancel\<close> and \<open>expires_from_now\<close> abort the waits whose completion is not yet queued.
\<close>

record ('c, 'k, 'u, 'x) client =
  call_connect :: "'k \<Rightarrow> 'k transport \<Rightarrow> 'u \<Rightarrow> ('k, 'u, 'x) outcome"
  call_msg :: "'k \<Rightarrow> string \<Rightarrow> 'k transport \<Rightarrow> 'u \<Rightarrow> ('k, 'u, 'x) outcome"
  call_timer :: "error_code \<Rightarrow> 'k transport \<Rightarrow> 'u \<Rightarrow> ('k, 'u, 'x) outcome"
  call_api :: "'c \<Rightarrow> bool \<Rightarrow> 'k transport \<Rightarrow> 'u \<Rightarrow> ('k, 'u, 'x) outcome"

record ('k, 'u, 'x) world =
  tr :: "'k transport"
  usr :: 'u
  strand :: "strand_task list"
  ops :: "async_op list"
  timer_waits :: nat
  timer_ready :: "error_code list"
  dead :: "'x option"
  accepted :: "string list"
  wire :: "string list"
  acked :: "string list"
  write_failed :: bool
  queries :: "(string \<times> string) list"
  lines :: "log_line list"

definition operation_aborted :: error_code where
  "operation_aborted = 125"

lemma operation_aborted_nonzero [simp]: "operation_aborted \<noteq> 0"
  by (simp add: operation_aborted_def)

definition cancel_waits :: "('k, 'u, 'x) world \<Rightarrow> ('k, 'u, 'x) world" where
  "cancel_waits w =
     w\<lparr>timer_ready := timer_ready w @ replicate (timer_waits w) operation_aborted,
       timer_waits := 0\<rparr>"

fun apply_effect :: "effect \<Rightarrow> ('k, 'u, 'x) world \<Rightarrow> ('k, 'u, 'x) world" where
  "apply_effect (Log s p) w = w\<lparr>lines := lines w @ [(s, p)]\<rparr>"
| "apply_effect (Post (Send_data_inner m)) w =
     w\<lparr>strand := strand w @ [Send_data_inner m], accepted := accepted w @ [m]\<rparr>"
| "apply_effect (Post Close_task) w = w\<lparr>strand := strand w @ [Close_task]\<rparr>"
| "apply_effect (Async_resolve h s) w =
     w\<lparr>ops := ops w @ [Op_resolve], queries := queries w @ [(h, s)]\<rparr>"
| "apply_effect (Async_connect rs) w = w\<lparr>ops := ops w @ [Op_connect]\<rparr>"
| "apply_effect (Async_handshake h p) w = w\<lparr>ops := ops w @ [Op_handshake]\<rparr>"
| "apply_effect Async_read w = w\<lparr>ops := ops w @ [Op_read]\<rparr>"
| "apply_effect (Async_write m) w = w\<lparr>ops := ops w @ [Op_write m], wire := wire w @ [m]\<rparr>"
| "apply_effect Async_close w = w\<lparr>ops := ops w @ [Op_close]\<rparr>"
| "apply_effect (Timer_expires_from_now n) w = cancel_waits w"
| "apply_effect Timer_async_wait w = w\<lparr>timer_waits := Suc (timer_waits w)\<rparr>"
| "apply_effect Timer_cancel w = cancel_waits w"
| "apply_effect (Expires_after n) w = w"
| "apply_effect Expires_never w = w"
| "apply_effect Set_timeout_suggested_client w = w"
| "apply_effect (Set_decorator s) w = w"

definition apply_effects :: "effect list \<Rightarrow> ('k, 'u, 'x) world \<Rightarrow> ('k, 'u, 'x) world" where
  "apply_effects es w = fold apply_effect es w"

text \<open>An exception leaves \<open>io_context::run\<close> and ends the io thread's function: the process dies.\<close>

definition finish :: "('k, 'u, 'x) outcome \<Rightarrow> ('k, 'u, 'x) world \<Rightarrow> ('k, 'u, 'x) world" where
  "finish r w =
     (case r of
        Inl x \<Rightarrow> w\<lparr>dead := Some x\<rparr>
      | Inr (t, u, es) \<Rightarrow> apply_effects es (w\<lparr>tr := t, usr := u\<rparr>))"

definition finish_tr :: "'k transport \<times> effect list \<Rightarrow> ('k, 'u, 'x) world \<Rightarrow> ('k, 'u, 'x) world" where
  "finish_tr r w = apply_effects (snd r) (w\<lparr>tr := fst r\<rparr>)"

datatype 'c event =
    Run_task bool
  | Resolved error_code "string list"
  | Tcp_connected error_code
  | Handshaken error_code
  | Read_done error_code string
  | Write_done error_code
  | Closed error_code
  | Timer_expires
  | Timer_handler
  | Api 'c bool

definition take_op :: "async_op \<Rightarrow> ('k, 'u, 'x) world \<Rightarrow> ('k, 'u, 'x) world option" where
  "take_op p w = (if p \<in> set (ops w) then Some (w\<lparr>ops := remove1 p (ops w)\<rparr>) else None)"

definition write_complete ::
  "error_code \<Rightarrow> string \<Rightarrow> ('k, 'u, 'x) world \<Rightarrow> ('k, 'u, 'x) world" where
  "write_complete ec m w =
     finish_tr (on_write ec (tr w))
       (w\<lparr>ops := remove1 (Op_write m) (ops w),
          acked := (if ec = 0 then acked w @ [m] else acked w),
          write_failed := (write_failed w \<or> ec \<noteq> 0)\<rparr>)"

fun ws_do :: "('c, 'k, 'u, 'x) client \<Rightarrow> 'c event \<Rightarrow> ('k, 'u, 'x) world \<Rightarrow> ('k, 'u, 'x) world option" where
  "ws_do cl (Run_task is_open) w =
     (case strand w of
        [] \<Rightarrow> None
      | b # bs \<Rightarrow> Some (finish_tr (run_task is_open b (tr w)) (w\<lparr>strand := bs\<rparr>)))"
| "ws_do cl (Resolved ec rs) w =
     map_option (finish_tr (tr w, on_resolve ec rs)) (take_op Op_resolve w)"
| "ws_do cl (Tcp_connected ec) w =
     map_option (finish_tr (tr w, on_connect ec (tr w))) (take_op Op_connect w)"
| "ws_do cl (Handshaken ec) w =
     map_option (finish (on_handshake (call_connect cl) ec (tr w) (usr w)))
       (take_op Op_handshake w)"
| "ws_do cl (Read_done ec data) w =
     map_option
       (finish (on_read (call_msg cl) ec ((tr w)\<lparr>buffer := buffer (tr w) @ data\<rparr>) (usr w)))
       (take_op Op_read w)"
| "ws_do cl (Write_done ec) w =
     (case filter is_write_op (ops w) of
        Op_write m # _ \<Rightarrow>
          Some (write_complete ec m w)
      | _ \<Rightarrow> None)"
| "ws_do cl (Closed ec) w =
     map_option (finish_tr (on_close ec (tr w))) (take_op Op_close w)"
| "ws_do cl Timer_expires w =
     (case timer_waits w of
        0 \<Rightarrow> None
      | Suc n \<Rightarrow> Some (w\<lparr>timer_waits := n, timer_ready := timer_ready w @ [0]\<rparr>))"
| "ws_do cl Timer_handler w =
     (case timer_ready w of
        [] \<Rightarrow> None
      | ec # ecs \<Rightarrow>
          Some (finish (call_timer cl ec (tr w) (usr w)) (w\<lparr>timer_ready := ecs\<rparr>)))"
| "ws_do cl (Api c is_open) w = Some (finish (call_api cl c is_open (tr w) (usr w)) w)"

definition ws_exec ::
  "('c, 'k, 'u, 'x) client \<Rightarrow> 'c event \<Rightarrow> ('k, 'u, 'x) world \<Rightarrow> ('k, 'u, 'x) world option" where
  "ws_exec cl e w = (if dead w = None then ws_do cl e w else None)"

fun ws_run ::
  "('c, 'k, 'u, 'x) client \<Rightarrow> 'c event list \<Rightarrow> ('k, 'u, 'x) world \<Rightarrow> ('k, 'u, 'x) world option" where
  "ws_run cl [] w = Some w"
| "ws_run cl (e # es) w = Option.bind (ws_exec cl e w) (ws_run cl es)"

definition init_world :: "'k transport \<Rightarrow> 'u \<Rightarrow> ('k, 'u, 'x) world" where
  "init_world t u =
     \<lparr>tr = t, usr = u, strand = [], ops = [], timer_waits = 0, timer_ready = [], dead = None,
      accepted = [], wire = [], acked = [], write_failed = False, queries = [], lines = []\<rparr>"

inductive ws_reach :: "('c, 'k, 'u, 'x) client \<Rightarrow> ('k, 'u, 'x) world \<Rightarrow> ('k, 'u, 'x) world \<Rightarrow> bool"
  for cl w where
  reach_refl: "ws_reach cl w w"
| reach_step: "ws_reach cl w v \<Longrightarrow> ws_exec cl e v = Some v' \<Longrightarrow> ws_reach cl w v'"

lemma ws_run_append:
  "ws_run cl (es @ fs) w = Option.bind (ws_run cl es w) (ws_run cl fs)"
  by (induction es arbitrary: w) (auto split: bind_split)

lemma ws_run_reach_from: "ws_run cl es v = Some v' \<Longrightarrow> ws_reach cl w v \<Longrightarrow> ws_reach cl w v'"
proof (induction es arbitrary: v)
  case Nil
  then show ?case by simp
next
  case (Cons e es)
  then show ?case by (auto simp: bind_eq_Some_conv intro: reach_step)
qed

lemma ws_run_reach: "ws_run cl es w = Some w' \<Longrightarrow> ws_reach cl w w'"
  by (rule ws_run_reach_from [OF _ reach_refl])

section \<open>What a list of requests changes\<close>

fun posts :: "effect list \<Rightarrow> strand_task list" where
  "posts [] = []"
| "posts (Post b # es) = b # posts es"
| "posts (_ # es) = posts es"

fun datas :: "strand_task list \<Rightarrow> string list" where
  "datas [] = []"
| "datas (Send_data_inner m # bs) = m # datas bs"
| "datas (Close_task # bs) = datas bs"

fun writes :: "effect list \<Rightarrow> string list" where
  "writes [] = []"
| "writes (Async_write m # es) = m # writes es"
| "writes (_ # es) = writes es"

fun resolves :: "effect list \<Rightarrow> (string \<times> string) list" where
  "resolves [] = []"
| "resolves (Async_resolve h s # es) = (h, s) # resolves es"
| "resolves (_ # es) = resolves es"

fun op_of :: "effect \<Rightarrow> async_op list" where
  "op_of (Async_resolve _ _) = [Op_resolve]"
| "op_of (Async_connect _) = [Op_connect]"
| "op_of (Async_handshake _ _) = [Op_handshake]"
| "op_of Async_read = [Op_read]"
| "op_of (Async_write m) = [Op_write m]"
| "op_of Async_close = [Op_close]"
| "op_of _ = []"

definition started :: "effect list \<Rightarrow> async_op list" where
  "started es = concat (map op_of es)"

lemma started_simps [simp]:
  "started [] = []"
  "started (e # es) = op_of e @ started es"
  "started (es @ fs) = started es @ started fs"
  by (simp_all add: started_def)

lemma datas_append [simp]: "datas (xs @ ys) = datas xs @ datas ys"
  by (induction xs rule: datas.induct) auto

lemma posts_append [simp]: "posts (xs @ ys) = posts xs @ posts ys"
  by (induction xs rule: posts.induct) auto

lemma writes_append [simp]: "writes (xs @ ys) = writes xs @ writes ys"
  by (induction xs rule: writes.induct) auto

lemma resolves_append [simp]: "resolves (xs @ ys) = resolves xs @ resolves ys"
  by (induction xs rule: resolves.induct) auto

lemma apply_effects_Nil [simp]: "apply_effects [] w = w"
  by (simp add: apply_effects_def)

lemma apply_effects_Cons: "apply_effects (e # es) w = apply_effects es (apply_effect e w)"
  by (simp add: apply_effects_def)

lemma apply_effect_fields:
  "tr (apply_effect e w) = tr w"
  "usr (apply_effect e w) = usr w"
  "dead (apply_effect e w) = dead w"
  "acked (apply_effect e w) = acked w"
  "write_failed (apply_effect e w) = write_failed w"
  "ops (apply_effect e w) = ops w @ op_of e"
  "strand (apply_effect e w) = strand w @ posts [e]"
  "accepted (apply_effect e w) = accepted w @ datas (posts [e])"
  "wire (apply_effect e w) = wire w @ writes [e]"
  "queries (apply_effect e w) = queries w @ resolves [e]"
  by (cases "(e, w)" rule: apply_effect.cases; simp add: cancel_waits_def)+

lemma apply_effects_fields [frame_simps]:
  "tr (apply_effects es w) = tr w"
  "usr (apply_effects es w) = usr w"
  "dead (apply_effects es w) = dead w"
  "acked (apply_effects es w) = acked w"
  "write_failed (apply_effects es w) = write_failed w"
  "ops (apply_effects es w) = ops w @ started es"
  "strand (apply_effects es w) = strand w @ posts es"
  "accepted (apply_effects es w) = accepted w @ datas (posts es)"
  "wire (apply_effects es w) = wire w @ writes es"
  "queries (apply_effects es w) = queries w @ resolves es"
proof (induction es arbitrary: w)
  case (Cons e es)
  have split: "posts (e # es) = posts [e] @ posts es" "writes (e # es) = writes [e] @ writes es"
      "resolves (e # es) = resolves [e] @ resolves es"
    using posts_append [of "[e]" es] writes_append [of "[e]" es] resolves_append [of "[e]" es]
    by simp_all
  case 1 then show ?case by (simp add: apply_effects_Cons Cons apply_effect_fields)
  case 2 then show ?case by (simp add: apply_effects_Cons Cons apply_effect_fields)
  case 3 then show ?case by (simp add: apply_effects_Cons Cons apply_effect_fields)
  case 4 then show ?case by (simp add: apply_effects_Cons Cons apply_effect_fields)
  case 5 then show ?case by (simp add: apply_effects_Cons Cons apply_effect_fields)
  case 6 then show ?case by (simp add: apply_effects_Cons Cons apply_effect_fields)
  case 7 show ?case unfolding split by (simp add: apply_effects_Cons Cons apply_effect_fields)
  case 8 show ?case unfolding split by (simp add: apply_effects_Cons Cons apply_effect_fields)
  case 9 show ?case unfolding split by (simp add: apply_effects_Cons Cons apply_effect_fields)
  case 10 show ?case unfolding split by (simp add: apply_effects_Cons Cons apply_effect_fields)
qed simp_all

text \<open>How many waits are pending after a list of requests that started with \<open>n\<close>.\<close>

fun waits_after :: "effect list \<Rightarrow> nat \<Rightarrow> nat" where
  "waits_after [] n = n"
| "waits_after (Timer_async_wait # es) n = waits_after es (Suc n)"
| "waits_after (Timer_expires_from_now _ # es) n = waits_after es 0"
| "waits_after (Timer_cancel # es) n = waits_after es 0"
| "waits_after (_ # es) n = waits_after es n"

lemma waits_after_append [simp]: "waits_after (xs @ ys) n = waits_after ys (waits_after xs n)"
  by (induction xs n rule: waits_after.induct) auto

lemma timer_waits_apply [frame_simps]:
  "timer_waits (apply_effects es w) = waits_after es (timer_waits w)"
proof (induction es arbitrary: w)
  case (Cons e es)
  then show ?case
    by (cases "(e, w)" rule: apply_effect.cases)
      (simp_all add: apply_effects_Cons cancel_waits_def)
qed simp

lemma client_effects:
  assumes "\<And>e. e \<in> set es \<Longrightarrow> is_client_effect e"
  shows "writes es = []" "filter is_write_op (started es) = []"
    "length (filter is_chain_op (started es)) = length (resolves es)"
proof -
  have "writes es = [] \<and> filter is_write_op (started es) = [] \<and>
      length (filter is_chain_op (started es)) = length (resolves es)"
    using assms
  proof (induction es)
    case (Cons e es)
    then have "is_client_effect e" by simp
    with Cons show ?case by (cases e rule: is_client_effect.cases) auto
  qed simp
  then show "writes es = []" "filter is_write_op (started es) = []"
    "length (filter is_chain_op (started es)) = length (resolves es)" by simp_all
qed

end
