(* ===== verification/Ws_Client.thy ===== *)
theory Ws_Client
  imports Ws_Loop
begin

text \<open>
  The interface between the transport and its owner as a locale, and the transport's guarantees
  proved once under it. The owner supplies what its two callbacks, its timer handler and its
  public operations do; it promises not to touch the transport's members and to ask the library
  only for what \<open>is_client_effect\<close> allows. \<open>Janus_Session\<close> interprets the locale on the
  session's own handlers.
\<close>

definition client_ok :: "'k transport \<Rightarrow> ('k, 'u, 'x) outcome \<Rightarrow> bool" where
  "client_ok t r =
     (case r of Inl _ \<Rightarrow> True | Inr (t', _, es) \<Rightarrow> t' = t \<and> list_all is_client_effect es)"

locale ws_client =
  fixes cl :: "('c, 'k, 'u, 'x) client"
  assumes connect_law: "client_ok t (call_connect cl k t u)"
    and msg_law: "client_ok t (call_msg cl k m t u)"
    and timer_law: "client_ok t (call_timer cl ec t u)"
    and api_law: "client_ok t (call_api cl c b t u)"

section \<open>The send queue's invariant\<close>

text \<open>
  Where every accepted message is: acknowledged, queued or still posted, in that order. The
  message handed to the stream is the front of the queue; a failed write leaves it there with no
  write outstanding.
\<close>

definition ws_inv :: "('k, 'u, 'x) world \<Rightarrow> bool" where
  "ws_inv w \<longleftrightarrow>
     accepted w = acked w @ send_msg_queue (tr w) @ datas (strand w) \<and>
     wire w = acked w @ take 1 (send_msg_queue (tr w)) \<and>
     filter is_write_op (ops w) =
       (if write_failed w then [] else map Op_write (take 1 (send_msg_queue (tr w)))) \<and>
     (write_failed w \<longrightarrow> send_msg_queue (tr w) \<noteq> [])"

definition chain_inv :: "('k, 'u, 'x) world \<Rightarrow> bool" where
  "chain_inv w \<longleftrightarrow> length (filter is_chain_op (ops w)) \<le> length (queries w)"

text \<open>What a handler's outcome may contribute: it keeps the queue and starts no write.\<close>

definition quiet :: "'k transport \<Rightarrow> ('k, 'u, 'x) outcome \<Rightarrow> bool" where
  "quiet t r =
     (case r of Inl _ \<Rightarrow> True
      | Inr (t', _, es) \<Rightarrow>
          send_msg_queue t' = send_msg_queue t \<and> writes es = [] \<and>
          filter is_write_op (started es) = [])"

definition chains :: "nat \<Rightarrow> ('k, 'u, 'x) outcome \<Rightarrow> bool" where
  "chains n r =
     (case r of Inl _ \<Rightarrow> True
      | Inr (_, _, es) \<Rightarrow>
          length (filter is_chain_op (started es)) \<le> n + length (resolves es))"

lemma client_ok_quiet: "client_ok t r \<Longrightarrow> quiet t r"
  by (auto simp: client_ok_def quiet_def list_all_iff client_effects
      split: sum.splits prod.splits)

lemma client_ok_chains: "client_ok t r \<Longrightarrow> chains 0 r"
  by (auto simp: client_ok_def chains_def list_all_iff client_effects
      split: sum.splits prod.splits)

lemma ws_inv_finish:
  assumes "ws_inv w" and "quiet (tr w) r"
  shows "ws_inv (finish r w)"
  using assms
  by (auto simp: ws_inv_def quiet_def finish_def frame_simps split: sum.splits prod.splits)

lemma finish_tr_eq_finish:
  "finish_tr r w = finish (Inr (fst r, usr w, snd r)) w"
  by (simp add: finish_tr_def finish_def)

lemma chain_inv_finish:
  assumes "length (filter is_chain_op (ops w)) + n \<le> length (queries w)" and "chains n r"
  shows "chain_inv (finish r w)"
  using assms
  by (auto simp: chain_inv_def chains_def finish_def frame_simps split: sum.splits prod.splits)

text \<open>Two worlds that agree on everything the send queue's invariant reads.\<close>

definition same_io :: "('k, 'u, 'x) world \<Rightarrow> ('k, 'u, 'x) world \<Rightarrow> bool" where
  "same_io v w \<longleftrightarrow>
     tr v = tr w \<and> datas (strand v) = datas (strand w) \<and> accepted v = accepted w \<and>
     wire v = wire w \<and> acked v = acked w \<and> write_failed v = write_failed w \<and>
     filter is_write_op (ops v) = filter is_write_op (ops w)"

lemma same_io_inv: "same_io v w \<Longrightarrow> ws_inv v = ws_inv w"
  and same_io_tr: "same_io v w \<Longrightarrow> tr v = tr w"
  by (simp_all add: same_io_def ws_inv_def)

lemma take_op_same_io: "take_op p w = Some v \<Longrightarrow> \<not> is_write_op p \<Longrightarrow> same_io v w"
  by (auto simp: take_op_def same_io_def filter_remove1_not split: if_splits)

lemma take_op_chain:
  assumes "take_op p w = Some v" and "is_chain_op p"
  shows "length (filter is_chain_op (ops v)) + 1 = length (filter is_chain_op (ops w))"
proof -
  from assms have p: "p \<in> set (filter is_chain_op (ops w))"
    and v: "v = w\<lparr>ops := remove1 p (ops w)\<rparr>"
    by (auto simp: take_op_def split: if_splits)
  from p have "filter is_chain_op (ops w) \<noteq> []" by (cases "filter is_chain_op (ops w)") auto
  with p v assms(2) show ?thesis by (simp add: filter_remove1 length_remove1)
qed

lemma take_op_queries: "take_op p w = Some v \<Longrightarrow> queries v = queries w"
  by (auto simp: take_op_def split: if_splits)

lemma take_op_no_chain:
  assumes "take_op p w = Some v" and "\<not> is_chain_op p"
  shows "filter is_chain_op (ops v) = filter is_chain_op (ops w)"
  using assms by (auto simp: take_op_def filter_remove1_not split: if_splits)

section \<open>The transport's own handlers\<close>

lemma quiet_resolve: "quiet t (Inr (t, u, on_resolve ec rs))"
  and quiet_connect: "quiet t (Inr (t, u, on_connect ec t))"
  and quiet_close_task: "quiet t (Inr (t, u, close_task b))"
  by (simp_all add: quiet_def step_defs)

lemma quiet_on_close: "quiet t (Inr (fst (on_close ec t), u, snd (on_close ec t)))"
  by (simp add: quiet_def step_defs)

text \<open>Both reading handlers run a callback, then change other members and read on.\<close>

lemma quiet_then_read:
  assumes "quiet t r" and "\<And>t2. send_msg_queue (g t2) = send_msg_queue t2"
  shows "quiet t (bind_result r (\<lambda>(t2, u2, es). Inr (g t2, u2, es @ do_read)))"
  using assms by (cases r) (auto simp: quiet_def do_read_def)

lemma chains_then_read:
  assumes "chains 0 r"
  shows "chains 1 (bind_result r (\<lambda>(t2, u2, es). Inr (g t2, u2, es @ do_read)))"
  using assms by (cases r) (auto simp: chains_def do_read_def)

lemma client_ok_id: "client_ok t (Inr (t, u, []))"
  by (simp add: client_ok_def)

lemma quiet_handshake:
  assumes "\<And>k t u. client_ok t (call k t u)"
  shows "quiet t (on_handshake call ec t u)" and "chains 1 (on_handshake call ec t u)"
proof -
  let ?t1 = "t\<lparr>connected := True\<rparr>"
  let ?r = "case connect_callback ?t1 of None \<Rightarrow> Inr (?t1, u, []) | Some k \<Rightarrow> call k ?t1 u"
  have ok: "client_ok ?t1 ?r"
    by (simp add: assms client_ok_id split: option.split)
  have q: "quiet t r = quiet ?t1 r" for r :: "('a, 'b, 'c) outcome"
    by (auto simp: quiet_def split: sum.split)
  show "quiet t (on_handshake call ec t u)"
    using quiet_then_read [OF client_ok_quiet [OF ok], of id]
    by (simp add: on_handshake_def Let_def q) (simp add: quiet_def fail_def)
  show "chains 1 (on_handshake call ec t u)"
    using chains_then_read [OF client_ok_chains [OF ok], of id]
    by (simp add: on_handshake_def Let_def) (simp add: chains_def fail_def)
qed

lemma quiet_read:
  assumes "\<And>k m t u. client_ok t (call k m t u)" and "send_msg_queue t' = send_msg_queue t"
  shows "quiet t (on_read call ec t' u)" and "chains 1 (on_read call ec t' u)"
proof -
  let ?r = "case msg_callback t' of None \<Rightarrow> Inr (t', u, []) | Some k \<Rightarrow> call k (buffer t') t' u"
  have ok: "client_ok t' ?r"
    by (simp add: assms(1) client_ok_id split: option.split)
  have q: "quiet t r = quiet t' r" for r :: "('a, 'b, 'c) outcome"
    by (auto simp: quiet_def assms(2) split: sum.split)
  show "quiet t (on_read call ec t' u)"
    using quiet_then_read [OF client_ok_quiet [OF ok], of "\<lambda>t. t\<lparr>buffer := []\<rparr>"]
    by (simp add: on_read_def q) (simp add: quiet_def fail_def)
  show "chains 1 (on_read call ec t' u)"
    using chains_then_read [OF client_ok_chains [OF ok], of "\<lambda>t. t\<lparr>buffer := []\<rparr>"]
    by (simp add: on_read_def) (simp add: chains_def fail_def)
qed

lemma send_data_inner_inv:
  assumes "ws_inv w" and "strand w = Send_data_inner m # bs"
  shows "ws_inv (finish_tr (send_data_inner m (tr w)) (w\<lparr>strand := bs\<rparr>))"
  using assms
  by (cases "send_msg_queue (tr w)")
    (auto simp: ws_inv_def send_data_inner_def finish_tr_def frame_simps Let_def)

lemma write_done_inv:
  assumes "ws_inv w" and "filter is_write_op (ops w) = Op_write m # ps"
  shows "ws_inv (write_complete ec m w)"
proof -
  have nf: "\<not> write_failed w" using assms by (auto simp: ws_inv_def)
  with assms obtain q where q: "send_msg_queue (tr w) = m # q" and ps: "ps = []"
    by (cases "send_msg_queue (tr w)") (auto simp: ws_inv_def)
  have "filter is_write_op (remove1 (Op_write m) (ops w)) = []"
    using assms(2) ps by (simp add: filter_remove1)
  with assms(1) nf q show ?thesis
    by (cases q) (auto simp: ws_inv_def write_complete_def on_write_def finish_tr_def frame_simps Let_def
        fail_def)
qed

lemma ws_inv_init: "send_msg_queue t = [] \<Longrightarrow> ws_inv (init_world t u)"
  by (simp add: ws_inv_def init_world_def)

lemma chain_inv_init: "chain_inv (init_world t u)"
  by (simp add: chain_inv_def init_world_def)

section \<open>Guarantees to every owner that keeps the interface\<close>

context ws_client
begin

lemma step_shape:
  assumes "ws_exec cl e w = Some w'"
  obtains (quiet) r v where "w' = finish r v" "quiet (tr w) r" "same_io v w"
  | (send) m bs where "strand w = Send_data_inner m # bs"
      "w' = finish_tr (send_data_inner m (tr w)) (w\<lparr>strand := bs\<rparr>)"
  | (written) ec m ps where "filter is_write_op (ops w) = Op_write m # ps"
      "w' = write_complete ec m w"
proof -
  from assms have do: "ws_do cl e w = Some w'" by (simp add: ws_exec_def split: if_splits)
  note [simp] = finish_tr_eq_finish
  have by_op: thesis
    if "map_option (finish r) (take_op p w) = Some w'" "quiet (tr w) r" "\<not> is_write_op p" for p r
  proof -
    from that(1) obtain v where v: "take_op p w = Some v" "w' = finish r v" by auto
    with that(3) have "same_io v w" by (auto simp: take_op_same_io)
    with v(2) that(2) show thesis by (rule quiet)
  qed
  have here: thesis if "w' = finish r v" "quiet (tr w) r" "same_io v w" for r v
    using that by (rule quiet)
  show thesis
  proof (cases e)
    case (Run_task b)
    then obtain t bs where t: "strand w = t # bs"
      and w': "w' = finish_tr (run_task b t (tr w)) (w\<lparr>strand := bs\<rparr>)"
      using do by (auto split: list.splits)
    show thesis
    proof (cases t)
      case (Send_data_inner m)
      with t w' show thesis by (intro send) auto
    next
      case Close_task
      with t w' show thesis
        by (intro here [OF _ quiet_close_task]) (auto simp: same_io_def)
    qed
  next
    case (Resolved ec rs)
    with do show thesis
      by (cases "take_op Op_resolve w") (auto intro!: by_op [of _ Op_resolve] quiet_resolve)
  next
    case (Tcp_connected ec)
    with do show thesis
      by (cases "take_op Op_connect w") (auto intro!: by_op [of _ Op_connect] quiet_connect)
  next
    case (Handshaken ec)
    with do show thesis
      by (cases "take_op Op_handshake w")
        (auto intro!: by_op [of _ Op_handshake] quiet_handshake connect_law)
  next
    case (Read_done ec data)
    with do show thesis
      by (cases "take_op Op_read w") (auto intro!: by_op [of _ Op_read] quiet_read msg_law)
  next
    case (Write_done ec)
    with do obtain m ps where "filter is_write_op (ops w) = Op_write m # ps"
      by (auto split: list.splits async_op.splits)
    with do Write_done show thesis by (intro written) auto
  next
    case (Closed ec)
    with do show thesis
      by (cases "take_op Op_close w") (auto intro!: by_op [of _ Op_close] quiet_on_close)
  next
    case Timer_expires
    with do show thesis
      by (intro here [of "Inr (tr w, usr w, [])" w'])
        (auto simp: finish_def quiet_def same_io_def split: nat.splits)
  next
    case Timer_handler
    with do show thesis
      by (auto simp: same_io_def split: list.splits
          intro!: here client_ok_quiet timer_law)
  next
    case (Api c b)
    with do show thesis
      by (intro here [of _ w]) (auto simp: same_io_def intro!: client_ok_quiet api_law)
  qed
qed

lemma step_inv:
  assumes "ws_exec cl e w = Some w'" and "ws_inv w"
  shows "ws_inv w'"
  using assms(1)
proof (cases rule: step_shape)
  case (quiet r v)
  with assms(2) show ?thesis by (auto intro!: ws_inv_finish simp: same_io_inv same_io_tr)
next
  case (send m bs)
  with assms(2) show ?thesis by (auto intro: send_data_inner_inv)
next
  case (written ec m ps)
  with assms(2) show ?thesis by (auto intro: write_done_inv)
qed

text \<open>
  After a failed write nothing more is handed to the stream, whatever happens next: the failed
  message keeps the front of the queue and every later one waits behind it.
\<close>

lemma step_stall:
  assumes "ws_exec cl e w = Some w'" and "ws_inv w" and "write_failed w"
  shows "write_failed w' \<and> wire w' = wire w \<and> acked w' = acked w"
  using assms(1)
proof (cases rule: step_shape)
  case (quiet r v)
  with assms(3) show ?thesis
    by (auto simp: finish_def quiet_def same_io_def frame_simps split: sum.splits)
next
  case (send m bs)
  from assms(2,3) have "send_msg_queue (tr w) \<noteq> []" by (simp add: ws_inv_def)
  then obtain a q where "send_msg_queue (tr w) = a # q" by (auto simp: neq_Nil_conv)
  with send assms(3) show ?thesis
    by (auto simp: finish_tr_def send_data_inner_def frame_simps)
next
  case (written ec m ps)
  with assms(2,3) show ?thesis by (simp add: ws_inv_def)
qed

lemma step_chain:
  assumes "ws_exec cl e w = Some w'" and "chain_inv w"
  shows "chain_inv w'"
proof -
  from assms(1) have do: "ws_do cl e w = Some w'" by (simp add: ws_exec_def split: if_splits)
  have le: "length (filter is_chain_op (ops w)) \<le> length (queries w)"
    using assms(2) by (simp add: chain_inv_def)
  note [simp] = finish_tr_eq_finish
  have minus: "length (filter is_chain_op (ops v)) + 1 \<le> length (queries v)"
    if "take_op p w = Some v" "is_chain_op p" for p v
    using le take_op_chain [OF that] take_op_queries [OF that(1)] by simp
  show ?thesis
  proof (cases e)
    case (Run_task b)
    then obtain t bs where "w' = finish_tr (run_task b t (tr w)) (w\<lparr>strand := bs\<rparr>)"
      using do by (auto split: list.splits)
    then show ?thesis using le
      by (cases t) (auto simp: chains_def step_defs Let_def
          intro!: chain_inv_finish [where n = 0])
  next
    case (Resolved ec rs)
    with do show ?thesis
      by (auto simp: chains_def step_defs
          intro!: chain_inv_finish [where n = 1] minus [of Op_resolve])
  next
    case (Tcp_connected ec)
    with do show ?thesis
      by (auto simp: chains_def step_defs
          intro!: chain_inv_finish [where n = 1] minus [of Op_connect])
  next
    case (Handshaken ec)
    with do show ?thesis
      by (auto intro!: chain_inv_finish [where n = 1] minus [of Op_handshake]
          quiet_handshake connect_law)
  next
    case (Read_done ec data)
    with do show ?thesis
      by (auto intro!: chain_inv_finish [where n = 1] minus [of Op_read]
          quiet_read(2) [OF msg_law refl])
  next
    case (Write_done ec)
    with do obtain m ps where "filter is_write_op (ops w) = Op_write m # ps"
      by (auto split: list.splits async_op.splits)
    with do Write_done le show ?thesis
      by (auto simp: write_complete_def chains_def step_defs Let_def filter_remove1_not
          intro!: chain_inv_finish [where n = 0])
  next
    case (Closed ec)
    with do le show ?thesis
      by (auto simp: chains_def step_defs take_op_no_chain take_op_queries
          intro!: chain_inv_finish [where n = 0])
  next
    case Timer_expires
    with do assms(2) show ?thesis by (auto simp: chain_inv_def split: nat.splits)
  next
    case Timer_handler
    with do le show ?thesis
      by (auto split: list.splits
          intro!: chain_inv_finish [where n = 0] client_ok_chains timer_law)
  next
    case (Api c b)
    with do le show ?thesis
      by (auto intro!: chain_inv_finish [where n = 0] client_ok_chains api_law)
  qed
qed

lemma reach_inv: "ws_reach cl w w' \<Longrightarrow> ws_inv w \<Longrightarrow> ws_inv w'"
  by (induction rule: ws_reach.induct) (auto intro: step_inv)

lemma reach_chain: "ws_reach cl w w' \<Longrightarrow> chain_inv w \<Longrightarrow> chain_inv w'"
  by (induction rule: ws_reach.induct) (auto intro: step_chain)

lemma reach_stall:
  assumes "ws_reach cl w w'" and "ws_inv w" and "write_failed w"
  shows "write_failed w' \<and> wire w' = wire w \<and> acked w' = acked w"
  using assms
proof (induction rule: ws_reach.induct)
  case reach_refl
  then show ?case by simp
next
  case (reach_step v e v')
  from reach_step.hyps(1) reach_step.prems(1) have "ws_inv v" by (rule reach_inv)
  with step_stall [OF reach_step.hyps(2)] reach_step.IH reach_step.prems show ?case by simp
qed

text \<open>A write that succeeds lets the queue advance by one message.\<close>

lemma write_ok_step:
  assumes "ws_inv w" and "dead w = None" and "\<not> write_failed w"
    and "send_msg_queue (tr w) = m # q"
  obtains w' where "ws_exec cl (Write_done 0) w = Some w'" "dead w' = None"
    "\<not> write_failed w'" "send_msg_queue (tr w') = q" "strand w' = strand w"
    "accepted w' = accepted w"
proof -
  from assms have "filter is_write_op (ops w) = [Op_write m]" by (simp add: ws_inv_def)
  with assms(2) have "ws_exec cl (Write_done 0) w = Some (write_complete 0 m w)"
    by (simp add: ws_exec_def)
  moreover have "posts (snd (on_write 0 (tr w))) = []" by (simp add: on_write_def Let_def)
  ultimately show thesis
    using assms(2-4)
    by (intro that [of "write_complete 0 m w"])
      (auto simp: write_complete_def finish_tr_def frame_simps on_write_def Let_def)
qed

lemma post_step:
  assumes "dead w = None" and "\<not> write_failed w" and "strand w = b # bs"
    and "send_msg_queue (tr w) = []"
  obtains w' where "ws_exec cl (Run_task True) w = Some w'" "dead w' = None"
    "\<not> write_failed w'" "length (send_msg_queue (tr w')) \<le> 1" "strand w' = bs"
    "accepted w' = accepted w"
proof -
  let ?w' = "finish_tr (run_task True b (tr w)) (w\<lparr>strand := bs\<rparr>)"
  have "ws_exec cl (Run_task True) w = Some ?w'" using assms by (simp add: ws_exec_def)
  then show thesis
    using assms
    by (intro that [of ?w'])
      (cases b; auto simp: finish_tr_def frame_simps send_data_inner_def close_task_def Let_def)+
qed

text \<open>
  While no write has failed, letting posted bodies run and writes succeed delivers every
  accepted message: nothing is lost or stuck behind the queue.
\<close>

lemma drain:
  assumes "ws_inv w" and "dead w = None" and "\<not> write_failed w"
  shows "\<exists>es w'. ws_run cl es w = Some w' \<and> accepted w' = accepted w \<and>
           acked w' = accepted w \<and> strand w' = []"
  using assms
proof (induction "2 * length (strand w) + length (send_msg_queue (tr w))" arbitrary: w
    rule: less_induct)
  case less
  note again = less.hyps
  have next_step: ?case
    if "ws_exec cl e w = Some v" "dead v = None" "\<not> write_failed v" "accepted v = accepted w"
      "2 * length (strand v) + length (send_msg_queue (tr v))
        < 2 * length (strand w) + length (send_msg_queue (tr w))" for e v
  proof -
    from that(1) less.prems(1) have "ws_inv v" by (rule step_inv)
    with again [OF that(5)] that(2,3) obtain es w' where
      "ws_run cl es v = Some w'" "accepted w' = accepted v" "acked w' = accepted v"
      "strand w' = []" by auto
    with that(1,4) show ?thesis by (intro exI [of _ "e # es"] exI [of _ w']) simp
  qed
  show ?case
  proof (cases "send_msg_queue (tr w)")
    case (Cons m q)
    from less.prems Cons obtain v where v: "ws_exec cl (Write_done 0) w = Some v" "dead v = None"
      "\<not> write_failed v" "send_msg_queue (tr v) = q" "strand v = strand w"
      "accepted v = accepted w" by (rule write_ok_step)
    from Cons v(4,5) show ?thesis by (intro next_step [OF v(1,2,3,6)]) simp
  next
    case Nil
    show ?thesis
    proof (cases "strand w")
      case (Cons b bs)
      from less.prems(2,3) Cons Nil obtain v where v: "ws_exec cl (Run_task True) w = Some v"
        "dead v = None" "\<not> write_failed v" "length (send_msg_queue (tr v)) \<le> 1"
        "strand v = bs" "accepted v = accepted w" by (rule post_step)
      from Cons Nil v(4,5) show ?thesis by (intro next_step [OF v(1,2,3,6)]) simp
    next
      case Nil': Nil
      with Nil less.prems(1) show ?thesis
        by (intro exI [of _ "[]"] exI [of _ w]) (simp add: ws_inv_def)
    qed
  qed
qed

lemma one_write:
  assumes "ws_reach cl w w'" and "ws_inv w"
  shows "length (filter is_write_op (ops w')) \<le> 1"
  using reach_inv [OF assms] by (simp add: ws_inv_def)

end

end
