(* ===== verification/Ws_Timer.thy ===== *)
theory Ws_Timer
  imports Ws_Client
begin

text \<open>
  Owners that keep at most one timer wait pending: the interface of \<open>Ws_Client\<close> extended by
  what every request list of the owner does to the number of waits.
\<close>

definition one_wait :: "('k, 'u, 'x) outcome \<Rightarrow> bool" where
  "one_wait r =
     (case r of Inl _ \<Rightarrow> True
      | Inr (_, _, es) \<Rightarrow> waits_after es 0 \<le> Suc 0 \<and> waits_after es (Suc 0) \<le> Suc 0)"

locale timer_client = ws_client cl
  for cl :: "('c, 'k, 'u, 'x) client" +
  assumes connect_waits: "one_wait (call_connect cl k t u)"
    and msg_waits: "one_wait (call_msg cl k m t u)"
    and timer_waits_law: "one_wait (call_timer cl ec t u)"
    and api_waits: "one_wait (call_api cl c b t u)"

lemma one_wait_finish:
  assumes "timer_waits w \<le> Suc 0" and "one_wait r"
  shows "timer_waits (finish r w) \<le> Suc 0"
proof -
  from assms(1) consider "timer_waits w = 0" | "timer_waits w = Suc 0" by linarith
  then show ?thesis
    using assms(2) by cases (auto simp: finish_def one_wait_def frame_simps split: sum.splits)
qed

lemma one_wait_id: "one_wait (Inr (t, u, []))"
  by (simp add: one_wait_def)

lemma one_wait_then_read:
  "one_wait r \<Longrightarrow> one_wait (bind_result r (\<lambda>(t2, u2, es). Inr (g t2, u2, es @ do_read)))"
  by (cases r) (auto simp: one_wait_def do_read_def)

lemma one_wait_handshake:
  assumes "\<And>k t u. one_wait (call k t u)"
  shows "one_wait (on_handshake call ec t u)"
proof -
  let ?t1 = "t\<lparr>connected := True\<rparr>"
  have "one_wait (case connect_callback ?t1 of None \<Rightarrow> Inr (?t1, u, []) | Some k \<Rightarrow> call k ?t1 u)"
    by (simp add: assms one_wait_id split: option.split)
  from one_wait_then_read [OF this, of id] show ?thesis
    by (simp add: on_handshake_def Let_def) (simp add: one_wait_def fail_def)
qed

lemma one_wait_read:
  assumes "\<And>k m t u. one_wait (call k m t u)"
  shows "one_wait (on_read call ec t u)"
proof -
  have "one_wait (case msg_callback t of None \<Rightarrow> Inr (t, u, []) | Some k \<Rightarrow> call k (buffer t) t u)"
    by (simp add: assms one_wait_id split: option.split)
  from one_wait_then_read [OF this, of "\<lambda>t. t\<lparr>buffer := []\<rparr>"] show ?thesis
    by (simp add: on_read_def) (simp add: one_wait_def fail_def)
qed

lemma take_op_waits: "take_op p w = Some v \<Longrightarrow> timer_waits v = timer_waits w"
  by (auto simp: take_op_def split: if_splits)

context timer_client
begin

lemma step_waits:
  assumes "ws_exec cl e w = Some w'" and "timer_waits w \<le> Suc 0"
  shows "timer_waits w' \<le> Suc 0"
proof -
  from assms(1) have do: "ws_do cl e w = Some w'" by (simp add: ws_exec_def split: if_splits)
  note [simp] = finish_tr_eq_finish take_op_waits
  show ?thesis
  proof (cases e)
    case (Run_task b)
    then obtain t bs where "w' = finish_tr (run_task b t (tr w)) (w\<lparr>strand := bs\<rparr>)"
      using do by (auto split: list.splits)
    with assms(2) show ?thesis
      by (cases t) (auto simp: one_wait_def step_defs Let_def intro!: one_wait_finish)
  next
    case (Handshaken ec)
    with do assms(2) show ?thesis
      by (auto intro!: one_wait_finish one_wait_handshake connect_waits)
  next
    case (Read_done ec data)
    with do assms(2) show ?thesis by (auto intro!: one_wait_finish one_wait_read msg_waits)
  next
    case (Write_done ec)
    with do obtain m where "w' = write_complete ec m w"
      by (auto split: list.splits async_op.splits)
    with assms(2) show ?thesis
      by (auto simp: write_complete_def one_wait_def step_defs Let_def intro!: one_wait_finish)
  next
    case Timer_expires
    with do assms(2) show ?thesis by (auto split: nat.splits)
  next
    case Timer_handler
    with do assms(2) show ?thesis
      by (auto split: list.splits intro!: one_wait_finish timer_waits_law)
  next
    case (Api c b)
    with do assms(2) show ?thesis by (auto intro!: one_wait_finish api_waits)
  qed (use do assms(2) in \<open>auto simp: one_wait_def step_defs intro!: one_wait_finish\<close>)
qed

lemma reach_waits:
  "ws_reach cl w w' \<Longrightarrow> timer_waits w \<le> Suc 0 \<Longrightarrow> timer_waits w' \<le> Suc 0"
  by (induction rule: ws_reach.induct) (auto intro: step_waits)

end

end
