(* ===== verification/Janus_Session.thy ===== *)
theory Janus_Session
  imports Ws_Timer Json_Parser Json_Dump
begin

text \<open>
  \<open>JanusSession\<close> of \<open>11_rtc_janus/janus_session.{h,cc}\<close> as an owner of the transport. Its state is
  the session id and the map from transaction to response callback; the only callback the code
  stores is the one of the \<open>create\<close> request. Messages are parsed and printed by the models of
  the JSON library that the program uses.

  What the session takes from code that is not in the repository is the record \<open>env\<close>: the
  string that the n-th call of \<open>rtc::CreateRandomString\<close> returns, and the conversions between
  \<open>double\<close> and text.
\<close>

record 'f env =
  random_string :: "nat \<Rightarrow> string"
  strtod :: "string \<Rightarrow> 'f option"
  trunc_float :: "'f \<Rightarrow> int"
  ftoa :: "'f \<Rightarrow> string"

datatype response_callback = Empty_function | Create_response

datatype session_callback = Cb_on_connect | Cb_on_msg

datatype session_api = Init | Destory

record session =
  session_id :: int
  response_callback_map :: "(string, response_callback) smap"
  random_calls :: nat

type_synonym session_outcome = "(session_callback, session, json_error) outcome"

definition keepalive_interval_seconds :: nat where
  "keepalive_interval_seconds = 5"

text \<open>The constructor: members, callbacks, and the transport it creates.\<close>

definition new_session :: session where
  "new_session = \<lparr>session_id = -1, response_callback_map = [], random_calls = 0\<rparr>"

definition session_transport :: "string \<Rightarrow> i16 \<Rightarrow> session_callback transport" where
  "session_transport h p =
     set_msg_callback Cb_on_msg
       (set_connect_callback Cb_on_connect (new_transport h p ''janus-protocol''))"

definition next_random :: "'f env \<Rightarrow> session \<Rightarrow> string \<times> session" where
  "next_random env u =
     (random_string env (random_calls u), u\<lparr>random_calls := Suc (random_calls u)\<rparr>)"

text \<open>An initialiser list of key-value pairs builds an object, which keeps its keys in order.\<close>

definition json_object :: "(string \<times> 'f json) list \<Rightarrow> 'f json" where
  "json_object ps = JObject (fold (\<lambda>(k, v) m. map_put k v m) ps [])"

definition create_request :: "string \<Rightarrow> 'f json" where
  "create_request tsd =
     json_object [(''janus'', JString ''create''), (''transaction'', JString tsd)]"

definition keepalive_request :: "int \<Rightarrow> string \<Rightarrow> 'f json" where
  "keepalive_request i tsd =
     json_object [(''janus'', JString ''keepalive''), (''session_id'', JInteger i),
                  (''transaction'', JString tsd)]"

text \<open>Log the text of a request and send it.\<close>

definition log_and_send ::
  "'f env \<Rightarrow> 'f json \<Rightarrow> session_callback transport \<Rightarrow> (json_error, effect list) result" where
  "log_and_send env j t =
     bind_result (dump (ftoa env) j) (\<lambda>s. Inr (Log LS_INFO [Txt s] # send_msg s t))"

definition session_on_connect ::
  "'f env \<Rightarrow> session_callback transport \<Rightarrow> session \<Rightarrow> session_outcome" where
  "session_on_connect env t u =
     (let (tsd, u1) = next_random env u;
          u2 = u1\<lparr>response_callback_map :=
                  map_put tsd Create_response (response_callback_map u1)\<rparr> in
      bind_result (log_and_send env (create_request tsd) t)
        (\<lambda>es. Inr (t, u2, Log LS_INFO [Txt ''>>>>> connect janus''] # es)))"

definition keep_alive :: "effect list" where
  "keep_alive = [Timer_expires_from_now keepalive_interval_seconds, Timer_async_wait]"

text \<open>The lambda that \<open>OnConnect\<close> stores for the \<open>create\<close> transaction.\<close>

definition create_response ::
  "'f env \<Rightarrow> 'f json \<Rightarrow> session \<Rightarrow> (json_error, session \<times> effect list) result" where
  "create_response env res u =
     bind_result (json_value res ''janus'' []) (\<lambda>success.
       if success = ''success'' then
         bind_result (json_at res ''data'') (\<lambda>data.
         bind_result (json_at data ''id'') (\<lambda>ident.
         bind_result (get_arithmetic_value (trunc_float env) ident) (\<lambda>i.
           Inr (u\<lparr>session_id := i\<rparr>,
             Log LS_INFO [Txt ''>>>>> session_id:'', Num i] # keep_alive))))
       else if success = ''error'' then
         bind_result (json_at res ''error'') (\<lambda>err.
         bind_result (json_at err ''code'') (\<lambda>jcode.
         bind_result (get_int32 (trunc_float env) jcode) (\<lambda>code.
         bind_result (json_at err ''reason'') (\<lambda>jreason.
         bind_result (get_string jreason) (\<lambda>reason.
           Inr (u, [Log LS_ERROR
             [Txt ''create janus session failed, code:'', Num code,
              Txt '', reason:'', Txt reason]]))))))
       else Inr (u, []))"

fun run_response ::
  "'f env \<Rightarrow> response_callback \<Rightarrow> 'f json \<Rightarrow> session \<Rightarrow>
     (json_error, session \<times> effect list) result" where
  "run_response env Empty_function res u = Inr (u, [])"
| "run_response env Create_response res u = create_response env res u"

definition session_on_msg ::
  "'f env \<Rightarrow> string \<Rightarrow> session_callback transport \<Rightarrow> session \<Rightarrow> session_outcome" where
  "session_on_msg env msg t u =
     (let received = Log LS_INFO [Txt ''>>>>> receive msg:'', Txt (chr 10 # msg)] in
      bind_result (json_parse (strtod env) msg) (\<lambda>message.
      bind_result (json_value message ''transaction'' []) (\<lambda>tsd.
        if tsd \<noteq> [] then
          (case map_of (response_callback_map u) tsd of
             None \<Rightarrow> Inr (t, u, [received])
           | Some callback \<Rightarrow>
               bind_result
                 (run_response env callback message
                   (u\<lparr>response_callback_map := map_erase tsd (response_callback_map u)\<rparr>))
                 (\<lambda>(u', es). Inr (t, u', received # es)))
        else Inr (t, u, [received]))))"

definition do_keep_alive ::
  "'f env \<Rightarrow> session_callback transport \<Rightarrow> session \<Rightarrow>
     (json_error, session \<times> effect list) result" where
  "do_keep_alive env t u =
     (if session_id u = -1 then Inr (u, [])
      else
        let (tsd, u1) = next_random env u in
        bind_result (log_and_send env (keepalive_request (session_id u) tsd) t)
          (\<lambda>es. Inr (u1, es)))"

text \<open>The timer's completion handler.\<close>

definition keep_alive_handler ::
  "'f env \<Rightarrow> error_code \<Rightarrow> session_callback transport \<Rightarrow> session \<Rightarrow> session_outcome" where
  "keep_alive_handler env ec t u =
     (if ec \<noteq> 0 then Inr (t, u, [])
      else bind_result (do_keep_alive env t u) (\<lambda>(u1, es). Inr (t, u1, es @ keep_alive)))"

definition session_init :: "session_callback transport \<Rightarrow> effect list" where
  "session_init t = connect t"

definition session_destory :: "bool \<Rightarrow> effect list" where
  "session_destory is_open = Timer_cancel # disconnect is_open"

fun session_call ::
  "session_api \<Rightarrow> bool \<Rightarrow> session_callback transport \<Rightarrow> session \<Rightarrow> session_outcome" where
  "session_call Init is_open t u = Inr (t, u, session_init t)"
| "session_call Destory is_open t u = Inr (t, u, session_destory is_open)"

fun session_connect_callback ::
  "'f env \<Rightarrow> session_callback \<Rightarrow> session_callback transport \<Rightarrow> session \<Rightarrow> session_outcome" where
  "session_connect_callback env Cb_on_connect t u = session_on_connect env t u"
| "session_connect_callback env Cb_on_msg t u = Inr (t, u, [])"

fun session_msg_callback ::
  "'f env \<Rightarrow> session_callback \<Rightarrow> string \<Rightarrow> session_callback transport \<Rightarrow> session \<Rightarrow>
     session_outcome" where
  "session_msg_callback env Cb_on_msg m t u = session_on_msg env m t u"
| "session_msg_callback env Cb_on_connect m t u = Inr (t, u, [])"

definition session_client ::
  "'f env \<Rightarrow> (session_api, session_callback, session, json_error) client" where
  "session_client env =
     \<lparr>call_connect = session_connect_callback env, call_msg = session_msg_callback env,
      call_timer = keep_alive_handler env, call_api = session_call\<rparr>"

type_synonym janus_world = "(session_callback, session, json_error) world"

definition janus_init :: "string \<Rightarrow> i16 \<Rightarrow> janus_world" where
  "janus_init h p = init_world (session_transport h p) new_session"

section \<open>The session keeps the transport's interface\<close>

lemma keep_alive_client: "list_all is_client_effect keep_alive"
  by (simp add: keep_alive_def)

lemma log_and_send_client: "log_and_send env j t = Inr es \<Longrightarrow> list_all is_client_effect es"
  by (auto simp: log_and_send_def bind_result_Inr_iff list_all_iff send_msg_client)

lemma run_response_client: "run_response env k res u = Inr (u', es) \<Longrightarrow> list_all is_client_effect es"
  by (cases k) (auto simp: create_response_def bind_result_Inr_iff keep_alive_def split: if_splits)

lemma session_on_connect_ok: "client_ok t (session_on_connect env t u)"
  by (auto simp: client_ok_def session_on_connect_def next_random_def bind_result_def
      split: sum.splits dest: log_and_send_client)

lemma session_on_msg_ok: "client_ok t (session_on_msg env m t u)"
  by (auto simp: client_ok_def session_on_msg_def bind_result_def Let_def
      split: sum.splits option.splits dest: run_response_client)

lemma keep_alive_handler_ok: "client_ok t (keep_alive_handler env ec t u)"
  using keep_alive_client
  by (auto simp: client_ok_def keep_alive_handler_def do_keep_alive_def next_random_def
      bind_result_def split: sum.splits if_splits dest: log_and_send_client)

lemma session_call_ok: "client_ok t (session_call c b t u)"
  by (cases c) (auto simp: client_ok_def session_init_def session_destory_def list_all_iff
      connect_client disconnect_client)

interpretation janus: ws_client "session_client env" for env
proof unfold_locales
  fix t k u ec c b m
  show "client_ok t (call_connect (session_client env) k t u)"
    by (cases k) (simp_all add: session_client_def session_on_connect_ok client_ok_id)
  show "client_ok t (call_msg (session_client env) k m t u)"
    by (cases k) (simp_all add: session_client_def session_on_msg_ok client_ok_id)
  show "client_ok t (call_timer (session_client env) ec t u)"
    by (simp add: session_client_def keep_alive_handler_ok)
  show "client_ok t (call_api (session_client env) c b t u)"
    by (simp add: session_client_def session_call_ok)
qed

text \<open>Every list of requests of the session cancels before it waits, or does neither.\<close>

lemma send_msg_waits [simp]: "waits_after (send_msg m t) n = n"
  by (simp add: send_msg_def)

lemma connect_waits_after [simp]: "waits_after (connect t) n = n"
  and disconnect_waits_after [simp]: "waits_after (disconnect b) n = n"
  by (simp_all add: connect_def disconnect_def)

lemma keep_alive_waits [simp]: "waits_after keep_alive n = Suc 0"
  by (simp add: keep_alive_def)

lemma log_and_send_waits: "log_and_send env j t = Inr es \<Longrightarrow> waits_after es n = n"
  by (auto simp: log_and_send_def bind_result_Inr_iff)

lemma run_response_waits:
  "run_response env k res u = Inr (u', es) \<Longrightarrow> waits_after es n = n \<or> waits_after es n = Suc 0"
  by (cases k) (auto simp: create_response_def bind_result_Inr_iff split: if_splits)

lemma session_on_connect_waits: "one_wait (session_on_connect env t u)"
  using log_and_send_waits [of env _ _ _ 0] log_and_send_waits [of env _ _ _ "Suc 0"]
  by (fastforce simp: one_wait_def session_on_connect_def next_random_def bind_result_def
      split: sum.splits)

lemma session_on_msg_waits: "one_wait (session_on_msg env m t u)"
  using run_response_waits [of env _ _ _ _ _ 0] run_response_waits [of env _ _ _ _ _ "Suc 0"]
  by (fastforce simp: one_wait_def session_on_msg_def bind_result_def Let_def
      split: sum.splits option.splits)

lemma keep_alive_handler_waits: "one_wait (keep_alive_handler env ec t u)"
  by (auto simp: one_wait_def keep_alive_handler_def bind_result_def split: sum.splits)

lemma session_call_waits: "one_wait (session_call c b t u)"
  by (cases c) (simp_all add: one_wait_def session_init_def session_destory_def)

interpretation janus_timer: timer_client "session_client env" for env
proof unfold_locales
  fix t k u ec c b m
  show "one_wait (call_connect (session_client env) k t u)"
    by (cases k) (simp_all add: session_client_def session_on_connect_waits one_wait_id)
  show "one_wait (call_msg (session_client env) k m t u)"
    by (cases k) (simp_all add: session_client_def session_on_msg_waits one_wait_id)
  show "one_wait (call_timer (session_client env) ec t u)"
    by (simp add: session_client_def keep_alive_handler_waits)
  show "one_wait (call_api (session_client env) c b t u)"
    by (simp add: session_client_def session_call_waits)
qed

end
