(* ===== verification/Janus_Owner.thy ===== *)
theory Janus_Owner
  imports Janus_Session Json_Valid
begin

text \<open>
  What stays true of the session's own state in every run, and the runs the properties of the
  client are shown on.
\<close>

section \<open>An invariant of the owner's state\<close>

locale owner_inv =
  fixes cl :: "('c, 'k, 'u, 'x) client" and I :: "'u \<Rightarrow> bool"
  assumes connect_keeps: "I u \<Longrightarrow> call_connect cl k t u = Inr (t', u', es) \<Longrightarrow> I u'"
    and msg_keeps: "I u \<Longrightarrow> call_msg cl k m t u = Inr (t', u', es) \<Longrightarrow> I u'"
    and timer_keeps: "I u \<Longrightarrow> call_timer cl ec t u = Inr (t', u', es) \<Longrightarrow> I u'"
    and api_keeps: "I u \<Longrightarrow> call_api cl c b t u = Inr (t', u', es) \<Longrightarrow> I u'"
begin

lemma finish_keeps:
  assumes "I (usr w)" and "\<And>t u es. r = Inr (t, u, es) \<Longrightarrow> I u"
  shows "I (usr (finish r w))"
  using assms by (cases r) (auto simp: finish_def frame_simps)

lemma step_keeps:
  assumes "ws_exec cl e w = Some w'" and "I (usr w)"
  shows "I (usr w')"
proof -
  from assms(1) have do: "ws_do cl e w = Some w'" by (simp add: ws_exec_def split: if_splits)
  have op: "usr v = usr w" if "take_op p w = Some v" for p v
    using that by (auto simp: take_op_def split: if_splits)
  show ?thesis
  proof (cases e)
    case (Handshaken ec)
    with do assms(2) show ?thesis
      by (auto intro!: finish_keeps simp: op on_handshake_def Let_def bind_result_Inr_iff
          split: if_splits option.splits dest: connect_keeps)
  next
    case (Read_done ec data)
    with do assms(2) show ?thesis
      by (auto intro!: finish_keeps simp: op on_read_def bind_result_Inr_iff
          split: if_splits option.splits dest: msg_keeps)
  next
    case Timer_handler
    with do assms(2) show ?thesis
      by (auto intro!: finish_keeps split: list.splits dest: timer_keeps)
  next
    case (Api c b)
    with do assms(2) show ?thesis by (auto intro!: finish_keeps dest: api_keeps)
  qed (use do assms(2) op in \<open>auto simp: finish_tr_def frame_simps write_complete_def
      split: list.splits nat.splits async_op.splits\<close>)
qed

lemma reach_keeps: "ws_reach cl w w' \<Longrightarrow> I (usr w) \<Longrightarrow> I (usr w')"
  by (induction rule: ws_reach.induct) (auto intro: step_keeps)

end

text \<open>The map of callbacks is ordered and holds no empty function.\<close>

definition session_ok :: "session \<Rightarrow> bool" where
  "session_ok u \<longleftrightarrow>
     map_ok (response_callback_map u) \<and>
     (\<forall>(k, c) \<in> set (response_callback_map u). c = Create_response)"

lemma set_map_erase: "p \<in> set (map_erase k m) \<Longrightarrow> p \<in> set m"
  by (induction k m rule: map_erase.induct) (auto split: if_splits)

lemma create_response_frame:
  "create_response env res u = Inr (u', es) \<Longrightarrow>
    response_callback_map u' = response_callback_map u \<and> random_calls u' = random_calls u"
  by (auto simp: create_response_def bind_result_Inr_iff split: if_splits)

lemma run_response_frame:
  "run_response env k res u = Inr (u', es) \<Longrightarrow>
    response_callback_map u' = response_callback_map u \<and> random_calls u' = random_calls u"
  by (cases k) (auto dest: create_response_frame)

lemma session_ok_erase: "session_ok u \<Longrightarrow>
    session_ok (u\<lparr>response_callback_map := map_erase k (response_callback_map u)\<rparr>)"
  by (auto simp: session_ok_def map_ok_erase dest!: set_map_erase)

lemma session_ok_cong:
  "response_callback_map u = response_callback_map v \<Longrightarrow> session_ok u = session_ok v"
  by (simp add: session_ok_def)

lemma session_ok_msg:
  assumes "session_ok u" and "session_on_msg env m t u = Inr (t', u', es)"
  shows "session_ok u'"
proof -
  from assms(2) consider "u' = u"
    | tsd where "response_callback_map u' = map_erase tsd (response_callback_map u)"
    by (auto simp: session_on_msg_def Let_def bind_result_Inr_iff
        split: if_splits option.splits dest!: run_response_frame)
  then show ?thesis
  proof cases
    case 2
    with session_ok_erase [OF assms(1)] show ?thesis
      by (simp add: session_ok_def)
  qed (simp add: assms(1))
qed

interpretation janus_owner: owner_inv "session_client env" session_ok for env
proof unfold_locales
  fix u u' :: session and t t' :: "session_callback transport" and k m es ec c b
  assume ok: "session_ok u"
  have put: "session_ok (u\<lparr>random_calls := n, response_callback_map :=
      map_put tsd Create_response (response_callback_map u)\<rparr>)" for n tsd
    using ok by (auto simp: session_ok_def map_ok_put dest!: set_map_put)
  show "session_ok u'" if "call_connect (session_client env) k t u = Inr (t', u', es)"
    using that ok put
    by (cases k) (auto simp: session_client_def session_on_connect_def next_random_def
        bind_result_Inr_iff)
  show "session_ok u'" if "call_msg (session_client env) k m t u = Inr (t', u', es)"
    using that ok by (cases k) (auto simp: session_client_def intro: session_ok_msg)
  show "session_ok u'" if "call_timer (session_client env) ec t u = Inr (t', u', es)"
    using that ok
    by (auto simp: session_client_def keep_alive_handler_def do_keep_alive_def next_random_def
        bind_result_Inr_iff session_ok_def split: if_splits)
  show "session_ok u'" if "call_api (session_client env) c b t u = Inr (t', u', es)"
    using that ok by (cases c) (auto simp: session_client_def)
qed

lemma session_ok_init: "session_ok (usr (janus_init h p))"
  by (simp add: session_ok_def janus_init_def init_world_def new_session_def)

section \<open>Evaluating runs\<close>

text \<open>
  \<open>rtc::CreateRandomString\<close> draws from letters, digits, \<open>+\<close> and \<open>/\<close>; its strings need no
  escaping.
\<close>

definition plain_randoms :: "'f env \<Rightarrow> bool" where
  "plain_randoms env \<longleftrightarrow> (\<forall>n. list_all plain_char (random_string env n))"

definition quoted :: "string \<Rightarrow> string" where
  "quoted s = CHR 0x22 # s @ [CHR 0x22]"

definition create_text :: "string \<Rightarrow> string" where
  "create_text tsd = ''{'' @ quoted ''janus'' @ '':'' @ quoted ''create'' @ '',''
     @ quoted ''transaction'' @ '':'' @ quoted tsd @ ''}''"

lemma plain_words:
  "list_all plain_char ''janus''" "list_all plain_char ''create''"
  "list_all plain_char ''transaction''" "list_all plain_char ''keepalive''"
  "list_all plain_char ''session_id''"
  by (simp_all add: plain_char_def byte_def)

lemma create_request_json:
  "create_request tsd = JObject [(''janus'', JString ''create''), (''transaction'', JString tsd)]"
  by (simp add: create_request_def json_object_def)

lemma dump_create: "list_all plain_char tsd \<Longrightarrow> dump p (create_request tsd) = Inr (create_text tsd)"
  by (simp add: create_request_json dump_escaped_plain plain_words [simplified] create_text_def
      quoted_def)

lemma on_connect_run:
  assumes "plain_randoms env" and "connected t"
  shows "session_on_connect env t u = Inr (t,
     u\<lparr>random_calls := Suc (random_calls u),
       response_callback_map :=
         map_put (random_string env (random_calls u)) Create_response (response_callback_map u)\<rparr>,
     [Log LS_INFO [Txt ''>>>>> connect janus''],
      Log LS_INFO [Txt (create_text (random_string env (random_calls u)))],
      Post (Send_data_inner (create_text (random_string env (random_calls u))))])"
  using assms
  by (simp add: session_on_connect_def next_random_def log_and_send_def plain_randoms_def
      dump_create send_msg_def)

end
