(* ===== verification/Janus_Claims.thy ===== *)
theory Janus_Claims
  imports Janus_Owner
begin

text \<open>
  The properties of the Janus client: every run of the session and its transport from the state
  the constructor leaves, with the library free to complete its operations in any order, with
  any error and any data.
\<close>

text \<open>One handler at a time, from its definition to the state it leaves.\<close>

lemmas run_defs = ws_exec_def take_op_def finish_tr_def finish_def apply_effects_def
  cancel_waits_def write_complete_def init_world_def janus_init_def session_transport_def
  set_msg_callback_def set_connect_callback_def new_transport_def session_client_def
  session_init_def session_destory_def new_session_def

definition sample_env :: "unit env" where
  "sample_env =
     \<lparr>random_string = (\<lambda>n. ''tsd''), strtod = (\<lambda>_. None), trunc_float = (\<lambda>_. 0), ftoa = (\<lambda>_. [])\<rparr>"

lemma plain_sample: "plain_randoms sample_env" "random_string sample_env n = ''tsd''"
  by (simp_all add: plain_randoms_def sample_env_def plain_char_def byte_def)

abbreviation sample_client :: "(session_api, session_callback, session, json_error) client" where
  "sample_client \<equiv> session_client sample_env"

abbreviation sample_init :: janus_world where
  "sample_init \<equiv> janus_init ''h'' 8188"

definition connect_events :: "session_api event list" where
  "connect_events = [Api Init False, Resolved 0 [], Tcp_connected 0, Handshaken 0]"

lemma run_reach:
  assumes "\<exists>w. ws_run cl es v = Some w \<and> P w"
  shows "\<exists>w. ws_reach cl v w \<and> P w"
  using assms ws_run_reach by blast

lemma janus_ws_inv:
  "ws_reach (session_client env) (janus_init h p) w \<Longrightarrow> ws_inv w"
  by (rule janus.reach_inv)
    (auto simp: janus_init_def session_transport_def set_msg_callback_def
      set_connect_callback_def new_transport_def intro: ws_inv_init)

lemma connected_reach:
  "\<exists>w. ws_reach sample_client sample_init w \<and> acked w = [] \<and> dead w = None \<and>
    \<not> write_failed w \<and> accepted w = [create_text ''tsd''] \<and>
    filter is_chain_op (ops w) = [Op_read] \<and> response_callback_map (usr w) = [(''tsd'', Create_response)]"
  by (rule run_reach [where es = connect_events])
    (simp add: connect_events_def run_defs step_defs on_connect_run bind_result_def plain_sample)

text \<open>A response of the server as the program receives it.\<close>

definition success_response :: "string \<Rightarrow> nat \<Rightarrow> 'f json" where
  "success_response tsd n =
     JObject [(''data'', JObject [(''id'', JUnsigned n)]), (''janus'', JString ''success''),
              (''transaction'', JString tsd)]"

definition success_text :: "string \<Rightarrow> nat \<Rightarrow> string" where
  "success_text tsd n =
     ''{'' @ quoted ''data'' @ '':{'' @ quoted ''id'' @ '':'' @ nat_digits n @ ''},''
       @ quoted ''janus'' @ '':'' @ quoted ''success'' @ '',''
       @ quoted ''transaction'' @ '':'' @ quoted tsd @ ''}''"

lemma response_words:
  "list_all plain_char ''data''" "list_all plain_char ''id''" "list_all plain_char ''success''"
  by (simp_all add: plain_char_def byte_def)

lemma dump_success:
  "list_all plain_char tsd \<Longrightarrow> dump p (success_response tsd n) = Inr (success_text tsd n)"
  by (simp add: success_response_def dump_escaped_plain plain_words [simplified]
      response_words [simplified] success_text_def quoted_def)

lemma parse_success:
  assumes "list_all plain_char tsd" and "n < 2 ^ 64"
  shows "json_parse d (success_text tsd n) = Inr (success_response tsd n)"
  by (rule json_parse_dump [OF dump_success [OF assms(1)]])
    (use assms(2) in \<open>simp add: success_response_def\<close>)

lemma on_msg_success:
  assumes "list_all plain_char tsd" and "tsd \<noteq> []" and "n < 2 ^ 64"
    and "map_of (response_callback_map u) tsd = Some Create_response"
  shows "session_on_msg env (success_text tsd n) t u = Inr (t,
    u\<lparr>response_callback_map := map_erase tsd (response_callback_map u),
      session_id := wrap_signed 64 (int n)\<rparr>,
    [Log LS_INFO [Txt ''>>>>> receive msg:'', Txt (chr 10 # success_text tsd n)],
     Log LS_INFO [Txt ''>>>>> session_id:'', Num (wrap_signed 64 (int n))],
     Timer_expires_from_now 5, Timer_async_wait])"
  using assms
  by (simp add: parse_success session_on_msg_def success_response_def json_value_def get_string_def
      create_response_def json_at_def get_arithmetic_value_def keep_alive_def Let_def
      keepalive_interval_seconds_def)

section \<open>Sending\<close>

text \<open>
  C1: In every run, the messages that \<open>SendMsg\<close> accepted are exactly the acknowledged ones, then
  the send queue, then those still posted, in this order; the stream has been given the
  acknowledged ones and the front of the queue, in the same order. At most one write is
  outstanding, and it is of the message at the front, which is therefore alive until its handler
  runs, and the erase in \<open>OnWrite\<close> never meets an empty queue.
\<close>

theorem janus_delivery_order:
  assumes "ws_reach (session_client env) (janus_init h p) w"
  shows "accepted w = acked w @ send_msg_queue (tr w) @ datas (strand w) \<and>
    wire w = acked w @ take 1 (send_msg_queue (tr w)) \<and>
    (filter is_write_op (ops w) = [] \<or>
      filter is_write_op (ops w) = [Op_write (hd (send_msg_queue (tr w)))] \<and>
      send_msg_queue (tr w) \<noteq> [])"
  using janus_ws_inv [OF assms]
  by (cases "send_msg_queue (tr w)") (auto simp: ws_inv_def)

theorem janus_delivery_order_witness:
  "\<exists>w. accepted w = [create_text ''tsd''] \<and> acked w = [] \<and>
    accepted (w :: janus_world) = acked w @ send_msg_queue (tr w) @ datas (strand w)"
  using connected_reach janus_delivery_order by blast

text \<open>
  C34: Once a write has failed, no message is ever handed to the stream again, whatever happens
  next, a successful reconnect included: \<open>OnWrite\<close> leaves the failed message at the front of
  the queue, and \<open>SendDataInner\<close> starts a write only when its message is the only one.
\<close>

theorem janus_write_failure_is_final:
  assumes "ws_reach (session_client env) (janus_init h p) w" and "write_failed w"
    and "ws_reach (session_client env) w w'"
  shows "wire w' = wire w \<and> acked w' = acked w"
  using janus.reach_stall [OF assms(3) janus_ws_inv [OF assms(1)] assms(2)] by simp

definition failed_events :: "session_api event list" where
  "failed_events = connect_events @ [Run_task True, Write_done 32]"

definition reconnect_events :: "session_api event list" where
  "reconnect_events = connect_events @ [Run_task True]"

lemma stalled_runs:
  "\<exists>v w. ws_run sample_client failed_events sample_init = Some v \<and> write_failed v \<and>
     ws_run sample_client reconnect_events v = Some w \<and> connected (tr w) \<and>
     accepted w = [create_text ''tsd'', create_text ''tsd''] \<and>
     wire v = [create_text ''tsd'']"
  by (simp add: failed_events_def reconnect_events_def connect_events_def run_defs step_defs
      on_connect_run bind_result_def plain_sample)

theorem janus_write_failure_is_final_witness:
  "\<exists>w. ws_reach sample_client sample_init w \<and> connected (tr w) \<and>
     accepted w = [create_text ''tsd'', create_text ''tsd''] \<and> wire w = [create_text ''tsd'']"
proof -
  obtain v w where r: "ws_run sample_client failed_events sample_init = Some v" "write_failed v"
    "ws_run sample_client reconnect_events v = Some w" and w: "connected (tr w)"
    "accepted w = [create_text ''tsd'', create_text ''tsd'']" "wire v = [create_text ''tsd'']"
    using stalled_runs by blast
  have "wire w = wire v"
    using janus_write_failure_is_final [OF ws_run_reach [OF r(1)] r(2) ws_run_reach [OF r(3)]]
    by simp
  moreover have "ws_reach sample_client sample_init w"
    using ws_run_reach_from [OF r(3) ws_run_reach [OF r(1)]] .
  ultimately show ?thesis using w by auto
qed

text \<open>
  C2: As long as no write has failed and no handler has thrown, nothing is lost or stuck: from
  every reachable state there is a continuation (posted bodies run, writes succeed) after which
  every message accepted so far has been acknowledged, in the order of acceptance.
\<close>

theorem janus_drain:
  assumes "ws_reach (session_client env) (janus_init h p) w"
    and "dead w = None" and "\<not> write_failed w"
  shows "\<exists>es w'. ws_run (session_client env) es w = Some w' \<and> accepted w' = accepted w \<and>
    acked w' = accepted w \<and> strand w' = []"
  using assms by (intro janus.drain janus_ws_inv)

theorem janus_drain_witness:
  "\<exists>es v w. ws_run sample_client es v = Some w \<and> acked v = [] \<and> acked w = [create_text ''tsd'']"
proof -
  obtain v where "ws_reach sample_client sample_init v" "acked v = []" "dead v = None"
    "\<not> write_failed v" "accepted v = [create_text ''tsd'']" using connected_reach by blast
  with janus_drain [of sample_env _ _ v] show ?thesis by metis
qed

section \<open>Connecting, reading, timing\<close>

text \<open>
  C3: The operations of connecting and reading form one chain per call of \<open>Connect\<close>: after
  \<open>n\<close> name queries at most \<open>n\<close> of resolve, connect, handshake and read are outstanding. With the
  single \<open>Init\<close> of the program there is never a second read or a second handshake at a time.
\<close>

theorem janus_one_chain:
  assumes "ws_reach (session_client env) (janus_init h p) w"
  shows "length (filter is_chain_op (ops w)) \<le> length (queries w)"
  using janus.reach_chain [OF assms]
  by (simp add: janus_init_def chain_inv_init chain_inv_def [of w])

theorem janus_one_chain_witness:
  "\<exists>w :: janus_world. filter is_chain_op (ops w) = [Op_read] \<and> 1 \<le> length (queries w)"
  using connected_reach janus_one_chain by (metis length_Cons list.size(3) One_nat_def)

text \<open>
  C31: At most one wait of the keep-alive timer is pending in every run: each call of \<open>KeepAlive\<close>
  cancels the wait before it, so keep-alives never multiply, even after several \<open>create\<close>
  responses.
\<close>

theorem janus_one_wait:
  assumes "ws_reach (session_client env) (janus_init h p) w"
  shows "timer_waits w \<le> 1"
  using janus_timer.reach_waits [OF assms] by (simp add: janus_init_def init_world_def)

definition created_events :: "session_api event list" where
  "created_events = connect_events @ [Read_done 0 (success_text ''tsd'' 42)]"

lemma created_reach:
  "\<exists>w. ws_reach sample_client sample_init w \<and> timer_waits w = 1 \<and> timer_ready w = [] \<and>
    dead w = None \<and> session_id (usr w) = 42 \<and> connected (tr w) \<and> ops w = [Op_read] \<and>
    accepted w = [create_text ''tsd''] \<and> response_callback_map (usr w) = []"
proof (rule run_reach [where es = created_events])
  have plain: "list_all plain_char ''tsd''" by (simp add: plain_char_def byte_def)
  show "\<exists>w. ws_run sample_client created_events sample_init = Some w \<and> timer_waits w = 1 \<and>
      timer_ready w = [] \<and> dead w = None \<and> session_id (usr w) = 42 \<and> connected (tr w) \<and>
      ops w = [Op_read] \<and>
      accepted w = [create_text ''tsd''] \<and> response_callback_map (usr w) = []"
    by (simp add: created_events_def connect_events_def run_defs step_defs on_connect_run
        bind_result_def plain_sample on_msg_success [OF plain] wrap_signed_def)
qed

theorem janus_one_wait_witness:
  "\<exists>w :: janus_world. session_id (usr w) = 42 \<and> timer_waits w = 1 \<and> timer_waits w \<le> 1"
  using created_reach janus_one_wait by blast

section \<open>Responses\<close>

text \<open>
  C32: A response callback runs at most once: handling a message a second time, in any reachable
  state, changes nothing and only logs the message, because the first handling erased the
  transaction; messages of unknown transactions are likewise only logged.
\<close>

theorem janus_response_once:
  assumes "ws_reach (session_client env) (janus_init h p) w"
    and "session_on_msg env msg (tr w) (usr w) = Inr (t', u', es)"
  shows "session_on_msg env msg t' u' =
    Inr (t', u', [Log LS_INFO [Txt ''>>>>> receive msg:'', Txt (chr 10 # msg)]])"
proof -
  have ok: "map_ok (response_callback_map (usr w))"
    using janus_owner.reach_keeps [OF assms(1) session_ok_init] by (simp add: session_ok_def)
  from assms(2) obtain m tsd where m: "json_parse (strtod env) msg = Inr m"
    "json_value m ''transaction'' [] = Inr tsd"
    by (auto simp: session_on_msg_def Let_def bind_result_Inr_iff)
  show ?thesis
  proof (cases "tsd = [] \<or> map_of (response_callback_map (usr w)) tsd = None")
    case True
    with assms(2) m have "u' = usr w" by (auto simp: session_on_msg_def Let_def split: if_splits)
    with True m show ?thesis by (auto simp: session_on_msg_def Let_def)
  next
    case False
    then obtain c where "map_of (response_callback_map (usr w)) tsd = Some c" by auto
    with False assms(2) m have "response_callback_map u' = map_erase tsd (response_callback_map (usr w))"
      by (auto simp: session_on_msg_def Let_def bind_result_Inr_iff dest!: run_response_frame)
    with map_of_erase [OF ok] m show ?thesis by (simp add: session_on_msg_def Let_def)
  qed
qed

theorem janus_response_once_witness:
  "\<exists>t u. session_id u = 42 \<and> session_on_msg sample_env (success_text ''tsd'' 42) t u =
    Inr (t, u, [Log LS_INFO [Txt ''>>>>> receive msg:'', Txt (chr 10 # success_text ''tsd'' 42)]])"
proof -
  obtain w where w: "ws_reach sample_client sample_init w"
    "response_callback_map (usr w) = [(''tsd'', Create_response)]" using connected_reach by blast
  have "list_all plain_char ''tsd''" by (simp add: plain_char_def byte_def)
  from on_msg_success [OF this, of 42 "usr w" sample_env "tr w"] w(2) obtain t u es where
    "session_on_msg sample_env (success_text ''tsd'' 42) (tr w) (usr w) = Inr (t, u, es)"
    "session_id u = 42" by (auto simp: wrap_signed_def)
  with janus_response_once [OF w(1)] show ?thesis by blast
qed

text \<open>
  A \<open>success\<close> response to the pending \<open>create\<close> request stores the server's session id, erases
  the transaction and starts the keep-alive timer with five seconds, and does nothing else.
\<close>

theorem janus_create_success:
  assumes "json_parse (strtod env) msg = Inr (JObject m)"
    and "map_of m ''transaction'' = Some (JString tsd)" and "tsd \<noteq> []"
    and "map_of (response_callback_map u) tsd = Some Create_response"
    and "map_of m ''janus'' = Some (JString ''success'')"
    and "map_of m ''data'' = Some (JObject d)" and "map_of d ''id'' = Some (JUnsigned n)"
    and "n < 2 ^ 63"
  shows "session_on_msg env msg t u = Inr (t,
    u\<lparr>response_callback_map := map_erase tsd (response_callback_map u), session_id := int n\<rparr>,
    [Log LS_INFO [Txt ''>>>>> receive msg:'', Txt (chr 10 # msg)],
     Log LS_INFO [Txt ''>>>>> session_id:'', Num (int n)],
     Timer_expires_from_now 5, Timer_async_wait])"
proof -
  have "wrap_signed 64 (int n) = int n" using assms(8) by (intro wrap_signed_id) auto
  with assms(1-7) show ?thesis
    by (simp add: session_on_msg_def json_value_def get_string_def create_response_def json_at_def
        get_arithmetic_value_def keep_alive_def Let_def keepalive_interval_seconds_def)
qed

theorem janus_create_success_witness:
  "\<exists>u es. session_on_msg sample_env (success_text ''x'' 42) (session_transport ''h'' 1)
     (new_session\<lparr>response_callback_map := [(''x'', Create_response)]\<rparr>) =
       Inr (session_transport ''h'' 1, u, es) \<and>
     session_id u = 42"
proof -
  have "json_parse (strtod sample_env) (success_text ''x'' 42) = Inr (success_response ''x'' 42)"
    by (rule parse_success) (simp_all add: plain_char_def byte_def)
  from janus_create_success [OF this [unfolded success_response_def],
      where tsd = "''x''" and d = "[(''id'', JUnsigned 42)]" and n = 42
        and u = "new_session\<lparr>response_callback_map := [(''x'', Create_response)]\<rparr>"
        and t = "session_transport ''h'' 1"]
  show ?thesis by simp
qed

text \<open>
  C35: One message that is not JSON ends the client: \<open>OnMsg\<close> calls \<open>parse\<close> without a handler, the
  exception leaves \<open>io_context::run\<close>, and after it no handler of the program runs any more.
\<close>

theorem janus_malformed_message_is_fatal:
  assumes "dead w = None" and "Op_read \<in> set (ops w)" and "msg_callback (tr w) = Some Cb_on_msg"
    and "json_parse (strtod env) (buffer (tr w) @ data) = Inl e"
  shows "\<exists>w'. ws_exec (session_client env) (Read_done 0 data) w = Some w' \<and> dead w' = Some e \<and>
    (\<forall>ev. ws_exec (session_client env) ev w' = None)"
  using assms
  by (simp add: ws_exec_def take_op_def on_read_def session_client_def session_on_msg_def
      finish_def Let_def)

lemma parse_garbage: "json_parse d ''?'' = Inl (Parse_error 101)"
  by (simp add: json_parse_def scan_first_def skip_bom_def byte_def scan_def skip_whitespace_def
      is_digit_def)

theorem janus_malformed_message_is_fatal_witness:
  "\<exists>w w' :: janus_world. dead w = None \<and>
     ws_exec sample_client (Read_done 0 ''?'') w = Some w' \<and> dead w' = Some (Parse_error 101)"
proof -
  let ?t = "(session_transport ''h'' 1)\<lparr>connected := True\<rparr>"
  let ?w = "(init_world ?t new_session)\<lparr>ops := [Op_read]\<rparr>"
  have "\<exists>w'. ws_exec sample_client (Read_done 0 ''?'') ?w = Some w' \<and> dead w' = Some (Parse_error 101) \<and>
      (\<forall>ev. ws_exec sample_client ev w' = None)"
    by (rule janus_malformed_message_is_fatal)
      (simp_all add: init_world_def session_transport_def set_msg_callback_def
        set_connect_callback_def new_transport_def parse_garbage)
  moreover have "dead ?w = None" by (simp add: init_world_def)
  ultimately show ?thesis by blast
qed

lemma parse_two_braces:
  "json_parse d (CHR ''{'' # CHR ''{'' # s) = Inl (Parse_error 101)"
  by (simp add: json_parse_def scan_first_def skip_bom_def byte_def scan_def skip_whitespace_def
      scan_key_def)

definition stale_events :: "session_api event list" where
  "stale_events = connect_events @ [Read_done 995 ''{''] @ connect_events
     @ [Read_done 0 (success_text ''tsd'' 42)]"

text \<open>
  The bytes of a read that failed are not removed from the buffer (\<open>OnRead\<close> returns before
  \<open>consume\<close>), so they are taken as the beginning of the first message after a reconnect. Here a
  failed read leaves one brace, and a correct response of the server then ends the client.
\<close>

theorem janus_stale_read_buffer:
  "\<exists>w. ws_run sample_client stale_events sample_init = Some w \<and> dead w = Some (Parse_error 101)"
  by (simp add: stale_events_def connect_events_def run_defs step_defs on_connect_run
      bind_result_def plain_sample session_on_msg_def success_text_def parse_two_braces)

section \<open>Keep-alive and shutdown\<close>

definition keepalive_text :: "int \<Rightarrow> string \<Rightarrow> string" where
  "keepalive_text i tsd =
     ''{'' @ quoted ''janus'' @ '':'' @ quoted ''keepalive'' @ '',''
       @ quoted ''session_id'' @ '':'' @ std_to_string i @ '',''
       @ quoted ''transaction'' @ '':'' @ quoted tsd @ ''}''"

lemma dump_keepalive:
  "list_all plain_char tsd \<Longrightarrow> dump p (keepalive_request i tsd) = Inr (keepalive_text i tsd)"
  by (simp add: keepalive_request_def json_object_def dump_escaped_plain plain_words [simplified]
      keepalive_text_def quoted_def)

text \<open>
  C33: When the keep-alive timer expires while a session exists, the client sends a keepalive
  request with its session id and a fresh transaction (only a warning is logged instead while the
  transport is not connected), and the timer always runs again afterwards.
\<close>

theorem janus_keep_alive:
  assumes "plain_randoms env" and "session_id u \<noteq> -1"
  shows "keep_alive_handler env 0 t u = Inr (t, u\<lparr>random_calls := Suc (random_calls u)\<rparr>,
    (let text = keepalive_text (session_id u) (random_string env (random_calls u)) in
      [Log LS_INFO [Txt text],
       if connected t then Post (Send_data_inner text)
       else Log LS_WARNING [Txt ''websocket not connect, cannot send msg''],
       Timer_expires_from_now 5, Timer_async_wait]))"
  using assms
  by (simp add: keep_alive_handler_def do_keep_alive_def next_random_def log_and_send_def
      dump_keepalive plain_randoms_def send_msg_def keep_alive_def keepalive_interval_seconds_def
      Let_def)

theorem janus_keep_alive_witness:
  "\<exists>u es. keep_alive_handler sample_env 0 ((session_transport ''h'' 1)\<lparr>connected := True\<rparr>)
     (new_session\<lparr>session_id := 42\<rparr>) = Inr ((session_transport ''h'' 1)\<lparr>connected := True\<rparr>, u, es) \<and>
     es ! 1 = Post (Send_data_inner (keepalive_text 42 ''tsd''))"
  using janus_keep_alive [OF plain_sample(1), of "new_session\<lparr>session_id := 42\<rparr>"
      "(session_transport ''h'' 1)\<lparr>connected := True\<rparr>"]
  by (simp add: plain_sample Let_def new_session_def)

text \<open>
  \<open>Destory\<close> does not always stop the keep-alives. A completion of the timer that is already
  queued cannot be cancelled; its handler does not know of \<open>Destory\<close>, sends another keepalive and
  starts the timer again.
\<close>

theorem janus_destory_race:
  assumes "plain_randoms env" and "dead w = None" and "session_id (usr w) \<noteq> -1"
    and "timer_ready w = 0 # ecs"
  shows "\<exists>v w'. ws_exec (session_client env) (Api Destory True) w = Some v \<and> timer_waits v = 0 \<and>
    ws_exec (session_client env) Timer_handler v = Some w' \<and> timer_waits w' = 1 \<and>
    (connected (tr w) \<longrightarrow> accepted w' = accepted w @
      [keepalive_text (session_id (usr w)) (random_string env (random_calls (usr w)))])"
  using assms
  by (simp add: ws_exec_def session_client_def session_destory_def disconnect_def finish_def
      keep_alive_handler_def do_keep_alive_def next_random_def log_and_send_def dump_keepalive
      plain_randoms_def send_msg_def keep_alive_def apply_effects_def cancel_waits_def Let_def)

lemma expired_reach:
  "\<exists>w. ws_reach sample_client sample_init w \<and> dead w = None \<and> session_id (usr w) \<noteq> -1 \<and>
    timer_ready w = [0] \<and> connected (tr w)"
proof -
  obtain w where w: "ws_reach sample_client sample_init w" "timer_waits w = 1"
    "timer_ready w = []" "dead w = None" "session_id (usr w) = 42" "connected (tr w)"
    using created_reach by blast
  let ?v = "w\<lparr>timer_waits := 0, timer_ready := [0]\<rparr>"
  from w have "ws_exec sample_client Timer_expires w = Some ?v" by (simp add: ws_exec_def)
  with w(1) have "ws_reach sample_client sample_init ?v" by (rule reach_step)
  with w show ?thesis by (intro exI [of _ ?v]) simp
qed

theorem janus_destory_race_witness:
  "\<exists>v w'. ws_reach sample_client sample_init v \<and>
    ws_exec sample_client Timer_handler v = Some w' \<and> timer_waits v = 0 \<and> timer_waits w' = 1"
proof -
  obtain w where w: "ws_reach sample_client sample_init w" "dead w = None"
    "session_id (usr w) \<noteq> -1" "timer_ready w = [0]" using expired_reach by blast
  from janus_destory_race [OF plain_sample(1) w(2,3,4)] obtain v w' where
    "ws_exec sample_client (Api Destory True) w = Some v" "timer_waits v = 0"
    "ws_exec sample_client Timer_handler v = Some w'" "timer_waits w' = 1" by blast
  with reach_step [OF w(1)] show ?thesis by blast
qed

text \<open>The states in which nothing of the session is left to start a keep-alive.\<close>

definition idle :: "janus_world \<Rightarrow> bool" where
  "idle w \<longleftrightarrow> timer_waits w = 0 \<and> 0 \<notin> set (timer_ready w) \<and>
     response_callback_map (usr w) = []"

fun is_reconnect :: "session_api event \<Rightarrow> bool" where
  "is_reconnect (Handshaken ec) \<longleftrightarrow> ec = 0"
| "is_reconnect _ \<longleftrightarrow> False"

lemma timer_ready_quiet:
  "list_all (\<lambda>e. e \<noteq> Timer_async_wait) es \<Longrightarrow> timer_waits w = 0 \<Longrightarrow>
    timer_ready (apply_effects es w) = timer_ready w \<and> timer_waits (apply_effects es w) = 0"
proof (induction es arbitrary: w)
  case (Cons e es)
  then show ?case
    by (cases "(e, w)" rule: apply_effect.cases)
      (simp_all add: apply_effects_Cons cancel_waits_def)
qed simp

definition silent :: "session_callback transport \<times> session \<times> effect list \<Rightarrow> bool" where
  "silent r = (case r of (t, u, es) \<Rightarrow>
     response_callback_map u = [] \<and> posts es \<in> {[], [Close_task]} \<and>
     list_all (\<lambda>e. e \<noteq> Timer_async_wait) es)"

lemma idle_finish:
  assumes "idle w" and "\<And>r'. r = Inr r' \<Longrightarrow> silent r'"
  shows "idle (finish r w) \<and> accepted (finish r w) = accepted w"
proof (cases r)
  case (Inl x)
  with assms(1) show ?thesis by (simp add: finish_def idle_def)
next
  case (Inr r')
  obtain t u es where r': "r' = (t, u, es)" by (cases r') auto
  from assms(2) [OF Inr] r' have s: "response_callback_map u = []" "datas (posts es) = []"
    "list_all (\<lambda>e. e \<noteq> Timer_async_wait) es" by (auto simp: silent_def)
  from timer_ready_quiet [OF s(3), of "w\<lparr>tr := t, usr := u\<rparr>"] assms(1) s Inr r'
  show ?thesis by (simp add: finish_def idle_def frame_simps)
qed

lemma idle_finish_tr:
  assumes "idle w" and "posts es = []" and "list_all (\<lambda>e. e \<noteq> Timer_async_wait) es"
  shows "idle (finish_tr (t, es) w) \<and> accepted (finish_tr (t, es) w) = accepted w"
  using assms idle_finish [OF assms(1), of "Inr (t, usr w, es)"]
  by (simp add: finish_tr_eq_finish silent_def idle_def)

lemma idle_msg:
  assumes "response_callback_map u = []" and "session_on_msg env m t u = Inr (t', u', es)"
  shows "u' = u \<and> t' = t \<and> posts es = [] \<and> list_all (\<lambda>e. e \<noteq> Timer_async_wait) es"
  using assms by (auto simp: session_on_msg_def Let_def bind_result_Inr_iff split: if_splits)

lemma idle_step:
  assumes "ws_exec (session_client env) e w = Some w'" and "idle w" and "\<not> is_reconnect e"
  shows "idle w' \<and> accepted w' = accepted w"
proof -
  from assms(1) have do: "ws_do (session_client env) e w = Some w'"
    by (simp add: ws_exec_def split: if_splits)
  have op: "idle v \<and> accepted v = accepted w \<and> usr v = usr w \<and> tr v = tr w" if "take_op p w = Some v" for p v
    using that assms(2) by (auto simp: take_op_def idle_def split: if_splits)
  show ?thesis
  proof (cases e)
    case (Run_task b)
    then obtain t bs where w': "w' = finish_tr (run_task b t (tr w)) (w\<lparr>strand := bs\<rparr>)"
      using do by (auto split: list.splits)
    have "idle (w\<lparr>strand := bs\<rparr>)" using assms(2) by (simp add: idle_def)
    from idle_finish_tr [OF this, of "snd (run_task b t (tr w))" "fst (run_task b t (tr w))"] w'
    show ?thesis by (cases t) (auto simp: step_defs Let_def)
  next
    case (Resolved ec rs)
    with do obtain v where v: "take_op Op_resolve w = Some v" "w' = finish_tr (tr w, on_resolve ec rs) v"
      by auto
    with op [OF v(1)] idle_finish_tr [of v "on_resolve ec rs" "tr w"] show ?thesis
      by (simp add: step_defs)
  next
    case (Tcp_connected ec)
    with do obtain v where v: "take_op Op_connect w = Some v"
      "w' = finish_tr (tr w, on_connect ec (tr w)) v" by auto
    with op [OF v(1)] idle_finish_tr [of v "on_connect ec (tr w)" "tr w"] show ?thesis
      by (simp add: step_defs)
  next
    case (Handshaken ec)
    with do obtain v where v: "take_op Op_handshake w = Some v"
      "w' = finish (on_handshake (call_connect (session_client env)) ec (tr w) (usr w)) v" by auto
    with assms(3) Handshaken have "w' = finish (Inr (tr w, usr w, [fail ec ''handshake''])) v"
      by (simp add: on_handshake_def)
    with op [OF v(1)] idle_finish [of v "Inr (tr w, usr w, [fail ec ''handshake''])"] show ?thesis
      by (auto simp: fail_def silent_def idle_def)
  next
    case (Read_done ec data)
    with do obtain v where v: "take_op Op_read w = Some v"
      "w' = finish (on_read (call_msg (session_client env)) ec
         ((tr w)\<lparr>buffer := buffer (tr w) @ data\<rparr>) (usr w)) v" by auto
    have "silent r" if r: "on_read (call_msg (session_client env)) ec
         ((tr w)\<lparr>buffer := buffer (tr w) @ data\<rparr>) (usr w) = Inr r" for r
    proof -
      have u: "response_callback_map (usr w) = []" using assms(2) by (simp add: idle_def)
      have "session_msg_callback env k m t (usr w) = Inr (t', u', es) \<Longrightarrow>
          response_callback_map u' = [] \<and> posts es = [] \<and> list_all (\<lambda>e. e \<noteq> Timer_async_wait) es"
        for k m t t' u' es using u by (cases k) (auto dest: idle_msg [OF u])
      with r u show ?thesis
        by (auto simp: on_read_def session_client_def silent_def fail_def do_read_def
            bind_result_Inr_iff split: if_splits option.splits)
    qed
    with v op [OF v(1)] idle_finish [of v] show ?thesis by metis
  next
    case (Write_done ec)
    with do obtain m where w': "w' = write_complete ec m w"
      by (auto split: list.splits async_op.splits)
    then show ?thesis
      using idle_finish_tr [of "w\<lparr>ops := remove1 (Op_write m) (ops w),
            acked := (if ec = 0 then acked w @ [m] else acked w),
            write_failed := (write_failed w \<or> ec \<noteq> 0)\<rparr>"
          "snd (on_write ec (tr w))" "fst (on_write ec (tr w))"] assms(2)
      by (auto simp: write_complete_def idle_def step_defs Let_def split: if_splits)
  next
    case (Closed ec)
    with do obtain v where v: "take_op Op_close w = Some v" "w' = finish_tr (on_close ec (tr w)) v"
      by auto
    with op [OF v(1)] idle_finish_tr [of v "snd (on_close ec (tr w))" "fst (on_close ec (tr w))"]
    show ?thesis by (simp add: step_defs split: if_splits)
  next
    case Timer_expires
    with do assms(2) show ?thesis by (simp add: idle_def)
  next
    case Timer_handler
    with do obtain ec ecs where ec: "timer_ready w = ec # ecs"
      "w' = finish (keep_alive_handler env ec (tr w) (usr w)) (w\<lparr>timer_ready := ecs\<rparr>)"
      by (auto simp: session_client_def split: list.splits)
    with assms(2) have "ec \<noteq> 0" "idle (w\<lparr>timer_ready := ecs\<rparr>)" by (auto simp: idle_def)
    with ec assms(2) idle_finish [of "w\<lparr>timer_ready := ecs\<rparr>" "Inr (tr w, usr w, [])"] show ?thesis
      by (simp add: keep_alive_handler_def silent_def idle_def)
  next
    case (Api c b)
    with do assms(2) idle_finish [OF assms(2), of "session_call c b (tr w) (usr w)"] show ?thesis
      by (cases c) (auto simp: session_client_def silent_def idle_def session_init_def connect_def
          session_destory_def disconnect_def)
  qed
qed

lemma idle_run:
  "ws_run (session_client env) es w = Some w' \<Longrightarrow> idle w \<Longrightarrow> list_all (\<lambda>e. \<not> is_reconnect e) es \<Longrightarrow>
    idle w' \<and> accepted w' = accepted w"
  by (induction es arbitrary: w) (auto simp: bind_eq_Some_conv dest: idle_step)

text \<open>
  If no timer completion is queued and no \<open>create\<close> response is pending, \<open>Destory\<close> does stop the
  client: the timer never runs again and no message is accepted any more, in every run that
  does not connect again.
\<close>

theorem janus_destory_stops:
  assumes "0 \<notin> set (timer_ready w)" and "response_callback_map (usr w) = []"
    and "ws_exec (session_client env) (Api Destory b) w = Some v"
    and "ws_run (session_client env) es v = Some w'" and "list_all (\<lambda>e. \<not> is_reconnect e) es"
  shows "timer_waits w' = 0 \<and> accepted w' = accepted w"
proof -
  have "idle v \<and> accepted v = accepted w"
    using assms(1,2,3)
    by (auto simp: ws_exec_def session_client_def session_destory_def disconnect_def finish_def
        apply_effects_def cancel_waits_def idle_def split: if_splits)
  with idle_run [OF assms(4) _ assms(5)] show ?thesis by (simp add: idle_def)
qed

theorem janus_destory_stops_witness:
  "\<exists>v w'. ws_run sample_client [Timer_handler] v = Some w' \<and>
    timer_ready v = [operation_aborted] \<and> timer_waits w' = 0"
proof -
  obtain w where w: "timer_waits w = 1" "timer_ready w = []" "dead w = None"
    "response_callback_map (usr w) = []"
    "ws_reach sample_client sample_init w" using created_reach by blast
  obtain v where v: "ws_exec sample_client (Api Destory True) w = Some v"
    "timer_ready v = [operation_aborted]" "dead v = None"
    using w by (simp add: ws_exec_def session_client_def session_destory_def disconnect_def
        finish_def apply_effects_def cancel_waits_def)
  then obtain w' where w': "ws_run sample_client [Timer_handler] v = Some w'"
    by (simp add: ws_exec_def session_client_def)
  have "0 \<notin> set (timer_ready w)" using w(2) by simp
  from janus_destory_stops [OF this w(4) v(1) w'] v(2) w' show ?thesis by auto
qed

section \<open>The port\<close>

text \<open>
  The port is kept as a signed 16-bit integer and printed as one: the service that \<open>Connect\<close>
  asks the resolver for is the decimal text of the given port exactly when the port is below
  32768; larger ports, valid for TCP, turn into negative numbers.
\<close>

theorem janus_port:
  assumes "n < 65536"
  shows "connect (session_transport h (of_nat n)) = [Async_resolve h (nat_digits n)] \<longleftrightarrow> n < 32768"
proof -
  have "uint (of_nat n :: i16) = int n"
    using assms by (simp add: unsigned_of_nat take_bit_nat_eq_self)
  moreover have "(int n + 32768) mod 65536 = (if n < 32768 then int n + 32768 else int n - 32768)"
  proof (cases "n < 32768")
    case False
    then have "(int n - 32768) mod 65536 = int n - 32768" using assms by simp
    moreover have "(int n + 32768) mod 65536 = (int n - 32768) mod 65536"
      using mod_add_self2 [of "int n - 32768" 65536] by (simp add: algebra_simps)
    ultimately show ?thesis using False by simp
  qed simp
  ultimately have "sint (of_nat n :: i16) = (if n < 32768 then int n else int n - 65536)"
    by (simp add: sint_uint signed_take_bit_eq_take_bit_shift take_bit_eq_mod)
  moreover have "CHR ''-'' # s \<noteq> nat_digits n" for s
    using nat_digits_no_minus [of n] by (metis list.set_intros(1))
  ultimately show ?thesis
    by (auto simp: connect_def session_transport_def set_msg_callback_def
        set_connect_callback_def new_transport_def std_to_string_def)
qed

theorem janus_port_witness:
  "connect (session_transport ''h'' 40000) \<noteq> [Async_resolve ''h'' ''40000'']"
  using janus_port [of 40000 "''h''"] by (simp add: nat_digits.simps)

end
