(* ===== verification/Janus_Program.thy ===== *)
theory Janus_Program
  imports Janus_Owner
begin

text \<open>
  \<open>11_rtc_janus/main.cc\<close> and the io thread that the session's constructor starts, as two threads
  that take steps in any order. The main thread constructs the session, calls \<open>Init\<close>, sleeps,
  calls \<open>Destory\<close> and waits for an event that nobody sets. The io thread runs handlers, and
  \<open>io_context::run\<close> returns, for good, when the library holds no work: no outstanding operation,
  posted body, timer wait or queued timer completion. A call of the main thread is one step:
  \<open>Connect\<close> and \<open>Disconnect\<close> read a flag and make one request.
\<close>

datatype main_pc = Before_construct | Before_init | Before_sleep | Before_destory | In_wait

datatype io_thread = Not_started | Running | Returned

record program =
  pc :: main_pc
  io :: io_thread
  janus :: janus_world

datatype program_event =
    Main_step bool
  | Io_handler "session_api event"
  | Io_run_returns

definition program_init :: "string \<Rightarrow> i16 \<Rightarrow> program" where
  "program_init h p = \<lparr>pc = Before_construct, io = Not_started, janus = janus_init h p\<rparr>"

definition no_work :: "janus_world \<Rightarrow> bool" where
  "no_work w \<longleftrightarrow> ops w = [] \<and> strand w = [] \<and> timer_waits w = 0 \<and> timer_ready w = []"

text \<open>A call of the session's interface from the main thread, while the process lives.\<close>

definition main_call :: "'f env \<Rightarrow> session_api \<Rightarrow> bool \<Rightarrow> main_pc \<Rightarrow> program \<Rightarrow> program option" where
  "main_call env c is_open next s =
     map_option (\<lambda>w. s\<lparr>pc := next, janus := w\<rparr>)
       (ws_exec (session_client env) (Api c is_open) (janus s))"

fun is_api :: "'c event \<Rightarrow> bool" where
  "is_api (Api c b) = True"
| "is_api _ = False"

fun program_exec :: "'f env \<Rightarrow> program_event \<Rightarrow> program \<Rightarrow> program option" where
  "program_exec env (Main_step is_open) s =
     (case pc s of
        Before_construct \<Rightarrow> Some (s\<lparr>pc := Before_init, io := Running\<rparr>)
      | Before_init \<Rightarrow> main_call env Init is_open Before_sleep s
      | Before_sleep \<Rightarrow> (if dead (janus s) = None then Some (s\<lparr>pc := Before_destory\<rparr>) else None)
      | Before_destory \<Rightarrow> main_call env Destory is_open In_wait s
      | In_wait \<Rightarrow> None)"
| "program_exec env (Io_handler e) s =
     (if io s = Running \<and> \<not> is_api e
      then map_option (\<lambda>w. s\<lparr>janus := w\<rparr>) (ws_exec (session_client env) e (janus s))
      else None)"
| "program_exec env Io_run_returns s =
     (if io s = Running \<and> no_work (janus s) \<and> dead (janus s) = None
      then Some (s\<lparr>io := Returned\<rparr>) else None)"

fun program_run :: "'f env \<Rightarrow> program_event list \<Rightarrow> program \<Rightarrow> program option" where
  "program_run env [] s = Some s"
| "program_run env (e # es) s = Option.bind (program_exec env e s) (program_run env es)"

section \<open>The program asks for one connection\<close>

lemma run_response_resolves:
  "run_response env k res u = Inr (u', es) \<Longrightarrow> resolves es = []"
  by (cases k) (auto simp: create_response_def keep_alive_def bind_result_Inr_iff split: if_splits)

lemma send_resolves: "log_and_send env j t = Inr es \<Longrightarrow> resolves es = []"
  by (auto simp: log_and_send_def bind_result_Inr_iff send_msg_def split: if_splits)

lemma connect_resolves:
  "session_connect_callback env k t u = Inr (t', u', es) \<Longrightarrow> resolves es = []"
  by (cases k) (auto simp: session_on_connect_def next_random_def bind_result_Inr_iff
      dest: send_resolves)

lemma msg_resolves:
  "session_msg_callback env k m t u = Inr (t', u', es) \<Longrightarrow> resolves es = []"
  by (cases k) (auto simp: session_on_msg_def Let_def bind_result_Inr_iff
      split: if_splits option.splits dest: run_response_resolves)

lemma timer_resolves:
  "keep_alive_handler env ec t u = Inr (t', u', es) \<Longrightarrow> resolves es = []"
  by (auto simp: keep_alive_handler_def do_keep_alive_def next_random_def keep_alive_def
      bind_result_Inr_iff split: if_splits dest: send_resolves)

lemma finish_queries:
  assumes "\<And>t u es. r = Inr (t, u, es) \<Longrightarrow> resolves es = []"
  shows "queries (finish r w) = queries w"
  using assms by (cases r) (auto simp: finish_def frame_simps)

lemma finish_Inr_queries: "queries (finish (Inr (t, u, es)) w) = queries w @ resolves es"
  by (simp add: finish_def frame_simps)

lemma handler_queries:
  assumes "ws_exec (session_client env) e w = Some w'" and "\<not> is_api e"
  shows "queries w' = queries w"
proof -
  from assms(1) have do: "ws_do (session_client env) e w = Some w'"
    by (simp add: ws_exec_def split: if_splits)
  note [simp] = take_op_queries finish_tr_eq_finish
  show ?thesis
  proof (cases e)
    case (Run_task b)
    with do obtain t bs where "w' = finish_tr (run_task b t (tr w)) (w\<lparr>strand := bs\<rparr>)"
      by (auto split: list.splits)
    then show ?thesis by (cases t) (auto simp: finish_Inr_queries step_defs Let_def)
  next
    case (Handshaken ec)
    with do obtain z where z: "take_op Op_handshake w = Some z"
      "w' = finish (on_handshake (call_connect (session_client env)) ec (tr w) (usr w)) z" by auto
    have "queries w' = queries z"
      unfolding z(2)
      by (rule finish_queries) (auto simp: session_client_def on_handshake_def fail_def do_read_def
          Let_def bind_result_Inr_iff split: if_splits option.splits dest: connect_resolves)
    with z(1) show ?thesis by simp
  next
    case (Read_done ec data)
    with do obtain z where z: "take_op Op_read w = Some z"
      "w' = finish (on_read (call_msg (session_client env)) ec
         ((tr w)\<lparr>buffer := buffer (tr w) @ data\<rparr>) (usr w)) z" by auto
    have "queries w' = queries z"
      unfolding z(2)
      by (rule finish_queries) (auto simp: session_client_def on_read_def fail_def do_read_def
          bind_result_Inr_iff split: if_splits option.splits dest: msg_resolves)
    with z(1) show ?thesis by simp
  next
    case (Write_done ec)
    with do obtain m where "w' = write_complete ec m w"
      by (auto split: list.splits async_op.splits)
    then show ?thesis by (auto simp: write_complete_def finish_Inr_queries step_defs Let_def)
  next
    case Timer_expires
    with do show ?thesis by (auto split: nat.splits)
  next
    case Timer_handler
    with do obtain c cs where z: "timer_ready w = c # cs"
      "w' = finish (keep_alive_handler env c (tr w) (usr w)) (w\<lparr>timer_ready := cs\<rparr>)"
      by (auto simp: session_client_def split: list.splits)
    have "queries w' = queries (w\<lparr>timer_ready := cs\<rparr>)"
      unfolding z(2) by (rule finish_queries) (rule timer_resolves)
    then show ?thesis by simp
  next
    case (Api c b)
    with assms(2) show ?thesis by simp
  qed (use do in \<open>auto simp: finish_Inr_queries step_defs\<close>)
qed

lemma main_call_queries:
  assumes "main_call env c b next s = Some s'"
  shows "length (queries (janus s')) \<le> length (queries (janus s)) + (if c = Init then 1 else 0)"
    and "pc s' = next" and "ws_exec (session_client env) (Api c b) (janus s) = Some (janus s')"
  using assms
  by (cases c; auto simp: main_call_def ws_exec_def session_client_def session_init_def connect_def
      session_destory_def disconnect_def finish_def frame_simps split: if_splits)+

text \<open>The invariant of the program: the session's world is reached, with at most one query.\<close>

definition program_inv :: "'f env \<Rightarrow> string \<Rightarrow> i16 \<Rightarrow> program \<Rightarrow> bool" where
  "program_inv env h p s \<longleftrightarrow>
     ws_reach (session_client env) (janus_init h p) (janus s) \<and>
     length (queries (janus s)) \<le> (if pc s \<in> {Before_construct, Before_init} then 0 else 1)"

lemma program_inv_init: "program_inv env h p (program_init h p)"
  by (simp add: program_inv_def program_init_def reach_refl) (simp add: janus_init_def init_world_def)

lemma program_inv_step:
  assumes "program_exec env e s = Some s'" and "program_inv env h p s"
  shows "program_inv env h p s'"
proof (cases e)
  case (Main_step b)
  show ?thesis
  proof (cases "pc s")
    case Before_init
    with assms Main_step have c: "main_call env Init b Before_sleep s = Some s'" by simp
    from main_call_queries [OF c] Before_init assms(2) show ?thesis
      by (auto simp: program_inv_def intro: reach_step)
  next
    case Before_destory
    with assms Main_step have c: "main_call env Destory b In_wait s = Some s'" by simp
    from main_call_queries [OF c] Before_destory assms(2) show ?thesis
      by (auto simp: program_inv_def intro: reach_step)
  qed (use assms Main_step in \<open>auto simp: program_inv_def split: if_splits\<close>)
next
  case (Io_handler f)
  with assms show ?thesis
    by (auto simp: program_inv_def handler_queries split: if_splits intro: reach_step)
next
  case Io_run_returns
  with assms show ?thesis by (auto simp: program_inv_def split: if_splits)
qed

lemma program_inv_run:
  "program_run env es s = Some s' \<Longrightarrow> program_inv env h p s \<Longrightarrow> program_inv env h p s'"
  by (induction es arbitrary: s) (auto simp: bind_eq_Some_conv dest: program_inv_step)

text \<open>
  C4: In every run of the program, whatever the interleaving of its two threads, the library
  never holds more than one of the operations resolve, connect, handshake and read, so the
  stream is never used by two reads or two connection attempts at a time, and at most one write.
\<close>

theorem program_one_operation:
  assumes "program_run env es (program_init h p) = Some s"
  shows "length (filter is_chain_op (ops (janus s))) \<le> 1 \<and>
    length (filter is_write_op (ops (janus s))) \<le> 1"
proof -
  have inv: "program_inv env h p s" using program_inv_run [OF assms program_inv_init] .
  then have r: "ws_reach (session_client env) (janus_init h p) (janus s)"
    and q: "length (queries (janus s)) \<le> 1" by (auto simp: program_inv_def split: if_splits)
  have "chain_inv (janus s)"
    using r by (rule janus.reach_chain) (simp add: janus_init_def chain_inv_init)
  moreover have "length (filter is_write_op (ops (janus s))) \<le> 1"
    using r by (rule janus.one_write)
      (auto simp: janus_init_def session_transport_def set_msg_callback_def
        set_connect_callback_def new_transport_def intro: ws_inv_init)
  ultimately show ?thesis using q by (simp add: chain_inv_def)
qed

definition quiet_env :: "unit env" where
  "quiet_env =
     \<lparr>random_string = (\<lambda>n. ''x''), strtod = (\<lambda>_. None), trunc_float = (\<lambda>_. 0), ftoa = (\<lambda>_. [])\<rparr>"

lemmas program_defs = program_init_def main_call_def ws_exec_def session_client_def
  session_init_def session_destory_def finish_def apply_effects_def janus_init_def
  init_world_def connect_def disconnect_def session_transport_def set_msg_callback_def
  set_connect_callback_def new_transport_def no_work_def cancel_waits_def take_op_def
  finish_tr_def on_resolve_def

lemma sample_program:
  "\<exists>s :: program. program_run quiet_env [Main_step False, Main_step False, Io_handler (Resolved 0 [])]
     (program_init ''h'' 1) = Some s \<and> ops (janus s) = [Op_connect]"
  by (simp add: program_defs)

theorem program_one_operation_witness:
  "\<exists>s :: program. ops (janus s) = [Op_connect] \<and> length (filter is_chain_op (ops (janus s))) \<le> 1"
proof -
  obtain s where s: "program_run quiet_env
      [Main_step False, Main_step False, Io_handler (Resolved 0 [])] (program_init ''h'' 1) = Some s"
    "ops (janus s) = [Op_connect]" using sample_program by blast
  from program_one_operation [OF s(1)] s(2) show ?thesis by blast
qed

text \<open>
  The program can do nothing at all and never end: the io thread may find no work before the
  main thread has called \<open>Init\<close>, because the constructor starts it without a work guard; then
  \<open>io_context::run\<close> has returned, the name query of \<open>Init\<close> is never completed, nothing is
  logged or sent, and the main thread waits forever. After the four steps no step is possible.
\<close>

theorem program_may_do_nothing:
  "\<exists>s. program_run env
      [Main_step False, Io_run_returns, Main_step False, Main_step False, Main_step False]
      (program_init h p) = Some s \<and>
    ops (janus s) = [Op_resolve] \<and> lines (janus s) = [] \<and> pc s = In_wait \<and>
    (\<forall>e. program_exec env e s = None)"
proof -
  have none: "program_exec env e s = None" if "pc s = In_wait" "io s = Returned" for e s
    using that by (cases e) simp_all
  show ?thesis using none by (simp add: program_defs)
qed

end
