(* ===== verification/Byte_Io.thy ===== *)
theory Byte_Io
  imports Prelude
begin

text \<open>
  Reading and writing integers as bytes: the classes \<open>ByteReader\<close> and \<open>ByteWriter\<close> of
  \<open>modules/rtp_rtcp/source/byte_io.h\<close> and the functions of \<open>rtc_base/byte_order.h\<close> on a
  little-endian host. The type \<open>T\<close> is a word type, \<open>B\<close> the number of bytes, memory a list of
  bytes. Accesses stay inside the list in every statement that is made about them.
\<close>

unbundle bit_operations_syntax

section \<open>The generic loops\<close>

definition ReadBigEndian :: "nat \<Rightarrow> u8 list \<Rightarrow> 'a::len word" where
  "ReadBigEndian B data =
     fold (\<lambda>i val. val OR push_bit ((B - 1 - i) * 8) (ucast (data ! i))) [0..<B] 0"

definition ReadLittleEndian :: "nat \<Rightarrow> u8 list \<Rightarrow> 'a::len word" where
  "ReadLittleEndian B data =
     fold (\<lambda>i val. val OR push_bit (i * 8) (ucast (data ! i))) [0..<B] 0"

definition WriteBigEndian :: "nat \<Rightarrow> 'a::len word \<Rightarrow> u8 list \<Rightarrow> u8 list" where
  "WriteBigEndian B val data =
     fold (\<lambda>i d. d[i := ucast (drop_bit ((B - 1 - i) * 8) val)]) [0..<B] data"

definition WriteLittleEndian :: "nat \<Rightarrow> 'a::len word \<Rightarrow> u8 list \<Rightarrow> u8 list" where
  "WriteLittleEndian B val data =
     fold (\<lambda>i d. d[i := ucast (drop_bit (i * 8) val)]) [0..<B] data"

text \<open>
  Signed types: the unsigned value, sign-extended when it has fewer bytes than the type. The
  mask is an \<open>int\<close> shifted by \<open>(B % sizeof(T)) * 8\<close>, which C++ does not define from 32 on: then
  there is no result. A signed word and its reinterpretation are the same bits.
\<close>

definition SignExtend :: "nat \<Rightarrow> 'a::len word \<Rightarrow> 'a word option" where
  "SignExtend B val =
     (let kMsb = ucast (drop_bit ((B - 1) * 8) val) :: u8;
          shift = B mod (LENGTH('a) div 8) * 8 in
      if kMsb AND 0x80 \<noteq> 0
      then (if shift < 32
            then Some (NOT (of_int (sint (push_bit shift (1 :: 32 word) - 1))) OR val)
            else None)
      else Some val)"

definition ReadSigned :: "nat \<Rightarrow> 'a::len word \<Rightarrow> 'a word option" where
  "ReadSigned B unsigned_val =
     (if B < LENGTH('a) div 8 then SignExtend B unsigned_val else Some unsigned_val)"

definition ReadBigEndianSigned :: "nat \<Rightarrow> u8 list \<Rightarrow> 'a::len word option" where
  "ReadBigEndianSigned B data = ReadSigned B (ReadBigEndian B data)"

definition ReadLittleEndianSigned :: "nat \<Rightarrow> u8 list \<Rightarrow> 'a::len word option" where
  "ReadLittleEndianSigned B data = ReadSigned B (ReadLittleEndian B data)"

section \<open>The specializations for two, four and eight bytes\<close>

definition ReadBigEndian2 :: "u8 list \<Rightarrow> 'a::len word" where
  "ReadBigEndian2 d = push_bit 8 (ucast (d ! 0)) OR ucast (d ! 1)"

definition ReadLittleEndian2 :: "u8 list \<Rightarrow> 'a::len word" where
  "ReadLittleEndian2 d = ucast (d ! 0) OR push_bit 8 (ucast (d ! 1))"

definition ReadBigEndian4 :: "u8 list \<Rightarrow> 'a::len word" where
  "ReadBigEndian4 d =
     push_bit 24 (ucast (d ! 0)) OR push_bit 16 (ucast (d ! 1)) OR push_bit 8 (ucast (d ! 2)) OR
     ucast (d ! 3)"

definition ReadLittleEndian4 :: "u8 list \<Rightarrow> 'a::len word" where
  "ReadLittleEndian4 d =
     ucast (d ! 0) OR push_bit 8 (ucast (d ! 1)) OR push_bit 16 (ucast (d ! 2)) OR
     push_bit 24 (ucast (d ! 3))"

definition ReadBigEndian8 :: "u8 list \<Rightarrow> 'a::len word" where
  "ReadBigEndian8 d =
     push_bit 56 (ucast (d ! 0)) OR push_bit 48 (ucast (d ! 1)) OR push_bit 40 (ucast (d ! 2)) OR
     push_bit 32 (ucast (d ! 3)) OR push_bit 24 (ucast (d ! 4)) OR push_bit 16 (ucast (d ! 5)) OR
     push_bit 8 (ucast (d ! 6)) OR ucast (d ! 7)"

definition ReadLittleEndian8 :: "u8 list \<Rightarrow> 'a::len word" where
  "ReadLittleEndian8 d =
     ucast (d ! 0) OR push_bit 8 (ucast (d ! 1)) OR push_bit 16 (ucast (d ! 2)) OR
     push_bit 24 (ucast (d ! 3)) OR push_bit 32 (ucast (d ! 4)) OR push_bit 40 (ucast (d ! 5)) OR
     push_bit 48 (ucast (d ! 6)) OR push_bit 56 (ucast (d ! 7))"

definition WriteBigEndian2 :: "'a::len word \<Rightarrow> u8 list \<Rightarrow> u8 list" where
  "WriteBigEndian2 v d = d[0 := ucast (drop_bit 8 v), 1 := ucast v]"

definition WriteLittleEndian2 :: "'a::len word \<Rightarrow> u8 list \<Rightarrow> u8 list" where
  "WriteLittleEndian2 v d = d[0 := ucast v, 1 := ucast (drop_bit 8 v)]"

definition WriteBigEndian4 :: "'a::len word \<Rightarrow> u8 list \<Rightarrow> u8 list" where
  "WriteBigEndian4 v d =
     d[0 := ucast (drop_bit 24 v), 1 := ucast (drop_bit 16 v), 2 := ucast (drop_bit 8 v),
       3 := ucast v]"

definition WriteLittleEndian4 :: "'a::len word \<Rightarrow> u8 list \<Rightarrow> u8 list" where
  "WriteLittleEndian4 v d =
     d[0 := ucast v, 1 := ucast (drop_bit 8 v), 2 := ucast (drop_bit 16 v),
       3 := ucast (drop_bit 24 v)]"

definition WriteBigEndian8 :: "'a::len word \<Rightarrow> u8 list \<Rightarrow> u8 list" where
  "WriteBigEndian8 v d =
     d[0 := ucast (drop_bit 56 v), 1 := ucast (drop_bit 48 v), 2 := ucast (drop_bit 40 v),
       3 := ucast (drop_bit 32 v), 4 := ucast (drop_bit 24 v), 5 := ucast (drop_bit 16 v),
       6 := ucast (drop_bit 8 v), 7 := ucast v]"

definition WriteLittleEndian8 :: "'a::len word \<Rightarrow> u8 list \<Rightarrow> u8 list" where
  "WriteLittleEndian8 v d =
     d[0 := ucast v, 1 := ucast (drop_bit 8 v), 2 := ucast (drop_bit 16 v),
       3 := ucast (drop_bit 24 v), 4 := ucast (drop_bit 32 v), 5 := ucast (drop_bit 40 v),
       6 := ucast (drop_bit 48 v), 7 := ucast (drop_bit 56 v)]"

section \<open>Bits of what is read and written\<close>

lemma bit_fold_or:
  "bit (fold (\<lambda>i val. val OR f i) is (v :: 'a::len word)) n \<longleftrightarrow>
     bit v n \<or> (\<exists>i \<in> set is. bit (f i) n)"
  by (induction "is" arbitrary: v) (auto simp: bit_or_iff)

lemma bit_shifted_byte:
  "bit (push_bit k (ucast (b :: u8)) :: 'a::len word) n \<longleftrightarrow>
     n < LENGTH('a) \<and> k \<le> n \<and> n < k + 8 \<and> bit b (n - k)"
  by (auto simp: bit_push_bit_iff bit_ucast_iff dest: bit_imp_le_length)

lemma byte_index:
  "i * 8 \<le> n \<and> n < i * 8 + 8 \<and> P i (n - i * 8) \<longleftrightarrow> i = n div 8 \<and> P (n div 8) (n mod 8)"
  for i n :: nat
proof
  assume a: "i * 8 \<le> n \<and> n < i * 8 + 8 \<and> P i (n - i * 8)"
  then have "i * 8 \<le> n" "n < i * 8 + 8" by auto
  then have "i = n div 8" by (intro div_nat_eqI [symmetric]) simp_all
  with a show "i = n div 8 \<and> P (n div 8) (n mod 8)" by (simp add: minus_div_mult_eq_mod)
next
  assume a: "i = n div 8 \<and> P (n div 8) (n mod 8)"
  have "n div 8 * 8 \<le> n" "n < n div 8 * 8 + 8"
    using div_mult_mod_eq [of n 8] mod_less_divisor [of 8 n] by linarith+
  with a show "i * 8 \<le> n \<and> n < i * 8 + 8 \<and> P i (n - i * 8)"
    by (simp add: minus_div_mult_eq_mod)
qed

lemma bit_ReadLittleEndian:
  "bit (ReadLittleEndian B data :: 'a::len word) n \<longleftrightarrow>
     n < LENGTH('a) \<and> n < 8 * B \<and> bit (data ! (n div 8)) (n mod 8)"
  using byte_index [of _ n "\<lambda>i m. bit (data ! i) m"]
  by (auto simp: ReadLittleEndian_def bit_fold_or bit_shifted_byte)

text \<open>Reading big-endian is reading the reversed bytes little-endian.\<close>

lemma ReadBigEndian_rev:
  assumes "length data = B"
  shows "ReadBigEndian B data = (ReadLittleEndian B (rev data) :: 'a::len word)"
proof (rule bit_eqI)
  fix n
  have "(\<exists>i\<in>{0..<B}. P (B - 1 - i) (data ! i)) \<longleftrightarrow> (\<exists>i\<in>{0..<B}. P i (rev data ! i))"
    for P :: "nat \<Rightarrow> u8 \<Rightarrow> bool"
  proof
    assume "\<exists>i\<in>{0..<B}. P (B - 1 - i) (data ! i)"
    then obtain i where "i < B" "P (B - 1 - i) (data ! i)" by auto
    with assms show "\<exists>i\<in>{0..<B}. P i (rev data ! i)"
      by (intro bexI [of _ "B - 1 - i"]) (auto simp: rev_nth)
  next
    assume "\<exists>i\<in>{0..<B}. P i (rev data ! i)"
    then obtain i where "i < B" "P i (rev data ! i)" by auto
    with assms show "\<exists>i\<in>{0..<B}. P (B - 1 - i) (data ! i)"
      by (intro bexI [of _ "B - 1 - i"]) (auto simp: rev_nth)
  qed
  then show "bit (ReadBigEndian B data :: 'a word) n = bit (ReadLittleEndian B (rev data) :: 'a word) n"
    by (simp add: ReadBigEndian_def ReadLittleEndian_def bit_fold_or)
qed

lemma length_fold_update [simp]: "length (fold (\<lambda>i d. d[i := f i]) is d) = length d"
  by (induction "is" arbitrary: d) auto

lemma nth_fold_update:
  "j < length d \<Longrightarrow> fold (\<lambda>i d. d[i := f i]) is d ! j = (if j \<in> set is then f j else d ! j)"
  by (induction "is" arbitrary: d) (auto simp: nth_list_update)

lemma fold_update_upt:
  assumes "B \<le> length d"
  shows "fold (\<lambda>i d. d[i := f i]) [0..<B] d = map f [0..<B] @ drop B d"
  using assms by (intro nth_equalityI) (auto simp: nth_fold_update nth_append)

text \<open>The bytes written, and what follows them left alone.\<close>

definition le_bytes :: "nat \<Rightarrow> 'a::len word \<Rightarrow> u8 list" where
  "le_bytes B v = map (\<lambda>i. ucast (drop_bit (i * 8) v)) [0..<B]"

lemma length_le_bytes [simp]: "length (le_bytes B v) = B"
  by (simp add: le_bytes_def)

lemma WriteLittleEndian_bytes:
  "B \<le> length d \<Longrightarrow> WriteLittleEndian B v d = le_bytes B v @ drop B d"
  by (simp add: WriteLittleEndian_def fold_update_upt le_bytes_def)

lemma WriteBigEndian_bytes:
  "B \<le> length d \<Longrightarrow> WriteBigEndian B v d = rev (le_bytes B v) @ drop B d"
  by (auto simp: WriteBigEndian_def fold_update_upt le_bytes_def rev_nth intro!: nth_equalityI)

lemma Read_prefix:
  "length xs = B \<Longrightarrow> ReadLittleEndian B (xs @ ys) = ReadLittleEndian B xs"
  "length xs = B \<Longrightarrow> ReadBigEndian B (xs @ ys) = ReadBigEndian B xs"
  by (auto simp: ReadLittleEndian_def ReadBigEndian_def nth_append intro!: fold_cong)

lemma read_le_bytes:
  "ReadLittleEndian B (le_bytes B v) = (take_bit (8 * B) v :: 'a::len word)"
proof (rule bit_eqI)
  fix n :: nat
  have "n div 8 * 8 + n mod 8 = n" by (rule div_mult_mod_eq)
  moreover have "n < 8 * B \<Longrightarrow> n div 8 < B" by auto
  ultimately show "bit (ReadLittleEndian B (le_bytes B v) :: 'a word) n = bit (take_bit (8 * B) v) n"
    by (auto simp: bit_ReadLittleEndian le_bytes_def bit_take_bit_iff bit_ucast_iff
        bit_drop_bit_eq dest: bit_imp_le_length)
qed

lemma read_write:
  assumes "B \<le> length d"
  shows "ReadLittleEndian B (WriteLittleEndian B v d) = (take_bit (8 * B) v :: 'a::len word)"
    and "ReadBigEndian B (WriteBigEndian B v d) = (take_bit (8 * B) v :: 'a::len word)"
  using assms
  by (simp_all add: WriteLittleEndian_bytes WriteBigEndian_bytes Read_prefix ReadBigEndian_rev
      read_le_bytes)

section \<open>Sign extension\<close>

lemma msb_byte:
  assumes "0 < B" and "8 * B \<le> LENGTH('a::len)"
  shows "(ucast (drop_bit ((B - 1) * 8) (v :: 'a word)) :: u8) AND 0x80 \<noteq> 0 \<longleftrightarrow> bit v (8 * B - 1)"
proof -
  have "(w :: u8) AND 0x80 \<noteq> 0 \<longleftrightarrow> bit w 7" for w
  proof -
    have "(0x80 :: u8) = push_bit 7 1" by simp
    then show ?thesis by (simp add: bit_iff_and_push_bit_not_eq_0)
  qed
  moreover have "7 + (B - 1) * 8 = 8 * B - 1" using assms(1) by (cases B) auto
  ultimately show ?thesis using assms by (auto simp: bit_ucast_iff bit_drop_bit_eq add.commute)
qed

lemma used_bits_mask:
  assumes "B \<in> {1, 2, 3}" and "8 * B < LENGTH('a::len)"
  shows "of_int (sint (push_bit (B * 8) (1 :: 32 word) - 1)) = (mask (8 * B) :: 'a word)"
proof -
  have "sint (push_bit 8 (1 :: 32 word) - 1) = 255" "sint (push_bit 16 (1 :: 32 word) - 1) = 65535"
    "sint (push_bit 24 (1 :: 32 word) - 1) = 16777215" by code_simp+
  with assms show ?thesis by (auto simp: mask_eq_exp_minus_1)
qed

lemma extend_bits:
  assumes "0 < B" and "8 * B < LENGTH('a::len)" and "bit (v :: 'a word) (8 * B - 1)"
  shows "NOT (mask (8 * B)) OR take_bit (8 * B) v = signed_take_bit (8 * B - 1) v"
proof (rule bit_word_eqI)
  fix n assume n: "n < LENGTH('a)"
  have "n < 8 * B \<Longrightarrow> 8 * B - 1 \<le> n \<Longrightarrow> n = 8 * B - 1" by simp
  with n assms show "bit (NOT (mask (8 * B)) OR take_bit (8 * B) v) n = bit (signed_take_bit (8 * B - 1) v) n"
    by (auto simp: bit_or_iff bit_not_iff bit_mask_iff bit_take_bit_iff bit_signed_take_bit_iff
        min_def)
qed

lemma no_extend_bits:
  assumes "0 < B" and "8 * B < LENGTH('a::len)" and "\<not> bit (v :: 'a word) (8 * B - 1)"
  shows "take_bit (8 * B) v = signed_take_bit (8 * B - 1) v"
proof (rule bit_word_eqI)
  fix n assume "n < LENGTH('a)"
  have "n < 8 * B \<longleftrightarrow> n \<le> 8 * B - 1" using assms(1) by auto
  with assms \<open>n < LENGTH('a)\<close> show "bit (take_bit (8 * B) v) n = bit (signed_take_bit (8 * B - 1) v) n"
    by (auto simp: bit_take_bit_iff bit_signed_take_bit_iff min_def)
qed

lemma SignExtend_small:
  assumes "0 < B" and "B < 4" and "B < LENGTH('a::len) div 8"
  shows "SignExtend B (take_bit (8 * B) v) = Some (signed_take_bit (8 * B - 1) (v :: 'a word))"
proof -
  have len: "8 * B < LENGTH('a)" using assms(3) by simp
  have m: "B mod (LENGTH('a) div 8) = B" using assms(3) by simp
  have b: "bit (take_bit (8 * B) v) (8 * B - 1) = bit v (8 * B - 1)"
    using assms(1) by (simp add: bit_take_bit_iff)
  have "B \<in> {1, 2, 3}" using assms(1,2) by auto
  note mask = used_bits_mask [OF this len]
  have shift: "B * 8 < 32" using assms(2) by simp
  have msb: "ucast (drop_bit ((B - 1) * 8) (take_bit (8 * B) v)) AND (0x80 :: u8) \<noteq> 0 \<longleftrightarrow>
      bit v (8 * B - 1)"
    using msb_byte [of B "take_bit (8 * B) v"] assms(1) len b by simp
  show ?thesis
    unfolding SignExtend_def Let_def m mask msb if_P [OF shift]
    using extend_bits [OF assms(1) len, of v] no_extend_bits [OF assms(1) len, of v]
    by (simp del: One_nat_def)
qed

lemma SignExtend_undefined:
  assumes "4 \<le> B" and "B < LENGTH('a::len) div 8" and "bit (v :: 'a word) (8 * B - 1)"
  shows "SignExtend B v = None"
proof -
  have "8 * B \<le> LENGTH('a)" "B mod (LENGTH('a) div 8) = B" using assms(2) by auto
  with assms msb_byte [of B v] show ?thesis by (simp add: SignExtend_def Let_def)
qed

section \<open>Byte order of a little-endian host\<close>

text \<open>
  \<open>htobe*\<close>, \<open>be*toh\<close> (the C library's) reverse the bytes of a value on such a host, \<open>htole*\<close> and
  \<open>le*toh\<close> keep them; storing and loading an integer through a cast pointer uses the host's order.
\<close>

definition host_store :: "nat \<Rightarrow> 'a::len word \<Rightarrow> u8 list \<Rightarrow> u8 list" where
  "host_store B v mem = le_bytes B v @ drop B mem"

definition host_load :: "nat \<Rightarrow> u8 list \<Rightarrow> 'a::len word" where
  "host_load B mem = ReadLittleEndian B (take B mem)"

definition swap_bytes :: "nat \<Rightarrow> 'a::len word \<Rightarrow> 'a word" where
  "swap_bytes B v = ReadLittleEndian B (rev (le_bytes B v))"

definition Set8 :: "u8 list \<Rightarrow> nat \<Rightarrow> u8 \<Rightarrow> u8 list" where
  "Set8 mem off v = mem[off := v]"

definition Get8 :: "u8 list \<Rightarrow> nat \<Rightarrow> u8" where
  "Get8 mem off = mem ! off"

definition SetBE16 :: "u16 \<Rightarrow> u8 list \<Rightarrow> u8 list" where
  "SetBE16 v mem = host_store 2 (swap_bytes 2 v) mem"

definition SetBE32 :: "u32 \<Rightarrow> u8 list \<Rightarrow> u8 list" where
  "SetBE32 v mem = host_store 4 (swap_bytes 4 v) mem"

definition SetBE64 :: "u64 \<Rightarrow> u8 list \<Rightarrow> u8 list" where
  "SetBE64 v mem = host_store 8 (swap_bytes 8 v) mem"

definition GetBE16 :: "u8 list \<Rightarrow> u16" where
  "GetBE16 mem = swap_bytes 2 (host_load 2 mem)"

definition GetBE32 :: "u8 list \<Rightarrow> u32" where
  "GetBE32 mem = swap_bytes 4 (host_load 4 mem)"

definition GetBE64 :: "u8 list \<Rightarrow> u64" where
  "GetBE64 mem = swap_bytes 8 (host_load 8 mem)"

definition SetLE16 :: "u16 \<Rightarrow> u8 list \<Rightarrow> u8 list" where
  "SetLE16 v mem = host_store 2 v mem"

definition SetLE32 :: "u32 \<Rightarrow> u8 list \<Rightarrow> u8 list" where
  "SetLE32 v mem = host_store 4 v mem"

definition SetLE64 :: "u64 \<Rightarrow> u8 list \<Rightarrow> u8 list" where
  "SetLE64 v mem = host_store 8 v mem"

definition GetLE16 :: "u8 list \<Rightarrow> u16" where
  "GetLE16 mem = host_load 2 mem"

definition GetLE32 :: "u8 list \<Rightarrow> u32" where
  "GetLE32 mem = host_load 4 mem"

definition GetLE64 :: "u8 list \<Rightarrow> u64" where
  "GetLE64 mem = host_load 8 mem"

definition IsHostBigEndian :: bool where
  "IsHostBigEndian = False"

definition HostToNetwork16 :: "u16 \<Rightarrow> u16" where
  "HostToNetwork16 n = swap_bytes 2 n"

definition HostToNetwork32 :: "u32 \<Rightarrow> u32" where
  "HostToNetwork32 n = swap_bytes 4 n"

definition HostToNetwork64 :: "u64 \<Rightarrow> u64" where
  "HostToNetwork64 n = swap_bytes 8 n"

definition NetworkToHost16 :: "u16 \<Rightarrow> u16" where
  "NetworkToHost16 n = swap_bytes 2 n"

definition NetworkToHost32 :: "u32 \<Rightarrow> u32" where
  "NetworkToHost32 n = swap_bytes 4 n"

definition NetworkToHost64 :: "u64 \<Rightarrow> u64" where
  "NetworkToHost64 n = swap_bytes 8 n"

lemma le_bytes_read:
  assumes "length xs = B" and "LENGTH('a::len) = 8 * B"
  shows "le_bytes B (ReadLittleEndian B xs :: 'a word) = xs"
proof (rule nth_equalityI)
  fix i assume i: "i < length (le_bytes B (ReadLittleEndian B xs :: 'a word))"
  show "le_bytes B (ReadLittleEndian B xs :: 'a word) ! i = xs ! i"
  proof (rule bit_word_eqI)
    fix n assume n: "n < LENGTH(8)"
    then have "(i * 8 + n) div 8 = i" "(i * 8 + n) mod 8 = n" by simp_all
    then show "bit (le_bytes B (ReadLittleEndian B xs :: 'a word) ! i) n = bit (xs ! i) n"
      using i n assms
      by (auto simp: le_bytes_def bit_ucast_iff bit_drop_bit_eq bit_ReadLittleEndian
          dest: bit_imp_le_length)
  qed
qed (simp add: assms)

lemma swap_bytes_twice:
  assumes "LENGTH('a::len) = 8 * B"
  shows "swap_bytes B (swap_bytes B v) = (v :: 'a word)"
  using assms
  by (simp add: swap_bytes_def le_bytes_read read_le_bytes take_bit_word_eq_self)

lemma host_load_store:
  assumes "LENGTH('a::len) = 8 * B"
  shows "host_load B (host_store B v mem) = (v :: 'a word)"
  using assms by (simp add: host_load_def host_store_def read_le_bytes take_bit_word_eq_self)

lemma store_swapped:
  assumes "LENGTH('a::len) = 8 * B" and "B \<le> length mem"
  shows "host_store B (swap_bytes B v) mem = WriteBigEndian B (v :: 'a word) mem"
    and "host_store B v mem = WriteLittleEndian B v mem"
  using assms
  by (simp_all add: host_store_def swap_bytes_def le_bytes_read WriteBigEndian_bytes
      WriteLittleEndian_bytes)

lemma load_swapped:
  assumes "LENGTH('a::len) = 8 * B" and "B \<le> length mem"
  shows "swap_bytes B (host_load B mem) = (ReadBigEndian B mem :: 'a word)"
    and "host_load B mem = (ReadLittleEndian B mem :: 'a word)"
proof -
  have "mem = take B mem @ drop B mem" by simp
  then have r: "ReadLittleEndian B mem = (ReadLittleEndian B (take B mem) :: 'a word)"
    "ReadBigEndian B mem = (ReadBigEndian B (take B mem) :: 'a word)"
    using Read_prefix [of "take B mem" B "drop B mem"] assms(2) by simp_all
  show "swap_bytes B (host_load B mem) = (ReadBigEndian B mem :: 'a word)"
    and "host_load B mem = (ReadLittleEndian B mem :: 'a word)"
    using assms r by (simp_all add: swap_bytes_def host_load_def le_bytes_read ReadBigEndian_rev)
qed

section \<open>Properties\<close>

text \<open>
  C37: Writing an integer as \<open>B\<close> bytes and reading them back, in either byte order, gives the low
  \<open>8 * B\<close> bits of the integer; the bytes after the first \<open>B\<close> are not touched, and the big-endian
  bytes are the little-endian ones reversed.
\<close>

theorem bytes_roundtrip:
  assumes "B \<le> length d"
  shows "ReadLittleEndian B (WriteLittleEndian B v d) = take_bit (8 * B) (v :: 'a::len word) \<and>
    ReadBigEndian B (WriteBigEndian B v d) = take_bit (8 * B) v \<and>
    drop B (WriteLittleEndian B v d) = drop B d \<and>
    WriteBigEndian B v d = rev (take B (WriteLittleEndian B v d)) @ drop B d"
  using assms read_write [OF assms, of v]
  by (simp add: WriteLittleEndian_bytes WriteBigEndian_bytes)

theorem bytes_roundtrip_witness:
  "ReadBigEndian 3 (WriteBigEndian 3 (0x12345678 :: u32) [0, 0, 0, 7]) = (0x345678 :: u32)"
proof -
  have "ReadBigEndian 3 (WriteBigEndian 3 (0x12345678 :: u32) [0, 0, 0, 7]) =
      take_bit (8 * 3) (0x12345678 :: u32)"
    by (rule conjunct1 [OF conjunct2 [OF bytes_roundtrip]]) simp
  also have "\<dots> = 0x345678" by simp
  finally show ?thesis .
qed

text \<open>
  A signed integer written as \<open>B\<close> bytes is read back sign-extended from its \<open>8 * B\<close> bits, so a
  number that fits is read back as itself. The one exception: for \<open>4 \<le> B\<close> below the size of the
  type (40-bit numbers in an \<open>int64_t\<close>, say) a negative number has no result, because the mask is
  computed by shifting the 32-bit constant 1 by 32 or more.
\<close>

theorem bytes_signed:
  assumes "0 < B" and "LENGTH('a) = 8 * n" and "B \<le> n" and "B \<le> length d"
  shows "ReadBigEndianSigned B (WriteBigEndian B v d) =
      (if 4 \<le> B \<and> B < n \<and> bit v (8 * B - 1) then None
       else Some (signed_take_bit (8 * B - 1) (v :: 'a::len word)))"
proof -
  have read: "ReadBigEndianSigned B (WriteBigEndian B v d) = ReadSigned B (take_bit (8 * B) v)"
    using read_write(2) [OF assms(4), of v] by (simp add: ReadBigEndianSigned_def)
  have b: "bit (take_bit (8 * B) v) (8 * B - 1) = bit v (8 * B - 1)"
    using assms(1) by (simp add: bit_take_bit_iff)
  show ?thesis
  proof (cases "B = n")
    case True
    have "signed_take_bit (8 * B - 1) v = v"
    proof (rule bit_word_eqI)
      fix m assume "m < LENGTH('a)"
      with assms(2) True have "\<not> m < 8 * B - 1 \<Longrightarrow> m = 8 * B - 1" by simp
      with \<open>m < LENGTH('a)\<close> show "bit (signed_take_bit (8 * B - 1) v) m = bit v m"
        by (auto simp: bit_signed_take_bit_iff min_def)
    qed
    with read True assms(2) show ?thesis by (simp add: ReadSigned_def take_bit_word_eq_self)
  next
    case False
    with assms have less: "B < LENGTH('a) div 8" "8 * B < LENGTH('a)" by auto
    show ?thesis
    proof (cases "B < 4")
      case True
      with read less assms(1) show ?thesis by (simp add: ReadSigned_def SignExtend_small)
    next
      case large: False
      show ?thesis
      proof (cases "bit v (8 * B - 1)")
        case True
        with large False assms less read b SignExtend_undefined [of B "take_bit (8 * B) v"]
        show ?thesis by (simp add: ReadSigned_def)
      next
        case pos: False
        then have "SignExtend B (take_bit (8 * B) v) = Some (take_bit (8 * B) v)"
          using msb_byte [of B "take_bit (8 * B) v"] assms(1) less(2) b
          by (simp add: SignExtend_def Let_def)
        with read less pos no_extend_bits [OF assms(1) less(2) pos] show ?thesis
          by (simp add: ReadSigned_def)
      qed
    qed
  qed
qed

theorem bytes_signed_witness:
  "ReadBigEndianSigned 3 (WriteBigEndian 3 (- 5 :: 32 word) [0, 0, 0]) = Some (- 5 :: 32 word) \<and>
   ReadBigEndianSigned 5 (WriteBigEndian 5 (- 5 :: 64 word) [0, 0, 0, 0, 0]) =
     (None :: 64 word option)"
proof -
  have "signed_take_bit 23 (- 5 :: 32 word) = - 5" "bit (- 5 :: 64 word) 39" by code_simp+
  then show ?thesis
    using bytes_signed [where 'a = 32, of 3 4 "[0, 0, 0]" "- 5"]
      bytes_signed [where 'a = 64, of 5 8 "[0, 0, 0, 0, 0]" "- 5"] by simp
qed

text \<open>
  The specializations for two, four and eight bytes read and write exactly what the generic
  loops read and write.
\<close>

theorem bytes_specializations:
  "ReadBigEndian2 d = (ReadBigEndian 2 d :: 'a::len word) \<and>
   ReadLittleEndian2 d = (ReadLittleEndian 2 d :: 'a word) \<and>
   ReadBigEndian4 d = (ReadBigEndian 4 d :: 'a word) \<and>
   ReadLittleEndian4 d = (ReadLittleEndian 4 d :: 'a word) \<and>
   ReadBigEndian8 d = (ReadBigEndian 8 d :: 'a word) \<and>
   ReadLittleEndian8 d = (ReadLittleEndian 8 d :: 'a word) \<and>
   WriteBigEndian2 v d = WriteBigEndian 2 (v :: 'a word) d \<and>
   WriteLittleEndian2 v d = WriteLittleEndian 2 v d \<and>
   WriteBigEndian4 v d = WriteBigEndian 4 v d \<and>
   WriteLittleEndian4 v d = WriteLittleEndian 4 v d \<and>
   WriteBigEndian8 v d = WriteBigEndian 8 v d \<and>
   WriteLittleEndian8 v d = WriteLittleEndian 8 v d"
proof -
  have u: "[0..<2] = [0, 1]" "[0..<4] = [0, 1, 2, 3]" "[0..<8] = [0, 1, 2, 3, 4, 5, 6, 7]"
    by (simp_all add: upt_rec)
  show ?thesis
    by (simp add: ReadBigEndian2_def ReadLittleEndian2_def ReadBigEndian4_def ReadLittleEndian4_def
        ReadBigEndian8_def ReadLittleEndian8_def WriteBigEndian2_def WriteLittleEndian2_def
        WriteBigEndian4_def WriteLittleEndian4_def WriteBigEndian8_def WriteLittleEndian8_def
        ReadBigEndian_def ReadLittleEndian_def WriteBigEndian_def WriteLittleEndian_def u or.assoc)
qed

text \<open>
  The functions of \<open>byte_order.h\<close> and the classes of \<open>byte_io.h\<close>, written independently, agree
  on a little-endian host: setting is writing and getting is reading, at every width, and
  converting to network order and back is the identity.
\<close>

theorem byte_order_agrees:
  assumes "8 \<le> length mem"
  shows "SetBE16 v16 mem = WriteBigEndian 2 v16 mem \<and> SetLE16 v16 mem = WriteLittleEndian 2 v16 mem \<and>
    SetBE32 v32 mem = WriteBigEndian 4 v32 mem \<and> SetLE32 v32 mem = WriteLittleEndian 4 v32 mem \<and>
    SetBE64 v64 mem = WriteBigEndian 8 v64 mem \<and> SetLE64 v64 mem = WriteLittleEndian 8 v64 mem \<and>
    GetBE16 mem = ReadBigEndian 2 mem \<and> GetLE16 mem = ReadLittleEndian 2 mem \<and>
    GetBE32 mem = ReadBigEndian 4 mem \<and> GetLE32 mem = ReadLittleEndian 4 mem \<and>
    GetBE64 mem = ReadBigEndian 8 mem \<and> GetLE64 mem = ReadLittleEndian 8 mem \<and>
    NetworkToHost16 (HostToNetwork16 v16) = v16 \<and> NetworkToHost32 (HostToNetwork32 v32) = v32 \<and>
    NetworkToHost64 (HostToNetwork64 v64) = v64"
proof -
  have be: "SetBE16 v16 mem = WriteBigEndian 2 v16 mem" "SetBE32 v32 mem = WriteBigEndian 4 v32 mem"
    "SetBE64 v64 mem = WriteBigEndian 8 v64 mem" "GetBE16 mem = ReadBigEndian 2 mem"
    "GetBE32 mem = ReadBigEndian 4 mem" "GetBE64 mem = ReadBigEndian 8 mem"
    using assms by (simp_all add: SetBE16_def SetBE32_def SetBE64_def GetBE16_def GetBE32_def
        GetBE64_def store_swapped(1) load_swapped(1))
  have le: "SetLE16 v16 mem = WriteLittleEndian 2 v16 mem"
    "SetLE32 v32 mem = WriteLittleEndian 4 v32 mem" "SetLE64 v64 mem = WriteLittleEndian 8 v64 mem"
    "GetLE16 mem = ReadLittleEndian 2 mem" "GetLE32 mem = ReadLittleEndian 4 mem"
    "GetLE64 mem = ReadLittleEndian 8 mem"
    using assms by (simp_all add: SetLE16_def SetLE32_def SetLE64_def GetLE16_def GetLE32_def
        GetLE64_def store_swapped(2) load_swapped(2))
  show ?thesis
    by (simp add: be le HostToNetwork16_def HostToNetwork32_def HostToNetwork64_def
        NetworkToHost16_def NetworkToHost32_def NetworkToHost64_def swap_bytes_twice)
qed

theorem byte_order_agrees_witness:
  "GetBE16 [1, 2, 3, 4, 5, 6, 7, 8] = ReadBigEndian 2 [1, 2, 3, 4, 5, 6, 7, 8 :: u8]"
  using byte_order_agrees [of "[1, 2, 3, 4, 5, 6, 7, 8]"] by simp

end
