(* ===== verification/Seq_Num.thy ===== *)
theory Seq_Num
  imports Prelude
begin

text \<open>
  Wrapping sequence numbers: \<open>rtc_base/numerics/mod_ops.h\<close>,
  \<open>rtc_base/numerics/sequence_number_util.h\<close> and \<open>modules/include/module_common_types_public.h\<close>.
  The type \<open>T\<close> is a word type; the template argument \<open>M\<close> is a word, \<open>0\<close> standing for wrapping at
  the size of the type. Where the \<open>int64_t\<close> arithmetic of an unwrapper would overflow, the
  operation has no result.
\<close>

unbundle bit_operations_syntax

section \<open>Modular arithmetic\<close>

definition Add :: "u64 \<Rightarrow> u64 \<Rightarrow> u64 \<Rightarrow> u64" where
  "Add M a b =
     (let t = M - b mod M; res = a - t in if t > a then res + M else res)"

definition Subtract :: "u64 \<Rightarrow> u64 \<Rightarrow> u64 \<Rightarrow> u64" where
  "Subtract M a b =
     (let sub = b mod M in if a < sub then M - (sub - a) else a - sub)"

definition ForwardDiff :: "'a::len word \<Rightarrow> 'a word \<Rightarrow> 'a word \<Rightarrow> 'a word" where
  "ForwardDiff M a b = (if M > 0 then (if a \<le> b then b - a else M - (a - b)) else b - a)"

definition ReverseDiff :: "'a::len word \<Rightarrow> 'a word \<Rightarrow> 'a word \<Rightarrow> 'a word" where
  "ReverseDiff M a b = (if M > 0 then (if b \<le> a then a - b else M - (b - a)) else a - b)"

definition MinDiff :: "'a::len word \<Rightarrow> 'a word \<Rightarrow> 'a word \<Rightarrow> 'a word" where
  "MinDiff M a b = min (ForwardDiff M a b) (ReverseDiff M a b)"

section \<open>Comparison\<close>

text \<open>
  \<open>a - b\<close> as C++ computes it: types below 32 bits are promoted to \<open>int\<close>, where the difference of
  two of their values does not wrap.
\<close>

definition promoted_diff :: "'a::len word \<Rightarrow> 'a word \<Rightarrow> int" where
  "promoted_diff a b = (if LENGTH('a) < 32 then uint a - uint b else uint (a - b))"

text \<open>\<open>std::numeric_limits<T>::max() / 2 + T(1)\<close>\<close>

definition max_dist :: "'a::len word" where
  "max_dist = (- 1) div 2 + 1"

definition AheadOrAt :: "'a::len word \<Rightarrow> 'a word \<Rightarrow> 'a word \<Rightarrow> bool" where
  "AheadOrAt M a b =
     (if M > 0 then
        (let maxDist = M div 2 in
         if M AND 1 = 0 \<and> MinDiff M a b = maxDist then b < a
         else ForwardDiff M b a \<le> maxDist)
      else
        (if promoted_diff a b = uint (max_dist :: 'a word) then b < a
         else ForwardDiff 0 b a < max_dist))"

definition AheadOf :: "'a::len word \<Rightarrow> 'a word \<Rightarrow> 'a word \<Rightarrow> bool" where
  "AheadOf M a b \<longleftrightarrow> a \<noteq> b \<and> AheadOrAt M a b"

definition AscendingSeqNumComp :: "'a::len word \<Rightarrow> 'a word \<Rightarrow> 'a word \<Rightarrow> bool" where
  "AscendingSeqNumComp M a b = AheadOf M a b"

definition DescendingSeqNumComp :: "'a::len word \<Rightarrow> 'a word \<Rightarrow> 'a word \<Rightarrow> bool" where
  "DescendingSeqNumComp M a b = AheadOf M b a"

text \<open>\<open>(std::numeric_limits<U>::max() >> 1) + 1\<close>\<close>

definition kBreakpoint :: "'a::len word" where
  "kBreakpoint = drop_bit 1 (- 1) + 1"

definition IsNewer :: "'a::len word \<Rightarrow> 'a word \<Rightarrow> bool" where
  "IsNewer value prev_value =
     (if promoted_diff value prev_value = uint (kBreakpoint :: 'a word) then value > prev_value
      else value \<noteq> prev_value \<and> value - prev_value < kBreakpoint)"

definition IsNewerSequenceNumber :: "u16 \<Rightarrow> u16 \<Rightarrow> bool" where
  "IsNewerSequenceNumber sequence_number prev_sequence_number =
     IsNewer sequence_number prev_sequence_number"

definition IsNewerTimestamp :: "u32 \<Rightarrow> u32 \<Rightarrow> bool" where
  "IsNewerTimestamp timestamp prev_timestamp = IsNewer timestamp prev_timestamp"

definition LatestSequenceNumber :: "u16 \<Rightarrow> u16 \<Rightarrow> u16" where
  "LatestSequenceNumber s1 s2 = (if IsNewerSequenceNumber s1 s2 then s1 else s2)"

definition LatestTimestamp :: "u32 \<Rightarrow> u32 \<Rightarrow> u32" where
  "LatestTimestamp t1 t2 = (if IsNewerTimestamp t1 t2 then t1 else t2)"

section \<open>Unwrapping\<close>

record 'v seq_num_unwrapper =
  last_unwrapped :: int
  last_value :: "'v option"

definition new_seq_num_unwrapper :: "'v seq_num_unwrapper" where
  "new_seq_num_unwrapper = \<lparr>last_unwrapped = 0, last_value = None\<rparr>"

text \<open>The \<open>static_assert\<close> on the type.\<close>

definition smaller_than_int64 :: "'a::len itself \<Rightarrow> bool" where
  "smaller_than_int64 _ \<longleftrightarrow> uint (- 1 :: 'a word) < int64_max"

definition SeqNum_Unwrap ::
  "'a::len word \<Rightarrow> 'a word \<Rightarrow> 'a word seq_num_unwrapper \<Rightarrow>
    (int \<times> 'a word seq_num_unwrapper) option" where
  "SeqNum_Unwrap M value u =
     map_option
       (\<lambda>unwrapped. (unwrapped, \<lparr>last_unwrapped = unwrapped, last_value = Some value\<rparr>))
       (case last_value u of
          None \<Rightarrow> Some (uint value)
        | Some l \<Rightarrow>
            Option.bind (int64 (last_unwrapped u + uint (ForwardDiff M l value))) (\<lambda>lu.
              if \<not> AheadOrAt M value l
              then int64 (lu - (if M = 0 then uint (- 1 :: 'a word) + 1 else uint M))
              else Some lu))"

definition UnwrapForward ::
  "'a::len word \<Rightarrow> 'a word \<Rightarrow> 'a word seq_num_unwrapper \<Rightarrow>
    (int \<times> 'a word seq_num_unwrapper) option" where
  "UnwrapForward M value u =
     map_option
       (\<lambda>unwrapped. (unwrapped, \<lparr>last_unwrapped = unwrapped, last_value = Some value\<rparr>))
       (case last_value u of
          None \<Rightarrow> Some (uint value)
        | Some l \<Rightarrow> int64 (last_unwrapped u + uint (ForwardDiff M l value)))"

definition UnwrapBackwards ::
  "'a::len word \<Rightarrow> 'a word \<Rightarrow> 'a word seq_num_unwrapper \<Rightarrow>
    (int \<times> 'a word seq_num_unwrapper) option" where
  "UnwrapBackwards M value u =
     map_option
       (\<lambda>unwrapped. (unwrapped, \<lparr>last_unwrapped = unwrapped, last_value = Some value\<rparr>))
       (case last_value u of
          None \<Rightarrow> Some (uint value)
        | Some l \<Rightarrow> int64 (last_unwrapped u - uint (ReverseDiff M l value)))"

text \<open>The \<open>Unwrapper\<close> of the older header keeps only the last unwrapped value.\<close>

definition UnwrapWithoutUpdate :: "'a::len word \<Rightarrow> int option \<Rightarrow> int option" where
  "UnwrapWithoutUpdate value last_val =
     (case last_val of
        None \<Rightarrow> Some (uint value)
      | Some l \<Rightarrow>
          (let kMaxPlusOne = uint (- 1 :: 'a word) + 1;
               cropped_last = of_int l :: 'a word;
               delta = promoted_diff value cropped_last
           in Option.bind
                (if IsNewer value cropped_last
                 then Some (if delta < 0 then delta + kMaxPlusOne else delta)
                 else if delta > 0
                 then
                   Option.bind (int64 (l + delta)) (\<lambda>s.
                     map_option (\<lambda>t. if t \<ge> 0 then delta - kMaxPlusOne else delta)
                       (int64 (s - kMaxPlusOne)))
                 else Some delta)
                (\<lambda>delta'. int64 (l + delta'))))"

definition UpdateLast :: "int \<Rightarrow> int option \<Rightarrow> int option" where
  "UpdateLast l s = Some l"

definition Unwrapper_Unwrap :: "'a::len word \<Rightarrow> int option \<Rightarrow> (int \<times> int option) option" where
  "Unwrapper_Unwrap value s =
     map_option (\<lambda>unwrapped. (unwrapped, UpdateLast unwrapped s)) (UnwrapWithoutUpdate value s)"

section \<open>What the differences are\<close>

definition modulus :: "'a::len word \<Rightarrow> int" where
  "modulus M = (if M = 0 then 2 ^ LENGTH('a) else uint M)"

definition in_range :: "'a::len word \<Rightarrow> 'a word \<Rightarrow> bool" where
  "in_range M a \<longleftrightarrow> uint a < modulus M"

lemma modulus_pos: "0 < modulus M"
  by (cases "M = 0") (auto simp: modulus_def uint_0_iff less_le)

lemma uint_in_range: "in_range M a \<Longrightarrow> uint a mod modulus M = uint a"
  by (simp add: in_range_def)

lemma uint_wrap_sub: "uint (a - b :: 'a::len word) = (uint a - uint b) mod 2 ^ LENGTH('a)"
  by (simp add: uint_word_ariths)

lemma uint_ForwardDiff:
  assumes "in_range M a" and "in_range M b"
  shows "uint (ForwardDiff M a b) = (uint b - uint a) mod modulus M"
proof (cases "M = 0")
  case True
  then show ?thesis by (simp add: ForwardDiff_def modulus_def uint_wrap_sub)
next
  case False
  with assms have r: "uint a < uint M" "uint b < uint M" by (simp_all add: in_range_def modulus_def)
  show ?thesis
  proof (cases "a \<le> b")
    case True
    then have "uint a \<le> uint b" by (simp add: word_le_def)
    then have "(uint b - uint a) mod uint M = uint b - uint a"
      using r uint_ge_0 [of a] by (intro mod_pos_pos_trivial) linarith+
    with True False show ?thesis
      by (simp add: ForwardDiff_def modulus_def uint_minus_simple_alt [THEN iffD1] word_gt_0)
  next
    case le: False
    then have lt: "uint b < uint a" by (simp add: word_le_def)
    then have d: "uint (a - b) = uint a - uint b"
      by (simp add: uint_minus_simple_alt [THEN iffD1] word_le_def)
    then have "uint (a - b) \<le> uint M" using r uint_ge_0 [of b] by linarith
    then have "a - b \<le> M" by (simp add: word_le_def)
    then have "uint (M - (a - b)) = uint M - (uint a - uint b)"
      using d by (simp add: uint_minus_simple_alt [THEN iffD1])
    moreover have "(uint b - uint a) mod uint M = uint b - uint a + uint M"
    proof -
      have "0 \<le> uint b - uint a + uint M" using r uint_ge_0 [of b] by linarith
      with lt have "(uint b - uint a + uint M) mod uint M = uint b - uint a + uint M"
        by (intro mod_pos_pos_trivial) simp_all
      then show ?thesis by (simp add: mod_add_self2)
    qed
    ultimately show ?thesis using le False by (simp add: ForwardDiff_def modulus_def word_gt_0)
  qed
qed

lemma ReverseDiff_Forward: "ReverseDiff M a b = ForwardDiff M b a"
  by (simp add: ReverseDiff_def ForwardDiff_def)

lemma uint_MinDiff:
  assumes "in_range M a" and "in_range M b"
  shows "uint (MinDiff M a b) =
    min ((uint b - uint a) mod modulus M) ((uint a - uint b) mod modulus M)"
  using uint_ForwardDiff [OF assms] uint_ForwardDiff [OF assms(2,1)]
  by (auto simp: MinDiff_def ReverseDiff_Forward min_def word_le_def)

text \<open>
  The order on a circle of \<open>m\<close> numbers: ahead by less than half of it, or by exactly half and
  then the larger number.
\<close>

definition circle_ahead :: "int \<Rightarrow> int \<Rightarrow> int \<Rightarrow> bool" where
  "circle_ahead m a b \<longleftrightarrow>
     2 * ((a - b) mod m) < m \<or> 2 * ((a - b) mod m) = m \<and> b < a"

lemma mod_neg: "(b - a :: int) mod m = (if (a - b) mod m = 0 then 0 else m - (a - b) mod m)"
  using zmod_zminus1_eq_if [of "a - b" m] by (auto simp: mod_eq_0_iff_dvd)

definition half :: "'a::len itself \<Rightarrow> int" where
  "half _ = 2 ^ (LENGTH('a) - 1)"

lemma twice_half: "2 * half TYPE('a::len) = 2 ^ LENGTH('a)"
  by (simp add: half_def flip: power_Suc)

lemma half_pos: "0 < half TYPE('a::len)"
  by (simp add: half_def)

lemma uint_half_word:
  assumes "uint (x :: 'a::len word) = half TYPE('a) - 1"
  shows "uint (x + 1) = half TYPE('a)"
  using assms twice_half [where 'a = 'a] half_pos [where 'a = 'a]
  by (simp add: uint_word_ariths)

lemma uint_max: "uint (- 1 :: 'a::len word) = 2 * half TYPE('a) - 1"
  by (simp add: twice_half unsigned_minus_1_eq_mask mask_eq_exp_minus_1)

lemma uint_div_2: "uint (w div 2 :: 'a::len word) = uint w div 2"
proof -
  have "take_bit LENGTH('a) (uint w) = uint w"
    by (rule take_bit_int_eq_self) simp_all
  then have "uint (drop_bit 1 w) = drop_bit 1 (uint w)"
    unfolding unsigned_drop_bit_eq by (rule arg_cong)
  then show ?thesis by (simp only: drop_bit_eq_div power_one_right)
qed

lemma uint_half_minus_1: "uint (drop_bit 1 (- 1 :: 'a::len word)) = half TYPE('a) - 1"
  unfolding drop_bit_eq_div power_one_right uint_div_2 uint_max by simp

lemma half_breakpoint: "uint (kBreakpoint :: 'a::len word) = half TYPE('a)"
  unfolding kBreakpoint_def by (rule uint_half_word) (rule uint_half_minus_1)

lemma half_max: "uint (max_dist :: 'a::len word) = half TYPE('a)"
  unfolding max_dist_def
  using half_breakpoint [where 'a = 'a] unfolding kBreakpoint_def by (simp only: drop_bit_eq_div power_one_right)

lemma circle_diff:
  assumes "0 \<le> a" "0 \<le> b" "a < m" "b < (m :: int)"
  shows "(a - b) mod m = (if b \<le> a then a - b else a - b + m)"
proof (cases "b \<le> a")
  case True
  then show ?thesis using assms by (simp add: mod_pos_pos_trivial)
next
  case False
  then have "(a - b + m) mod m = a - b + m" using assms by (intro mod_pos_pos_trivial) linarith+
  with False show ?thesis by (simp add: mod_add_self2)
qed

lemma circle_ahead_half:
  "0 < h \<Longrightarrow> circle_ahead (2 * h) a b \<longleftrightarrow> (a - b) mod (2 * h) < h \<or> (a - b) mod (2 * h) = h \<and> b < a"
  by (simp add: circle_ahead_def)

text \<open>
  The test of the code, whichever way its difference is computed, with \<open>h\<close> half the size of the
  type.
\<close>

lemma promoted_circle:
  fixes a b :: "'a::len word"
  shows "(if promoted_diff a b = half TYPE('a) then b < a
          else (uint a - uint b) mod 2 ^ LENGTH('a) < half TYPE('a)) =
    circle_ahead (2 ^ LENGTH('a)) (uint a) (uint b)"
proof -
  let ?h = "half TYPE('a)"
  note h = half_pos [where 'a = 'a]
  have r: "0 \<le> uint a" "0 \<le> uint b" "uint a < 2 * ?h" "uint b < 2 * ?h"
    by (simp_all add: twice_half)
  note d = circle_diff [OF r]
  show ?thesis
    unfolding twice_half [symmetric] circle_ahead_half [OF h] word_less_def promoted_diff_def
      uint_wrap_sub d
    using h r by (auto, linarith?)
qed

lemma odd_half: "odd m \<Longrightarrow> (d \<le> m div 2 \<longleftrightarrow> 2 * d < m) \<and> 2 * d \<noteq> m" for d m :: int
  by presburger

lemma even_half:
  fixes d m :: int
  assumes "even m" and "0 \<le> d" and "d < m"
  shows "(d \<le> m div 2 \<longleftrightarrow> 2 * d < m \<or> 2 * d = m) \<and>
    (min (if d = 0 then 0 else m - d) d = m div 2 \<longleftrightarrow> 2 * d = m)"
  using assms by (auto simp: min_def elim!: evenE)

lemma AheadOrAt_circle:
  assumes "in_range M a" and "in_range M b"
  shows "AheadOrAt M a b = circle_ahead (modulus M) (uint a) (uint b)"
proof (cases "M = 0")
  case True
  have "ForwardDiff 0 b a < x \<longleftrightarrow> (uint a - uint b) mod 2 ^ LENGTH('a) < uint x" for x
    by (simp add: ForwardDiff_def word_less_def uint_wrap_sub)
  then show ?thesis
    unfolding AheadOrAt_def Let_def half_max modulus_def True
    using promoted_circle [of a b] by (auto simp: half_max split: if_splits)
next
  case False
  let ?m = "uint M" and ?d = "(uint a - uint b) mod uint M"
  have m: "modulus M = ?m" "0 < ?m" using False modulus_pos [of M] by (simp_all add: modulus_def)
  have d: "0 \<le> ?d" "?d < ?m" using m(2) by simp_all
  note half = uint_div_2 [of M]
  have fwd: "ForwardDiff M b a \<le> M div 2 \<longleftrightarrow> ?d \<le> ?m div 2"
    using uint_ForwardDiff [OF assms(2,1)] m by (simp add: word_le_def half)
  have "MinDiff M a b = M div 2 \<longleftrightarrow> uint (MinDiff M a b) = uint (M div 2)"
    by (rule word_uint_eq_iff)
  then have min: "MinDiff M a b = M div 2 \<longleftrightarrow> min (if ?d = 0 then 0 else ?m - ?d) ?d = ?m div 2"
    using uint_MinDiff [OF assms] mod_neg [of "uint b" "uint a" ?m]
    by (simp add: half m)
  have odd: "M AND 1 = 0 \<longleftrightarrow> even ?m"
  proof -
    have "M AND 1 = 0 \<longleftrightarrow> even M" by (simp add: and_one_eq even_iff_mod_2_eq_zero)
    moreover have "odd M \<longleftrightarrow> odd ?m" by (simp flip: bit_0 add: bit_unsigned_iff)
    ultimately show ?thesis by simp
  qed
  show ?thesis
  proof (cases "odd ?m")
    case True
    note odd_half [OF True, of ?d]
    with True False show ?thesis
      unfolding AheadOrAt_def Let_def fwd odd circle_ahead_def m by (simp add: word_gt_0)
  next
    case even: False
    then have "even ?m" by simp
    note even_half [OF this d]
    with even False m(2) show ?thesis
      unfolding AheadOrAt_def Let_def fwd min odd circle_ahead_def word_less_def m
      by (auto simp: word_gt_0)
  qed
qed

lemma IsNewer_circle:
  fixes a b :: "'a::len word"
  shows "IsNewer a b \<longleftrightarrow> a \<noteq> b \<and> circle_ahead (2 ^ LENGTH('a)) (uint a) (uint b)"
  using promoted_circle [of a b]
  by (auto simp: IsNewer_def half_breakpoint word_less_def uint_wrap_sub)

section \<open>Unwrapping steps\<close>

text \<open>The sequence number that stands for an integer.\<close>

definition seq_number :: "'a::len word \<Rightarrow> int \<Rightarrow> 'a word" where
  "seq_number M x = word_of_int (x mod modulus M)"

lemma modulus_le: "modulus (M :: 'a::len word) \<le> 2 ^ LENGTH('a)"
  by (simp add: modulus_def less_imp_le)

lemma uint_seq_number: "uint (seq_number M x :: 'a::len word) = x mod modulus M"
proof -
  have "0 \<le> x mod modulus M" "x mod modulus M < modulus M"
    using modulus_pos [of M] by simp_all
  with modulus_le [of M] have "x mod modulus M < 2 ^ LENGTH('a)" by linarith
  with \<open>0 \<le> x mod modulus M\<close> show ?thesis
    by (simp add: seq_number_def uint_word_of_int)
qed

lemma in_range_seq_number: "in_range M (seq_number M x)"
  using modulus_pos [of M] by (simp add: in_range_def uint_seq_number)

text \<open>Two numbers less than half a circle apart.\<close>

lemma near_cases:
  assumes "2 * \<bar>y - x\<bar> < m"
  shows "circle_ahead m (y mod m) (x mod m) \<longleftrightarrow> x \<le> (y :: int)"
    and "(y - x) mod m = (if x \<le> y then y - x else y - x + m)"
proof -
  show d: "(y - x) mod m = (if x \<le> y then y - x else y - x + m)"
    using assms mod_pos_pos_trivial [of "y - x" m] mod_pos_pos_trivial [of "y - x + m" m]
    by auto
  have "(y mod m - x mod m) mod m = (y - x) mod m" by (simp add: mod_diff_eq)
  with d assms show "circle_ahead m (y mod m) (x mod m) \<longleftrightarrow> x \<le> y"
    by (auto simp: circle_ahead_def)
qed

text \<open>No value comes closer to the upper bound of \<open>int64_t\<close> than one circle.\<close>

definition room :: "int \<Rightarrow> int \<Rightarrow> bool" where
  "room m y \<longleftrightarrow> int64_min \<le> y \<and> y + m \<le> int64_max"

lemma int64_room: "room m y \<Longrightarrow> 0 < m \<Longrightarrow> int64 y = Some y \<and> int64 (y + m) = Some (y + m)"
  by (simp add: room_def int64_def)

lemma seq_unwrap_step:
  fixes M :: "'a::len word"
  assumes "2 * \<bar>y - x\<bar> < modulus M" and "room (modulus M) y"
  shows "SeqNum_Unwrap M (seq_number M y) \<lparr>last_unwrapped = x, last_value = Some (seq_number M x)\<rparr> =
    Some (y, \<lparr>last_unwrapped = y, last_value = Some (seq_number M y)\<rparr>)"
proof -
  have adj: "(if M = 0 then uint (- 1 :: 'a word) + 1 else uint M) = modulus M"
    unfolding uint_max modulus_def by (simp add: twice_half)
  have "(y mod modulus M - x mod modulus M) mod modulus M = (y - x) mod modulus M"
    by (simp add: mod_diff_eq)
  then have f: "uint (ForwardDiff M (seq_number M x) (seq_number M y)) = (y - x) mod modulus M"
    by (simp add: uint_ForwardDiff in_range_seq_number uint_seq_number)
  have sums: "x + (y - x + modulus M) = y + modulus M" by simp
  show ?thesis
    unfolding SeqNum_Unwrap_def adj
    by (simp add: f near_cases [OF assms(1)] AheadOrAt_circle in_range_seq_number uint_seq_number
        sums int64_room [OF assms(2) modulus_pos])
qed

text \<open>A sequence of true values, each less than half a circle from the one before.\<close>

fun near :: "int \<Rightarrow> int list \<Rightarrow> bool" where
  "near m (x # y # zs) \<longleftrightarrow> 2 * \<bar>y - x\<bar> < m \<and> near m (y # zs)"
| "near m _ \<longleftrightarrow> True"

fun seq_unwrap_all :: "'a::len word \<Rightarrow> 'a word list \<Rightarrow> 'a word seq_num_unwrapper \<Rightarrow> int list option" where
  "seq_unwrap_all M [] u = Some []"
| "seq_unwrap_all M (v # vs) u =
     Option.bind (SeqNum_Unwrap M v u) (\<lambda>(x, u'). map_option ((#) x) (seq_unwrap_all M vs u'))"

lemma seq_unwrap_from:
  "near (modulus M) (x # xs) \<Longrightarrow> \<forall>y \<in> set xs. room (modulus M) y \<Longrightarrow>
    seq_unwrap_all M (map (seq_number M) xs)
      \<lparr>last_unwrapped = x, last_value = Some (seq_number M x)\<rparr> = Some xs"
  by (induction xs arbitrary: x) (simp_all add: seq_unwrap_step)

lemma near_pos: "2 * \<bar>d\<bar> < m \<Longrightarrow> 0 < d + m" for d m :: int
  by linarith

lemma unwrap_step:
  fixes x y :: int
  assumes "2 * \<bar>y - x\<bar> < 2 ^ LENGTH('a::len)" and "0 \<le> y" and "room (2 ^ LENGTH('a)) y"
  shows "UnwrapWithoutUpdate (word_of_int y :: 'a word) (Some x) = Some y"
proof -
  let ?m = "2 ^ LENGTH('a) :: int"
  have u: "uint (word_of_int z :: 'a word) = z mod ?m" for z by (simp add: uint_word_of_int)
  have max: "uint (- 1 :: 'a word) + 1 = ?m" unfolding uint_max by (simp add: twice_half)
  have d: "(y mod ?m - x mod ?m) mod ?m = (y - x) mod ?m" by (simp add: mod_diff_eq)
  have eq: "(word_of_int y :: 'a word) = word_of_int x \<longleftrightarrow> y = x"
  proof
    assume "(word_of_int y :: 'a word) = word_of_int x"
    then have "y mod ?m = x mod ?m" using u by metis
    then have "(y - x) mod ?m = 0" by (simp add: mod_eq_dvd_iff mod_0_imp_dvd)
    with near_cases(2) [OF assms(1)] assms(1) show "y = x" by (auto split: if_splits)
  qed simp
  have newer: "IsNewer (word_of_int y :: 'a word) (word_of_int x) \<longleftrightarrow> x < y"
    using near_cases(1) [OF assms(1)] by (auto simp: IsNewer_circle u eq)
  have pd: "promoted_diff (word_of_int y :: 'a word) (word_of_int x) =
      (if LENGTH('a) < 32 then y mod ?m - x mod ?m else (y - x) mod ?m)"
    by (simp add: promoted_diff_def uint_wrap_sub u mod_diff_eq)
  have r: "0 \<le> y mod ?m" "y mod ?m < ?m" "0 \<le> x mod ?m" "x mod ?m < ?m" by simp_all
  then have md: "(y - x) mod ?m = (if x mod ?m \<le> y mod ?m then y mod ?m - x mod ?m
      else y mod ?m - x mod ?m + ?m)"
    using d circle_diff by metis
  have pos: "0 < y - x + ?m" using assms(1) by (rule near_pos)
  define e where "e = promoted_diff (word_of_int y :: 'a word) (word_of_int x)"
  have e: "x < y \<Longrightarrow> e = y - x \<or> e < 0 \<and> e = y - x - ?m"
    "y \<le> x \<Longrightarrow> e \<le> 0 \<and> e = y - x \<or> 0 < e \<and> e = y - x + ?m"
    using near_cases(2) [OF assms(1)] md r pos unfolding e_def pd by (auto split: if_splits)
  have fits: "int64 y = Some y" "int64 (y + ?m) = Some (y + ?m)"
    using int64_room [OF assms(3)] by simp_all
  have sums: "x + (y - x) = y" "x + (y - x + ?m) = y + ?m" "y - x - ?m + ?m = y - x"
    "y - x + ?m - ?m = y - x" "y + ?m - ?m = y" by simp_all
  show ?thesis
  proof (cases "x < y")
    case True
    with e(1) show ?thesis
      unfolding UnwrapWithoutUpdate_def Let_def max of_int_eq_id
      by (auto simp: newer fits sums simp flip: e_def)
  next
    case False
    with e(2) assms(2) show ?thesis
      unfolding UnwrapWithoutUpdate_def Let_def max of_int_eq_id
      by (auto simp: newer fits sums simp flip: e_def)
  qed
qed

fun unwrap_all :: "'a::len word list \<Rightarrow> int option \<Rightarrow> int list option" where
  "unwrap_all [] u = Some []"
| "unwrap_all (v # vs) u =
     Option.bind (Unwrapper_Unwrap v u) (\<lambda>(x, u'). map_option ((#) x) (unwrap_all vs u'))"

lemma unwrap_from:
  "near (2 ^ LENGTH('a)) (x # xs) \<Longrightarrow> \<forall>y \<in> set xs. 0 \<le> y \<and> room (2 ^ LENGTH('a)) y \<Longrightarrow>
    unwrap_all (map word_of_int xs :: 'a::len word list) (Some x) = Some xs"
  by (induction xs arbitrary: x)
    (simp_all add: Unwrapper_Unwrap_def unwrap_step UpdateLast_def)

section \<open>Properties\<close>

text \<open>
  C36: Unwrapping recovers the true numbers: for any sequence of integers that starts inside the
  first circle, in which each is less than half a circle away from the one before, forwards
  or backwards, and none comes closer to the upper bound of \<open>int64_t\<close> than one circle,
  \<open>SeqNumUnwrapper\<close> fed with the wrapped numbers never overflows and returns the integers
  themselves, for every type that its \<open>static_assert\<close> admits and every modulus \<open>M\<close>. The room of
  one circle is needed: a number that is behind the last one is first added as if it were ahead.
\<close>

theorem seq_unwrap_roundtrip:
  fixes M :: "'a::len word"
  assumes "smaller_than_int64 TYPE('a)" and "0 \<le> x" and "x < modulus M"
    and "near (modulus M) (x # xs)"
    and "\<forall>y \<in> set xs. int64_min \<le> y \<and> y + modulus M \<le> int64_max"
  shows "seq_unwrap_all M (map (seq_number M) (x # xs)) new_seq_num_unwrapper = Some (x # xs)"
proof -
  have "SeqNum_Unwrap M (seq_number M x) new_seq_num_unwrapper =
      Some (x, \<lparr>last_unwrapped = x, last_value = Some (seq_number M x)\<rparr>)"
    using assms(2,3) by (simp add: SeqNum_Unwrap_def new_seq_num_unwrapper_def uint_seq_number)
  with seq_unwrap_from [OF assms(4)] assms(5) show ?thesis by (simp add: room_def)
qed

theorem seq_unwrap_roundtrip_witness:
  "seq_unwrap_all (0 :: u16) (map (seq_number 0) [65530, 65540, 65535, 98000]) new_seq_num_unwrapper =
    Some [65530, 65540, 65535, 98000]"
  by (rule seq_unwrap_roundtrip)
    (simp_all add: modulus_def smaller_than_int64_def uint_max half_def int64_max_def int64_min_def)

text \<open>
  Of two different sequence numbers exactly one is ahead of the other, also when they are
  exactly half a circle apart; with \<open>M = 0\<close> being ahead is the relation \<open>IsNewer\<close> of the older
  header, so the two implementations agree.
\<close>

theorem ahead_of_total:
  fixes M a b :: "'a::len word"
  assumes "in_range M a" and "in_range M b" and "a \<noteq> b"
  shows "AheadOf M a b = (\<not> AheadOf M b a) \<and> AscendingSeqNumComp M a b = DescendingSeqNumComp M b a \<and>
    IsNewer a b = AheadOf 0 a b"
proof -
  have ne: "uint a \<noteq> uint b" using assms(3) by (simp add: word_uint_eq_iff)
  have r: "0 \<le> uint a" "0 \<le> uint b" "uint a < modulus M" "uint b < modulus M"
    using assms(1,2) by (simp_all add: in_range_def)
  have "circle_ahead (modulus M) (uint a) (uint b) = (\<not> circle_ahead (modulus M) (uint b) (uint a))"
    using circle_diff [OF r] circle_diff [OF r(2,1,4,3)] ne by (auto simp: circle_ahead_def)
  moreover have "in_range 0 a" "in_range 0 b" by (simp_all add: in_range_def modulus_def)
  then have "IsNewer a b = AheadOf 0 a b"
    by (simp add: IsNewer_circle AheadOf_def AheadOrAt_circle) (simp add: modulus_def)
  ultimately show ?thesis
    using assms AheadOrAt_circle [OF assms(1,2)] AheadOrAt_circle [OF assms(2,1)]
    by (auto simp: AheadOf_def AscendingSeqNumComp_def DescendingSeqNumComp_def)
qed

theorem ahead_of_total_witness: "IsNewer (3 :: u16) 65533 = AheadOf 0 (3 :: u16) 65533 \<and> \<not> AheadOf 0 (65533 :: u16) 3"
proof -
  have "AheadOf 0 (3 :: u16) 65533" by code_simp
  moreover have "in_range 0 (3 :: u16)" "in_range 0 (65533 :: u16)"
    by (simp_all add: in_range_def modulus_def)
  ultimately show ?thesis using ahead_of_total [of 0 3 "65533 :: u16"] by simp
qed

text \<open>
  The older \<open>Unwrapper\<close> recovers true numbers too, as long as they are not negative and stay one
  circle below the bound of \<open>int64_t\<close>, for types that C++ promotes to \<open>int\<close> as for types it does
  not.
\<close>

theorem unwrapper_roundtrip:
  assumes "0 \<le> x" and "x < 2 ^ LENGTH('a)" and "near (2 ^ LENGTH('a)) (x # xs)"
    and "\<forall>y \<in> set xs. 0 \<le> y \<and> y + 2 ^ LENGTH('a) \<le> int64_max"
  shows "unwrap_all (map word_of_int (x # xs) :: 'a::len word list) None = Some (x # xs)"
proof -
  have "\<forall>y \<in> set xs. 0 \<le> y \<and> room (2 ^ LENGTH('a)) y"
    using assms(4) by (fastforce simp: room_def int64_min_def)
  from unwrap_from [OF assms(3) this] assms(1,2) show ?thesis
    by (simp add: Unwrapper_Unwrap_def UnwrapWithoutUpdate_def UpdateLast_def uint_word_of_int)
qed

theorem unwrapper_roundtrip_witness:
  "unwrap_all [65530 :: u16, 4, 65535] None = Some [65530, 65540, 65535] \<and>
   unwrap_all [4294967290 :: u32, 4, 4294967295] None = Some [4294967290, 4294967300, 4294967295]"
proof -
  have e: "(65540 :: u16) = 4" "(4294967300 :: u32) = 4" by simp_all
  show ?thesis
    using unwrapper_roundtrip [where 'a = 16, of 65530 "[65540, 65535]"]
      unwrapper_roundtrip [where 'a = 32, of 4294967290 "[4294967300, 4294967295]"]
    by (simp add: e int64_max_def del: unwrap_all.simps)
qed

text \<open>
  \<open>Add\<close> and \<open>Subtract\<close> compute in the residues of \<open>M\<close> without overflowing, for every 64-bit
  \<open>b\<close>, and undo each other.
\<close>

theorem mod_add_subtract:
  assumes "a < M"
  shows "uint (Add M a b) = (uint a + uint b) mod uint M \<and>
    uint (Subtract M a b) = (uint a - uint b) mod uint M \<and>
    Subtract M (Add M a b) b = a"
proof -
  let ?m = "uint M" and ?r = "uint b mod uint M"
  have a: "0 \<le> uint a" "uint a < ?m" using assms by (simp_all add: word_less_def)
  then have m: "0 < ?m" by linarith
  have r: "0 \<le> ?r" "?r < ?m" using m by simp_all
  have sub: "uint (x - y) = uint x - uint y" if "uint y \<le> uint x" for x y :: u64
    using that by (simp add: uint_minus_simple_alt [THEN iffD1] word_le_def)
  have bm: "uint (b mod M) = ?r" by (simp add: uint_mod_distrib)
  have t: "uint (M - b mod M) = ?m - ?r" using sub [of "b mod M" M] bm r by simp
  have lt: "uint x < 2 ^ 64" for x :: u64 using uint_lt2p [of x] by simp
  have gen: "uint (x - y + z) = (uint x - uint y + uint z) mod 2 ^ 64" for x y z :: u64
    by (simp add: uint_word_ariths mod_simps)
  have add: "uint (Add M a b) = (uint a + uint b) mod ?m"
  proof -
    have e: "(uint a + uint b) mod ?m = (uint a + ?r) mod ?m" by (simp add: mod_add_right_eq)
    show ?thesis
    proof (cases "M - b mod M > a")
      case True
      then have less: "uint a + ?r < ?m" using t by (simp add: word_less_def)
      have "uint (a - (M - b mod M) + M) = (uint a - (?m - ?r) + ?m) mod 2 ^ 64"
        unfolding gen t ..
      also have "\<dots> = uint a + ?r" using less lt [of M] a(1) r(1) by simp
      finally show ?thesis using True less a(1) r(1) e by (simp add: Add_def Let_def)
    next
      case False
      then have ge: "?m - ?r \<le> uint a" using t by (simp add: word_less_def)
      then have "uint (a - (M - b mod M)) = uint a + ?r - ?m" using sub t by simp
      moreover have "(uint a + ?r - ?m) mod ?m = uint a + ?r - ?m"
        by (rule mod_pos_pos_trivial) (use ge a(2) r(2) in linarith)+
      then have "(uint a + ?r) mod ?m = uint a + ?r - ?m" by (simp only: minus_mod_self2)
      ultimately show ?thesis using False e by (simp add: Add_def Let_def)
    qed
  qed
  have minus: "uint (Subtract M x b) = (uint x - uint b) mod ?m" if x: "uint x < ?m" for x
  proof -
    have e: "(uint x - uint b) mod ?m = (uint x - ?r) mod ?m" by (simp add: mod_diff_right_eq)
    show ?thesis
      unfolding e circle_diff [OF uint_ge_0 r(1) x r(2)]
    proof (cases "x < b mod M")
      case True
      then have l: "uint x < ?r" using bm by (simp add: word_less_def)
      then have "uint (b mod M - x) = ?r - uint x" using sub [of x "b mod M"] bm by simp
      moreover have "?r - uint x \<le> ?m" using r(2) uint_ge_0 [of x] by linarith
      ultimately show "uint (Subtract M x b) = (if ?r \<le> uint x then uint x - ?r else uint x - ?r + ?m)"
        using True l sub [of "b mod M - x" M] by (simp add: Subtract_def Let_def)
    next
      case False
      then have "?r \<le> uint x" using bm by (simp add: word_less_def)
      with False sub [of "b mod M" x] bm
      show "uint (Subtract M x b) = (if ?r \<le> uint x then uint x - ?r else uint x - ?r + ?m)"
        by (simp add: Subtract_def Let_def)
    qed
  qed
  have "uint (Add M a b) < ?m" using add m by simp
  then have "uint (Subtract M (Add M a b) b) = ((uint a + uint b) mod ?m - uint b) mod ?m"
    using minus add by simp
  also have "\<dots> = uint a" using a by (simp add: mod_diff_left_eq)
  finally have "Subtract M (Add M a b) b = a" by (simp add: word_uint_eq_iff)
  with add minus [OF a(2)] show ?thesis by simp
qed

theorem mod_add_subtract_witness:
  "uint (Add 10 7 25) = 2 \<and> Subtract 10 (Add 10 7 25) 25 = 7"
  using mod_add_subtract [of 7 10 25] by simp

end
