(* ===== verification/Sigslot.thy ===== *)
theory Sigslot
  imports Prelude "HOL-Library.Sublist"
begin

text \<open>
  The signals and slots of \<open>rtc_base/third_party/sigslot/sigslot.h\<close>, through which every demo
  program receives its events. Signals and slot objects point at each other, so the model has an
  explicit store of both. A connection is a node of the signal's \<open>std::list\<close> with an identity of
  its own, because \<open>m_current_iterator\<close> points at a node while others come and go. Reading or
  writing an object that is not in the store is a use after destruction: the operation then has
  no result. The set of senders is a list without repetition; the order of a
  \<open>std::set\<close> of pointers is not specified, and no statement depends on it.
\<close>

record 'm conn =
  node :: nat
  dest :: nat
  slot :: 'm

record 'm signal =
  conns :: "'m conn list"
  cur :: "nat option"

record 'm store =
  signals :: "nat \<rightharpoonup> 'm signal"
  senders :: "nat \<rightharpoonup> nat list"
  next_node :: nat

definition empty_store :: "'m store" where
  "empty_store = \<lparr>signals = Map.empty, senders = Map.empty, next_node = 0\<rparr>"

abbreviation set_signal :: "nat \<Rightarrow> 'm signal \<Rightarrow> 'm store \<Rightarrow> 'm store" where
  "set_signal s g h \<equiv> h\<lparr>signals := (signals h)(s \<mapsto> g)\<rparr>"

abbreviation set_senders :: "nat \<Rightarrow> nat list \<Rightarrow> 'm store \<Rightarrow> 'm store" where
  "set_senders d ss h \<equiv> h\<lparr>senders := (senders h)(d \<mapsto> ss)\<rparr>"

section \<open>\<open>has_slots\<close>: the senders an object knows\<close>

definition do_signal_connect :: "nat \<Rightarrow> nat \<Rightarrow> 'm store \<Rightarrow> 'm store option" where
  "do_signal_connect d s h =
     map_option (\<lambda>ss. set_senders d (List.insert s ss) h) (senders h d)"

definition do_signal_disconnect :: "nat \<Rightarrow> nat \<Rightarrow> 'm store \<Rightarrow> 'm store option" where
  "do_signal_disconnect d s h = map_option (\<lambda>ss. set_senders d (removeAll s ss) h) (senders h d)"

section \<open>\<open>_signal_base\<close>\<close>

text \<open>The node an iterator points at after the nodes before \<open>cs\<close>; \<open>None\<close> is the end.\<close>

fun first_node :: "'m conn list \<Rightarrow> nat option" where
  "first_node [] = None"
| "first_node (c # cs) = Some (node c)"

text \<open>The search of \<open>disconnect\<close>: the first connection to the object is erased.\<close>

fun disconnect_loop ::
  "nat \<Rightarrow> 'm conn list \<Rightarrow> nat option \<Rightarrow> ('m conn list \<times> nat option) option" where
  "disconnect_loop d [] c = None"
| "disconnect_loop d (x # xs) c =
     (if dest x = d then Some (xs, if c = Some (node x) then first_node xs else c)
      else map_option (\<lambda>(ys, c'). (x # ys, c')) (disconnect_loop d xs c))"

definition sig_disconnect :: "nat \<Rightarrow> nat \<Rightarrow> 'm store \<Rightarrow> 'm store option" where
  "sig_disconnect s d h =
     Option.bind (signals h s) (\<lambda>g.
       case disconnect_loop d (conns g) (cur g) of
         None \<Rightarrow> Some h
       | Some (cs, c) \<Rightarrow> do_signal_disconnect d s (set_signal s \<lparr>conns = cs, cur = c\<rparr> h))"

text \<open>\<open>do_slot_disconnect\<close> erases every connection to the object.\<close>

fun slot_disconnect_loop :: "nat \<Rightarrow> 'm conn list \<Rightarrow> nat option \<Rightarrow> 'm conn list \<times> nat option" where
  "slot_disconnect_loop d [] c = ([], c)"
| "slot_disconnect_loop d (x # xs) c =
     (if dest x = d
      then slot_disconnect_loop d xs (if c = Some (node x) then first_node xs else c)
      else (let (ys, c') = slot_disconnect_loop d xs c in (x # ys, c')))"

definition do_slot_disconnect :: "nat \<Rightarrow> nat \<Rightarrow> 'm store \<Rightarrow> 'm store option" where
  "do_slot_disconnect s d h =
     map_option
       (\<lambda>g. let (cs, c) = slot_disconnect_loop d (conns g) (cur g)
            in set_signal s \<lparr>conns = cs, cur = c\<rparr> h)
       (signals h s)"

text \<open>\<open>disconnect_all\<close> of a signal: every destination is told, then the iterator is the end.\<close>

fun pop_all :: "nat \<Rightarrow> 'm conn list \<Rightarrow> 'm store \<Rightarrow> 'm store option" where
  "pop_all s [] h = Some h"
| "pop_all s (c # cs) h = Option.bind (do_signal_disconnect (dest c) s h) (pop_all s cs)"

definition sig_disconnect_all :: "nat \<Rightarrow> 'm store \<Rightarrow> 'm store option" where
  "sig_disconnect_all s h =
     Option.bind (signals h s) (\<lambda>g.
       map_option (set_signal s \<lparr>conns = [], cur = None\<rparr>) (pop_all s (conns g) h))"

definition destroy_signal :: "nat \<Rightarrow> 'm store \<Rightarrow> 'm store option" where
  "destroy_signal s h =
     map_option (\<lambda>h'. h'\<lparr>signals := (signals h')(s := None)\<rparr>) (sig_disconnect_all s h)"

definition is_empty :: "nat \<Rightarrow> 'm store \<Rightarrow> bool option" where
  "is_empty s h = map_option (\<lambda>g. conns g = []) (signals h s)"

definition connected_to :: "nat \<Rightarrow> nat \<Rightarrow> 'm store \<Rightarrow> bool option" where
  "connected_to s d h = map_option (\<lambda>g. list_ex (\<lambda>c. dest c = d) (conns g)) (signals h s)"

section \<open>\<open>has_slots::disconnect_all\<close> and destruction\<close>

fun disconnect_senders :: "nat \<Rightarrow> nat list \<Rightarrow> 'm store \<Rightarrow> 'm store option" where
  "disconnect_senders d [] h = Some h"
| "disconnect_senders d (s # ss) h = Option.bind (do_slot_disconnect s d h) (disconnect_senders d ss)"

text \<open>The set is swapped out first; \<open>slot_disconnect\<close> does not touch it, so one round is all.\<close>

definition do_disconnect_all :: "nat \<Rightarrow> 'm store \<Rightarrow> 'm store option" where
  "do_disconnect_all d h =
     Option.bind (senders h d) (\<lambda>ss. disconnect_senders d ss (set_senders d [] h))"

definition destroy_slot :: "nat \<Rightarrow> 'm store \<Rightarrow> 'm store option" where
  "destroy_slot d h =
     map_option (\<lambda>h'. h'\<lparr>senders := (senders h')(d := None)\<rparr>) (do_disconnect_all d h)"

section \<open>\<open>signal_with_thread_policy\<close>\<close>

definition new_signal :: "nat \<Rightarrow> 'm store \<Rightarrow> 'm store" where
  "new_signal s h = set_signal s \<lparr>conns = [], cur = None\<rparr> h"

definition new_slot :: "nat \<Rightarrow> 'm store \<Rightarrow> 'm store" where
  "new_slot d h = set_senders d [] h"

definition sig_connect :: "nat \<Rightarrow> nat \<Rightarrow> 'm \<Rightarrow> 'm store \<Rightarrow> 'm store option" where
  "sig_connect s d m h =
     Option.bind (signals h s) (\<lambda>g.
       do_signal_connect d s
         (set_signal s (g\<lparr>conns := conns g @ [\<lparr>node = next_node h, dest = d, slot = m\<rparr>]\<rparr>) h
          \<lparr>next_node := Suc (next_node h)\<rparr>))"

text \<open>
  Copying a signal connects the copy to every destination; copying an object duplicates its
  connections in every sender. The loop of \<open>do_slot_duplicate\<close> also passes over the nodes it
  appends, which are the new object's and therefore not duplicated again.
\<close>

fun copy_conns :: "nat \<Rightarrow> 'm conn list \<Rightarrow> 'm store \<Rightarrow> 'm store option" where
  "copy_conns s [] h = Some h"
| "copy_conns s (c # cs) h =
     Option.bind (do_signal_connect (dest c) s h) (\<lambda>h1.
       Option.bind (signals h1 s) (\<lambda>g.
         copy_conns s cs
           (set_signal s (g\<lparr>conns := conns g @ [c\<lparr>node := next_node h1\<rparr>]\<rparr>) h1
            \<lparr>next_node := Suc (next_node h1)\<rparr>)))"

definition copy_signal :: "nat \<Rightarrow> nat \<Rightarrow> 'm store \<Rightarrow> 'm store option" where
  "copy_signal s t h =
     Option.bind (signals h s) (\<lambda>g. copy_conns t (conns g) (new_signal t h))"

fun duplicates :: "nat \<Rightarrow> nat \<Rightarrow> nat \<Rightarrow> 'm conn list \<Rightarrow> 'm conn list" where
  "duplicates d e n [] = []"
| "duplicates d e n (c # cs) =
     (if dest c = d then c\<lparr>node := n, dest := e\<rparr> # duplicates d e (Suc n) cs
      else duplicates d e n cs)"

definition do_slot_duplicate :: "nat \<Rightarrow> nat \<Rightarrow> nat \<Rightarrow> 'm store \<Rightarrow> 'm store option" where
  "do_slot_duplicate s d e h =
     map_option
       (\<lambda>g. let ds = duplicates d e (next_node h) (conns g)
            in (set_signal s (g\<lparr>conns := conns g @ ds\<rparr>) h)\<lparr>next_node := next_node h + length ds\<rparr>)
       (signals h s)"

fun copy_senders :: "nat \<Rightarrow> nat \<Rightarrow> nat list \<Rightarrow> 'm store \<Rightarrow> 'm store option" where
  "copy_senders d e [] h = Some h"
| "copy_senders d e (s # ss) h =
     Option.bind (do_slot_duplicate s d e h) (\<lambda>h1.
       Option.bind (do_signal_connect e s h1) (copy_senders d e ss))"

definition copy_slot :: "nat \<Rightarrow> nat \<Rightarrow> 'm store \<Rightarrow> 'm store option" where
  "copy_slot d e h = Option.bind (senders h d) (\<lambda>ss. copy_senders d e ss (new_slot e h))"

text \<open>
  The two parts of \<open>emit\<close>: the iterator is set to the beginning; then, as long as it is not the
  end, the node it points at is taken, the iterator advanced and the slot called. The second part
  is the test and the head of the loop: it runs again whenever a called slot returns, and reads
  the signal each time.
\<close>

definition emit_begin :: "nat \<Rightarrow> 'm store \<Rightarrow> 'm store option" where
  "emit_begin s h =
     map_option (\<lambda>g. set_signal s (g\<lparr>cur := first_node (conns g)\<rparr>) h) (signals h s)"

fun find_node :: "nat \<Rightarrow> 'm conn list \<Rightarrow> ('m conn \<times> nat option) option" where
  "find_node n [] = None"
| "find_node n (c # cs) = (if node c = n then Some (c, first_node cs) else find_node n cs)"

definition emit_next :: "nat \<Rightarrow> 'm store \<Rightarrow> ('m conn option \<times> 'm store) option" where
  "emit_next s h =
     Option.bind (signals h s) (\<lambda>g.
       case cur g of
         None \<Rightarrow> Some (None, h)
       | Some n \<Rightarrow>
           map_option (\<lambda>(c, nxt). (Some c, set_signal s (g\<lparr>cur := nxt\<rparr>) h))
             (find_node n (conns g)))"

section \<open>The store's invariant\<close>

text \<open>
  The two halves of every link agree: an object lists a signal exactly when the signal holds a
  connection to it. Nodes are unique and the iterator of an emission points at one of them.
\<close>

definition linked :: "'m store \<Rightarrow> nat \<Rightarrow> nat \<Rightarrow> bool" where
  "linked h s d \<longleftrightarrow> (\<exists>ss. senders h d = Some ss \<and> s \<in> set ss)"

definition connection :: "'m store \<Rightarrow> nat \<Rightarrow> nat \<Rightarrow> bool" where
  "connection h s d \<longleftrightarrow> (\<exists>g. signals h s = Some g \<and> d \<in> dest ` set (conns g))"

definition nodes_ok :: "nat \<Rightarrow> 'm conn list \<Rightarrow> nat option \<Rightarrow> bool" where
  "nodes_ok n cs c \<longleftrightarrow>
     distinct (map node cs) \<and> (\<forall>x \<in> set cs. node x < n) \<and>
     (\<forall>k. c = Some k \<longrightarrow> k \<in> node ` set cs)"

definition store_ok :: "'m store \<Rightarrow> bool" where
  "store_ok h \<longleftrightarrow>
     (\<forall>s g. signals h s = Some g \<longrightarrow> nodes_ok (next_node h) (conns g) (cur g)) \<and>
     (\<forall>s d. linked h s d = connection h s d)"

lemma store_okD:
  assumes "store_ok h"
  shows "signals h s = Some g \<Longrightarrow> nodes_ok (next_node h) (conns g) (cur g)"
    and "linked h s d = connection h s d"
  using assms by (auto simp: store_ok_def)

lemma store_dest:
  assumes "store_ok h" and "signals h s = Some g" and "c \<in> set (conns g)"
  shows "\<exists>ss. senders h (dest c) = Some ss \<and> s \<in> set ss"
proof -
  have "connection h s (dest c)" using assms(2,3) by (auto simp: connection_def)
  with store_okD(2) [OF assms(1)] show ?thesis by (simp add: linked_def)
qed

lemma store_sender:
  assumes "store_ok h" and "senders h d = Some ss" and "s \<in> set ss"
  shows "\<exists>g. signals h s = Some g \<and> d \<in> dest ` set (conns g)"
proof -
  have "linked h s d" using assms(2,3) by (auto simp: linked_def)
  with store_okD(2) [OF assms(1)] show ?thesis by (simp add: connection_def)
qed

lemma empty_store_ok: "store_ok empty_store"
  by (simp add: store_ok_def empty_store_def linked_def connection_def)

lemma new_signal_ok:
  assumes "store_ok h" and "signals h s = None"
  shows "store_ok (new_signal s h)"
proof -
  have "linked h s d = False" for d
    using assms store_okD(2) [OF assms(1), of s d] by (simp add: connection_def)
  with assms show ?thesis
    by (auto simp: store_ok_def new_signal_def nodes_ok_def linked_def connection_def)
qed

lemma new_slot_ok:
  assumes "store_ok h" and "senders h d = None"
  shows "store_ok (new_slot d h)"
proof -
  have "connection h s d = False" for s
    using assms store_okD(2) [OF assms(1), of s d] by (simp add: linked_def)
  with assms show ?thesis
    by (auto simp: store_ok_def new_slot_def linked_def connection_def)
qed

lemma sig_connect_ok:
  assumes "store_ok h" and "signals h s = Some g" and "senders h d = Some ss"
  shows "\<exists>h'. sig_connect s d m h = Some h' \<and> store_ok h'"
proof -
  obtain h' where h': "sig_connect s d m h = Some h'"
    using assms(2,3) by (auto simp: sig_connect_def do_signal_connect_def)
  have n: "nodes_ok (next_node h) (conns g) (cur g)" using store_okD(1) [OF assms(1,2)] .
  have "nodes_ok (next_node h') (conns g') (cur g')" if "signals h' t = Some g'" for t g'
  proof (cases "t = s")
    case True
    then have g': "g' = g\<lparr>conns := conns g @ [\<lparr>node = next_node h, dest = d, slot = m\<rparr>]\<rparr>"
      "next_node h' = Suc (next_node h)"
      using that h' assms(2,3) by (auto simp: sig_connect_def do_signal_connect_def)
    from n show ?thesis unfolding g' by (fastforce simp: nodes_ok_def)
  next
    case False
    with that h' assms(2,3) have "nodes_ok (next_node h) (conns g') (cur g')"
      by (intro store_okD(1) [OF assms(1)]) (auto simp: sig_connect_def do_signal_connect_def)
    with h' assms(2,3) show ?thesis
      by (auto simp: sig_connect_def do_signal_connect_def nodes_ok_def less_Suc_eq)
  qed
  moreover have "linked h' t e = connection h' t e" for t e
  proof -
    have "linked h' t e \<longleftrightarrow> linked h t e \<or> t = s \<and> e = d"
      "connection h' t e \<longleftrightarrow> connection h t e \<or> t = s \<and> e = d"
      using h' assms(2,3)
      by (cases "e = d"; cases "t = s";
        auto simp: sig_connect_def do_signal_connect_def linked_def connection_def)+
    with store_okD(2) [OF assms(1)] show ?thesis by simp
  qed
  ultimately show ?thesis using h' by (simp add: store_ok_def)
qed

lemma linked_iff_copy:
  assumes "store_ok h" and "senders h e \<noteq> None" and "signals h s = Some g"
  shows "store_ok (set_senders e (List.insert s (the (senders h e)))
      (set_signal s (g\<lparr>conns := conns g @ [\<lparr>node = next_node h, dest = e, slot = m\<rparr>]\<rparr>) h
        \<lparr>next_node := Suc (next_node h)\<rparr>))"
proof -
  from assms(2) obtain ss where ss: "senders h e = Some ss" by auto
  with sig_connect_ok [OF assms(1,3) ss, of m] assms(3) show ?thesis
    by (simp add: sig_connect_def do_signal_connect_def)
qed

lemma copy_conns_ok:
  "store_ok h \<Longrightarrow> signals h t \<noteq> None \<Longrightarrow> \<forall>c \<in> set cs. senders h (dest c) \<noteq> None \<Longrightarrow>
    \<exists>h'. copy_conns t cs h = Some h' \<and> store_ok h' \<and> signals h' t \<noteq> None"
proof (induction cs arbitrary: h)
  case (Cons c cs)
  then obtain g ss where g: "signals h t = Some g" "senders h (dest c) = Some ss" by fastforce
  let ?c = "c\<lparr>node := next_node h\<rparr>"
  let ?h = "set_senders (dest c) (List.insert t ss)
    (set_signal t (g\<lparr>conns := conns g @ [?c]\<rparr>) h\<lparr>next_node := Suc (next_node h)\<rparr>)"
  have c: "?c = \<lparr>node = next_node h, dest = dest c, slot = slot c\<rparr>" by (cases c) simp
  have "store_ok ?h"
    unfolding c using linked_iff_copy [OF Cons.prems(1) _ g(1), of "dest c" "slot c"] g(2) by simp
  moreover have "signals ?h t \<noteq> None" "\<forall>c \<in> set cs. senders ?h (dest c) \<noteq> None"
    using Cons.prems(3) by auto
  ultimately have "\<exists>h'. copy_conns t cs ?h = Some h' \<and> store_ok h' \<and> signals h' t \<noteq> None"
    by (rule Cons.IH)
  moreover have "copy_conns t (c # cs) h = copy_conns t cs ?h"
    using g by (cases h) (simp add: do_signal_connect_def)
  ultimately show ?case by simp
qed simp

lemma copy_signal_ok:
  assumes ok: "store_ok h" and s: "signals h s = Some g" and t: "signals h t = None"
  shows "\<exists>h'. copy_signal s t h = Some h' \<and> store_ok h'"
proof -
  have "\<forall>c \<in> set (conns g). senders (new_signal t h) (dest c) \<noteq> None"
    using store_dest [OF ok s] by (fastforce simp: new_signal_def)
  moreover have "signals (new_signal t h) t \<noteq> None" by (simp add: new_signal_def)
  ultimately show ?thesis
    using copy_conns_ok [OF new_signal_ok [OF ok t]] s by (fastforce simp: copy_signal_def)
qed

lemma duplicates_set:
  "dest ` set (duplicates d e n cs) = (if d \<in> dest ` set cs then {e} else {})"
  "map node (duplicates d e n cs) = [n..<n + length (duplicates d e n cs)]"
  by (induction d e n cs rule: duplicates.induct) (auto simp: upt_rec)

lemma duplicates_nodes:
  assumes "nodes_ok n cs c"
  shows "nodes_ok (n + length (duplicates d e n cs)) (cs @ duplicates d e n cs) c"
proof -
  have "node ` set (duplicates d e n cs) = {n..<n + length (duplicates d e n cs)}"
    by (metis duplicates_set(2) list.set_map set_upt)
  then have "\<forall>x \<in> set (duplicates d e n cs). n \<le> node x \<and> node x < n + length (duplicates d e n cs)"
    by (metis atLeastLessThan_iff imageI)
  moreover have "distinct (map node (duplicates d e n cs))"
    unfolding duplicates_set(2) by simp
  ultimately show ?thesis using assms by (fastforce simp: nodes_ok_def)
qed

lemma copy_senders_ok:
  "store_ok h \<Longrightarrow> senders h e = Some es \<Longrightarrow> d \<noteq> e \<Longrightarrow> \<forall>s \<in> set ss. connection h s d \<Longrightarrow>
    \<exists>h'. copy_senders d e ss h = Some h' \<and> store_ok h'"
proof (induction ss arbitrary: h es)
  case (Cons s ss)
  obtain g where g: "signals h s = Some g" "d \<in> dest ` set (conns g)"
    using Cons.prems(4) by (auto simp: connection_def)
  define ds where "ds = duplicates d e (next_node h) (conns g)"
  let ?h = "set_senders e (List.insert s es)
    (set_signal s (g\<lparr>conns := conns g @ ds\<rparr>) h\<lparr>next_node := next_node h + length ds\<rparr>)"
  have dests: "dest ` set ds = {e}" using g(2) by (simp add: ds_def duplicates_set(1))
  have n: "nodes_ok (next_node h + length ds) (conns g @ ds) (cur g)"
    unfolding ds_def by (rule duplicates_nodes) (rule store_okD(1) [OF Cons.prems(1) g(1)])
  have "nodes_ok (next_node ?h) (conns g') (cur g')" if "signals ?h t = Some g'" for t g'
    using that n store_okD(1) [OF Cons.prems(1), of t g']
    by (fastforce simp: nodes_ok_def split: if_splits)
  moreover have conn: "connection ?h t f \<longleftrightarrow> connection h t f \<or> t = s \<and> f = e" for t f
    using g(1) dests by (cases "t = s") (auto simp: connection_def image_Un)
  moreover have "linked ?h t f \<longleftrightarrow> linked h t f \<or> t = s \<and> f = e" for t f
    using Cons.prems(2) by (cases "f = e") (auto simp: linked_def)
  ultimately have "store_ok ?h" using store_okD(2) [OF Cons.prems(1)] by (simp add: store_ok_def)
  moreover have "senders ?h e = Some (List.insert s es)" by simp
  moreover have "\<forall>s \<in> set ss. connection ?h s d" using Cons.prems(4) conn by simp
  ultimately have "\<exists>h'. copy_senders d e ss ?h = Some h' \<and> store_ok h'"
    using Cons.IH Cons.prems(3) by blast
  moreover have "copy_senders d e (s # ss) h = copy_senders d e ss ?h"
    using g(1) Cons.prems(2) by (simp add: do_slot_duplicate_def do_signal_connect_def ds_def Let_def)
  ultimately show ?case by simp
qed simp

lemma copy_slot_ok:
  assumes ok: "store_ok h" and d: "senders h d = Some ss" and e: "senders h e = None"
  shows "\<exists>h'. copy_slot d e h = Some h' \<and> store_ok h'"
proof -
  have "\<forall>s \<in> set ss. connection (new_slot e h) s d"
    using store_sender [OF ok d] by (simp add: connection_def new_slot_def)
  moreover have "senders (new_slot e h) e = Some []" "d \<noteq> e"
    using d e by (auto simp: new_slot_def)
  ultimately show ?thesis
    using copy_senders_ok [OF new_slot_ok [OF ok e]] d by (simp add: copy_slot_def)
qed

section \<open>Disconnecting\<close>

lemma first_node_in: "first_node cs = Some k \<Longrightarrow> k \<in> node ` set cs"
  by (cases cs) auto

lemma disconnect_loop_None: "disconnect_loop d cs c = None \<longleftrightarrow> d \<notin> dest ` set cs"
  by (induction d cs c rule: disconnect_loop.induct) auto

lemma disconnect_loop_Some:
  "disconnect_loop d cs c = Some (ys, c') \<Longrightarrow> distinct (map node cs) \<Longrightarrow>
    distinct (map node ys) \<and> set ys \<subseteq> set cs \<and>
    length (filter (\<lambda>x. dest x = d) cs) = Suc (length (filter (\<lambda>x. dest x = d) ys)) \<and>
    filter (\<lambda>x. dest x \<noteq> d) ys = filter (\<lambda>x. dest x \<noteq> d) cs"
  by (induction d cs c arbitrary: ys rule: disconnect_loop.induct)
    (auto split: if_splits, metis imageI subsetD)

text \<open>The iterator stays on a node: \<open>P\<close> are the nodes the search has passed.\<close>

lemma disconnect_loop_cur:
  "disconnect_loop d cs c = Some (ys, c') \<Longrightarrow> \<forall>k. c = Some k \<longrightarrow> k \<in> P \<union> node ` set cs \<Longrightarrow>
    \<forall>k. c' = Some k \<longrightarrow> k \<in> P \<union> node ` set ys"
proof (induction d cs c arbitrary: ys P rule: disconnect_loop.induct)
  case (2 d x xs c)
  show ?case
  proof (cases "dest x = d")
    case True
    with 2(2,3) show ?thesis by (auto dest: first_node_in split: if_splits)
  next
    case False
    with 2(2) obtain zs where z: "disconnect_loop d xs c = Some (zs, c')" "ys = x # zs" by auto
    from 2(3) have "\<forall>k. c = Some k \<longrightarrow> k \<in> insert (node x) P \<union> node ` set xs" by auto
    from 2(1) [OF False z(1) this] z(2) show ?thesis by auto
  qed
qed simp

lemma slot_disconnect_loop_fst: "fst (slot_disconnect_loop d cs c) = filter (\<lambda>x. dest x \<noteq> d) cs"
  by (induction d cs c rule: slot_disconnect_loop.induct) (auto split: prod.splits)

lemma slot_disconnect_loop_cur:
  "slot_disconnect_loop d cs c = (ys, c') \<Longrightarrow> \<forall>k. c = Some k \<longrightarrow> k \<in> P \<union> node ` set cs \<Longrightarrow>
    \<forall>k. c' = Some k \<longrightarrow> k \<in> P \<union> node ` set ys"
proof (induction d cs c arbitrary: ys P rule: slot_disconnect_loop.induct)
  case (2 d x xs c)
  show ?case
  proof (cases "dest x = d")
    case True
    let ?c = "if c = Some (node x) then first_node xs else c"
    have "\<forall>k. ?c = Some k \<longrightarrow> k \<in> P \<union> node ` set xs"
      using 2(4) by (auto dest: first_node_in split: if_splits)
    from 2(1) [OF True _ this] 2(3) True show ?thesis by simp
  next
    case False
    obtain zs c2 where z: "slot_disconnect_loop d xs c = (zs, c2)"
      by (cases "slot_disconnect_loop d xs c")
    from 2(4) have "\<forall>k. c = Some k \<longrightarrow> k \<in> insert (node x) P \<union> node ` set xs" by auto
    from 2(2) [OF False _ this] z False 2(3) show ?thesis by auto
  qed
qed simp

text \<open>The signal after a disconnect in it; \<open>single\<close> is that the object was connected once.\<close>

lemma sig_disconnect_ok:
  assumes ok: "store_ok h" and s: "signals h s = Some g"
    and single: "length (filter (\<lambda>x. dest x = d) (conns g)) \<le> 1"
  shows "\<exists>h'. sig_disconnect s d h = Some h' \<and> store_ok h'"
proof (cases "disconnect_loop d (conns g) (cur g)")
  case None
  with ok s show ?thesis by (simp add: sig_disconnect_def)
next
  case (Some r)
  obtain cs c where r: "r = (cs, c)" by (cases r)
  have n: "nodes_ok (next_node h) (conns g) (cur g)" using store_okD(1) [OF ok s] .
  note l = disconnect_loop_Some [OF Some [unfolded r]]
  have gone: "filter (\<lambda>x. dest x = d) cs = []" using l n single by (auto simp: nodes_ok_def)
  have kept: "filter (\<lambda>x. dest x \<noteq> d) cs = filter (\<lambda>x. dest x \<noteq> d) (conns g)"
    using l n by (auto simp: nodes_ok_def)
  then have dests: "dest ` set cs = dest ` set (conns g) - {d}"
  proof -
    have "dest ` set cs = dest ` set (filter (\<lambda>x. dest x \<noteq> d) cs)"
      using gone by (auto simp: filter_empty_conv)
    also have "\<dots> = dest ` set (conns g) - {d}" unfolding kept by auto
    finally show ?thesis .
  qed
  have nodes: "nodes_ok (next_node h) cs c"
    using l n disconnect_loop_cur [OF Some [unfolded r], of "{}"] by (auto simp: nodes_ok_def)
  have "d \<in> dest ` set (conns g)" using Some disconnect_loop_None [of d "conns g" "cur g"] by simp
  then obtain ss where ss: "senders h d = Some ss" using store_dest [OF ok s] by fastforce
  let ?h = "set_senders d (removeAll s ss) (set_signal s \<lparr>conns = cs, cur = c\<rparr> h)"
  have h': "sig_disconnect s d h = Some ?h"
    using s Some r ss by (simp add: sig_disconnect_def do_signal_disconnect_def)
  have "linked ?h t e \<longleftrightarrow> linked h t e \<and> \<not> (t = s \<and> e = d)"
    and "connection ?h t e \<longleftrightarrow> connection h t e \<and> \<not> (t = s \<and> e = d)" for t e
    using s ss dests by (auto simp: linked_def connection_def)
  with ok nodes have "store_ok ?h" by (auto simp: store_ok_def)
  with h' show ?thesis by blast
qed

text \<open>Removing a whole signal or a whole object.\<close>

lemma pop_all_ok:
  "\<forall>c \<in> set cs. senders h (dest c) \<noteq> None \<Longrightarrow>
    \<exists>h'. pop_all s cs h = Some h' \<and> signals h' = signals h \<and> next_node h' = next_node h \<and>
      (\<forall>d. senders h' d =
        map_option (\<lambda>ss. if d \<in> dest ` set cs then removeAll s ss else ss) (senders h d))"
proof (induction cs arbitrary: h)
  case Nil
  then show ?case by (auto simp: option.map_ident)
next
  case (Cons c cs)
  then obtain ss where ss: "senders h (dest c) = Some ss" by auto
  let ?h = "set_senders (dest c) (removeAll s ss) h"
  from Cons.prems have "\<forall>c \<in> set cs. senders ?h (dest c) \<noteq> None" by auto
  from Cons.IH [OF this] obtain h' where "pop_all s cs ?h = Some h'" "signals h' = signals ?h"
    "next_node h' = next_node ?h" "\<forall>d. senders h' d =
        map_option (\<lambda>ss. if d \<in> dest ` set cs then removeAll s ss else ss) (senders ?h d)"
    by blast
  with ss show ?case
    by (intro exI [of _ h']) (auto simp: do_signal_disconnect_def)
qed

lemma sig_disconnect_all_ok:
  assumes ok: "store_ok h" and s: "signals h s = Some g"
  shows "\<exists>h'. sig_disconnect_all s h = Some h' \<and> store_ok h' \<and>
    signals h' s = Some \<lparr>conns = [], cur = None\<rparr> \<and> dom (senders h') = dom (senders h)"
proof -
  have "\<forall>c \<in> set (conns g). senders h (dest c) \<noteq> None" using store_dest [OF ok s] by fastforce
  from pop_all_ok [OF this, of s] obtain h1 where h1: "pop_all s (conns g) h = Some h1"
    "signals h1 = signals h" "next_node h1 = next_node h" "\<forall>d. senders h1 d =
        map_option (\<lambda>ss. if d \<in> dest ` set (conns g) then removeAll s ss else ss) (senders h d)"
    by blast
  let ?h = "set_signal s \<lparr>conns = [], cur = None\<rparr> h1"
  have h': "sig_disconnect_all s h = Some ?h" using s h1(1) by (simp add: sig_disconnect_all_def)
  have conn: "connection ?h t e \<longleftrightarrow> connection h t e \<and> t \<noteq> s" for t e
    using h1(2) by (auto simp: connection_def)
  have "linked ?h t e \<longleftrightarrow> linked h t e \<and> t \<noteq> s" for t e
  proof -
    have "linked h s e \<Longrightarrow> e \<in> dest ` set (conns g)"
      using store_okD(2) [OF ok, of s e] s by (auto simp: connection_def)
    then show ?thesis
      using h1(4) by (cases "senders h e"; cases "e \<in> dest ` set (conns g)") (auto simp: linked_def)
  qed
  with ok conn have "store_ok ?h" by (auto simp: store_ok_def h1(2,3) nodes_ok_def split: if_splits)
  moreover have "dom (senders ?h) = dom (senders h)" using h1(4) by (auto simp: dom_def)
  ultimately show ?thesis using h' by auto
qed

lemma destroy_signal_ok:
  assumes ok: "store_ok h" and s: "signals h s = Some g"
  shows "\<exists>h'. destroy_signal s h = Some h' \<and> store_ok h' \<and> signals h' s = None"
proof -
  from sig_disconnect_all_ok [OF assms] obtain h1 where h1: "sig_disconnect_all s h = Some h1"
    "store_ok h1" "signals h1 s = Some \<lparr>conns = [], cur = None\<rparr>" by blast
  let ?h = "h1\<lparr>signals := (signals h1)(s := None)\<rparr>"
  have "connection ?h t e = connection h1 t e" "linked ?h t e = linked h1 t e" for t e
    using h1(3) by (auto simp: connection_def linked_def)
  with h1(2) have "store_ok ?h" by (auto simp: store_ok_def split: if_splits)
  with h1(1) show ?thesis by (simp add: destroy_signal_def)
qed

text \<open>What \<open>do_slot_disconnect\<close> leaves of a signal.\<close>

definition without :: "nat \<Rightarrow> 'm signal \<Rightarrow> 'm signal" where
  "without d g =
     (let (cs, c) = slot_disconnect_loop d (conns g) (cur g) in \<lparr>conns = cs, cur = c\<rparr>)"

lemma conns_without: "conns (without d g) = filter (\<lambda>x. dest x \<noteq> d) (conns g)"
  using slot_disconnect_loop_fst [of d "conns g" "cur g"]
  by (cases "slot_disconnect_loop d (conns g) (cur g)") (simp add: without_def)

lemma nodes_without:
  assumes "nodes_ok n (conns g) (cur g)"
  shows "nodes_ok n (conns (without d g)) (cur (without d g))"
proof -
  obtain cs c where l: "slot_disconnect_loop d (conns g) (cur g) = (cs, c)"
    by (cases "slot_disconnect_loop d (conns g) (cur g)")
  have "cs = filter (\<lambda>x. dest x \<noteq> d) (conns g)"
    using slot_disconnect_loop_fst [of d "conns g" "cur g"] l by simp
  with assms l slot_disconnect_loop_cur [OF l, of "{}"] show ?thesis
    by (auto simp: nodes_ok_def without_def distinct_map inj_on_def)
qed

lemma do_slot_disconnect_without:
  "do_slot_disconnect s d h = map_option (\<lambda>g. set_signal s (without d g) h) (signals h s)"
  by (cases "signals h s") (auto simp: do_slot_disconnect_def without_def split: prod.split)

lemma without_twice: "conns (without d (without d g)) = conns (without d g)"
  by (simp add: conns_without)

lemma disconnect_senders_ok:
  "\<forall>s \<in> set ss. signals h s \<noteq> None \<Longrightarrow>
     \<forall>s g. signals h s = Some g \<longrightarrow> nodes_ok (next_node h) (conns g) (cur g) \<Longrightarrow>
    \<exists>h'. disconnect_senders d ss h = Some h' \<and> senders h' = senders h \<and>
      next_node h' = next_node h \<and> dom (signals h') = dom (signals h) \<and>
      (\<forall>s g. signals h' s = Some g \<longrightarrow> nodes_ok (next_node h) (conns g) (cur g)) \<and>
      (\<forall>t. map_option conns (signals h' t) = map_option
        (\<lambda>g. if t \<in> set ss then filter (\<lambda>x. dest x \<noteq> d) (conns g) else conns g) (signals h t))"
proof (induction ss arbitrary: h)
  case Nil
  then show ?case by simp
next
  case (Cons s ss)
  then obtain g where g: "signals h s = Some g" by auto
  let ?h = "set_signal s (without d g) h"
  have n: "\<forall>t g. signals ?h t = Some g \<longrightarrow> nodes_ok (next_node ?h) (conns g) (cur g)"
    using Cons.prems(2) g by (auto simp: nodes_without split: if_splits)
  have "\<forall>s \<in> set ss. signals ?h s \<noteq> None" using Cons.prems(1) by auto
  from Cons.IH [OF this n] obtain h' where h': "disconnect_senders d ss ?h = Some h'"
    "senders h' = senders ?h" "next_node h' = next_node ?h" "dom (signals h') = dom (signals ?h)"
    "\<forall>s g. signals h' s = Some g \<longrightarrow> nodes_ok (next_node ?h) (conns g) (cur g)"
    "\<forall>t. map_option conns (signals h' t) = map_option
        (\<lambda>g. if t \<in> set ss then filter (\<lambda>x. dest x \<noteq> d) (conns g) else conns g) (signals ?h t)"
    by blast
  have "\<forall>t. map_option conns (signals h' t) = map_option
      (\<lambda>g. if t \<in> set (s # ss) then filter (\<lambda>x. dest x \<noteq> d) (conns g) else conns g) (signals h t)"
    using h'(6) g by (auto simp: conns_without)
  moreover have "disconnect_senders d (s # ss) h = Some h'"
    using h'(1) g by (simp add: do_slot_disconnect_without)
  moreover have "dom (signals h') = dom (signals h)" using h'(4) g by auto
  ultimately show ?case using h'(2,3,5) by auto
qed

lemma do_disconnect_all_ok:
  assumes ok: "store_ok h" and d: "senders h d = Some ss"
  shows "\<exists>h'. do_disconnect_all d h = Some h' \<and> store_ok h' \<and> senders h' d = Some [] \<and>
    dom (signals h') = dom (signals h) \<and>
    (\<forall>t. map_option conns (signals h' t) =
      map_option (\<lambda>g. filter (\<lambda>x. dest x \<noteq> d) (conns g)) (signals h t)) \<and>
    (\<forall>t e. connection h' t e \<longleftrightarrow> connection h t e \<and> e \<noteq> d)"
proof -
  have live: "\<forall>s \<in> set ss. signals (set_senders d [] h) s \<noteq> None"
    using store_sender [OF ok d] by fastforce
  have "\<forall>s g. signals (set_senders d [] h) s = Some g \<longrightarrow>
      nodes_ok (next_node (set_senders d [] h)) (conns g) (cur g)"
    using ok by (simp add: store_ok_def)
  from disconnect_senders_ok [OF live this, of d] obtain h1 where
    h1: "disconnect_senders d ss (set_senders d [] h) = Some h1"
    "senders h1 = senders (set_senders d [] h)" "next_node h1 = next_node h"
    "dom (signals h1) = dom (signals h)"
    "\<forall>s g. signals h1 s = Some g \<longrightarrow> nodes_ok (next_node h) (conns g) (cur g)"
    "\<forall>t. map_option conns (signals h1 t) = map_option
      (\<lambda>g. if t \<in> set ss then filter (\<lambda>x. dest x \<noteq> d) (conns g) else conns g)
        (signals (set_senders d [] h) t)" by auto
  have kept: "map_option conns (signals h1 t) =
      map_option (\<lambda>g. filter (\<lambda>x. dest x \<noteq> d) (conns g)) (signals h t)" for t
  proof (cases "t \<in> set ss")
    case False
    then have "\<not> connection h t d"
      using store_okD(2) [OF ok, of t d] d by (auto simp: linked_def)
    then have "filter (\<lambda>x. dest x \<noteq> d) (conns g) = conns g" if "signals h t = Some g" for g
      using that by (auto simp: connection_def filter_id_conv)
    with False h1(6) show ?thesis by (cases "signals h t") auto
  qed (use h1(6) in simp)
  have conn: "connection h1 t e \<longleftrightarrow> connection h t e \<and> e \<noteq> d" for t e
    using kept [of t] by (cases "signals h t"; cases "signals h1 t") (auto simp: connection_def)
  moreover have "linked h1 t e \<longleftrightarrow> linked h t e \<and> e \<noteq> d" for t e
    using h1(2) by (auto simp: linked_def)
  ultimately have "store_ok h1" using ok h1(3,5) by (auto simp: store_ok_def)
  with d h1(1,2,4) conn kept show ?thesis by (simp add: do_disconnect_all_def)
qed

lemma destroy_slot_ok:
  assumes ok: "store_ok h" and d: "senders h d = Some ss"
  shows "\<exists>h'. destroy_slot d h = Some h' \<and> store_ok h' \<and> senders h' d = None \<and>
    dom (signals h') = dom (signals h) \<and> (\<forall>s. \<not> connection h' s d) \<and>
    (\<forall>t. map_option conns (signals h' t) =
      map_option (\<lambda>g. filter (\<lambda>x. dest x \<noteq> d) (conns g)) (signals h t))"
proof -
  from do_disconnect_all_ok [OF assms] obtain h1 where h1: "do_disconnect_all d h = Some h1"
    "store_ok h1" "senders h1 d = Some []" "dom (signals h1) = dom (signals h)"
    "\<forall>t. map_option conns (signals h1 t) =
      map_option (\<lambda>g. filter (\<lambda>x. dest x \<noteq> d) (conns g)) (signals h t)"
    "\<forall>t e. connection h1 t e \<longleftrightarrow> connection h t e \<and> e \<noteq> d" by blast
  let ?h = "h1\<lparr>senders := (senders h1)(d := None)\<rparr>"
  have "connection ?h t e = connection h1 t e" "linked ?h t e = linked h1 t e" for t e
    using h1(3) by (auto simp: connection_def linked_def)
  with h1 have "store_ok ?h" "\<forall>s. \<not> connection ?h s d" by (auto simp: store_ok_def)
  with h1(1,4,5) show ?thesis by (simp add: destroy_slot_def)
qed

section \<open>Emitting\<close>

lemma emit_begin_ok:
  assumes ok: "store_ok h" and s: "signals h s = Some g"
  shows "\<exists>h'. emit_begin s h = Some h' \<and> store_ok h'"
proof -
  let ?h = "set_signal s (g\<lparr>cur := first_node (conns g)\<rparr>) h"
  have "nodes_ok (next_node h) (conns g) (first_node (conns g))"
    using store_okD(1) [OF assms] by (auto simp: nodes_ok_def dest: first_node_in)
  moreover have "connection ?h t e = connection h t e" "linked ?h t e = linked h t e" for t e
    using s by (auto simp: connection_def linked_def)
  ultimately have "store_ok ?h" using ok by (auto simp: store_ok_def)
  with s show ?thesis by (simp add: emit_begin_def)
qed

lemma find_node_Some:
  "n \<in> node ` set cs \<Longrightarrow> \<exists>c nxt. find_node n cs = Some (c, nxt) \<and> c \<in> set cs \<and>
    (\<forall>k. nxt = Some k \<longrightarrow> k \<in> node ` set cs)"
  by (induction n cs rule: find_node.induct) (auto dest: first_node_in)

text \<open>The next call of an emission goes to an object that exists and is connected.\<close>

lemma emit_next_ok:
  assumes ok: "store_ok h" and s: "signals h s = Some g"
  shows "\<exists>r h'. emit_next s h = Some (r, h') \<and> store_ok h' \<and>
    (\<forall>c. r = Some c \<longrightarrow> c \<in> set (conns g) \<and> senders h' (dest c) \<noteq> None)"
proof (cases "cur g")
  case None
  with s ok show ?thesis by (simp add: emit_next_def)
next
  case (Some n)
  have n: "nodes_ok (next_node h) (conns g) (cur g)" using store_okD(1) [OF assms] .
  with Some have "n \<in> node ` set (conns g)" by (simp add: nodes_ok_def)
  from find_node_Some [OF this] obtain c nxt where c: "find_node n (conns g) = Some (c, nxt)"
    "c \<in> set (conns g)" "\<forall>k. nxt = Some k \<longrightarrow> k \<in> node ` set (conns g)" by blast
  let ?h = "set_signal s (g\<lparr>cur := nxt\<rparr>) h"
  have "connection ?h t e = connection h t e" "linked ?h t e = linked h t e" for t e
    using s by (auto simp: connection_def linked_def)
  moreover have "nodes_ok (next_node h) (conns g) nxt" using n c(3) by (simp add: nodes_ok_def)
  ultimately have "store_ok ?h" using ok by (auto simp: store_ok_def)
  moreover have "senders ?h (dest c) \<noteq> None" using store_dest [OF ok s c(2)] by auto
  ultimately show ?thesis using s Some c by (auto simp: emit_next_def)
qed

section \<open>Programs over the store\<close>

datatype 'm sig_op =
    NewSignal nat
  | CopySignal nat nat
  | NewSlot nat
  | CopySlot nat nat
  | Connect nat nat 'm
  | Disconnect nat nat
  | DisconnectAll nat
  | DropSenders nat
  | DestroySignal nat
  | DestroySlot nat

fun sig_exec :: "'m sig_op \<Rightarrow> 'm store \<Rightarrow> 'm store option" where
  "sig_exec (NewSignal s) h = Some (new_signal s h)"
| "sig_exec (CopySignal s t) h = copy_signal s t h"
| "sig_exec (NewSlot d) h = Some (new_slot d h)"
| "sig_exec (CopySlot d e) h = copy_slot d e h"
| "sig_exec (Connect s d m) h = sig_connect s d m h"
| "sig_exec (Disconnect s d) h = sig_disconnect s d h"
| "sig_exec (DisconnectAll s) h = sig_disconnect_all s h"
| "sig_exec (DropSenders d) h = do_disconnect_all d h"
| "sig_exec (DestroySignal s) h = destroy_signal s h"
| "sig_exec (DestroySlot d) h = destroy_slot d h"

text \<open>
  A program is in the body of a slot, or at its top level, and \<open>running\<close> are the emissions on its
  call stack, the innermost first. It performs an operation, emits a signal, or lets the slot
  return. A slot returns into the loop of the emission that called it: the loop reads its signal
  again and calls the next slot, or it ends and the code that emitted goes on.
\<close>

record 'm machine =
  heap :: "'m store"
  running :: "nat list"

definition sig_start :: "'m machine" where
  "sig_start = \<lparr>heap = empty_store, running = []\<rparr>"

datatype 'm action =
    Do "'m sig_op"
  | Emit nat
  | Slot_returns

fun emit_loop :: "nat list \<Rightarrow> 'm store \<Rightarrow> ('m conn option \<times> 'm machine) option" where
  "emit_loop [] h = Some (None, \<lparr>heap = h, running = []\<rparr>)"
| "emit_loop (s # ss) h =
     map_option
       (\<lambda>(r, h'). (r, \<lparr>heap = h', running = (case r of None \<Rightarrow> ss | Some c \<Rightarrow> s # ss)\<rparr>))
       (emit_next s h)"

definition emit :: "nat \<Rightarrow> 'm machine \<Rightarrow> ('m conn option \<times> 'm machine) option" where
  "emit s m = Option.bind (emit_begin s (heap m)) (emit_loop (s # running m))"

text \<open>The result is the connection whose slot is called, if one is.\<close>

fun act :: "'m action \<Rightarrow> 'm machine \<Rightarrow> ('m conn option \<times> 'm machine) option" where
  "act (Do x) m = map_option (\<lambda>h. (None, m\<lparr>heap := h\<rparr>)) (sig_exec x (heap m))"
| "act (Emit s) m = emit s m"
| "act Slot_returns m = emit_loop (running m) (heap m)"

fun prog_run :: "'m action list \<Rightarrow> 'm machine \<Rightarrow> ('m conn list \<times> 'm machine) option" where
  "prog_run [] m = Some ([], m)"
| "prog_run (x # xs) m =
     Option.bind (act x m) (\<lambda>(r, m1).
       map_option (\<lambda>(cs, m2). (case r of None \<Rightarrow> cs | Some c \<Rightarrow> c # cs, m2)) (prog_run xs m1))"

text \<open>
  What the caller owes: the objects it names exist, a new one is new, an object that is
  disconnected by name is not connected to the signal more than once, and a signal is not
  destroyed while one of its emissions is on the call stack. Nothing else: emissions may be nested
  in slots in any way, and slots may connect, disconnect, copy and destroy at any moment.
\<close>

definition conn_count :: "nat \<Rightarrow> nat \<Rightarrow> 'm store \<Rightarrow> nat" where
  "conn_count s d h =
     (case signals h s of None \<Rightarrow> 0 | Some g \<Rightarrow> length (filter (\<lambda>x. dest x = d) (conns g)))"

fun sig_valid :: "'m sig_op \<Rightarrow> 'm store \<Rightarrow> bool" where
  "sig_valid (NewSignal s) h = (signals h s = None)"
| "sig_valid (CopySignal s t) h = (signals h s \<noteq> None \<and> signals h t = None)"
| "sig_valid (NewSlot d) h = (senders h d = None)"
| "sig_valid (CopySlot d e) h = (senders h d \<noteq> None \<and> senders h e = None)"
| "sig_valid (Connect s d m) h = (signals h s \<noteq> None \<and> senders h d \<noteq> None)"
| "sig_valid (Disconnect s d) h = (signals h s \<noteq> None \<and> conn_count s d h \<le> 1)"
| "sig_valid (DisconnectAll s) h = (signals h s \<noteq> None)"
| "sig_valid (DropSenders d) h = (senders h d \<noteq> None)"
| "sig_valid (DestroySignal s) h = (signals h s \<noteq> None)"
| "sig_valid (DestroySlot d) h = (senders h d \<noteq> None)"

fun act_valid :: "'m action \<Rightarrow> 'm machine \<Rightarrow> bool" where
  "act_valid (Do x) m = (sig_valid x (heap m) \<and> (\<forall>s \<in> set (running m). x \<noteq> DestroySignal s))"
| "act_valid (Emit s) m = (signals (heap m) s \<noteq> None)"
| "act_valid Slot_returns m = (running m \<noteq> [])"

fun prog_valid :: "'m action list \<Rightarrow> 'm machine \<Rightarrow> bool" where
  "prog_valid [] m = True"
| "prog_valid (x # xs) m =
     (act_valid x m \<and> (case act x m of None \<Rightarrow> True | Some (r, m') \<Rightarrow> prog_valid xs m'))"

section \<open>Which signals exist\<close>

lemma dom_eqD: "dom f = dom g \<Longrightarrow> f s = None \<longleftrightarrow> g s = None"
  by blast

definition brings :: "'m sig_op \<Rightarrow> nat \<Rightarrow> bool" where
  "brings x s \<longleftrightarrow> x = NewSignal s \<or> (\<exists>t. x = CopySignal t s)"

lemma do_signal_disconnect_signals: "do_signal_disconnect d s h = Some h' \<Longrightarrow> signals h' = signals h"
  by (auto simp: do_signal_disconnect_def)

lemma do_signal_connect_signals: "do_signal_connect d s h = Some h' \<Longrightarrow> signals h' = signals h"
  by (auto simp: do_signal_connect_def)

lemma pop_all_signals: "pop_all s cs h = Some h' \<Longrightarrow> signals h' = signals h"
  by (induction cs arbitrary: h)
    (auto dest: do_signal_disconnect_signals split: Option.bind_splits)

lemma do_slot_disconnect_dom: "do_slot_disconnect s d h = Some h' \<Longrightarrow> dom (signals h') = dom (signals h)"
  by (auto simp: do_slot_disconnect_without split: if_splits)

lemma disconnect_senders_dom:
  "disconnect_senders d ss h = Some h' \<Longrightarrow> dom (signals h') = dom (signals h)"
proof (induction ss arbitrary: h)
  case (Cons s ss)
  then obtain h1 where "do_slot_disconnect s d h = Some h1" "disconnect_senders d ss h1 = Some h'"
    by (auto split: Option.bind_splits)
  with Cons.IH [of h1] do_slot_disconnect_dom [of s d h h1] show ?case by simp
qed simp

lemma copy_conns_dom:
  "copy_conns s cs h = Some h' \<Longrightarrow> dom (signals h') = dom (signals h)"
proof (induction cs arbitrary: h)
  case (Cons c cs)
  from Cons.prems obtain h1 g where h1: "do_signal_connect (dest c) s h = Some h1"
    "signals h1 s = Some g"
    "copy_conns s cs (set_signal s (g\<lparr>conns := conns g @ [c\<lparr>node := next_node h1\<rparr>]\<rparr>) h1
      \<lparr>next_node := Suc (next_node h1)\<rparr>) = Some h'"
    by (auto split: Option.bind_splits)
  have "dom (signals h') = insert s (dom (signals h))"
    unfolding Cons.IH [OF h1(3)] using do_signal_connect_signals [OF h1(1)] by simp
  moreover have "s \<in> dom (signals h)" using h1(2) do_signal_connect_signals [OF h1(1)] by auto
  ultimately show ?case by auto
qed simp

lemma copy_senders_dom:
  "copy_senders d e ss h = Some h' \<Longrightarrow> dom (signals h') = dom (signals h)"
proof (induction ss arbitrary: h)
  case (Cons s ss)
  from Cons.prems obtain h1 h2 where h2: "do_slot_duplicate s d e h = Some h1"
    "do_signal_connect e s h1 = Some h2" "copy_senders d e ss h2 = Some h'"
    by (auto split: Option.bind_splits)
  from h2(1) obtain g g' where "signals h s = Some g" "signals h1 = (signals h)(s \<mapsto> g')"
    by (auto simp: do_slot_duplicate_def Let_def)
  then have "dom (signals h1) = dom (signals h)" by auto
  with Cons.IH [OF h2(3)] do_signal_connect_signals [OF h2(2)] show ?case by simp
qed simp

lemma sig_exec_dom:
  assumes "sig_exec x h = Some h'"
  shows "x \<noteq> DestroySignal s \<Longrightarrow> signals h s \<noteq> None \<Longrightarrow> signals h' s \<noteq> None"
    and "\<not> brings x s \<Longrightarrow> signals h s = None \<Longrightarrow> signals h' s = None"
proof -
  have "(x \<noteq> DestroySignal s \<longrightarrow> s \<in> dom (signals h) \<longrightarrow> s \<in> dom (signals h')) \<and>
    (\<not> brings x s \<longrightarrow> s \<notin> dom (signals h) \<longrightarrow> s \<notin> dom (signals h'))"
  proof (cases x)
    case (NewSignal t)
    with assms show ?thesis by (auto simp: new_signal_def brings_def)
  next
    case (CopySignal t u)
    with assms obtain cs where "copy_conns u cs (new_signal u h) = Some h'"
      by (auto simp: copy_signal_def split: Option.bind_splits)
    from copy_conns_dom [OF this] have "dom (signals h') = insert u (dom (signals h))"
      by (simp add: new_signal_def)
    with CopySignal show ?thesis by (simp add: brings_def)
  next
    case (NewSlot d)
    with assms show ?thesis by (auto simp: new_slot_def)
  next
    case (CopySlot d e)
    with assms obtain ss where "copy_senders d e ss (new_slot e h) = Some h'"
      by (auto simp: copy_slot_def split: Option.bind_splits)
    from copy_senders_dom [OF this] show ?thesis by (simp add: new_slot_def)
  next
    case (Connect t d m)
    with assms show ?thesis
      by (auto simp: sig_connect_def dest!: do_signal_connect_signals
        split: Option.bind_splits if_splits)
  next
    case (Disconnect t d)
    with assms show ?thesis
      by (auto simp: sig_disconnect_def dest!: do_signal_disconnect_signals
        split: Option.bind_splits option.splits if_splits)
  next
    case (DisconnectAll t)
    with assms show ?thesis
      by (auto simp: sig_disconnect_all_def dest!: pop_all_signals
        split: Option.bind_splits if_splits)
  next
    case (DropSenders d)
    with assms obtain ss where "disconnect_senders d ss (set_senders d [] h) = Some h'"
      by (auto simp: do_disconnect_all_def split: Option.bind_splits)
    from disconnect_senders_dom [OF this] show ?thesis by simp
  next
    case (DestroySignal t)
    with assms show ?thesis
      by (auto simp: destroy_signal_def sig_disconnect_all_def dest!: pop_all_signals
        split: Option.bind_splits if_splits)
  next
    case (DestroySlot d)
    with assms obtain ss h1 where "disconnect_senders d ss (set_senders d [] h) = Some h1"
      "signals h' = signals h1"
      by (auto simp: destroy_slot_def do_disconnect_all_def split: Option.bind_splits)
    with disconnect_senders_dom [OF this(1)] show ?thesis by simp
  qed
  then show "x \<noteq> DestroySignal s \<Longrightarrow> signals h s \<noteq> None \<Longrightarrow> signals h' s \<noteq> None"
    and "\<not> brings x s \<Longrightarrow> signals h s = None \<Longrightarrow> signals h' s = None"
    by (simp_all add: domIff)
qed

lemma emit_begin_dom: "emit_begin s h = Some h' \<Longrightarrow> dom (signals h') = dom (signals h)"
  by (auto simp: emit_begin_def split: if_splits)

lemma emit_next_dom: "emit_next s h = Some (r, h') \<Longrightarrow> dom (signals h') = dom (signals h)"
  by (auto simp: emit_next_def split: Option.bind_splits option.splits if_splits)

section \<open>Valid programs\<close>

lemma sig_exec_ok:
  assumes ok: "store_ok h" and v: "sig_valid x h"
  shows "\<exists>h'. sig_exec x h = Some h' \<and> store_ok h'"
proof (cases x)
  case (NewSignal s)
  with v new_signal_ok [OF ok, of s] show ?thesis by simp
next
  case (CopySignal s t)
  with v obtain g where "signals h s = Some g" "signals h t = None" by auto
  from copy_signal_ok [OF ok this] CopySignal show ?thesis by auto
next
  case (NewSlot d)
  with v new_slot_ok [OF ok, of d] show ?thesis by simp
next
  case (CopySlot d e)
  with v obtain ss where "senders h d = Some ss" "senders h e = None" by auto
  from copy_slot_ok [OF ok this] CopySlot show ?thesis by auto
next
  case (Connect s d m)
  with v obtain g ss where "signals h s = Some g" "senders h d = Some ss" by auto
  from sig_connect_ok [OF ok this, of m] Connect show ?thesis by auto
next
  case (Disconnect s d)
  with v obtain g where "signals h s = Some g"
    "length (filter (\<lambda>x. dest x = d) (conns g)) \<le> 1" by (auto simp: conn_count_def)
  from sig_disconnect_ok [OF ok this] Disconnect show ?thesis by auto
next
  case (DisconnectAll s)
  with v obtain g where "signals h s = Some g" by auto
  from sig_disconnect_all_ok [OF ok this] DisconnectAll show ?thesis by auto
next
  case (DropSenders d)
  with v obtain g where "senders h d = Some g" by auto
  from do_disconnect_all_ok [OF ok this] DropSenders show ?thesis by auto
next
  case (DestroySignal s)
  with v obtain g where "signals h s = Some g" by auto
  from destroy_signal_ok [OF ok this] DestroySignal show ?thesis by auto
next
  case (DestroySlot d)
  with v obtain g where "senders h d = Some g" by auto
  from destroy_slot_ok [OF ok this] DestroySlot show ?thesis by auto
qed

text \<open>The machine's invariant: the store's, and the signals being emitted exist.\<close>

definition machine_ok :: "'m machine \<Rightarrow> bool" where
  "machine_ok m \<longleftrightarrow> store_ok (heap m) \<and> (\<forall>s \<in> set (running m). signals (heap m) s \<noteq> None)"

lemma sig_start_ok: "machine_ok sig_start"
  by (simp add: machine_ok_def sig_start_def empty_store_ok)

lemma emit_loop_ok:
  assumes "store_ok h" and "\<forall>s \<in> set ss. signals h s \<noteq> None"
  shows "\<exists>r m. emit_loop ss h = Some (r, m) \<and> machine_ok m \<and>
    (\<forall>c. r = Some c \<longrightarrow> senders (heap m) (dest c) \<noteq> None)"
proof (cases ss)
  case Nil
  with assms show ?thesis by (simp add: machine_ok_def)
next
  case (Cons s us)
  with assms obtain g where "signals h s = Some g" by auto
  from emit_next_ok [OF assms(1) this] obtain r h' where n: "emit_next s h = Some (r, h')"
    "store_ok h'" "\<forall>c. r = Some c \<longrightarrow> senders h' (dest c) \<noteq> None" by blast
  from emit_next_dom [OF n(1)] assms(2) have "\<forall>s \<in> set ss. signals h' s \<noteq> None" by (auto simp: dom_def)
  with n Cons show ?thesis by (auto simp: machine_ok_def split: option.split)
qed

lemma act_ok:
  assumes ok: "machine_ok m" and v: "act_valid a m"
  shows "\<exists>r m'. act a m = Some (r, m') \<and> machine_ok m' \<and>
    (\<forall>c. r = Some c \<longrightarrow> senders (heap m') (dest c) \<noteq> None)"
proof (cases a)
  case (Do x)
  with ok v sig_exec_ok [of "heap m" x] obtain h' where h': "sig_exec x (heap m) = Some h'"
    "store_ok h'" by (auto simp: machine_ok_def)
  with sig_exec_dom(1) [OF h'(1)] ok v Do show ?thesis by (auto simp: machine_ok_def)
next
  case (Emit s)
  with v obtain g where g: "signals (heap m) s = Some g" by auto
  from ok have "store_ok (heap m)" by (simp add: machine_ok_def)
  from emit_begin_ok [OF this g] obtain h' where h': "emit_begin s (heap m) = Some h'" "store_ok h'"
    by blast
  from emit_begin_dom [OF h'(1)] ok g have "\<forall>s \<in> set (s # running m). signals h' s \<noteq> None"
    by (auto simp: machine_ok_def dom_def)
  from emit_loop_ok [OF h'(2) this] h'(1) Emit show ?thesis by (simp add: emit_def)
next
  case Slot_returns
  with ok emit_loop_ok [of "heap m" "running m"] show ?thesis by (simp add: machine_ok_def)
qed

lemma prog_run_ok:
  "machine_ok m \<Longrightarrow> prog_valid xs m \<Longrightarrow> \<exists>cs m'. prog_run xs m = Some (cs, m') \<and> machine_ok m'"
proof (induction xs arbitrary: m)
  case (Cons x xs)
  then obtain r m1 where r: "act x m = Some (r, m1)" "machine_ok m1" using act_ok [of m x] by auto
  with Cons.prems(2) have "prog_valid xs m1" by simp
  from Cons.IH [OF r(2) this] r(1) show ?case by fastforce
qed simp

lemma prog_run_append:
  "prog_run (xs @ ys) m = Option.bind (prog_run xs m) (\<lambda>(cs, m1).
    map_option (\<lambda>(ds, m2). (cs @ ds, m2)) (prog_run ys m1))"
proof (induction xs arbitrary: m)
  case (Cons x xs)
  show ?case
  proof (cases "act x m")
    case (Some p)
    obtain r m1 where p: "p = (r, m1)" by (cases p)
    show ?thesis
      using Cons.IH [of m1] Some unfolding p
      by (auto split: option.splits Option.bind_splits simp: map_option_case)
  qed simp
qed (simp add: option.map_ident split_def)

lemma prog_valid_append:
  "prog_valid (xs @ ys) m \<longleftrightarrow>
    prog_valid xs m \<and> (case prog_run xs m of None \<Rightarrow> True | Some (cs, m') \<Rightarrow> prog_valid ys m')"
  by (induction xs arbitrary: m) (auto split: option.splits Option.bind_splits)

lemma reachable_ok:
  assumes "prog_valid xs sig_start" and "prog_run xs sig_start = Some (cs, m)"
  shows "store_ok (heap m)" and "\<And>s. s \<in> set (running m) \<Longrightarrow> signals (heap m) s \<noteq> None"
  using prog_run_ok [OF sig_start_ok assms(1)] assms(2) by (auto simp: machine_ok_def)

lemma find_node_split:
  "distinct (map node (xs @ c # ys)) \<Longrightarrow> find_node (node c) (xs @ c # ys) = Some (c, first_node ys)"
  by (induction xs) auto

text \<open>An undisturbed emission from the middle of the list makes the calls that are left.\<close>

lemma emission_rest:
  "signals h s = Some g \<Longrightarrow> conns g = xs @ ys \<Longrightarrow> cur g = first_node ys \<Longrightarrow>
    distinct (map node (conns g)) \<Longrightarrow>
    \<exists>h'. prog_run (replicate (Suc (length ys)) Slot_returns) \<lparr>heap = h, running = s # ss\<rparr> =
      Some (ys, \<lparr>heap = h', running = ss\<rparr>)"
proof (induction ys arbitrary: h g xs)
  case Nil
  then show ?case by (simp add: emit_next_def)
next
  case (Cons c ys)
  let ?g = "g\<lparr>cur := first_node ys\<rparr>"
  let ?h = "set_signal s ?g h"
  have "emit_next s h = Some (Some c, ?h)"
    using Cons.prems find_node_split [of xs c ys] by (simp add: emit_next_def)
  moreover have "\<exists>h'. prog_run (replicate (Suc (length ys)) Slot_returns)
      \<lparr>heap = ?h, running = s # ss\<rparr> = Some (ys, \<lparr>heap = h', running = ss\<rparr>)"
    by (rule Cons.IH [of ?h ?g "xs @ [c]"]) (use Cons.prems in auto)
  ultimately show ?case by (auto simp del: replicate.simps simp: replicate_Suc [of "Suc (length ys)"])
qed

text \<open>A frame of an emission whose signal is gone is never left.\<close>

lemma stuck_act:
  assumes "act a m = Some (r, m')" and "signals (heap m) s = None"
    and "suffix (s # ss) (running m)" and "\<forall>x. a = Do x \<longrightarrow> \<not> brings x s"
  shows "signals (heap m') s = None \<and> suffix (s # ss) (running m')"
proof (cases a)
  case (Do x)
  with assms sig_exec_dom(2) [of x "heap m" _ s] show ?thesis by auto
next
  case (Emit t)
  with assms obtain h1 where h1: "emit_begin t (heap m) = Some h1"
    "emit_loop (t # running m) h1 = Some (r, m')" by (auto simp: emit_def split: Option.bind_splits)
  then obtain h2 where h2: "emit_next t h1 = Some (r, h2)"
    "m' = \<lparr>heap = h2, running = (case r of None \<Rightarrow> running m | Some c \<Rightarrow> t # running m)\<rparr>" by auto
  have "dom (signals h2) = dom (signals (heap m))"
    using emit_begin_dom [OF h1(1)] emit_next_dom [OF h2(1)] by simp
  from dom_eqD [OF this, of s] assms(2,3) h2(2) show ?thesis
    by (auto simp: suffix_ConsI split: option.split)
next
  case Slot_returns
  from assms(3) obtain ts where ts: "running m = ts @ s # ss" by (auto simp: suffix_def)
  show ?thesis
  proof (cases ts)
    case Nil
    with ts assms(1,2) Slot_returns show ?thesis by (simp add: emit_next_def)
  next
    case (Cons t us)
    with ts assms(1) Slot_returns obtain h2 where h2: "emit_next t (heap m) = Some (r, h2)"
      "m' = \<lparr>heap = h2, running = (case r of None \<Rightarrow> us @ s # ss | Some c \<Rightarrow> t # us @ s # ss)\<rparr>"
      by auto
    with dom_eqD [OF emit_next_dom [OF h2(1)], of s] assms(2) show ?thesis
      by (auto simp: suffix_def split: option.split)
  qed
qed

lemma stuck_run:
  "prog_run bs m = Some (cs, m') \<Longrightarrow> signals (heap m) s = None \<Longrightarrow> suffix (s # ss) (running m) \<Longrightarrow>
    \<forall>x. Do x \<in> set bs \<longrightarrow> \<not> brings x s \<Longrightarrow>
    signals (heap m') s = None \<and> suffix (s # ss) (running m')"
proof (induction bs arbitrary: m cs)
  case (Cons b bs)
  from Cons.prems(1) obtain r m1 ds where m1: "act b m = Some (r, m1)" "prog_run bs m1 = Some (ds, m')"
    by (auto split: Option.bind_splits)
  from stuck_act [OF m1(1) Cons.prems(2,3)] Cons.prems(4) Cons.IH [OF m1(2)] show ?case by auto
qed simp

section \<open>Properties\<close>

lemmas sig_ops = empty_store_def new_signal_def new_slot_def sig_connect_def do_signal_connect_def
  emit_begin_def emit_next_def emit_def sig_start_def destroy_slot_def do_disconnect_all_def
  do_slot_disconnect_def

text \<open>
  C5: Whatever a program does with signals and slots --- emissions nested in slots, slots that
  connect, disconnect, copy or destroy anything, themselves included --- as long as it names only
  objects that exist, disconnects by name only objects connected once and destroys no signal that
  has an emission on the call stack, nothing it does and no loop of an emission that a slot
  returns into ever reads or writes a destroyed object, an emission calls only objects that exist,
  and the links of both sides stay equal.
\<close>

theorem sigslot_safe:
  assumes "prog_valid (xs @ [a]) sig_start"
  shows "\<exists>cs m r m'. prog_run xs sig_start = Some (cs, m) \<and> act a m = Some (r, m') \<and>
    (\<forall>c. r = Some c \<longrightarrow> senders (heap m') (dest c) \<noteq> None) \<and>
    (\<forall>s \<in> set (running m'). signals (heap m') s \<noteq> None) \<and>
    (\<forall>s d. linked (heap m') s d = connection (heap m') s d)"
proof -
  have "prog_valid xs (sig_start :: 'a machine)" using assms by (simp add: prog_valid_append)
  from prog_run_ok [OF sig_start_ok this] obtain cs m where
    m: "prog_run xs sig_start = Some (cs, m)" "machine_ok m" by blast
  then have "act_valid a m" using assms by (simp add: prog_valid_append)
  from act_ok [OF m(2) this] m(1) show ?thesis
    by (auto simp: machine_ok_def dest: store_okD(2))
qed

lemma sigslot_safe_witness:
  "\<exists>cs m r m'. prog_run [Do (NewSignal 0), Do (NewSlot 1), Do (NewSlot 2), Do (Connect 0 1 True),
      Do (Connect 0 2 False), Emit 0, Emit 0, Do (DestroySlot 2), Slot_returns] sig_start = Some (cs, m) \<and>
    act Slot_returns m = Some (r, m') \<and>
    (\<forall>c. r = Some c \<longrightarrow> senders (heap m') (dest c) \<noteq> None) \<and>
    (\<forall>s \<in> set (running m'). signals (heap m') s \<noteq> None) \<and>
    (\<forall>s d. linked (heap m') s d = connection (heap m') s d)"
  by (rule sigslot_safe) (simp add: sig_ops)

text \<open>
  The condition on destroying a signal cannot be dropped. When any valid program destroys a
  signal while one of its emissions is on the call stack, the destruction itself goes well, but
  the emission is never left: whatever the program does afterwards, short of making a new signal
  at the same place, its frame stays on the stack, and when the slot returns into its loop, the
  loop reads the destroyed signal.
\<close>

theorem destroyed_signal_is_read:
  assumes "prog_valid xs sig_start" and "prog_run xs sig_start = Some (cs, m)"
    and "running m = ts @ s # ss"
  shows "\<exists>m1. act (Do (DestroySignal s)) m = Some (None, m1) \<and>
    (\<forall>ys ds m2. (\<forall>x. Do x \<in> set ys \<longrightarrow> \<not> brings x s) \<and> prog_run ys m1 = Some (ds, m2) \<longrightarrow>
      suffix (s # ss) (running m2) \<and> (running m2 = s # ss \<longrightarrow> act Slot_returns m2 = None))"
proof -
  from reachable_ok(2) [OF assms(1,2), of s] assms(3) obtain g where "signals (heap m) s = Some g"
    by auto
  from destroy_signal_ok [OF reachable_ok(1) [OF assms(1,2)] this] obtain h1 where
    h1: "destroy_signal s (heap m) = Some h1" "signals h1 s = None" by blast
  let ?m1 = "m\<lparr>heap := h1\<rparr>"
  have suf: "suffix (s # ss) (running ?m1)" using assms(3) by (simp add: suffix_def)
  have "suffix (s # ss) (running m2) \<and> (running m2 = s # ss \<longrightarrow> act Slot_returns m2 = None)"
    if "\<forall>x. Do x \<in> set ys \<longrightarrow> \<not> brings x s" "prog_run ys ?m1 = Some (ds, m2)" for ys ds m2
    using stuck_run [OF that(2) _ suf that(1)] h1(2) by (simp add: emit_next_def)
  with h1(1) show ?thesis by (intro exI [of _ ?m1]) (simp, blast)
qed

lemma destroyed_signal_is_read_witness:
  "\<exists>cs m m1. prog_run [Do (NewSignal 0), Do (NewSlot 1), Do (Connect 0 1 True), Emit 0] sig_start =
      Some (cs, m) \<and> act (Do (DestroySignal 0)) m = Some (None, m1) \<and> act Slot_returns m1 = None"
proof -
  let ?xs = "[Do (NewSignal 0), Do (NewSlot 1), Do (Connect 0 1 True), Emit 0]"
  obtain cs m where m: "prog_run ?xs sig_start = Some (cs, m)" "running m = [] @ 0 # []"
    by (simp add: sig_ops)
  have "prog_valid ?xs sig_start" by (simp add: sig_ops)
  from destroyed_signal_is_read [OF this m] obtain m1 where
    m1: "act (Do (DestroySignal 0)) m = Some (None, m1)"
    "\<forall>ys ds m2. (\<forall>x. Do x \<in> set ys \<longrightarrow> \<not> brings x 0) \<and> prog_run ys m1 = Some (ds, m2) \<longrightarrow>
      suffix [0] (running m2) \<and> (running m2 = [0] \<longrightarrow> act Slot_returns m2 = None)" by blast
  have "running m1 = [0]" using m1(1) m(2) by auto
  with m1(2) [rule_format, of "[]" "[]" m1] m(1) m1(1) show ?thesis by auto
qed

text \<open>
  An emission whose slots leave the signals alone, started anywhere in a valid program, calls
  every connection of the signal exactly once, in the order of connecting, and is then left.
\<close>

theorem emit_calls_each_once:
  assumes "prog_valid xs sig_start" and "prog_run xs sig_start = Some (cs, m)"
    and "signals (heap m) s = Some g"
  shows "\<exists>m'. prog_run (Emit s # replicate (length (conns g)) Slot_returns) m = Some (conns g, m') \<and>
    running m' = running m"
proof -
  let ?g = "g\<lparr>cur := first_node (conns g)\<rparr>"
  let ?h = "set_signal s ?g (heap m)"
  from store_okD(1) [OF reachable_ok(1) [OF assms(1,2)] assms(3)]
  have "distinct (map node (conns g))" by (simp add: nodes_ok_def)
  then obtain h' where h': "prog_run (replicate (Suc (length (conns g))) Slot_returns)
      \<lparr>heap = ?h, running = s # running m\<rparr> = Some (conns g, \<lparr>heap = h', running = running m\<rparr>)"
    using emission_rest [of ?h s ?g "[]" "conns g" "running m"] by auto
  have "act (Emit s) m = act Slot_returns \<lparr>heap = ?h, running = s # running m\<rparr>"
    using assms(3) by (simp add: emit_def emit_begin_def)
  then have "prog_run (Emit s # replicate (length (conns g)) Slot_returns) m =
      prog_run (replicate (Suc (length (conns g))) Slot_returns) \<lparr>heap = ?h, running = s # running m\<rparr>"
    by simp
  with h' show ?thesis by auto
qed

lemma emit_calls_each_once_witness:
  "\<exists>cs m m'. prog_run (map Do [NewSignal 0, NewSlot 1, NewSlot 2, Connect 0 2 True, Connect 0 1 False])
      sig_start = Some (cs, m) \<and>
    prog_run [Emit 0, Slot_returns, Slot_returns] m =
      Some ([\<lparr>node = 0, dest = 2, slot = True\<rparr>, \<lparr>node = 1, dest = 1, slot = False\<rparr>], m')"
proof -
  let ?xs = "map Do [NewSignal 0, NewSlot 1, NewSlot 2, Connect 0 2 True, Connect 0 1 False]"
  let ?g = "\<lparr>conns = [\<lparr>node = 0, dest = 2, slot = True\<rparr>, \<lparr>node = 1, dest = 1, slot = False\<rparr>],
      cur = None\<rparr>"
  obtain cs m where m: "prog_run ?xs sig_start = Some (cs, m)" "signals (heap m) 0 = Some ?g"
    by (simp add: sig_ops)
  have "prog_valid ?xs sig_start" by (simp add: sig_ops)
  from emit_calls_each_once [OF this m] m(1) show ?thesis by (auto simp: numeral_2_eq_2)
qed

text \<open>
  Destroying an object removes it from every signal for good: no signal keeps a connection to
  it, so that no emission, not even one that is running, calls it again; the other connections
  stay as they were, in their order.
\<close>

theorem destroyed_slot_is_gone:
  assumes "prog_valid xs sig_start" and "prog_run xs sig_start = Some (cs, m)"
    and "senders (heap m) d \<noteq> None"
  shows "\<exists>h'. destroy_slot d (heap m) = Some h' \<and>
    (\<forall>s. map_option conns (signals h' s) =
      map_option (\<lambda>g. filter (\<lambda>c. dest c \<noteq> d) (conns g)) (signals (heap m) s))"
proof -
  from assms(3) obtain ss where "senders (heap m) d = Some ss" by auto
  from destroy_slot_ok [OF reachable_ok(1) [OF assms(1,2)] this] show ?thesis by blast
qed

lemma destroyed_slot_is_gone_witness:
  "\<exists>cs m h'. prog_run (map Do [NewSignal 0, NewSlot 1, NewSlot 2, Connect 0 2 True, Connect 0 1 False] @
      [Emit 0]) sig_start = Some (cs, m) \<and> destroy_slot 2 (heap m) = Some h' \<and>
    map_option conns (signals h' 0) = Some [\<lparr>node = 1, dest = 1, slot = False\<rparr>]"
proof -
  let ?xs = "map Do [NewSignal 0, NewSlot 1, NewSlot 2, Connect 0 2 True, Connect 0 1 False] @ [Emit 0]"
  obtain cs m where m: "prog_run ?xs sig_start = Some (cs, m)" "map_option conns (signals (heap m) 0) =
      Some [\<lparr>node = 0, dest = 2, slot = True\<rparr>, \<lparr>node = 1, dest = 1, slot = False\<rparr>]"
    "senders (heap m) 2 \<noteq> None"
    by (simp add: sig_ops)
  have "prog_valid ?xs sig_start" by (simp add: sig_ops)
  from destroyed_slot_is_gone [OF this m(1,3)] obtain h' where h': "destroy_slot 2 (heap m) = Some h'"
    "map_option conns (signals h' 0) =
      map_option (\<lambda>g. filter (\<lambda>c. dest c \<noteq> 2) (conns g)) (signals (heap m) 0)" by blast
  have "map_option (\<lambda>g. filter (\<lambda>c. dest c \<noteq> 2) (conns g)) (signals (heap m) 0) =
      map_option (filter (\<lambda>c. dest c \<noteq> 2)) (map_option conns (signals (heap m) 0))"
    by (simp add: option.map_comp comp_def)
  with m(1,2) h' show ?thesis by auto
qed

text \<open>
  The precondition on \<open>disconnect\<close> is needed. An object that is connected to a signal twice and
  disconnected by name loses one connection but forgets the signal, so that its destruction leaves
  the other connection behind and the next emission calls the destroyed object.
\<close>

theorem double_connection_dangles:
  assumes "prog_valid xs sig_start" and "prog_run xs sig_start = Some (cs, m)"
    and "1 < conn_count s d (heap m)"
  shows "\<exists>h1 h2. sig_disconnect s d (heap m) = Some h1 \<and> destroy_slot d h1 = Some h2 \<and>
    senders h2 d = None \<and> connection h2 s d"
proof -
  let ?hm = "heap m"
  have ok: "store_ok ?hm" by (rule reachable_ok(1) [OF assms(1,2)])
  from assms(3) obtain g where g: "signals ?hm s = Some g"
    "1 < length (filter (\<lambda>x. dest x = d) (conns g))"
    by (auto simp: conn_count_def split: option.splits)
  then have "filter (\<lambda>x. dest x = d) (conns g) \<noteq> []" by auto
  then have mem: "d \<in> dest ` set (conns g)" by (auto simp: filter_empty_conv)
  then obtain ss where ss: "senders ?hm d = Some ss" "s \<in> set ss"
    using store_dest [OF ok g(1)] by fastforce
  from mem disconnect_loop_None [of d "conns g" "cur g"] obtain cs c where
    l: "disconnect_loop d (conns g) (cur g) = Some (cs, c)" by auto
  let ?h = "set_senders d (removeAll s ss) (set_signal s \<lparr>conns = cs, cur = c\<rparr> ?hm)"
  have h1: "sig_disconnect s d ?hm = Some ?h"
    using g(1) l ss(1) by (simp add: sig_disconnect_def do_signal_disconnect_def)
  have n: "nodes_ok (next_node ?hm) (conns g) (cur g)" using store_okD(1) [OF ok g(1)] .
  note len = disconnect_loop_Some [OF l]
  have "filter (\<lambda>x. dest x = d) cs \<noteq> []" using len n g(2) by (auto simp: nodes_ok_def)
  then have left: "d \<in> dest ` set cs" by (auto simp: filter_empty_conv)
  have nodes: "nodes_ok (next_node ?hm) cs c"
    using len n disconnect_loop_cur [OF l, of "{}"] by (auto simp: nodes_ok_def)
  have live: "\<forall>t \<in> set (removeAll s ss). signals (set_senders d [] ?h) t \<noteq> None"
    using store_sender [OF ok ss(1)] by fastforce
  have "\<forall>t g. signals (set_senders d [] ?h) t = Some g \<longrightarrow>
      nodes_ok (next_node (set_senders d [] ?h)) (conns g) (cur g)"
    using ok nodes by (simp add: store_ok_def)
  from disconnect_senders_ok [OF live this, of d] obtain h2 where
    h2: "disconnect_senders d (removeAll s ss) (set_senders d [] ?h) = Some h2"
    "\<forall>t. map_option conns (signals h2 t) = map_option
      (\<lambda>g. if t \<in> set (removeAll s ss) then filter (\<lambda>x. dest x \<noteq> d) (conns g) else conns g)
        (signals (set_senders d [] ?h) t)" by blast
  from h2(2) [rule_format, of s] have kept: "map_option conns (signals h2 s) = Some cs" by simp
  from h2(1) have "do_disconnect_all d ?h = Some h2" by (simp add: do_disconnect_all_def)
  then have "destroy_slot d ?h = Some (h2\<lparr>senders := (senders h2)(d := None)\<rparr>)"
    by (simp add: destroy_slot_def)
  with h1 kept left show ?thesis by (auto simp: connection_def)
qed

lemma double_connection_dangles_witness:
  "\<exists>cs m h1 h2. prog_run (map Do [NewSignal 0, NewSlot 1, Connect 0 1 True, Connect 0 1 False])
      sig_start = Some (cs, m) \<and>
    sig_disconnect 0 1 (heap m) = Some h1 \<and> destroy_slot 1 h1 = Some h2 \<and>
    senders h2 1 = None \<and> connection h2 0 1"
proof -
  let ?xs = "map Do [NewSignal 0, NewSlot 1, Connect 0 1 True, Connect 0 1 False]"
  obtain cs m where m: "prog_run ?xs sig_start = Some (cs, m)" "1 < conn_count 0 1 (heap m)"
    by (simp add: sig_ops conn_count_def)
  have "prog_valid ?xs sig_start" by (simp add: sig_ops)
  from double_connection_dangles [OF this m] m(1) show ?thesis by blast
qed

end
