(* ===== verification/Tcp_Echo.thy ===== *)
theory Tcp_Echo
  imports Sigslot Logging
begin

text \<open>
  The two programs of \<open>05_rtc_socket/tcp\<close>: a client that answers every packet, and the
  connection itself, with \<open>hello n\<close> half a second later, and a server that echoes. The socket
  class is a library's: it delivers whole packets, each once and in order, and \<open>Send\<close> either
  hands over the packet or fails, a result both programs ignore. Each handler returns its
  effects; \<open>tcp_exec\<close> is one event of the two programs with the link between them.
\<close>

datatype tcp_effect =
    Tcp_log severity "log_part list"
  | Tcp_send string
  | Post_delayed_task nat
  | Delete_this

section \<open>The client\<close>

definition client_send_msg :: "tcp_effect list" where
  "client_send_msg = [Post_delayed_task 500]"

text \<open>
  The posted lambda, with the incremented \<open>int64_t\<close> counter: incrementing the largest value
  would be undefined.
\<close>

definition hello :: "int \<Rightarrow> string" where
  "hello n = ''hello '' @ std_to_string n"

definition client_task :: "int \<Rightarrow> (int \<times> tcp_effect list) option" where
  "client_task count =
     (if count = 2 ^ 63 - 1 then None else Some (count + 1, [Tcp_send (hello (count + 1))]))"

definition client_on_msg :: "string \<Rightarrow> string \<Rightarrow> tcp_effect list" where
  "client_on_msg data remote_addr =
     Tcp_log LS_INFO [Txt ''receive msg: '', Txt data, Txt '' from '', Txt remote_addr]
       # client_send_msg"

definition client_on_close :: "int \<Rightarrow> tcp_effect list" where
  "client_on_close code = [Tcp_log LS_INFO [Txt ''==== close:'', Num code], Delete_this]"

definition client_on_connect :: "string \<Rightarrow> string \<Rightarrow> tcp_effect list" where
  "client_on_connect local remote =
     [Tcp_log LS_INFO [Txt ''>>>>> connect success''],
      Tcp_log LS_INFO [Txt ''local_addr:'', Txt local],
      Tcp_log LS_INFO [Txt ''remote_addr:'', Txt remote]] @ client_send_msg"

section \<open>The server\<close>

definition echo_on_msg :: "string \<Rightarrow> string \<Rightarrow> tcp_effect list" where
  "echo_on_msg data remote_addr =
     [Tcp_log LS_INFO [Txt ''receive msg: '', Txt data, Txt '' from '', Txt remote_addr],
      Tcp_send data]"

definition echo_on_close :: "int \<Rightarrow> tcp_effect list" where
  "echo_on_close code = [Tcp_log LS_INFO [Txt ''==== close:'', Num code], Delete_this]"

section \<open>Both ends and the link\<close>

text \<open>
  \<open>replies\<close> records what the client has received. \<open>fault\<close> is set when a task runs on a deleted
  client: from there on C++ promises nothing.
\<close>

record echo_net =
  connected_once :: bool
  client_alive :: bool
  echo_alive :: bool
  count :: int
  posted :: nat
  to_server :: "string list"
  to_client :: "string list"
  replies :: "string list"
  client_lines :: "log_line list"
  server_lines :: "log_line list"
  fault :: bool

definition echo_init :: echo_net where
  "echo_init =
     \<lparr>connected_once = False, client_alive = True, echo_alive = True, count = 0, posted = 0,
      to_server = [], to_client = [], replies = [], client_lines = [], server_lines = [],
      fault = False\<rparr>"

text \<open>The flag is the result of \<open>Send\<close>.\<close>

fun client_effect :: "bool \<Rightarrow> tcp_effect \<Rightarrow> echo_net \<Rightarrow> echo_net" where
  "client_effect ok (Tcp_log s ps) n = n\<lparr>client_lines := client_lines n @ [(s, ps)]\<rparr>"
| "client_effect ok (Tcp_send m) n =
     (if ok then n\<lparr>to_server := to_server n @ [m]\<rparr> else n)"
| "client_effect ok (Post_delayed_task ms) n = n\<lparr>posted := Suc (posted n)\<rparr>"
| "client_effect ok Delete_this n = n\<lparr>client_alive := False\<rparr>"

fun server_effect :: "bool \<Rightarrow> tcp_effect \<Rightarrow> echo_net \<Rightarrow> echo_net" where
  "server_effect ok (Tcp_log s ps) n = n\<lparr>server_lines := server_lines n @ [(s, ps)]\<rparr>"
| "server_effect ok (Tcp_send m) n =
     (if ok then n\<lparr>to_client := to_client n @ [m]\<rparr> else n)"
| "server_effect ok (Post_delayed_task ms) n = n"
| "server_effect ok Delete_this n = n\<lparr>echo_alive := False\<rparr>"

definition client_effects :: "bool \<Rightarrow> tcp_effect list \<Rightarrow> echo_net \<Rightarrow> echo_net" where
  "client_effects ok es n = fold (client_effect ok) es n"

definition server_effects :: "bool \<Rightarrow> tcp_effect list \<Rightarrow> echo_net \<Rightarrow> echo_net" where
  "server_effects ok es n = fold (server_effect ok) es n"

datatype tcp_event =
    Client_connected string string
  | Client_task_runs bool
  | Client_packet string
  | Client_closed int
  | Server_packet string bool
  | Server_closed int

fun tcp_exec :: "tcp_event \<Rightarrow> echo_net \<Rightarrow> echo_net option" where
  "tcp_exec (Client_connected l r) n =
     (if fault n \<or> \<not> client_alive n \<or> connected_once n then None
      else Some (client_effects True (client_on_connect l r) (n\<lparr>connected_once := True\<rparr>)))"
| "tcp_exec (Client_task_runs ok) n =
     (if fault n \<or> posted n = 0 then None
      else if \<not> client_alive n then Some (n\<lparr>fault := True\<rparr>)
      else
        map_option
          (\<lambda>(c, es). client_effects ok es (n\<lparr>count := c, posted := posted n - 1\<rparr>))
          (client_task (count n)))"
| "tcp_exec (Client_packet addr) n =
     (if fault n \<or> \<not> client_alive n then None
      else
        case to_client n of
          [] \<Rightarrow> None
        | m # ms \<Rightarrow>
            Some (client_effects True (client_on_msg m addr)
              (n\<lparr>to_client := ms, replies := replies n @ [m]\<rparr>)))"
| "tcp_exec (Client_closed code) n =
     (if fault n \<or> \<not> client_alive n then None
      else Some (client_effects True (client_on_close code) n))"
| "tcp_exec (Server_packet addr ok) n =
     (if fault n \<or> \<not> echo_alive n then None
      else
        case to_server n of
          [] \<Rightarrow> None
        | m # ms \<Rightarrow> Some (server_effects ok (echo_on_msg m addr) (n\<lparr>to_server := ms\<rparr>)))"
| "tcp_exec (Server_closed code) n =
     (if fault n \<or> \<not> echo_alive n \<or> \<not> connected_once n then None
      else Some (server_effects True (echo_on_close code) n))"

fun tcp_run :: "tcp_event list \<Rightarrow> echo_net \<Rightarrow> echo_net option" where
  "tcp_run [] n = Some n"
| "tcp_run (e # es) n = Option.bind (tcp_exec e n) (tcp_run es)"

text \<open>An event in which nothing goes wrong on the link.\<close>

fun smooth :: "tcp_event \<Rightarrow> bool" where
  "smooth (Client_task_runs ok) = ok"
| "smooth (Server_packet addr ok) = ok"
| "smooth (Client_closed code) = False"
| "smooth (Server_closed code) = False"
| "smooth _ = True"

lemmas tcp_defs = client_effects_def server_effects_def client_send_msg_def client_task_def
  client_on_msg_def client_on_close_def client_on_connect_def echo_on_msg_def echo_on_close_def

section \<open>Invariants\<close>

abbreviation in_flight :: "echo_net \<Rightarrow> string list" where
  "in_flight n \<equiv> replies n @ to_client n @ to_server n"

definition hellos :: "int \<Rightarrow> string list" where
  "hellos c = map hello [1..c]"

definition echo_inv :: "echo_net \<Rightarrow> bool" where
  "echo_inv n \<longleftrightarrow>
     0 \<le> count n \<and> subseq (in_flight n) (hellos (count n)) \<and>
     posted n + length (to_client n) + length (to_server n) \<le> (if connected_once n then 1 else 0)"

definition smooth_inv :: "echo_net \<Rightarrow> bool" where
  "smooth_inv n \<longleftrightarrow>
     client_alive n \<and> echo_alive n \<and> \<not> fault n \<and> in_flight n = hellos (count n) \<and>
     posted n + length (to_client n) + length (to_server n) = (if connected_once n then 1 else 0)"

lemma hellos_Suc: "0 \<le> c \<Longrightarrow> hellos (c + 1) = hellos c @ [hello (c + 1)]"
  by (simp add: hellos_def upto_rec2)

lemma subseq_snoc: "subseq xs ys \<Longrightarrow> subseq (xs @ [x]) (ys @ [x])"
  by (intro list_emb_append_mono) auto

lemma subseq_more: "subseq xs ys \<Longrightarrow> subseq xs (ys @ [x])"
  by (rule subseq_order.trans) auto

lemma subseq_drop_end: "subseq (xs @ [x]) ys \<Longrightarrow> subseq xs ys"
  by (rule subseq_order.trans [rotated]) auto

lemma one_token:
  "p + length xs + length ys \<le> Suc 0 \<Longrightarrow> 0 < p \<Longrightarrow> xs = [] \<and> ys = []"
  by (cases xs; cases ys) auto

lemma echo_inv_step:
  assumes "tcp_exec e n = Some n'" and "echo_inv n"
  shows "echo_inv n'"
proof (cases e)
  case (Client_task_runs ok)
  show ?thesis
  proof (cases "client_alive n")
    case True
    with Client_task_runs assms show ?thesis
      by (auto simp: tcp_defs echo_inv_def hellos_Suc subseq_more subseq_snoc [of "in_flight n", simplified]
          split: if_splits dest: one_token)
  next
    case False
    with Client_task_runs assms show ?thesis by (auto simp: echo_inv_def split: if_splits)
  qed
next
  case (Client_packet addr)
  with assms show ?thesis
    by (auto simp: tcp_defs echo_inv_def split: if_splits list.splits)
next
  case (Server_packet addr ok)
  with assms show ?thesis
    by (auto simp: tcp_defs echo_inv_def split: if_splits list.splits dest: subseq_drop_end)
qed (use assms in \<open>auto simp: tcp_defs echo_inv_def split: if_splits\<close>)

lemma echo_inv_run: "tcp_run es n = Some n' \<Longrightarrow> echo_inv n \<Longrightarrow> echo_inv n'"
  by (induction es arbitrary: n) (auto dest: echo_inv_step split: Option.bind_splits)

lemma smooth_step:
  assumes "tcp_exec e n = Some n'" and "smooth e" and "smooth_inv n" and "0 \<le> count n"
  shows "smooth_inv n' \<and> 0 \<le> count n'"
  using assms
  by (cases e) (auto simp: tcp_defs smooth_inv_def hellos_Suc split: if_splits list.splits
      dest: one_token [OF eq_imp_le])

lemma smooth_run:
  "tcp_run es n = Some n' \<Longrightarrow> list_all smooth es \<Longrightarrow> smooth_inv n \<Longrightarrow> 0 \<le> count n \<Longrightarrow>
    smooth_inv n' \<and> 0 \<le> count n'"
  by (induction es arbitrary: n) (auto dest!: smooth_step split: Option.bind_splits)

lemma echo_init_inv: "echo_inv echo_init" "smooth_inv echo_init" "count echo_init = 0"
  by (simp_all add: echo_inv_def smooth_inv_def echo_init_def hellos_def)

lemma smooth_from_init:
  "tcp_run es echo_init = Some n \<Longrightarrow> list_all smooth es \<Longrightarrow> smooth_inv n \<and> 0 \<le> count n"
  using smooth_run [of es echo_init n] echo_init_inv by simp

lemma tcp_run_append: "tcp_run (xs @ ys) n = Option.bind (tcp_run xs n) (tcp_run ys)"
  by (induction xs arbitrary: n) (auto split: Option.bind_splits)

text \<open>A round in flight can be completed, and then any number of rounds more be run.\<close>

definition ready :: "echo_net \<Rightarrow> bool" where
  "ready n \<longleftrightarrow> smooth_inv n \<and> 0 \<le> count n \<and> connected_once n \<and> posted n = 1"

lemma ready_empty: "ready n \<Longrightarrow> to_server n = [] \<and> to_client n = [] \<and> replies n = hellos (count n)"
  by (auto simp: ready_def smooth_inv_def)

lemma round_completes:
  assumes "smooth_inv n" and "0 \<le> count n" and "connected_once n"
  shows "\<exists>es n'. list_all smooth es \<and> tcp_run es n = Some n' \<and> ready n' \<and> count n' = count n"
proof -
  from assms consider (task) "posted n = 1"
    | (server) m where "posted n = 0" "to_server n = [m]" "to_client n = []"
    | (client) m where "posted n = 0" "to_client n = [m]" "to_server n = []"
    by (cases "posted n"; cases "to_server n"; cases "to_client n") (auto simp: smooth_inv_def)
  then show ?thesis
  proof cases
    case task
    with assms show ?thesis by (intro exI [of _ "[]"] exI [of _ n]) (simp add: ready_def)
  next
    case (server m)
    with assms show ?thesis
      by (intro exI [of _ "[Server_packet [] True, Client_packet []]"])
        (simp add: smooth_inv_def ready_def tcp_defs)
  next
    case (client m)
    with assms show ?thesis
      by (intro exI [of _ "[Client_packet []]"]) (simp add: smooth_inv_def ready_def tcp_defs)
  qed
qed

lemma one_round:
  assumes "ready n" and "count n < 2 ^ 63 - 1"
  shows "\<exists>es n'. list_all smooth es \<and> tcp_run es n = Some n' \<and> ready n' \<and> count n' = count n + 1"
  using assms ready_empty [OF assms(1)]
  by (intro exI [of _ "[Client_task_runs True, Server_packet [] True, Client_packet []]"])
    (simp add: smooth_inv_def ready_def tcp_defs hellos_Suc)

lemma many_rounds:
  "ready n \<Longrightarrow> count n + int k \<le> 2 ^ 63 - 1 \<Longrightarrow>
    \<exists>es n'. list_all smooth es \<and> tcp_run es n = Some n' \<and> ready n' \<and> count n' = count n + int k"
proof (induction k)
  case 0
  then show ?case by (intro exI [of _ "[]"] exI [of _ n]) simp
next
  case (Suc k)
  then obtain es n1 where n1: "list_all smooth es" "tcp_run es n = Some n1" "ready n1"
    "count n1 = count n + int k" by auto
  with Suc.prems(2) have "count n1 < 2 ^ 63 - 1" by simp
  from one_round [OF n1(3) this] obtain fs n2 where n2: "list_all smooth fs"
    "tcp_run fs n1 = Some n2" "ready n2" "count n2 = count n1 + 1" by blast
  with n1 show ?case by (intro exI [of _ "es @ fs"] exI [of _ n2]) (simp add: tcp_run_append)
qed

section \<open>The objects behind the handlers\<close>

text \<open>
  The object of a handler and the signals of its socket, members of \<open>AsyncPacketSocket\<close> in the
  order of their declaration, in the signal model's store. Deleting the object destroys its
  member \<open>socket_\<close> first, with the signals in reverse order, and then its base class.
\<close>

datatype tcp_slot = Slot_connect | Slot_close | Slot_packet

definition signal_read_packet :: nat where "signal_read_packet = 0"
definition signal_sent_packet :: nat where "signal_sent_packet = 1"
definition signal_ready_to_send :: nat where "signal_ready_to_send = 2"
definition signal_address_ready :: nat where "signal_address_ready = 3"
definition signal_connect :: nat where "signal_connect = 4"
definition signal_close :: nat where "signal_close = 5"

definition socket_signals :: "nat list" where
  "socket_signals =
     [signal_read_packet, signal_sent_packet, signal_ready_to_send, signal_address_ready,
      signal_connect, signal_close]"

definition new_socket :: "tcp_slot action list" where
  "new_socket = map (\<lambda>s. Do (NewSignal s)) socket_signals"

definition new_client :: "nat \<Rightarrow> tcp_slot action list" where
  "new_client c =
     map Do [NewSlot c, Connect signal_connect c Slot_connect, Connect signal_close c Slot_close,
       Connect signal_read_packet c Slot_packet]"

definition new_echo :: "nat \<Rightarrow> tcp_slot action list" where
  "new_echo c =
     map Do [NewSlot c, Connect signal_read_packet c Slot_packet, Connect signal_close c Slot_close]"

definition delete_object :: "nat \<Rightarrow> tcp_slot action list" where
  "delete_object c = map (\<lambda>s. Do (DestroySignal s)) (rev socket_signals) @ [Do (DestroySlot c)]"

text \<open>What the effects of a handler of object \<open>c\<close> do to the signals; only deletion does anything.\<close>

fun object_effect :: "nat \<Rightarrow> tcp_effect \<Rightarrow> tcp_slot action list" where
  "object_effect c Delete_this = delete_object c"
| "object_effect c (Tcp_log s ps) = []"
| "object_effect c (Tcp_send m) = []"
| "object_effect c (Post_delayed_task ms) = []"

definition object_effects :: "nat \<Rightarrow> tcp_effect list \<Rightarrow> tcp_slot action list" where
  "object_effects c es = concat (map (object_effect c) es)"

lemmas object_defs = signal_read_packet_def signal_sent_packet_def signal_ready_to_send_def
  signal_address_ready_def signal_connect_def signal_close_def socket_signals_def new_client_def
  new_echo_def new_socket_def delete_object_def

lemma on_close_deletes:
  "es = client_on_close code \<or> es = echo_on_close code \<Longrightarrow> object_effects c es = delete_object c"
  by (auto simp: object_effects_def client_on_close_def echo_on_close_def)

lemma destroy_signals_run:
  "store_ok (heap m) \<Longrightarrow> distinct ss \<Longrightarrow> \<forall>s \<in> set ss. signals (heap m) s \<noteq> None \<Longrightarrow>
    \<exists>m'. prog_run (map (\<lambda>s. Do (DestroySignal s)) ss) m = Some ([], m') \<and> store_ok (heap m') \<and>
      running m' = running m \<and> dom (senders (heap m')) = dom (senders (heap m))"
proof (induction ss arbitrary: m)
  case (Cons s ss)
  then obtain g where g: "signals (heap m) s = Some g" by auto
  from sig_disconnect_all_ok [OF Cons.prems(1) g] destroy_signal_ok [OF Cons.prems(1) g]
  obtain h1 where h1: "destroy_signal s (heap m) = Some h1" "store_ok h1"
    "dom (senders h1) = dom (senders (heap m))"
    by (auto simp: destroy_signal_def)
  from sig_exec_dom(1) [of "DestroySignal s" "heap m" h1] h1(1) Cons.prems(2,3)
  have "\<forall>t \<in> set ss. signals (heap (m\<lparr>heap := h1\<rparr>)) t \<noteq> None" by fastforce
  with Cons.IH [of "m\<lparr>heap := h1\<rparr>"] Cons.prems(2) h1 show ?case by auto
qed simp

section \<open>Properties\<close>

text \<open>
  C28: The client's messages are numbered and never multiply: in every run, whatever fails, what
  it got back so far, then what is on its way back, then what is on its way to the server is a
  subsequence of \<open>hello 1, hello 2, ...\<close> up to the counter, and at most one message or delayed
  task exists. If nothing has failed, it is the whole sequence, and the one message or task
  always exists once the connection is made: the conversation never dies by itself.
\<close>

theorem echo_order:
  assumes "tcp_run es echo_init = Some n"
  shows "subseq (replies n @ to_client n @ to_server n) (map hello [1..count n]) \<and>
    posted n + length (to_client n) + length (to_server n) \<le> 1 \<and>
    (list_all smooth es \<and> connected_once n \<longrightarrow>
      replies n @ to_client n @ to_server n = map hello [1..count n] \<and>
      posted n + length (to_client n) + length (to_server n) = 1)"
proof -
  from echo_inv_run [OF assms echo_init_inv(1)] have "echo_inv n" .
  with smooth_from_init [OF assms] show ?thesis
    by (auto simp: echo_inv_def smooth_inv_def hellos_def split: if_splits)
qed

lemma echo_order_witness:
  "\<exists>n. tcp_run [Client_connected ''a'' ''b'', Client_task_runs True, Server_packet ''a'' True]
      echo_init = Some n \<and> to_client n = [''hello 1''] \<and>
    subseq (replies n @ to_client n @ to_server n) (map hello [1..count n])"
proof -
  obtain n where n: "tcp_run [Client_connected ''a'' ''b'', Client_task_runs True,
      Server_packet ''a'' True] echo_init = Some n" "to_client n = [hello 1]"
    by (simp add: echo_init_def tcp_defs)
  with echo_order [OF n(1)] show ?thesis
    by (auto simp: hello_def std_to_string_def nat_digits.simps digit_char_numerals
        simp del: tcp_run.simps)
qed

text \<open>
  C29: The conversation goes on: from every state that a run without failures has reached after
  connecting, a continuation without failures brings the client the replies to any further number
  of messages, up to the range of its 64-bit counter.
\<close>

theorem echo_goes_on:
  assumes "tcp_run es echo_init = Some n" and "list_all smooth es" and "connected_once n"
    and "count n + int k \<le> 2 ^ 63 - 1"
  shows "\<exists>fs n'. list_all smooth fs \<and> tcp_run fs n = Some n' \<and>
    replies n' = map hello [1..count n + int k]"
proof -
  from smooth_from_init [OF assms(1,2)] have "smooth_inv n" "0 \<le> count n" by auto
  from round_completes [OF this assms(3)] obtain es1 n1 where n1: "list_all smooth es1"
    "tcp_run es1 n = Some n1" "ready n1" "count n1 = count n" by blast
  with assms(4) have "count n1 + int k \<le> 2 ^ 63 - 1" by simp
  from many_rounds [OF n1(3) this] obtain es2 n2 where n2: "list_all smooth es2"
    "tcp_run es2 n1 = Some n2" "ready n2" "count n2 = count n1 + int k" by blast
  have "replies n2 = map hello [1..count n + int k]"
    using ready_empty [OF n2(3)] n1(4) n2(4) by (simp add: hellos_def)
  with n1 n2 show ?thesis
    by (intro exI [of _ "es1 @ es2"] exI [of _ n2]) (simp add: tcp_run_append)
qed

lemma echo_goes_on_witness:
  "\<exists>n fs n'. tcp_run [Client_connected ''a'' ''b''] echo_init = Some n \<and>
    tcp_run fs n = Some n' \<and> replies n' = map hello [1..1000]"
proof -
  obtain n where n: "tcp_run [Client_connected ''a'' ''b''] echo_init = Some n"
    "connected_once n" "count n = 0" by (simp add: echo_init_def tcp_defs)
  have "count n + int 1000 \<le> 2 ^ 63 - 1" using n(3) by simp
  from echo_goes_on [OF n(1) _ n(2) this] obtain fs n' where "tcp_run fs n = Some n'"
    "replies n' = map hello [1..count n + int 1000]" by auto
  with n show ?thesis by auto
qed

text \<open>
  \<open>delete this\<close> in \<open>OnClose\<close>, of the client and of the server's \<open>Echo\<close>: whenever the object's
  handler runs in an emission of its socket's \<open>SignalClose\<close>, in whatever program, the deletion
  itself goes well, but it destroys the signal that is being emitted: the emission is never left
  again, and when \<open>OnClose\<close> returns into it, its loop reads the destroyed signal.
\<close>

theorem close_reads_destroyed_signal:
  assumes "prog_valid xs sig_start" and "prog_run xs sig_start = Some (cs, m)"
    and "running m = signal_close # ss"
    and "\<forall>s \<in> set socket_signals. signals (heap m) s \<noteq> None" and "senders (heap m) c \<noteq> None"
    and "es = client_on_close code \<or> es = echo_on_close code"
  shows "\<exists>m1. prog_run (object_effects c es) m = Some ([], m1) \<and>
    running m1 = signal_close # ss \<and> act Slot_returns m1 = None"
proof -
  note ok = reachable_ok(1) [OF assms(1,2)]
  have dist: "distinct (rev socket_signals)" by (simp add: object_defs)
  have live: "\<forall>s \<in> set (rev socket_signals). signals (heap m) s \<noteq> None" using assms(4) by simp
  from destroy_signals_run [OF ok dist live] obtain m2 where
    m2: "prog_run (map (\<lambda>s. Do (DestroySignal s)) (rev socket_signals)) m = Some ([], m2)"
    "store_ok (heap m2)" "running m2 = running m" "dom (senders (heap m2)) = dom (senders (heap m))"
    by blast
  have "senders (heap m2) c \<noteq> None" using dom_eqD [OF m2(4), of c] assms(5) by simp
  then obtain ds where "senders (heap m2) c = Some ds" by auto
  from destroy_slot_ok [OF m2(2) this] obtain h3 where
    h3: "destroy_slot c (heap m2) = Some h3" by blast
  let ?m = "m2\<lparr>heap := h3\<rparr>"
  have run: "prog_run (delete_object c) m = Some ([], ?m)"
    using m2(1) h3 by (simp add: delete_object_def prog_run_append)
  obtain m1 where m1: "act (Do (DestroySignal signal_close)) m = Some (None, m1)"
    "signals (heap m1) signal_close = None" "running m1 = running m"
  proof -
    from live obtain g where "signals (heap m) signal_close = Some g" by (auto simp: socket_signals_def)
    from destroy_signal_ok [OF ok this] that show ?thesis by auto
  qed
  have split: "delete_object c = Do (DestroySignal signal_close) # tl (delete_object c)"
    by (simp add: delete_object_def socket_signals_def)
  have "prog_run (Do (DestroySignal signal_close) # tl (delete_object c)) m = Some ([], ?m)"
    using run split by metis
  with m1(1) have "prog_run (tl (delete_object c)) m1 = Some ([], ?m)"
    by (auto split: Option.bind_splits)
  moreover have "\<forall>x. Do x \<in> set (tl (delete_object c)) \<longrightarrow> \<not> brings x signal_close"
    by (auto simp: delete_object_def socket_signals_def brings_def)
  ultimately have "signals (heap ?m) signal_close = None"
    using stuck_run [of _ m1 "[]" ?m signal_close ss] m1(2,3) assms(3) by auto
  with run m2(3) assms(3) on_close_deletes [OF assms(6)] show ?thesis
    by (intro exI [of _ ?m]) (simp add: emit_next_def)
qed

lemma close_reads_destroyed_signal_witness:
  "\<exists>cs m m1. prog_run (new_socket @ new_client 0 @ [Emit signal_close]) sig_start = Some (cs, m) \<and>
    map slot cs = [Slot_close] \<and>
    prog_run (object_effects 0 (client_on_close 104)) m = Some ([], m1) \<and> act Slot_returns m1 = None"
proof -
  let ?xs = "new_socket @ new_client 0 @ [Emit signal_close]"
  have "case prog_run ?xs sig_start of None \<Rightarrow> False | Some (cs, m) \<Rightarrow>
      map slot cs = [Slot_close] \<and> running m = [signal_close] \<and>
      list_all (\<lambda>s. \<not> Option.is_none (signals (heap m) s)) socket_signals \<and>
      \<not> Option.is_none (senders (heap m) 0)" by code_simp
  then obtain cs m where m: "prog_run ?xs sig_start = Some (cs, m)" "map slot cs = [Slot_close]"
    "running m = signal_close # []" "\<forall>s \<in> set socket_signals. signals (heap m) s \<noteq> None"
    "senders (heap m) 0 \<noteq> None"
    by (auto simp: list_all_iff Option.is_none_def split: option.splits)
  have "prog_valid ?xs sig_start" by code_simp
  from close_reads_destroyed_signal [OF this m(1,3,4,5), of "client_on_close 104" 104] m(1,2)
  show ?thesis by auto
qed

text \<open>
  The delayed task captures the client by its address and is not cancelled by its deletion:
  if the connection closes while a task is pending, which is so at some moment of every round,
  the task runs on a deleted client.
\<close>

theorem task_outlives_client:
  assumes "tcp_run es echo_init = Some n" and "list_all smooth es" and "0 < posted n"
  shows "\<exists>n'. tcp_run [Client_closed code, Client_task_runs ok] n = Some n' \<and> fault n'"
proof -
  from smooth_from_init [OF assms(1,2)] assms(3)
  have "client_alive n" "\<not> fault n" "connected_once n" by (auto simp: smooth_inv_def split: if_splits)
  with assms(3) show ?thesis by (simp add: tcp_defs)
qed

lemma task_outlives_client_witness:
  "\<exists>n n'. tcp_run [Client_connected ''a'' ''b''] echo_init = Some n \<and>
    tcp_run [Client_closed 104, Client_task_runs True] n = Some n' \<and> fault n'"
proof -
  obtain n where n: "tcp_run [Client_connected ''a'' ''b''] echo_init = Some n" "0 < posted n"
    by (simp add: echo_init_def tcp_defs)
  from task_outlives_client [OF n(1) _ n(2)] n(1) show ?thesis by auto
qed

end
