(* ===== verification/Demos.thy ===== *)
theory Demos
  imports Logging
begin

text \<open>
  The small programs \<open>01\<close> to \<open>10\<close>, each a straight-line \<open>main\<close> over library objects. What a
  library call answers is an argument (a record per program); what the program does is the list
  of its effects in program order: log lines, calls that start, stop or wait, and the bodies it
  posts to other threads. The outcome is the exit code, or that \<open>main\<close> waits for an event that
  nobody sets. The TCP pair's handlers are in \<open>Tcp_Echo\<close>; its two mains are here.
\<close>

datatype demo_effect =
    Init_log severity
  | Line severity "log_part list"
  | Start_thread
  | Stop_thread
  | Sleep_ms nat
  | Wait_event "nat option"
  | Post_body "demo_effect list"
  | Post_delayed_body "demo_effect list" nat
  | Invoke_body "demo_effect list"
  | Connect_slot string
  | Library_call string "log_part list"

datatype outcome = Returns int | Waits_forever

text \<open>All lines a list of effects can print, posted bodies included.\<close>

fun effect_lines :: "demo_effect \<Rightarrow> log_line list" where
  "effect_lines (Line s ps) = [(s, ps)]"
| "effect_lines (Post_body es) = concat (map effect_lines es)"
| "effect_lines (Post_delayed_body es ms) = concat (map effect_lines es)"
| "effect_lines (Invoke_body es) = concat (map effect_lines es)"
| "effect_lines _ = []"

definition demo_lines :: "demo_effect list \<Rightarrow> log_line list" where
  "demo_lines es = concat (map effect_lines es)"

abbreviation text_line :: "severity \<Rightarrow> string \<Rightarrow> demo_effect" where
  "text_line s t \<equiv> Line s [Txt t]"

section \<open>Logging, threads and queues\<close>

definition hello_main :: "demo_effect list \<times> outcome" where
  "hello_main = ([Init_log LS_INFO, text_line LS_INFO ''hello rtc''], Returns 0)"

text \<open>
  The body of the platform thread. The plain \<open>bool\<close> is written by the main thread without
  synchronization; \<open>seen\<close> are the values the loop condition reads.
\<close>

fun exit_loop :: "bool list \<Rightarrow> demo_effect list option" where
  "exit_loop [] = None"
| "exit_loop (True # seen) = Some []"
| "exit_loop (False # seen) =
     map_option (\<lambda>es. text_line LS_INFO ''I am from rtc platform thread'' # Sleep_ms 500 # es)
       (exit_loop seen)"

definition platform_thread_body :: "bool list \<Rightarrow> demo_effect list option" where
  "platform_thread_body seen =
     map_option (\<lambda>es. text_line LS_INFO ''rtc platform thread started'' # es
       @ [text_line LS_INFO ''rtc platform thread exited'']) (exit_loop seen)"

definition platform_thread_main :: "bool list \<Rightarrow> (demo_effect list \<times> outcome) option" where
  "platform_thread_main seen =
     map_option (\<lambda>es. ([Init_log LS_INFO, Start_thread, Post_body es, Sleep_ms 2600,
       Library_call ''Finalize'' []], Returns 0)) (platform_thread_body seen)"

definition rtc_thread_main :: "bool \<Rightarrow> demo_effect list \<times> outcome" where
  "rtc_thread_main is_main =
     ([Init_log LS_INFO,
       Line LS_INFO [Txt ''is main thread:'', Txt (if is_main then ''true'' else ''false'')],
       Start_thread,
       Post_body [text_line LS_INFO ''I am from rtc thread by PostTask1''],
       Post_body [text_line LS_INFO ''I am from rtc thread by PostTask2''],
       Post_delayed_body [text_line LS_INFO ''I am from rtc thread, delay 1000ms''] 1000,
       text_line LS_INFO ''>>>>> before Invoke'',
       Invoke_body [Sleep_ms 500, text_line LS_INFO ''I am from rtc thread by Invoke''],
       text_line LS_INFO ''>>>>> after Invoke'',
       Sleep_ms 1000, Stop_thread], Returns 0)"

definition task_queue_main :: "demo_effect list \<times> outcome" where
  "task_queue_main =
     ([Init_log LS_INFO, Library_call ''CreateTaskQueue'' [Txt ''std_task_queue''],
       Post_body [text_line LS_INFO ''I am from rtc task queue''],
       Post_delayed_body [text_line LS_INFO ''I am from rtc task queue, delayed 500ms''] 500,
       Wait_event (Some 600)], Returns 0)"

section \<open>The mains of the TCP pair\<close>

text \<open>\<open>uint16_t port = std::atoi(argv[1])\<close>; \<open>atoi\<close> is the C library's.\<close>

definition port_argument :: "(string \<Rightarrow> int) \<Rightarrow> string list \<Rightarrow> u16" where
  "port_argument atoi argv = (if length argv > 1 then of_int (atoi (argv ! 1)) else 8888)"

definition tcp_client_main ::
  "(string \<Rightarrow> int) \<Rightarrow> (u16 \<Rightarrow> bool) \<Rightarrow> string list \<Rightarrow> demo_effect list \<times> outcome" where
  "tcp_client_main atoi create argv =
     (let start = [Init_log LS_INFO] in
      if \<not> create (port_argument atoi argv)
      then (start @ [text_line LS_ERROR ''>>>>> bind or connect failed''], Returns (- 1))
      else (start @ [Connect_slot ''OnConnect'', Connect_slot ''OnClose'', Connect_slot ''OnMsg'',
        Start_thread, text_line LS_INFO ''hello rtc'', Wait_event None], Waits_forever))"

definition tcp_server_main ::
  "(string \<Rightarrow> int) \<Rightarrow> (u16 \<Rightarrow> int) \<Rightarrow> (u16 \<Rightarrow> string) \<Rightarrow> string list \<Rightarrow> demo_effect list \<times> outcome"
where
  "tcp_server_main atoi bind_socket address argv =
     (let port = port_argument atoi argv; start = [Init_log LS_VERBOSE] in
      if bind_socket port \<noteq> 0
      then (start @ [Line LS_ERROR [Txt ''bind '', Txt (address port), Txt '' failed'']],
        Returns (- 1))
      else (start @ [Start_thread, Library_call ''AsyncTcpListenSocket'' [],
        Connect_slot ''OnNewConnection'', text_line LS_INFO ''>>>>> wait client ...'',
        Wait_event None], Waits_forever))"

definition on_new_connection :: "string \<Rightarrow> demo_effect list" where
  "on_new_connection remote =
     [Line LS_INFO [Txt ''>>>>> new clinet '', Txt remote], Connect_slot ''OnMsg'',
      Connect_slot ''OnClose'']"

section \<open>Capture\<close>

record capability =
  width :: int
  height :: int
  max_fps :: int
  video_type :: int

record video_env =
  number_of_devices :: nat
  get_device_name :: "(string \<times> string) option"
  best_capability :: "string \<Rightarrow> capability \<Rightarrow> int \<times> capability"

definition on_frame :: "int \<Rightarrow> int \<Rightarrow> demo_effect" where
  "on_frame w h = Line LS_INFO [Txt ''capture frame:'', Num w, Txt ''x'', Num h]"

definition on_discarded_frame :: demo_effect where
  "on_discarded_frame = text_line LS_WARNING ''>>>>> discard frame''"

definition stars :: string where
  "stars = ''/***************************************************/''"

definition request_capability :: capability where
  "request_capability = \<lparr>width = 1920, height = 1080, max_fps = 25, video_type = 0\<rparr>"

text \<open>\<open>GetDeviceName\<close> has failed when there is no pair of names.\<close>

definition video_capture_main :: "video_env \<Rightarrow> demo_effect list \<times> outcome" where
  "video_capture_main env =
     (let start = [Init_log LS_INFO] in
      if number_of_devices env < 1
      then (start @ [text_line LS_ERROR ''cannot find video capture!!!''], Returns (- 1))
      else
        let found = start @ [Line LS_INFO [Txt ''find video capture device count:'',
          Num (int (number_of_devices env))]] in
        case get_device_name env of
          None \<Rightarrow>
            (found @ [text_line LS_ERROR ''get video capture device name failed''], Returns (- 1))
        | Some (name, unique) \<Rightarrow>
            let named = found @ [text_line LS_INFO stars,
                Line LS_INFO [Txt ''video capture device name:'', Txt name],
                Line LS_INFO [Txt ''video capture unique name:'', Txt unique]];
              (matched, cap) = best_capability env unique request_capability in
            if matched < 1
            then (named @ [text_line LS_ERROR ''get video capture device capability failed''],
              Returns (- 1))
            else
              (named @ [text_line LS_INFO stars,
                Line LS_INFO [Txt ''width:'', Num (width cap)],
                Line LS_INFO [Txt ''height:'', Num (height cap)],
                Line LS_INFO [Txt ''maxFPS:'', Num (max_fps cap)],
                Line LS_INFO [Txt ''videoType:'', Num (video_type cap)],
                Library_call ''Create'' [Txt unique],
                Library_call ''RegisterCaptureDataCallback'' [],
                text_line LS_INFO ''>>>>> start capture'',
                Library_call ''StartCapture'' [Num (width cap), Num (height cap), Num (max_fps cap)],
                Sleep_ms 5000, Library_call ''StopCapture'' [],
                text_line LS_INFO ''>>>>> stop capture''], Returns 0))"

definition on_data :: "string \<Rightarrow> nat \<Rightarrow> nat \<Rightarrow> nat \<Rightarrow> nat \<Rightarrow> demo_effect" where
  "on_data name num_samples bytes_per_sample num_channels samples_per_sec =
     Line LS_INFO [Txt name, Txt ''bytes_per_sample:'', Num (int bytes_per_sample),
       Txt '',num_channels:'', Num (int num_channels),
       Txt '',samples_per_sec:'', Num (int samples_per_sec),
       Txt '', num_samples:'', Num (int num_samples)]"

definition on_capture_data :: "nat \<Rightarrow> nat \<Rightarrow> nat \<Rightarrow> nat \<Rightarrow> demo_effect" where
  "on_capture_data = on_data ''OnCaptureData ''"

definition on_render_data :: "nat \<Rightarrow> nat \<Rightarrow> nat \<Rightarrow> nat \<Rightarrow> demo_effect" where
  "on_render_data = on_data ''OnRenderData ''"

text \<open>
  \<open>RecordingDevices\<close> is asked for the log line (answer 0) and again by the condition of every
  round of the loop (answer \<open>Suc i\<close> in round \<open>i\<close>); \<open>fuel\<close> bounds the rounds.
\<close>

record audio_env =
  adm_init :: int
  recording_devices :: "nat \<Rightarrow> int"
  recording_device_name :: "nat \<Rightarrow> string option"
  init_recording :: int

fun device_names :: "nat \<Rightarrow> nat \<Rightarrow> audio_env \<Rightarrow> demo_effect list option" where
  "device_names 0 i env = None"
| "device_names (Suc fuel) i env =
     (if int i < recording_devices env (Suc i) then
        map_option
          (\<lambda>es. (case recording_device_name env i of
              Some name \<Rightarrow> [Line LS_INFO [Txt ''>>>>> audio capture device name:'', Txt name]]
            | None \<Rightarrow> []) @ es)
          (device_names fuel (Suc i) env)
      else Some [])"

definition audio_capture_main :: "nat \<Rightarrow> audio_env \<Rightarrow> (demo_effect list \<times> outcome) option" where
  "audio_capture_main fuel env =
     (let start = [Init_log LS_INFO, Library_call ''CreateAudioDeviceWithDataObserver'' []] in
      if adm_init env \<noteq> 0
      then Some (start @ [text_line LS_ERROR ''aduio device module init failed''], Returns (- 1))
      else
        map_option
          (\<lambda>names.
            let listed = start
              @ [Line LS_INFO [Txt ''>>>>>>>>>>>>>>>>>>>>> audio capture device count:'',
                  Num (recording_devices env 0)]]
              @ names @ [Library_call ''SetRecordingDevice'' [Num 0]] in
            if init_recording env \<noteq> 0
            then (listed @ [text_line LS_INFO ''>>>>>>>>>> audio capture device init failed''],
              Returns (- 1))
            else
              (listed @ [text_line LS_INFO ''>>>>> start recording'',
                Library_call ''StartRecording'' [], Sleep_ms 5000,
                Library_call ''StopRecording'' [], text_line LS_INFO ''>>>>> stop recording''],
               Returns 0))
          (device_names fuel 0 env))"

section \<open>Networks and STUN\<close>

text \<open>
  Both programs wait until \<open>OnNetworksChanged\<close> sets the event; what follows the wait is what
  they do once that has happened.
\<close>

definition on_network_error :: "demo_effect list" where
  "on_network_error = [text_line LS_ERROR ''>>>>> network_manager error'']"

definition on_networks_changed :: "demo_effect list" where
  "on_networks_changed =
     [text_line LS_INFO ''>>>>> network updated'', Library_call ''Set'' []]"

record network =
  net_text :: string
  best_ip :: string
  net_cost :: int

record network_env =
  enumeration_allowed :: bool
  networks :: "network list"
  any_address_networks :: "network list"
  default_local_address :: "string option"

definition network_lines :: "network \<Rightarrow> demo_effect list" where
  "network_lines n =
     [Line LS_INFO [Txt ''network:'', Txt (net_text n)],
      Line LS_INFO [Txt ''>>>>> ip:'', Txt (best_ip n)],
      Line LS_INFO [Txt ''>>>>> cost:'', Num (net_cost n)]]"

definition network_list :: "network_env \<Rightarrow> network list" where
  "network_list env = (if networks env = [] then any_address_networks env else networks env)"

definition network_main :: "network_env \<Rightarrow> demo_effect list \<times> outcome" where
  "network_main env =
     ([Init_log LS_INFO, Start_thread, Library_call ''Initialize'' [],
       Line LS_INFO [Txt ''enumeration permission:'',
         Txt (if enumeration_allowed env then ''allowed'' else ''disabled'')],
       Connect_slot ''OnError'', Connect_slot ''OnNetworksChanged'',
       Invoke_body [text_line LS_INFO ''start updating...'', Library_call ''StartUpdating'' []],
       text_line LS_INFO ''wait network update ...'', Wait_event None]
      @ (if network_list env = [] then [text_line LS_ERROR ''get network list failed''] else [])
      @ concat (map network_lines (network_list env))
      @ (case default_local_address env of
           Some ip \<Rightarrow> [Line LS_INFO [Txt ''default_ip_address:'', Txt ip]]
         | None \<Rightarrow> [])
      @ [Invoke_body [text_line LS_INFO ''stop updating...'', Library_call ''StopUpdating'' []],
         Stop_thread], Returns 0)"

datatype nat_type =
    NATTYPE_INVALID | NATTYPE_NONE | NATTYPE_UNKNOWN | NATTYPE_SYMMETRIC | NATTYPE_NON_SYMMETRIC

fun PrintNatType :: "nat_type \<Rightarrow> string" where
  "PrintNatType NATTYPE_NONE = ''Not behind a NAT''"
| "PrintNatType NATTYPE_UNKNOWN = ''Unknown NAT type''"
| "PrintNatType NATTYPE_SYMMETRIC = ''Symmetric NAT''"
| "PrintNatType NATTYPE_NON_SYMMETRIC = ''Non-Symmetric NAT''"
| "PrintNatType NATTYPE_INVALID = ''Invalid''"

record stun_stats =
  shared_socket_mode :: bool
  num_request_sent :: nat
  num_response_received :: nat
  target_request_interval_ns :: int
  actual_request_interval_ns :: int
  stats_nat_type :: nat_type
  host_ip :: string
  srflx_addrs :: "string list"
  success_percent :: int
  average_rtt_ms :: int

definition PrintStats :: "stun_stats option \<Rightarrow> demo_effect list" where
  "PrintStats r =
     (case r of
        None \<Rightarrow> [text_line LS_WARNING ''Results are inconclusive.'']
      | Some s \<Rightarrow>
          [Line LS_INFO [Txt ''Shared Socket Mode: '', Num (if shared_socket_mode s then 1 else 0)],
           Line LS_INFO [Txt ''Requests sent: '', Num (int (num_request_sent s))],
           Line LS_INFO [Txt ''Responses received: '', Num (int (num_response_received s))],
           Line LS_INFO [Txt ''Target interval (ns): '', Num (target_request_interval_ns s)],
           Line LS_INFO [Txt ''Actual interval (ns): '', Num (actual_request_interval_ns s)],
           Line LS_INFO [Txt ''NAT Type: '', Txt (PrintNatType (stats_nat_type s))],
           Line LS_INFO [Txt ''Host IP: '', Txt (host_ip s)],
           text_line LS_INFO ''Server-reflexive ips: '']
          @ map (\<lambda>ip. Line LS_INFO [Txt [CHR 0x09], Txt ip]) (srflx_addrs s)
          @ [Line LS_INFO [Txt ''Success Precent: '', Num (success_percent s)],
             Line LS_INFO [Txt ''Response Latency:'', Num (average_rtt_ms s)]])"

text \<open>\<open>StunProber::SUCCESS\<close> is 0; a null prober is \<open>None\<close>, else it is its answer to \<open>GetStats\<close>.\<close>

definition StopTrial :: "stun_stats option option \<Rightarrow> int \<Rightarrow> demo_effect list" where
  "StopTrial prober result =
     (case prober of
        None \<Rightarrow> []
      | Some stats \<Rightarrow>
          Line LS_INFO [Txt ''Result: '', Num result]
            # (if result = 0 then PrintStats stats else []))"

record stun_env =
  socket_address :: "string \<Rightarrow> string option"
  initialize_ssl :: bool
  init_random :: bool
  stun_networks :: "network list"

text \<open>The addresses given on the command line, or the error line.\<close>

definition stun_servers :: "stun_env \<Rightarrow> string list \<Rightarrow> demo_effect + string list" where
  "stun_servers env argv =
     (if length argv < 2 \<or> length argv > 3
      then Inl (text_line LS_ERROR ''usage: stunserver address'')
      else
        case socket_address env (argv ! 1) of
          None \<Rightarrow> Inl (Line LS_ERROR [Txt ''Unable to parse IP address: '', Txt (argv ! 1)])
        | Some a \<Rightarrow>
            if length argv = 3 then
              (case socket_address env (argv ! 2) of
                 None \<Rightarrow> Inl (Line LS_ERROR [Txt ''Unable to parse IP address: '', Txt (argv ! 1)])
               | Some b \<Rightarrow> Inr [a, b])
            else Inr [a])"

definition stun_main :: "stun_env \<Rightarrow> string list \<Rightarrow> demo_effect list \<times> outcome" where
  "stun_main env argv =
     (let start = [Init_log LS_INFO] in
      case stun_servers env argv of
        Inl e \<Rightarrow> (start @ [e], Returns (- 1))
      | Inr servers \<Rightarrow>
          if \<not> initialize_ssl env
          then (start @ [text_line LS_ERROR ''init ssl failed''], Returns (- 1))
          else
            let ssl = start @ [text_line LS_INFO ''init ssl success''] in
            if \<not> init_random env
            then (ssl @ [text_line LS_ERROR ''init random failed''], Returns (- 1))
            else
              (ssl @ [text_line LS_INFO ''init random success'', Start_thread,
                Library_call ''Initialize'' [], Connect_slot ''OnNetworksChanged'',
                Invoke_body [text_line LS_INFO ''start updating...'',
                  Library_call ''StartUpdating'' []],
                text_line LS_INFO ''wait network update ...'', Wait_event None,
                Line LS_INFO [Txt ''network count:'', Num (int (length (stun_networks env)))],
                Library_call ''Start''
                  (map Txt servers @ [Num 1, Num 10, Num 2, Num 1000]),
                Wait_event None], Waits_forever))"

section \<open>The peer connection\<close>

definition warn :: "string \<Rightarrow> log_part list \<Rightarrow> demo_effect" where
  "warn t ps = Line LS_WARNING (Txt t # ps)"

definition pc_signaling_change :: "string \<Rightarrow> demo_effect list" where
  "pc_signaling_change s = [warn ''>>>>>>>>>> signaling_state:'' [Txt s]]"

definition pc_data_channel :: "int \<Rightarrow> demo_effect list" where
  "pc_data_channel i = [warn ''>>>>>>>>>> data channel id:'' [Num i]]"

definition pc_renegotiation_needed :: "demo_effect list" where
  "pc_renegotiation_needed = [warn ''>>>>>>>>>> OnRenegotiationNeeded'' []]"

definition pc_ice_connection_change :: "string \<Rightarrow> demo_effect list" where
  "pc_ice_connection_change s = [warn ''>>>>>>>>>> IceConnectionState:'' [Txt s]]"

definition pc_connection_change :: "string \<Rightarrow> demo_effect list" where
  "pc_connection_change s = [warn ''>>>>>>>>>> PeerConnectionState:'' [Txt s]]"

definition pc_ice_gathering_change :: "string \<Rightarrow> demo_effect list" where
  "pc_ice_gathering_change s = [warn ''>>>>>>>>>> IceGatheringState:'' [Txt s]]"

text \<open>When \<open>ToString\<close> fails the text is still logged, as it was left: empty.\<close>

definition pc_ice_candidate :: "string option \<Rightarrow> demo_effect list" where
  "pc_ice_candidate c =
     (case c of
        None \<Rightarrow> [warn ''>>>>>>>>>> candidate to string failed'' [],
          warn ''>>>>>>>>>> IceCandidate:'' [Txt []]]
      | Some s \<Rightarrow> [warn ''>>>>>>>>>> IceCandidate:'' [Txt s]])"

definition pc_track :: "string \<Rightarrow> demo_effect list" where
  "pc_track i = [warn ''>>>>>>>>>> OnTrack id:'' [Txt i]]"

definition pc_remove_track :: "string \<Rightarrow> demo_effect list" where
  "pc_remove_track i = [warn ''>>>>>>>>>> OnRemoveTrack id:'' [Txt i]]"

definition set_description_success :: "demo_effect list" where
  "set_description_success = [warn ''>>>>>>>>>> set description success'' []]"

definition set_description_failure :: "string \<Rightarrow> demo_effect list" where
  "set_description_failure m = [warn ''>>>>>>>>>> set description failed:'' [Txt m]]"

datatype sdp_type = Sdp_offer | Sdp_pr_answer | Sdp_answer | Sdp_rollback

definition create_description_success :: "string \<Rightarrow> sdp_type \<Rightarrow> string \<Rightarrow> demo_effect list" where
  "create_description_success type_text type sdp =
     [warn ''>>>>>>>>>> type:'' [Txt type_text], warn ''>>>>>>>>>> desc:'' [Txt sdp]]
     @ (if type = Sdp_offer then [Library_call ''SetLocalDescription'' [Txt sdp]] else [])"

definition create_description_failure :: "string \<Rightarrow> demo_effect list" where
  "create_description_failure m = [warn ''>>>>>>>>>> error:'' [Txt m]]"

text \<open>\<open>None\<close> is success, \<open>Some\<close> the message of the error.\<close>

record pc_env =
  factory_created :: bool
  connection_created :: bool
  track_error :: "string option"

definition pc_main :: "pc_env \<Rightarrow> demo_effect list \<times> outcome" where
  "pc_main env =
     (let start = [Init_log LS_WARNING, Start_thread,
        Library_call ''CreatePeerConnectionFactory'' []] in
      if \<not> factory_created env
      then (start @ [warn ''create peer_connection_factory failed'' []], Returns (- 1))
      else
        let created = start @ [Library_call ''CreatePeerConnectionOrError''
          [Txt ''stun:stun.l.google.com:19302'']] in
        if \<not> connection_created env
        then (created @ [warn ''create peer connection failed'' []], Returns (- 1))
        else
          let tracked = created @ [Library_call ''CreateAudioTrack'' [Txt ''audio_label''],
            Library_call ''AddTrack'' [Txt ''stream_id'']] in
          case track_error env of
            Some m \<Rightarrow>
              (tracked @ [warn ''failed to add audio track to PeerConnection:'' [Txt m]],
               Returns (- 1))
          | None \<Rightarrow>
              (tracked @ [Library_call ''CreateOffer'' [], Wait_event None], Waits_forever))"

section \<open>Properties\<close>

text \<open>The last thing a failing program does is to log.\<close>

fun fails_with :: "severity \<Rightarrow> demo_effect list \<times> outcome \<Rightarrow> bool" where
  "fails_with sev (es, out) \<longleftrightarrow>
     (out = Returns (- 1) \<longrightarrow> (\<exists>ps. es \<noteq> [] \<and> last es = Line sev ps))"

lemma device_names_Some:
  "\<forall>j. recording_devices env j < int (i + fuel) \<Longrightarrow> 0 < fuel \<Longrightarrow> \<exists>es. device_names fuel i env = Some es"
proof (induction fuel arbitrary: i)
  case (Suc fuel)
  show ?case
  proof (cases "int i < recording_devices env (Suc i)")
    case True
    moreover have "0 < fuel" using True Suc.prems(1) [rule_format, of "Suc i"] by (cases fuel) auto
    ultimately show ?thesis using Suc.IH [of "Suc i"] Suc.prems(1) by fastforce
  qed simp
qed simp

lemma device_names_stable:
  "\<forall>j. recording_devices env j = int k \<Longrightarrow> i \<le> k \<Longrightarrow> k < i + fuel \<Longrightarrow>
    device_names fuel i env = Some (concat (map (\<lambda>i.
      case recording_device_name env i of
        Some name \<Rightarrow> [Line LS_INFO [Txt ''>>>>> audio capture device name:'', Txt name]]
      | None \<Rightarrow> []) [i..<k]))"
proof (induction fuel arbitrary: i)
  case (Suc fuel)
  then show ?case by (cases "i < k") (auto simp: upt_conv_Cons)
qed simp

lemma audio_main_Some:
  "device_names fuel 0 env = Some es \<Longrightarrow> audio_capture_main fuel env \<noteq> None"
  by (simp add: audio_capture_main_def Let_def)

text \<open>
  C38: The device loop of the audio program ends although it asks for the number of devices anew
  in every round: the answers are 16-bit integers, so 32768 rounds are enough whatever they are.
  When the number is constant, it lists the names of exactly these devices, each once and in
  order, and skips those whose name is not available.
\<close>

theorem audio_devices_listed:
  assumes "\<forall>j. recording_devices env j < 2 ^ 15"
  shows "audio_capture_main (2 ^ 15) env \<noteq> None \<and>
    ((\<forall>j. recording_devices env j = int k) \<longrightarrow>
      device_names (2 ^ 15) 0 env = Some (concat (map (\<lambda>i.
        case recording_device_name env i of
          Some name \<Rightarrow> [Line LS_INFO [Txt ''>>>>> audio capture device name:'', Txt name]]
        | None \<Rightarrow> []) [0..<k])))"
proof -
  have "\<exists>es. device_names (2 ^ 15) 0 env = Some es" using assms by (intro device_names_Some) simp_all
  moreover have "k < 2 ^ 15" if "\<forall>j. recording_devices env j = int k" using assms that by auto
  ultimately show ?thesis
    using device_names_stable [of env k 0 "2 ^ 15"] audio_main_Some [of "2 ^ 15" env] by auto
qed

definition sample_audio :: audio_env where
  "sample_audio =
     \<lparr>adm_init = 0, recording_devices = (\<lambda>j. 2),
      recording_device_name = (\<lambda>i. if i = 0 then Some ''mic'' else None), init_recording = 0\<rparr>"

lemma audio_devices_listed_witness:
  "device_names (2 ^ 15) 0 sample_audio =
    Some [Line LS_INFO [Txt ''>>>>> audio capture device name:'', Txt ''mic'']]"
  using audio_devices_listed [of sample_audio 2]
  by (simp add: sample_audio_def numeral_2_eq_2 del: device_names.simps)

text \<open>
  A program that gives up says why: in every failure exit, whatever the library answered, the
  last effect is an error line (a warning in the peer connection program, which logs nothing else),
  except that the audio program reports a recording device that cannot be initialized only as
  information. A program that does not fail never exits with -1.
\<close>

theorem demo_failures_reported:
  "fails_with LS_ERROR (tcp_client_main atoi create argv) \<and>
   fails_with LS_ERROR (tcp_server_main atoi bind_socket address argv) \<and>
   fails_with LS_ERROR (video_capture_main video) \<and>
   fails_with LS_ERROR (stun_main stun argv) \<and>
   fails_with LS_WARNING (pc_main pc) \<and>
   (case audio_capture_main fuel audio of
      None \<Rightarrow> True
    | Some r \<Rightarrow> fails_with (if adm_init audio \<noteq> 0 then LS_ERROR else LS_INFO) r) \<and>
   snd (network_main net) = Returns 0"
proof (intro conjI)
  show "fails_with LS_ERROR (tcp_client_main atoi create argv)"
    "fails_with LS_ERROR (tcp_server_main atoi bind_socket address argv)"
    "snd (network_main net) = Returns 0"
    by (auto simp: tcp_client_main_def tcp_server_main_def Let_def network_main_def)
  show "fails_with LS_ERROR (video_capture_main video)"
    by (auto simp: video_capture_main_def Let_def split: option.splits prod.splits)
  show "fails_with LS_ERROR (stun_main stun argv)"
    by (auto simp: stun_main_def stun_servers_def Let_def split: option.splits)
  show "fails_with LS_WARNING (pc_main pc)"
    by (auto simp: pc_main_def Let_def warn_def split: option.splits)
  show "case audio_capture_main fuel audio of
      None \<Rightarrow> True
    | Some r \<Rightarrow> fails_with (if adm_init audio \<noteq> 0 then LS_ERROR else LS_INFO) r"
    by (auto simp: audio_capture_main_def Let_def split: option.split)
qed

end
