(* ===== verification/Signal_Demo.thy ===== *)
theory Signal_Demo
  imports Sigslot Demos
begin

text \<open>
  \<open>04_rtc_sigslot/main.cc\<close> over the signal model: two objects are connected, one by a task of another
  thread and one by \<open>main\<close> (the signal's lock makes the order of the two the only freedom), \<open>main\<close>
  waits for the task, deletes the second object and emits. At the end of \<open>main\<close> the first object
  and the signal are destroyed in this order.
\<close>

datatype demo_slot = My_slot_on_msg

definition my_signal :: nat where "my_signal = 0"
definition my_slot1 :: nat where "my_slot1 = 0"
definition my_slot2 :: nat where "my_slot2 = 1"

definition on_slot_msg :: "string \<Rightarrow> demo_effect" where
  "on_slot_msg msg = Line LS_INFO [Txt ''>>>>> receive msg:'', Txt msg]"

definition sigslot_connects :: "bool \<Rightarrow> demo_slot sig_op list" where
  "sigslot_connects task_first =
     (let by_task = Connect my_signal my_slot1 My_slot_on_msg;
          by_main = Connect my_signal my_slot2 My_slot_on_msg in
      if task_first then [by_task, by_main] else [by_main, by_task])"

definition sigslot_main ::
  "bool \<Rightarrow> ((demo_effect list \<times> outcome) \<times> demo_slot machine) option" where
  "sigslot_main task_first =
     map_option
       (\<lambda>(calls, m). (([Init_log LS_INFO, Start_thread] @
         map (\<lambda>c. on_slot_msg ''hello sigslot'') calls, Returns 0), m))
       (prog_run
         (map Do ([NewSignal my_signal, NewSlot my_slot1, NewSlot my_slot2] @
            sigslot_connects task_first @ [DestroySlot my_slot2]) @
          [Emit my_signal, Slot_returns, Do (DestroySlot my_slot1), Do (DestroySignal my_signal)])
         sig_start)"

text \<open>
  Whatever the order, the emission calls the surviving object once and the deleted one never, is
  left before the end of \<open>main\<close>, and nothing is left behind; no destroyed object is used.
\<close>

lemma sigslot_main_calls_survivor:
  "\<exists>m. sigslot_main task_first = Some
      (([Init_log LS_INFO, Start_thread, on_slot_msg ''hello sigslot''], Returns 0), m) \<and>
    running m = [] \<and> signals (heap m) my_signal = None \<and>
    senders (heap m) my_slot1 = None \<and> senders (heap m) my_slot2 = None"
  by (cases task_first)
    (simp_all add: sigslot_main_def sigslot_connects_def my_signal_def my_slot1_def my_slot2_def
      sig_ops destroy_signal_def sig_disconnect_all_def do_signal_disconnect_def Let_def)

end
