(* ===== verification/Units.thy ===== *)
theory Units
  imports Prelude "HOL-Library.Signed_Division"
begin

text \<open>
  The unit types of \<open>rtc_base/units/unit_base.h\<close> and \<open>api/units\<close>: time stamps, durations, sizes,
  rates and frequencies, all an \<open>int64_t\<close> whose largest and smallest values stand for the
  infinities. An operation has no result where a check of a checked build fails or where the
  64-bit arithmetic would overflow. \<open>os\<close> is the class constant \<open>one_sided\<close>: false for
  \<open>TimeDelta\<close>, true for the other four. Conversions to and from \<open>double\<close> are not modelled.
\<close>

section \<open>\<open>UnitBase\<close>\<close>

definition PlusInfinity :: int where "PlusInfinity = int64_max"
definition MinusInfinity :: int where "MinusInfinity = int64_min"

definition IsInfinite :: "int \<Rightarrow> bool" where
  "IsInfinite v \<longleftrightarrow> v = PlusInfinity \<or> v = MinusInfinity"

definition IsFinite :: "int \<Rightarrow> bool" where
  "IsFinite v \<longleftrightarrow> \<not> IsInfinite v"

definition FromValue :: "bool \<Rightarrow> int \<Rightarrow> int option" where
  "FromValue os v =
     (if os \<and> v < 0 then None
      else if \<not> v > MinusInfinity then None
      else if \<not> v < PlusInfinity then None
      else Some v)"

definition FromFraction :: "bool \<Rightarrow> int \<Rightarrow> int \<Rightarrow> int option" where
  "FromFraction os denominator v =
     (if os \<and> v < 0 then None
      else if \<not> v > MinusInfinity sdiv denominator then None
      else if \<not> v < PlusInfinity sdiv denominator then None
      else int64 (v * denominator))"

definition ToValue :: "int \<Rightarrow> int option" where
  "ToValue v = (if IsFinite v then Some v else None)"

definition ToValueOr :: "int \<Rightarrow> int \<Rightarrow> int" where
  "ToValueOr fallback v = (if IsFinite v then v else fallback)"

definition DivRoundPositiveToNearest :: "int \<Rightarrow> int \<Rightarrow> int option" where
  "DivRoundPositiveToNearest n d = map_option (\<lambda>s. s sdiv d) (int64 (n + d sdiv 2))"

definition DivRoundToNearest :: "int \<Rightarrow> int \<Rightarrow> int option" where
  "DivRoundToNearest n d =
     map_option (\<lambda>s. s sdiv d) (int64 (n + (if n \<ge> 0 then d sdiv 2 else (- d) sdiv 2)))"

definition ToFraction :: "bool \<Rightarrow> int \<Rightarrow> int \<Rightarrow> int option" where
  "ToFraction os denominator v =
     (if \<not> IsFinite v then None
      else if os then DivRoundPositiveToNearest v denominator
      else DivRoundToNearest v denominator)"

definition ToFractionOr :: "bool \<Rightarrow> int \<Rightarrow> int \<Rightarrow> int \<Rightarrow> int option" where
  "ToFractionOr os denominator fallback v =
     (if IsFinite v then
        (if os then DivRoundPositiveToNearest v denominator else DivRoundToNearest v denominator)
      else Some fallback)"

definition ToMultiple :: "int \<Rightarrow> int \<Rightarrow> int option" where
  "ToMultiple factor v =
     Option.bind (ToValue v) (\<lambda>x.
       if \<not> x \<ge> int64_min sdiv factor then None
       else if \<not> x \<le> int64_max sdiv factor then None
       else int64 (x * factor))"

section \<open>\<open>RelativeUnit\<close>\<close>

definition Clamped :: "int \<Rightarrow> int \<Rightarrow> int \<Rightarrow> int" where
  "Clamped min_value max_value v = max min_value (min v max_value)"

text \<open>The check of mixed infinities, then the finite case through the constructor \<open>make\<close>.\<close>

definition unit_add :: "bool \<Rightarrow> int \<Rightarrow> int \<Rightarrow> int option" where
  "unit_add os a b =
     (if a = PlusInfinity \<or> b = PlusInfinity then
        (if a = MinusInfinity \<or> b = MinusInfinity then None else Some PlusInfinity)
      else if a = MinusInfinity \<or> b = MinusInfinity then Some MinusInfinity
      else Option.bind (int64 (a + b)) (FromValue os))"

definition unit_sub :: "bool \<Rightarrow> int \<Rightarrow> int \<Rightarrow> int option" where
  "unit_sub os a b =
     (if a = PlusInfinity \<or> b = MinusInfinity then
        (if a = MinusInfinity \<or> b = PlusInfinity then None else Some PlusInfinity)
      else if a = MinusInfinity \<or> b = PlusInfinity then Some MinusInfinity
      else Option.bind (int64 (a - b)) (FromValue os))"

definition unit_mult :: "bool \<Rightarrow> int \<Rightarrow> int \<Rightarrow> int option" where
  "unit_mult os v scalar =
     Option.bind (ToValue v) (\<lambda>x. Option.bind (int64 (x * scalar)) (FromValue os))"

definition finite_resolution :: "int \<Rightarrow> int \<Rightarrow> bool" where
  "finite_resolution v resolution \<longleftrightarrow> IsFinite v \<and> IsFinite resolution \<and> resolution > 0"

definition RoundTo :: "bool \<Rightarrow> int \<Rightarrow> int \<Rightarrow> int option" where
  "RoundTo os resolution v =
     (if \<not> finite_resolution v resolution then None
      else Option.bind (int64 (v + resolution sdiv 2)) (\<lambda>s.
        unit_mult os (s sdiv resolution) resolution))"

definition RoundUpTo :: "bool \<Rightarrow> int \<Rightarrow> int \<Rightarrow> int option" where
  "RoundUpTo os resolution v =
     (if \<not> finite_resolution v resolution then None
      else Option.bind (int64 (v + resolution)) (\<lambda>s.
        unit_mult os ((s - 1) sdiv resolution) resolution))"

definition RoundDownTo :: "bool \<Rightarrow> int \<Rightarrow> int \<Rightarrow> int option" where
  "RoundDownTo os resolution v =
     (if \<not> finite_resolution v resolution then None
      else unit_mult os (v sdiv resolution) resolution)"

section \<open>Time\<close>

definition TimeDelta_Micros :: "int \<Rightarrow> int option" where
  "TimeDelta_Micros = FromValue False"

definition TimeDelta_Millis :: "int \<Rightarrow> int option" where
  "TimeDelta_Millis = FromFraction False 1000"

definition TimeDelta_Seconds :: "int \<Rightarrow> int option" where
  "TimeDelta_Seconds = FromFraction False 1000000"

definition TimeDelta_ms :: "int \<Rightarrow> int option" where
  "TimeDelta_ms = ToFraction False 1000"

definition TimeDelta_seconds :: "int \<Rightarrow> int option" where
  "TimeDelta_seconds = ToFraction False 1000000"

definition TimeDelta_ns :: "int \<Rightarrow> int option" where
  "TimeDelta_ns = ToMultiple 1000"

definition TimeDelta_Abs :: "int \<Rightarrow> int option" where
  "TimeDelta_Abs v =
     Option.bind (ToValue v) (\<lambda>us.
       if us < 0 then Option.bind (int64 (- us)) TimeDelta_Micros else Some v)"

definition Timestamp_Micros :: "int \<Rightarrow> int option" where
  "Timestamp_Micros = FromValue True"

definition Timestamp_Millis :: "int \<Rightarrow> int option" where
  "Timestamp_Millis = FromFraction True 1000"

definition Timestamp_Seconds :: "int \<Rightarrow> int option" where
  "Timestamp_Seconds = FromFraction True 1000000"

definition Timestamp_ms :: "int \<Rightarrow> int option" where
  "Timestamp_ms = ToFraction True 1000"

definition Timestamp_seconds :: "int \<Rightarrow> int option" where
  "Timestamp_seconds = ToFraction True 1000000"

text \<open>Written out in \<open>timestamp.h\<close> as in \<open>RelativeUnit\<close>, between two different classes.\<close>

definition Timestamp_plus :: "int \<Rightarrow> int \<Rightarrow> int option" where
  "Timestamp_plus t delta =
     (if t = PlusInfinity \<or> delta = PlusInfinity then
        (if t = MinusInfinity \<or> delta = MinusInfinity then None else Some PlusInfinity)
      else if t = MinusInfinity \<or> delta = MinusInfinity then Some MinusInfinity
      else Option.bind (int64 (t + delta)) Timestamp_Micros)"

definition Timestamp_minus :: "int \<Rightarrow> int \<Rightarrow> int option" where
  "Timestamp_minus t delta =
     (if t = PlusInfinity \<or> delta = MinusInfinity then
        (if t = MinusInfinity \<or> delta = PlusInfinity then None else Some PlusInfinity)
      else if t = MinusInfinity \<or> delta = PlusInfinity then Some MinusInfinity
      else Option.bind (int64 (t - delta)) Timestamp_Micros)"

definition Timestamp_diff :: "int \<Rightarrow> int \<Rightarrow> int option" where
  "Timestamp_diff t other =
     (if t = PlusInfinity \<or> other = MinusInfinity then
        (if t = MinusInfinity \<or> other = PlusInfinity then None else Some PlusInfinity)
      else if t = MinusInfinity \<or> other = PlusInfinity then Some MinusInfinity
      else Option.bind (int64 (t - other)) TimeDelta_Micros)"

section \<open>Sizes, rates and frequencies\<close>

definition DataSize_Bytes :: "int \<Rightarrow> int option" where
  "DataSize_Bytes = FromValue True"

definition DataRate_BitsPerSec :: "int \<Rightarrow> int option" where
  "DataRate_BitsPerSec = FromValue True"

definition DataRate_BytesPerSec :: "int \<Rightarrow> int option" where
  "DataRate_BytesPerSec = FromFraction True 8"

definition DataRate_KilobitsPerSec :: "int \<Rightarrow> int option" where
  "DataRate_KilobitsPerSec = FromFraction True 1000"

definition DataRate_bytes_per_sec :: "int \<Rightarrow> int option" where
  "DataRate_bytes_per_sec = ToFraction True 8"

definition DataRate_kbps :: "int \<Rightarrow> int option" where
  "DataRate_kbps = ToFraction True 1000"

definition Frequency_MilliHertz :: "int \<Rightarrow> int option" where
  "Frequency_MilliHertz = FromValue True"

definition Frequency_Hertz :: "int \<Rightarrow> int option" where
  "Frequency_Hertz = FromFraction True 1000"

definition Frequency_KiloHertz :: "int \<Rightarrow> int option" where
  "Frequency_KiloHertz = FromFraction True 1000000"

definition Frequency_hertz :: "int \<Rightarrow> int option" where
  "Frequency_hertz = ToFraction True 1000"

text \<open>Signed division traps on zero and on the one quotient that does not fit.\<close>

definition int64_div :: "int \<Rightarrow> int \<Rightarrow> int option" where
  "int64_div a b = (if b = 0 then None else int64 (a sdiv b))"

definition Microbits :: "int \<Rightarrow> int option" where
  "Microbits sz =
     Option.bind (ToValue sz) (\<lambda>b.
       if \<not> b \<le> int64_max sdiv 8000000 then None else int64 (b * 8000000))"

definition MillibytePerSec :: "int \<Rightarrow> int option" where
  "MillibytePerSec rate =
     Option.bind (ToValue rate) (\<lambda>b.
       if \<not> b \<le> int64_max sdiv (1000 sdiv 8) then None else int64 (b * (1000 sdiv 8)))"

definition size_per_duration :: "int \<Rightarrow> int \<Rightarrow> int option" where
  "size_per_duration sz duration =
     Option.bind (Microbits sz) (\<lambda>m. Option.bind (ToValue duration) (\<lambda>us.
       Option.bind (int64_div m us) DataRate_BitsPerSec))"

definition size_per_rate :: "int \<Rightarrow> int \<Rightarrow> int option" where
  "size_per_rate sz rate =
     Option.bind (Microbits sz) (\<lambda>m. Option.bind (ToValue rate) (\<lambda>bps.
       Option.bind (int64_div m bps) TimeDelta_Micros))"

definition rate_times_duration :: "int \<Rightarrow> int \<Rightarrow> int option" where
  "rate_times_duration rate duration =
     Option.bind (ToValue rate) (\<lambda>bps. Option.bind (ToValue duration) (\<lambda>us.
       Option.bind (int64 (bps * us)) (\<lambda>microbits.
         Option.bind (int64 (microbits + 4000000)) (\<lambda>s. DataSize_Bytes (s sdiv 8000000)))))"

definition rate_per_frequency :: "int \<Rightarrow> int \<Rightarrow> int option" where
  "rate_per_frequency rate frequency =
     Option.bind (ToValue frequency) (\<lambda>mhz. Option.bind (MillibytePerSec rate) (\<lambda>m.
       Option.bind (int64_div m mhz) DataSize_Bytes))"

definition rate_per_size :: "int \<Rightarrow> int \<Rightarrow> int option" where
  "rate_per_size rate sz =
     Option.bind (MillibytePerSec rate) (\<lambda>m. Option.bind (ToValue sz) (\<lambda>b.
       Option.bind (int64_div m b) Frequency_MilliHertz))"

definition size_times_frequency :: "int \<Rightarrow> int \<Rightarrow> int option" where
  "size_times_frequency sz frequency =
     Option.bind (ToValue sz) (\<lambda>b. Option.bind (ToValue frequency) (\<lambda>mhz.
       if \<not> (frequency = 0 \<or> b \<le> int64_max sdiv 8 sdiv mhz) then None
       else Option.bind (int64 (b * 8)) (\<lambda>bits. Option.bind (int64 (bits * mhz)) (\<lambda>m.
         Option.bind (int64 (m + 500)) (\<lambda>s. DataRate_BitsPerSec (s sdiv 1000))))))"

definition per_interval :: "int \<Rightarrow> int \<Rightarrow> int option" where
  "per_interval nominator interval =
     (if \<not> nominator \<le> int64_max sdiv (1000 * 1000000) then None
      else if \<not> IsFinite interval \<or> interval = 0 then None
      else Option.bind (int64 (nominator * (1000 * 1000000))) (\<lambda>n.
        Option.bind (int64_div n interval) Frequency_MilliHertz))"

definition per_frequency :: "int \<Rightarrow> int \<Rightarrow> int option" where
  "per_frequency nominator frequency =
     (if \<not> nominator \<le> int64_max sdiv (1000000 * 1000) then None
      else if \<not> IsFinite frequency \<or> frequency = 0 then None
      else Option.bind (int64 (nominator * (1000000 * 1000))) (\<lambda>n.
        Option.bind (int64_div n frequency) TimeDelta_Micros))"

lemmas unit_consts = int64_max_def int64_min_def PlusInfinity_def MinusInfinity_def

lemma unit_finite: "IsFinite v \<longleftrightarrow> v \<noteq> PlusInfinity \<and> v \<noteq> MinusInfinity"
  by (auto simp: IsFinite_def IsInfinite_def)

lemma infinities_differ [simp]: "PlusInfinity \<noteq> MinusInfinity" "MinusInfinity \<noteq> PlusInfinity"
  by (simp_all add: unit_consts)

section \<open>Extended integers as the abstract values\<close>

datatype ext_int = Minus_inf | Fin int | Plus_inf

fun ext_add :: "ext_int \<Rightarrow> ext_int \<Rightarrow> ext_int option" where
  "ext_add Plus_inf Minus_inf = None"
| "ext_add Minus_inf Plus_inf = None"
| "ext_add Plus_inf _ = Some Plus_inf"
| "ext_add _ Plus_inf = Some Plus_inf"
| "ext_add Minus_inf _ = Some Minus_inf"
| "ext_add _ Minus_inf = Some Minus_inf"
| "ext_add (Fin a) (Fin b) = Some (Fin (a + b))"

fun ext_neg :: "ext_int \<Rightarrow> ext_int" where
  "ext_neg Plus_inf = Minus_inf"
| "ext_neg Minus_inf = Plus_inf"
| "ext_neg (Fin a) = Fin (- a)"

definition abs_unit :: "int \<Rightarrow> ext_int" where
  "abs_unit v =
     (if v = PlusInfinity then Plus_inf else if v = MinusInfinity then Minus_inf else Fin v)"

text \<open>The representation of an abstract value, when the class has it.\<close>

fun rep_unit :: "bool \<Rightarrow> ext_int \<Rightarrow> int option" where
  "rep_unit os Plus_inf = Some PlusInfinity"
| "rep_unit os Minus_inf = Some MinusInfinity"
| "rep_unit os (Fin v) =
     (if MinusInfinity < v \<and> v < PlusInfinity \<and> (os \<longrightarrow> 0 \<le> v) then Some v else None)"

lemma FromValue_rep: "FromValue os v = rep_unit os (Fin v)"
  by (auto simp: FromValue_def)

lemma int64_FromValue: "Option.bind (int64 v) (FromValue os) = rep_unit os (Fin v)"
  by (auto simp: int64_def FromValue_rep unit_consts)

text \<open>Every value of a class is its representation, and abstraction is injective.\<close>

definition unit_ok :: "bool \<Rightarrow> int \<Rightarrow> bool" where
  "unit_ok os v \<longleftrightarrow> rep_unit os (abs_unit v) = Some v"

lemma unit_ok_iff:
  "unit_ok os v \<longleftrightarrow> v = PlusInfinity \<or> v = MinusInfinity \<or>
     MinusInfinity < v \<and> v < PlusInfinity \<and> (os \<longrightarrow> 0 \<le> v)"
  by (auto simp: unit_ok_def abs_unit_def)

lemma abs_rep: "rep_unit os x = Some v \<Longrightarrow> abs_unit v = x"
  by (cases x) (auto simp: abs_unit_def split: if_splits)

lemma unit_add_rep:
  "unit_add os a b = Option.bind (ext_add (abs_unit a) (abs_unit b)) (rep_unit os)"
  by (simp add: unit_add_def abs_unit_def int64_FromValue split: if_split)

lemma unit_sub_rep:
  "unit_sub os a b = Option.bind (ext_add (abs_unit a) (ext_neg (abs_unit b))) (rep_unit os)"
  by (simp add: unit_sub_def abs_unit_def int64_FromValue split: if_split)

lemma Timestamp_rep:
  "Timestamp_plus t d = unit_add True t d"
  "Timestamp_minus t d = unit_sub True t d"
  "Timestamp_diff t u = unit_sub False t u"
  by (simp_all add: Timestamp_plus_def Timestamp_minus_def Timestamp_diff_def unit_add_def
      unit_sub_def Timestamp_Micros_def TimeDelta_Micros_def)

section \<open>Division\<close>

lemma sdiv_nonneg: "0 \<le> (a :: int) \<Longrightarrow> 0 < d \<Longrightarrow> a sdiv d = a div d"
  by (simp add: signed_divide_int_def sgn_if)

lemma sdiv_neg: "(a :: int) < 0 \<Longrightarrow> 0 < d \<Longrightarrow> a sdiv d = - (- a div d)"
  by (simp add: signed_divide_int_def sgn_if)

lemma sdiv_bounds:
  assumes "0 < (d :: int)"
  shows "0 \<le> a \<Longrightarrow> a sdiv d * d \<le> a \<and> a < a sdiv d * d + d"
    and "a < 0 \<Longrightarrow> a \<le> a sdiv d * d \<and> a sdiv d * d < a + d"
proof -
  assume a: "0 \<le> a"
  show "a sdiv d * d \<le> a \<and> a < a sdiv d * d + d"
    unfolding sdiv_nonneg [OF a assms]
    using assms pos_mod_bound [of d a] pos_mod_sign [of d a] div_mult_mod_eq [of a d] by linarith
next
  assume a: "a < 0"
  have "- a div d * d + - a mod d = - a" by (rule div_mult_mod_eq)
  then show "a \<le> a sdiv d * d \<and> a sdiv d * d < a + d"
    unfolding sdiv_neg [OF a assms] mult_minus_left
    using assms pos_mod_bound [of d "- a"] pos_mod_sign [of d "- a"] by linarith
qed

lemma sdiv_times [simp]: "0 < (d :: int) \<Longrightarrow> n * d sdiv d = n"
  by (cases "0 \<le> n * d") (auto simp: sdiv_nonneg sdiv_neg simp flip: mult_minus_left)

lemma sdiv_unique:
  assumes "0 < (d :: int)" and "q * d \<le> a" and "a < q * d + d" and "0 \<le> a"
  shows "a sdiv d = q"
proof -
  note b = sdiv_bounds(1) [OF assms(1,4)]
  have "q * d < (a sdiv d + 1) * d" "a sdiv d * d < (q + 1) * d"
    using assms b by (auto simp: algebra_simps)
  then show ?thesis using assms(1) by (simp add: mult_less_cancel_right)
qed

section \<open>Rounding and fractions\<close>

lemma unit_mult_result:
  "unit_mult os x r = Some v \<Longrightarrow> v = x * r"
  by (auto simp: unit_mult_def ToValue_def int64_def FromValue_def split: if_splits)

lemma Some_int64: "int64 x = Some y \<Longrightarrow> y = x"
  by (simp add: int64_def split: if_splits)

lemma RoundDownTo_cases:
  assumes "RoundDownTo os r v = Some d"
  shows "0 < r" and "d = v sdiv r * r"
  using assms by (auto simp: RoundDownTo_def finite_resolution_def dest: unit_mult_result
      split: if_splits)

lemma RoundUpTo_cases:
  assumes "RoundUpTo os r v = Some u"
  shows "u = (v + r - 1) sdiv r * r"
  using assms by (auto simp: RoundUpTo_def bind_eq_Some_conv dest!: unit_mult_result Some_int64
      split: if_splits)

lemma RoundTo_cases:
  assumes "RoundTo os r v = Some n"
  shows "n = (v + r sdiv 2) sdiv r * r"
  using assms by (auto simp: RoundTo_def bind_eq_Some_conv dest!: unit_mult_result Some_int64
      split: if_splits)

lemma half_sdiv: "0 < (d :: int) \<Longrightarrow> 0 \<le> d sdiv 2 \<and> 2 * (d sdiv 2) \<le> d \<and> d \<le> 2 * (d sdiv 2) + 1"
  by (simp add: sdiv_nonneg) presburger

lemma half_sdiv_neg: "0 < (d :: int) \<Longrightarrow> (- d) sdiv 2 = - (d sdiv 2)"
  by (simp add: sdiv_nonneg sdiv_neg)

text \<open>The bounds that the constructors check leave room for half a denominator.\<close>

lemma fraction_room:
  assumes "0 < d" and "MinusInfinity sdiv d < n" and "n < PlusInfinity sdiv d"
  shows "n * d + d \<le> int64_max" and "int64_min + d \<le> n * d"
proof -
  have "int64_max sdiv d * d \<le> int64_max"
    by (rule conjunct1 [OF sdiv_bounds(1) [OF assms(1)]]) (simp add: unit_consts)
  moreover have "(n + 1) * d \<le> int64_max sdiv d * d"
    using assms by (intro mult_right_mono) (auto simp: PlusInfinity_def)
  ultimately show "n * d + d \<le> int64_max" by (simp add: algebra_simps)
  have "int64_min \<le> int64_min sdiv d * d"
    by (rule conjunct1 [OF sdiv_bounds(2) [OF assms(1)]]) (simp add: unit_consts)
  moreover have "int64_min sdiv d * d \<le> (n - 1) * d"
    using assms by (intro mult_right_mono) (auto simp: MinusInfinity_def)
  ultimately show "int64_min + d \<le> n * d" by (simp add: algebra_simps)
qed

lemma sdiv_near:
  assumes "0 < (d :: int)" and "0 \<le> e" and "e < d"
  shows "0 \<le> n * d \<Longrightarrow> (n * d + e) sdiv d = n" and "n * d < 0 \<Longrightarrow> (n * d - e) sdiv d = n"
proof -
  show "0 \<le> n * d \<Longrightarrow> (n * d + e) sdiv d = n" using assms by (intro sdiv_unique) auto
  assume "n * d < 0"
  then have "n * d - e < 0" using assms by simp
  moreover have "(- n * d + e) sdiv d = - n"
    using assms \<open>n * d < 0\<close> by (intro sdiv_unique) auto
  ultimately show "(n * d - e) sdiv d = n"
    using assms(1,2) \<open>n * d < 0\<close> by (simp add: sdiv_neg sdiv_nonneg)
qed

section \<open>Properties\<close>

text \<open>
  C16: The arithmetic of units and time stamps, written out three times over the 64-bit values,
  implements one abstract arithmetic of integers with two infinities: abstract the arguments, add
  or subtract (the difference of equal infinities is undefined), and represent the result where
  the class can. In particular an overflow is never mistaken for an infinity.
\<close>

theorem units_refine_extended_integers:
  "unit_add os a b = Option.bind (ext_add (abs_unit a) (abs_unit b)) (rep_unit os) \<and>
   unit_sub os a b = Option.bind (ext_add (abs_unit a) (ext_neg (abs_unit b))) (rep_unit os) \<and>
   Timestamp_plus t d = Option.bind (ext_add (abs_unit t) (abs_unit d)) (rep_unit True) \<and>
   Timestamp_minus t d =
     Option.bind (ext_add (abs_unit t) (ext_neg (abs_unit d))) (rep_unit True) \<and>
   Timestamp_diff t u =
     Option.bind (ext_add (abs_unit t) (ext_neg (abs_unit u))) (rep_unit False)"
  by (simp add: unit_add_rep unit_sub_rep Timestamp_rep)

text \<open>
  The difference of two finite time stamps always exists, and leads from one to the other in
  both directions; its sign says which is later.
\<close>

theorem timestamp_difference:
  assumes "unit_ok True t" and "unit_ok True u" and "IsFinite t" and "IsFinite u"
  shows "\<exists>d. Timestamp_diff t u = Some d \<and> Timestamp_plus u d = Some t \<and>
    Timestamp_minus t d = Some u \<and> (0 \<le> d \<longleftrightarrow> u \<le> t)"
proof -
  have r: "0 \<le> t" "t < PlusInfinity" "0 \<le> u" "u < PlusInfinity"
    using assms by (auto simp: unit_ok_iff unit_finite)
  then have d: "MinusInfinity < t - u" "t - u < PlusInfinity" by (auto simp: unit_consts)
  with r show ?thesis
    by (auto simp: Timestamp_rep unit_add_rep unit_sub_rep abs_unit_def unit_consts)
qed

lemma timestamp_difference_witness:
  "\<exists>d. Timestamp_diff 5 12 = Some d \<and> Timestamp_plus 12 d = Some 5"
  using timestamp_difference [of 5 12] by (auto simp: unit_ok_iff unit_finite unit_consts)

text \<open>
  Rounding to a resolution. For values that are not negative \<open>RoundDownTo\<close> is the greatest
  multiple below, \<open>RoundUpTo\<close> the least above and \<open>RoundTo\<close> a nearest one. For negative durations
  the division truncates the other way: \<open>RoundDownTo\<close> rounds up.
\<close>

theorem rounding_to_multiples:
  assumes "RoundDownTo os r v = Some d" and "RoundUpTo os r v = Some u" and "RoundTo os r v = Some n"
  shows "r dvd d \<and> r dvd u \<and> r dvd n \<and>
    (if 0 \<le> v then d \<le> v \<and> v < d + r \<and> v \<le> u \<and> u < v + r \<and> 2 * \<bar>n - v\<bar> \<le> r
     else v \<le> d \<and> d < v + r)"
proof -
  note r = RoundDownTo_cases [OF assms(1)]
  note u = RoundUpTo_cases [OF assms(2)]
  note n = RoundTo_cases [OF assms(3)]
  have "2 * \<bar>n - v\<bar> \<le> r" if "0 \<le> v"
    using half_sdiv [OF r(1)] sdiv_bounds(1) [OF r(1), of "v + r sdiv 2"] that n by (simp add: abs_if)
  moreover have "v \<le> u \<and> u < v + r" if "0 \<le> v"
    using sdiv_bounds(1) [OF r(1), of "v + r - 1"] that r(1) u by auto
  ultimately show ?thesis
    using sdiv_bounds [OF r(1), of v] r(2) u n by auto
qed

lemma rounding_to_multiples_witness:
  "RoundUpTo False 5 (- 7) = Some 0 \<and> (5 :: int) dvd - 5 \<and> - 7 \<le> (- 5 :: int)"
  using rounding_to_multiples [of False 5 "- 7" "- 5" 0 "- 5"]
  by (simp add: RoundDownTo_def RoundUpTo_def RoundTo_def finite_resolution_def unit_finite
      unit_mult_def ToValue_def FromValue_def int64_def unit_consts signed_divide_int_def)

text \<open>
  A value built from a coarser unit (milliseconds, seconds, bytes or kilobits per second,
  hertz) is read back in that unit as the same number, negative durations included; the rounding
  of the conversion never overflows on such values.
\<close>

theorem fraction_roundtrip:
  assumes "FromFraction os denominator n = Some v" and "0 < denominator"
  shows "ToFraction os denominator v = Some n"
proof -
  let ?d = denominator
  from assms have room: "n * ?d + ?d \<le> int64_max" "int64_min + ?d \<le> n * ?d"
    and v: "v = n * ?d" and os: "os \<Longrightarrow> 0 \<le> n"
    using fraction_room [OF assms(2), of n]
    by (auto simp: FromFraction_def not_less dest!: Some_int64 split: if_splits)
  note h = half_sdiv [OF assms(2)]
  have fin: "IsFinite v" using room assms(2) v by (auto simp: unit_finite PlusInfinity_def MinusInfinity_def)
  have half: "?d sdiv 2 < ?d" using h assms(2) by linarith
  show ?thesis
  proof (cases "0 \<le> n * ?d")
    case True
    then have "DivRoundPositiveToNearest v ?d = Some n" "DivRoundToNearest v ?d = Some n"
      using room h half v assms(2) sdiv_near(1) [OF assms(2) conjunct1 [OF h] half True]
      by (auto simp: DivRoundPositiveToNearest_def DivRoundToNearest_def int64_def unit_consts)
    with fin show ?thesis by (simp add: ToFraction_def)
  next
    case False
    then have neg: "n * ?d < 0" by simp
    then have "\<not> os" using os assms(2) by (auto simp: mult_less_0_iff)
    moreover have "DivRoundToNearest v ?d = Some n"
      using room h half v assms(2) neg sdiv_near(2) [OF assms(2) conjunct1 [OF h] half neg]
      by (auto simp: DivRoundToNearest_def half_sdiv_neg int64_def unit_consts)
    ultimately show ?thesis using fin by (simp add: ToFraction_def)
  qed
qed

lemma fraction_roundtrip_witness:
  "TimeDelta_Millis (- 1500) = Some (- 1500000) \<and> TimeDelta_ms (- 1500000) = Some (- 1500)"
  using fraction_roundtrip [of False 1000 "- 1500" "- 1500000"]
  by (simp add: TimeDelta_Millis_def TimeDelta_ms_def FromFraction_def int64_def unit_consts
      signed_divide_int_def)

lemma near_floor:
  "2 * \<bar>8000000 * s - x\<bar> \<le> 8000000 \<Longrightarrow> y \<le> 8000000 * s \<Longrightarrow> 8000000 * s < y + d \<Longrightarrow> 0 < d \<Longrightarrow>
    \<bar>y - x\<bar> \<le> 4000000 + (d :: int)"
  by (simp add: abs_le_iff)

text \<open>
  The size that a rate sends in a duration is the exact product rounded to the nearest byte,
  and the rate computed back from size and duration differs from the given one by no more than
  that half byte and the truncated fraction of a bit.
\<close>

theorem rate_duration_size:
  assumes "rate_times_duration r d = Some s" and "size_per_duration s d = Some r'"
    and "0 \<le> r" and "0 < d"
  shows "2 * \<bar>8000000 * s - r * d\<bar> \<le> 8000000 \<and> \<bar>r' - r\<bar> * d \<le> 4000000 + d"
proof -
  have s: "s = (r * d + 4000000) sdiv 8000000"
    using assms(1) by (auto simp: rate_times_duration_def bind_eq_Some_conv ToValue_def
        DataSize_Bytes_def FromValue_def dest!: Some_int64 split: if_splits)
  have r': "r' = s * 8000000 sdiv d"
    using assms(2) by (auto simp: size_per_duration_def bind_eq_Some_conv ToValue_def Microbits_def
        DataRate_BitsPerSec_def FromValue_def int64_div_def dest!: Some_int64 split: if_splits)
  have "0 \<le> r * d" using assms(3,4) by simp
  then have n: "2 * \<bar>8000000 * s - r * d\<bar> \<le> 8000000"
    using sdiv_bounds(1) [of 8000000 "r * d + 4000000"] s by (simp add: abs_if)
  have "0 \<le> s" using s \<open>0 \<le> r * d\<close> by (simp add: sdiv_nonneg)
  then have b: "r' * d \<le> 8000000 * s \<and> 8000000 * s < r' * d + d"
    using sdiv_bounds(1) [OF assms(4), of "s * 8000000"] r' by (simp add: mult.commute)
  have "\<bar>r' - r\<bar> * d = \<bar>r' * d - r * d\<bar>" using assms(4) by (simp add: abs_mult left_diff_distrib [symmetric])
  also have "\<dots> \<le> 4000000 + d"
    using near_floor [OF n] b assms(4) by simp
  finally show ?thesis using n by simp
qed

lemma rate_duration_size_witness:
  "rate_times_duration 300000 1000 = Some 38 \<and> \<bar>304000 - 300000 :: int\<bar> * 1000 \<le> 4000000 + 1000"
  using rate_duration_size [of 300000 1000 38 304000]
  by (simp add: rate_times_duration_def size_per_duration_def Microbits_def ToValue_def int64_def
      int64_div_def DataSize_Bytes_def DataRate_BitsPerSec_def FromValue_def unit_finite unit_consts
      signed_divide_int_def)

end
