(* ===== verification/Swap_Queue.thy ===== *)
theory Swap_Queue
  imports Prelude "HOL-Library.Multiset"
begin

text \<open>
  The bounded queue of \<open>rtc_base/swap_queue.h\<close> between one producer and one consumer thread.
  \<open>Insert\<close>, \<open>Remove\<close> and \<open>Clear\<close> are split at every access to shared memory (the atomic counter
  and the slots), and \<open>sq_exec\<close> runs any interleaving of the two threads' steps; the memory is
  sequentially consistent, which the acquire and release orderings of the code are there to give.
  Elements only move by swapping: the producer's and the consumer's own element are part of the
  state. Verifiers are not modelled.
\<close>

section \<open>State and steps\<close>

text \<open>Where a thread is inside its operation.\<close>

datatype producer_pc = P_idle | P_swap | P_add | P_advance
datatype consumer_pc = C_idle | C_swap | C_sub | C_advance | C_clear nat

record 'a swap_queue =
  slots :: "'a list"
  next_write_index :: nat
  next_read_index :: nat
  num_elements :: nat
  ppc :: producer_pc
  cpc :: consumer_pc
  in_item :: 'a
  out_item :: 'a
  insert_result :: "bool option"
  remove_result :: "bool option"

text \<open>A queue of \<open>size\<close> copies of a prototype and the two threads' first elements.\<close>

definition new_swap_queue :: "nat \<Rightarrow> 'a \<Rightarrow> 'a \<Rightarrow> 'a \<Rightarrow> 'a swap_queue" where
  "new_swap_queue n prototype i out =
     \<lparr>slots = replicate n prototype, next_write_index = 0, next_read_index = 0, num_elements = 0,
      ppc = P_idle, cpc = C_idle, in_item = i, out_item = out, insert_result = None,
      remove_result = None\<rparr>"

text \<open>Between two calls the owner of an element may put anything into it.\<close>

datatype 'a sq_event =
    Fill_input 'a
  | Insert_load
  | Insert_swap
  | Insert_fetch_add
  | Insert_advance
  | Drain_output 'a
  | Remove_load
  | Remove_swap
  | Remove_fetch_sub
  | Remove_advance
  | Clear_exchange
  | Clear_advance

definition wrap_index :: "'a swap_queue \<Rightarrow> nat \<Rightarrow> nat" where
  "wrap_index s i = (if i = length (slots s) then 0 else i)"

fun sq_exec :: "'a sq_event \<Rightarrow> 'a swap_queue \<Rightarrow> 'a swap_queue option" where
  "sq_exec (Fill_input x) s = (if ppc s = P_idle then Some (s\<lparr>in_item := x\<rparr>) else None)"
| "sq_exec Insert_load s =
     (if ppc s \<noteq> P_idle then None
      else if num_elements s = length (slots s) then Some (s\<lparr>insert_result := Some False\<rparr>)
      else Some (s\<lparr>ppc := P_swap, insert_result := None\<rparr>))"
| "sq_exec Insert_swap s =
     (if ppc s \<noteq> P_swap then None
      else Some (s\<lparr>in_item := slots s ! next_write_index s,
        slots := (slots s)[next_write_index s := in_item s], ppc := P_add\<rparr>))"
| "sq_exec Insert_fetch_add s =
     (if ppc s \<noteq> P_add then None
      else Some (s\<lparr>num_elements := num_elements s + 1, ppc := P_advance\<rparr>))"
| "sq_exec Insert_advance s =
     (if ppc s \<noteq> P_advance then None
      else Some (s\<lparr>next_write_index := wrap_index s (next_write_index s + 1), ppc := P_idle,
        insert_result := Some True\<rparr>))"
| "sq_exec (Drain_output x) s = (if cpc s = C_idle then Some (s\<lparr>out_item := x\<rparr>) else None)"
| "sq_exec Remove_load s =
     (if cpc s \<noteq> C_idle then None
      else if num_elements s = 0 then Some (s\<lparr>remove_result := Some False\<rparr>)
      else Some (s\<lparr>cpc := C_swap, remove_result := None\<rparr>))"
| "sq_exec Remove_swap s =
     (if cpc s \<noteq> C_swap then None
      else Some (s\<lparr>out_item := slots s ! next_read_index s,
        slots := (slots s)[next_read_index s := out_item s], cpc := C_sub\<rparr>))"
| "sq_exec Remove_fetch_sub s =
     (if cpc s \<noteq> C_sub then None
      else Some (s\<lparr>num_elements := num_elements s - 1, cpc := C_advance\<rparr>))"
| "sq_exec Remove_advance s =
     (if cpc s \<noteq> C_advance then None
      else Some (s\<lparr>next_read_index := wrap_index s (next_read_index s + 1), cpc := C_idle,
        remove_result := Some True\<rparr>))"
| "sq_exec Clear_exchange s =
     (if cpc s \<noteq> C_idle then None
      else Some (s\<lparr>num_elements := 0, cpc := C_clear (num_elements s)\<rparr>))"
| "sq_exec Clear_advance s =
     (case cpc s of
        C_clear n \<Rightarrow>
          (let r = next_read_index s + n in
           Some (s\<lparr>next_read_index := (if r \<ge> length (slots s) then r - length (slots s) else r),
             cpc := C_idle\<rparr>))
      | _ \<Rightarrow> None)"

definition SizeAtLeast :: "'a swap_queue \<Rightarrow> nat" where
  "SizeAtLeast s = num_elements s"

fun sq_run :: "'a sq_event list \<Rightarrow> 'a swap_queue \<Rightarrow> 'a swap_queue option" where
  "sq_run [] s = Some s"
| "sq_run (e # es) s = Option.bind (sq_exec e s) (sq_run es)"

section \<open>The abstract queue\<close>

text \<open>
  The read position once the consumer's pending advance is counted, and the elements that the
  counter covers. While a removal has swapped but not yet decremented, its slot is counted but
  no longer holds an element of the queue.
\<close>

fun read_offset :: "consumer_pc \<Rightarrow> nat" where
  "read_offset C_advance = 1"
| "read_offset (C_clear n) = n"
| "read_offset _ = 0"

definition read_pos :: "'a swap_queue \<Rightarrow> nat" where
  "read_pos s = next_read_index s + read_offset (cpc s)"

definition write_pos :: "'a swap_queue \<Rightarrow> nat" where
  "write_pos s = next_write_index s + (if ppc s = P_advance then 1 else 0)"

definition removing :: "'a swap_queue \<Rightarrow> nat" where
  "removing s = (if cpc s = C_sub then 1 else 0)"

definition view :: "'a swap_queue \<Rightarrow> 'a list" where
  "view s = map (\<lambda>i. slots s ! ((read_pos s + i) mod length (slots s))) [removing s..<num_elements s]"

definition sq_inv :: "'a swap_queue \<Rightarrow> bool" where
  "sq_inv s \<longleftrightarrow>
     next_write_index s < length (slots s) \<and> next_read_index s < length (slots s) \<and>
     num_elements s \<le> length (slots s) \<and>
     write_pos s mod length (slots s) = (read_pos s + num_elements s) mod length (slots s) \<and>
     (ppc s \<in> {P_swap, P_add} \<longrightarrow> num_elements s < length (slots s)) \<and>
     (cpc s \<in> {C_swap, C_sub} \<longrightarrow> 0 < num_elements s) \<and>
     (\<forall>n. cpc s = C_clear n \<longrightarrow> n \<le> length (slots s))"

text \<open>The abstract effect of a step: insertions take effect at the increment, removals at the swap.\<close>

fun view_step :: "'a sq_event \<Rightarrow> 'a swap_queue \<Rightarrow> 'a list \<Rightarrow> 'a list" where
  "view_step Insert_fetch_add s q = q @ [slots s ! next_write_index s]"
| "view_step Remove_swap s q = tl q"
| "view_step Clear_exchange s q = []"
| "view_step _ s q = q"

lemma mod_shift_neq:
  assumes "k < n" and "j < n" and "j \<noteq> k"
  shows "(p + j) mod n \<noteq> (p + k) mod (n :: nat)"
proof
  assume a: "(p + j) mod n = (p + k) mod n"
  have "int n dvd (int p + int j) - (int p + int k)"
    using arg_cong [OF a, of int] by (simp add: zmod_int mod_eq_dvd_iff)
  then have "int n dvd int j - int k" by simp
  then have "int j = int k"
    using assms zdvd_imp_le [of "int n" "int j - int k"] zdvd_imp_le [of "int n" "int k - int j"]
    by (cases "int j" "int k" rule: linorder_cases) (auto simp: dvd_diff_commute)
  with assms(3) show False by simp
qed

lemma wrap_mod: "i < n \<Longrightarrow> (if Suc i = n then 0 else Suc i) = Suc i mod n"
  by simp

lemma write_slot:
  assumes "sq_inv s" and "ppc s \<noteq> P_advance"
  shows "next_write_index s = (read_pos s + num_elements s) mod length (slots s)"
  using assms by (auto simp: sq_inv_def write_pos_def)

text \<open>A slot outside the view can be overwritten.\<close>

lemma view_overwrite:
  assumes "\<forall>i \<in> {removing s..<num_elements s}. (read_pos s + i) mod length (slots s) \<noteq> k"
  shows "map (\<lambda>i. (slots s)[k := x] ! ((read_pos s + i) mod length (slots s)))
    [removing s..<num_elements s] = view s"
  using assms by (auto simp: view_def)

lemma suc_mod: "a mod n = b mod n \<Longrightarrow> Suc a mod n = Suc b mod (n :: nat)"
  by (metis mod_Suc_eq)

lemma less_length_nonempty: "i < length xs \<Longrightarrow> xs \<noteq> []"
  by auto

lemma wrap_index_less: "i < length (slots s) \<Longrightarrow> wrap_index s (i + 1) < length (slots s)"
  using less_length_nonempty [of i "slots s"] by (auto simp: wrap_index_def)

lemma wrap_index_mod: "i < length (slots s) \<Longrightarrow> wrap_index s (i + 1) = Suc i mod length (slots s)"
  using less_length_nonempty [of i "slots s"] by (auto simp: wrap_index_def)

lemma minus_mod: "n \<le> r \<Longrightarrow> (r - n + k) mod n = (r + k) mod (n :: nat)"
  using mod_add_self2 [of "r - n + k" n] by simp

lemma sq_inv_step:
  assumes step: "sq_exec e s = Some s'" and inv: "sq_inv s"
  shows "sq_inv s'"
proof (cases e)
  case Insert_load
  with step inv show ?thesis
    by (auto simp: sq_inv_def write_pos_def read_pos_def split: if_splits)
next
  case Insert_swap
  with step inv show ?thesis
    by (auto simp: sq_inv_def write_pos_def read_pos_def split: if_splits)
next
  case Insert_fetch_add
  with step have s': "s' = s\<lparr>num_elements := num_elements s + 1, ppc := P_advance\<rparr>" "ppc s = P_add"
    by (auto split: if_splits)
  with inv suc_mod [of "write_pos s" "length (slots s)" "read_pos s + num_elements s"] show ?thesis
    by (auto simp: sq_inv_def write_pos_def read_pos_def)
next
  case Insert_advance
  with step have s': "s' = s\<lparr>next_write_index := wrap_index s (next_write_index s + 1),
      ppc := P_idle, insert_result := Some True\<rparr>" "ppc s = P_advance"
    by (auto split: if_splits)
  with inv wrap_index_less [of "next_write_index s" s] wrap_index_mod [of "next_write_index s" s]
  show ?thesis by (auto simp: sq_inv_def write_pos_def read_pos_def)
next
  case Remove_load
  with step inv show ?thesis
    by (auto simp: sq_inv_def write_pos_def read_pos_def split: if_splits)
next
  case Remove_swap
  with step inv show ?thesis
    by (auto simp: sq_inv_def write_pos_def read_pos_def split: if_splits)
next
  case Remove_fetch_sub
  with step have s': "s' = s\<lparr>num_elements := num_elements s - 1, cpc := C_advance\<rparr>" "cpc s = C_sub"
    by (auto split: if_splits)
  with inv show ?thesis by (auto simp: sq_inv_def write_pos_def read_pos_def)
next
  case Remove_advance
  with step have s': "s' = s\<lparr>next_read_index := wrap_index s (next_read_index s + 1),
      cpc := C_idle, remove_result := Some True\<rparr>" "cpc s = C_advance"
    by (auto split: if_splits)
  with inv wrap_index_less [of "next_read_index s" s] wrap_index_mod [of "next_read_index s" s]
  show ?thesis by (auto simp: sq_inv_def write_pos_def read_pos_def mod_add_left_eq)
next
  case Clear_exchange
  with step inv show ?thesis
    by (auto simp: sq_inv_def write_pos_def read_pos_def split: if_splits)
next
  case Clear_advance
  with step obtain n where n: "cpc s = C_clear n" by (auto split: consumer_pc.splits)
  let ?r = "next_read_index s + n"
  let ?r' = "if ?r \<ge> length (slots s) then ?r - length (slots s) else ?r"
  have s': "s' = s\<lparr>next_read_index := ?r', cpc := C_idle\<rparr>"
    using step Clear_advance n by (simp add: Let_def)
  have less: "?r' < length (slots s)" using inv n by (auto simp: sq_inv_def)
  have "(?r' + num_elements s) mod length (slots s) = (?r + num_elements s) mod length (slots s)"
    using minus_mod [of "length (slots s)" ?r "num_elements s"] by simp
  moreover have "write_pos s mod length (slots s) = (?r + num_elements s) mod length (slots s)"
    using inv n by (simp add: sq_inv_def read_pos_def)
  ultimately have "write_pos s' mod length (slots s') =
      (read_pos s' + num_elements s') mod length (slots s')"
    unfolding s' by (simp add: write_pos_def read_pos_def)
  with inv less show ?thesis unfolding s' sq_inv_def by simp
qed (use step inv in \<open>auto simp: sq_inv_def write_pos_def read_pos_def split: if_splits\<close>)

lemma view_cong:
  "slots s' = slots s \<Longrightarrow> removing s' = removing s \<Longrightarrow> num_elements s' = num_elements s \<Longrightarrow>
    read_pos s' mod length (slots s) = read_pos s mod length (slots s) \<Longrightarrow> view s' = view s"
  by (auto simp: view_def intro!: map_cong arg_cong [where f = "nth (slots s)"] mod_add_cong)

lemma sq_refines:
  assumes step: "sq_exec e s = Some s'" and inv: "sq_inv s"
  shows "view s' = view_step e s (view s)"
proof (cases e)
  case Insert_swap
  let ?n = "length (slots s)" and ?w = "next_write_index s"
  have s': "s' = s\<lparr>in_item := slots s ! ?w, slots := (slots s)[?w := in_item s], ppc := P_add\<rparr>"
    and pc: "ppc s = P_swap" using step Insert_swap by (auto split: if_splits)
  have num: "num_elements s < ?n" using inv pc by (simp add: sq_inv_def)
  have w: "?w = (read_pos s + num_elements s) mod ?n" using write_slot [OF inv] pc by simp
  have "\<forall>i \<in> {removing s..<num_elements s}. (read_pos s + i) mod ?n \<noteq> ?w"
    unfolding w using mod_shift_neq [OF num] num by auto
  from view_overwrite [OF this, of "in_item s"] show ?thesis
    unfolding s' Insert_swap by (simp add: view_def read_pos_def removing_def)
next
  case Insert_fetch_add
  have s': "s' = s\<lparr>num_elements := num_elements s + 1, ppc := P_advance\<rparr>" and pc: "ppc s = P_add"
    using step Insert_fetch_add by (auto split: if_splits)
  have w: "next_write_index s = (read_pos s + num_elements s) mod length (slots s)"
    using write_slot [OF inv] pc by simp
  have "removing s \<le> num_elements s" using inv by (auto simp: removing_def sq_inv_def)
  then show ?thesis
    unfolding s' Insert_fetch_add using w by (simp add: view_def read_pos_def removing_def)
next
  case Remove_swap
  let ?n = "length (slots s)" and ?r = "next_read_index s"
  have s': "s' = s\<lparr>out_item := slots s ! ?r, slots := (slots s)[?r := out_item s], cpc := C_sub\<rparr>"
    and pc: "cpc s = C_swap" using step Remove_swap by (auto split: if_splits)
  have num: "0 < num_elements s" "num_elements s \<le> ?n" "?r < ?n" using inv pc by (auto simp: sq_inv_def)
  have "?r \<noteq> (?r + i) mod ?n" if "0 < i" "i < num_elements s" for i
    using mod_shift_neq [of 0 ?n i ?r] that num less_length_nonempty [OF num(3)] by simp
  then have "map (\<lambda>i. (slots s)[?r := out_item s] ! ((?r + i) mod ?n)) [1..<num_elements s] =
      map (\<lambda>i. slots s ! ((?r + i) mod ?n)) [1..<num_elements s]" by auto
  then show ?thesis
    unfolding s' Remove_swap using num(1) pc
    by (simp add: view_def read_pos_def removing_def upt_conv_Cons)
next
  case Remove_fetch_sub
  have s': "s' = s\<lparr>num_elements := num_elements s - 1, cpc := C_advance\<rparr>" and pc: "cpc s = C_sub"
    using step Remove_fetch_sub by (auto split: if_splits)
  have "0 < num_elements s" using inv pc by (auto simp: sq_inv_def)
  then have "[1..<num_elements s] = map Suc [0..<num_elements s - 1]" by (simp add: map_Suc_upt)
  then show ?thesis
    unfolding s' Remove_fetch_sub using pc by (simp add: view_def read_pos_def removing_def comp_def)
next
  case Remove_advance
  have s': "s' = s\<lparr>next_read_index := wrap_index s (next_read_index s + 1),
      cpc := C_idle, remove_result := Some True\<rparr>" and pc: "cpc s = C_advance"
    using step Remove_advance by (auto split: if_splits)
  have "next_read_index s < length (slots s)" using inv by (simp add: sq_inv_def)
  from wrap_index_mod [OF this] show ?thesis
    unfolding s' Remove_advance view_step.simps using pc
    by (intro view_cong) (auto simp: read_pos_def removing_def)
next
  case Clear_exchange
  with step show ?thesis by (auto simp: view_def split: if_splits)
next
  case Clear_advance
  with step obtain n where n: "cpc s = C_clear n" by (auto split: consumer_pc.splits)
  let ?r = "next_read_index s + n"
  have s': "s' = s\<lparr>next_read_index :=
      (if ?r \<ge> length (slots s) then ?r - length (slots s) else ?r), cpc := C_idle\<rparr>"
    using step Clear_advance n by (simp add: Let_def)
  have "(?r - length (slots s)) mod length (slots s) = ?r mod length (slots s)"
    if "length (slots s) \<le> ?r" using that by (simp add: le_mod_geq)
  then show ?thesis
    unfolding s' Clear_advance view_step.simps using n
    by (intro view_cong) (auto simp: read_pos_def removing_def)
qed (use step in \<open>auto simp: view_def read_pos_def removing_def wrap_index_def split: if_splits\<close>)

lemma sq_inv_init: "0 < n \<Longrightarrow> sq_inv (new_swap_queue n p i out)"
  by (simp add: sq_inv_def new_swap_queue_def write_pos_def read_pos_def)

lemma sq_inv_run: "sq_run es s = Some s' \<Longrightarrow> sq_inv s \<Longrightarrow> sq_inv s'"
  by (induction es arbitrary: s) (auto dest: sq_inv_step split: Option.bind_splits)

lemma sq_length_step: "sq_exec e s = Some s' \<Longrightarrow> length (slots s') = length (slots s)"
  by (cases e) (auto simp: Let_def split: if_splits consumer_pc.splits)

lemma sq_length_run: "sq_run es s = Some s' \<Longrightarrow> length (slots s') = length (slots s)"
  by (induction es arbitrary: s) (auto dest: sq_length_step split: Option.bind_splits)

lemma sq_reach:
  assumes "sq_run es (new_swap_queue n p i out) = Some s" and "0 < n"
  shows "sq_inv s" and "length (slots s) = n"
  using sq_inv_run [OF assms(1) sq_inv_init [OF assms(2)]] sq_length_run [OF assms(1)]
  by (simp_all add: new_swap_queue_def)

section \<open>Histories\<close>

text \<open>
  What \<open>Insert\<close> has swapped in during a run, and what has left the queue: swapped out by
  \<open>Remove\<close> or dropped by \<open>Clear\<close>. An element that is swapped in but not yet counted is pending.
\<close>

fun inserted :: "'a sq_event list \<Rightarrow> 'a swap_queue \<Rightarrow> 'a list" where
  "inserted [] s = []"
| "inserted (e # es) s =
     (if e = Insert_swap then [in_item s] else [])
     @ (case sq_exec e s of None \<Rightarrow> [] | Some s' \<Rightarrow> inserted es s')"

fun taken :: "'a sq_event list \<Rightarrow> 'a swap_queue \<Rightarrow> 'a list" where
  "taken [] s = []"
| "taken (e # es) s =
     (case sq_exec e s of
        None \<Rightarrow> []
      | Some s' \<Rightarrow>
          (if e = Remove_swap then [out_item s'] else if e = Clear_exchange then view s else [])
          @ taken es s')"

definition pending :: "'a swap_queue \<Rightarrow> 'a list" where
  "pending s = (if ppc s = P_add then [slots s ! next_write_index s] else [])"

text \<open>The two threads never have the same slot in hand.\<close>

lemma slots_apart:
  assumes "sq_inv s" and "ppc s \<in> {P_swap, P_add}" and "cpc s \<in> {C_swap, C_sub}"
  shows "next_write_index s \<noteq> next_read_index s"
proof -
  have "next_write_index s = (read_pos s + num_elements s) mod length (slots s)"
    using write_slot [OF assms(1)] assms(2) by auto
  moreover have "(read_pos s + num_elements s) mod length (slots s) \<noteq>
      (read_pos s + 0) mod length (slots s)"
    using assms by (intro mod_shift_neq) (auto simp: sq_inv_def)
  moreover have "read_pos s = next_read_index s" using assms(3) by (auto simp: read_pos_def)
  moreover have "next_read_index s < length (slots s)" using assms(1) by (simp add: sq_inv_def)
  ultimately show ?thesis by simp
qed

lemma view_nonempty:
  assumes "sq_inv s" and "cpc s = C_swap"
  shows "view s \<noteq> []" and "hd (view s) = slots s ! next_read_index s"
proof -
  have "0 < num_elements s" "next_read_index s < length (slots s)"
    using assms by (auto simp: sq_inv_def)
  then show "view s \<noteq> []" "hd (view s) = slots s ! next_read_index s"
    using assms(2) by (auto simp: view_def removing_def read_pos_def upt_conv_Cons)
qed

lemma history_step:
  assumes step: "sq_exec e s = Some s'" and inv: "sq_inv s"
  shows "view s @ pending s @ (if e = Insert_swap then [in_item s] else []) =
    (if e = Remove_swap then [out_item s'] else if e = Clear_exchange then view s else [])
    @ view s' @ pending s'"
proof (cases e)
  case Insert_swap
  with step inv sq_refines [OF step inv] show ?thesis
    by (auto simp: pending_def sq_inv_def split: if_splits)
next
  case Remove_swap
  then have pc: "cpc s = C_swap" using step by (auto split: if_splits)
  have "pending s' = pending s"
    using step Remove_swap slots_apart [OF inv] pc by (auto simp: pending_def split: if_splits)
  moreover have "view s = out_item s' # view s'"
    using step Remove_swap sq_refines [OF step inv] view_nonempty [OF inv pc]
    by (cases "view s") (auto split: if_splits)
  ultimately show ?thesis using Remove_swap by simp
next
  case Clear_advance
  with step sq_refines [OF step inv] show ?thesis
    by (auto simp: pending_def Let_def split: consumer_pc.splits)
qed (use step sq_refines [OF step inv] in \<open>auto simp: pending_def split: if_splits\<close>)

lemma history_run:
  "sq_run es s = Some s' \<Longrightarrow> sq_inv s \<Longrightarrow>
    view s @ pending s @ inserted es s = taken es s @ view s' @ pending s'"
proof (induction es arbitrary: s)
  case (Cons e es)
  from Cons.prems obtain s1 where s1: "sq_exec e s = Some s1" "sq_run es s1 = Some s'"
    by (auto split: Option.bind_splits)
  from Cons.IH [OF s1(2) sq_inv_step [OF s1(1) Cons.prems(2)]]
  have "view s1 @ pending s1 @ inserted es s1 = taken es s1 @ view s' @ pending s'" .
  then have "(view s @ pending s @ (if e = Insert_swap then [in_item s] else [])) @ inserted es s1 =
      (if e = Remove_swap then [out_item s1] else if e = Clear_exchange then view s else [])
      @ taken es s1 @ view s' @ pending s'"
    unfolding history_step [OF s1(1) Cons.prems(2)] by simp
  with s1(1) show ?case by simp
qed simp

lemma swap_mset:
  "i < length xs \<Longrightarrow> add_mset (xs ! i) (mset (xs[i := x])) = add_mset x (mset xs)"
  by (simp add: mset_update)

section \<open>Properties\<close>

text \<open>
  C6: The queue is first-in first-out under every interleaving of the two threads: what has left
  it (removed, or dropped by \<open>Clear\<close>), then what it holds, then the element whose insertion is
  not yet counted, are exactly the inserted elements in order. It never holds more than its size.
\<close>

theorem swap_queue_fifo:
  assumes "sq_run es (new_swap_queue n p i out) = Some s" and "0 < n"
  shows "inserted es (new_swap_queue n p i out) =
      taken es (new_swap_queue n p i out) @ view s @ pending s \<and> length (view s) \<le> n"
proof -
  have "view (new_swap_queue n p i out) = []" "pending (new_swap_queue n p i out) = []"
    by (simp_all add: view_def pending_def new_swap_queue_def)
  with history_run [OF assms(1) sq_inv_init [OF assms(2)]]
  have "inserted es (new_swap_queue n p i out) =
      taken es (new_swap_queue n p i out) @ view s @ pending s" by simp
  moreover have "length (view s) \<le> n"
    using sq_reach [OF assms] by (auto simp: view_def sq_inv_def)
  ultimately show ?thesis by simp
qed

lemma swap_queue_fifo_witness:
  "\<exists>s. sq_run [Insert_load, Insert_swap, Insert_fetch_add, Remove_load, Remove_swap, Insert_advance,
      Fill_input 5, Insert_load, Insert_swap] (new_swap_queue 2 0 7 (0 :: nat)) = Some s \<and>
    [7, 5] = [7] @ view s @ pending s"
  using swap_queue_fifo [of "[Insert_load, Insert_swap, Insert_fetch_add, Remove_load, Remove_swap,
      Insert_advance, Fill_input 5, Insert_load, Insert_swap]" 2 0 7 "0 :: nat"]
  by (simp add: new_swap_queue_def wrap_index_def numeral_2_eq_2)

text \<open>
  The two threads never have the same slot in hand, all indices stay in range, and elements
  are only ever exchanged: apart from what their owners put into them between calls, no step
  copies or loses one.
\<close>

theorem swap_queue_race_free:
  assumes "sq_run es (new_swap_queue n p i out) = Some s" and "0 < n"
    and "sq_exec e s = Some s'" and "\<forall>x. e \<noteq> Fill_input x \<and> e \<noteq> Drain_output x"
  shows "next_write_index s < n \<and> next_read_index s < n \<and> num_elements s \<le> n \<and>
    \<not> (ppc s \<in> {P_swap, P_add} \<and> cpc s \<in> {C_swap, C_sub} \<and>
      next_write_index s = next_read_index s) \<and>
    {#in_item s', out_item s'#} + mset (slots s') = {#in_item s, out_item s#} + mset (slots s)"
proof -
  note inv = sq_reach [OF assms(1,2)]
  have "{#in_item s', out_item s'#} + mset (slots s') = {#in_item s, out_item s#} + mset (slots s)"
    using assms(3,4) inv(1)
    by (cases e) (auto simp: sq_inv_def swap_mset Let_def add_mset_commute split: if_splits consumer_pc.splits)
  with inv slots_apart [OF inv(1)] show ?thesis by (auto simp: sq_inv_def)
qed

lemma swap_queue_race_free_witness:
  "\<exists>s s'. sq_run [Insert_load] (new_swap_queue 2 0 7 (1 :: nat)) = Some s \<and>
    sq_exec Insert_swap s = Some s' \<and>
    {#in_item s', out_item s'#} + mset (slots s') = {#7, 1#} + {#0, 0#}"
  using swap_queue_race_free [of "[Insert_load]" 2 0 7 "1 :: nat" _ Insert_swap]
  by (simp add: new_swap_queue_def numeral_2_eq_2)

end
