(* ===== verification/Percentile.thy ===== *)
theory Percentile
  imports Prelude "HOL-Library.Multiset"
begin

text \<open>
  \<open>PercentileFilter\<close> of \<open>rtc_base/numerics/percentile_filter.h\<close>. The \<open>std::multiset\<close> is its
  elements in order, an iterator the position of its element (the length of the list is
  \<open>end()\<close>). A new element goes to the upper bound of its equals; an iterator keeps pointing at
  its element. The code keeps in \<open>percentile_index_\<close> its own idea of the iterator's position, by
  comparing values only. The wanted index, \<open>percentile_ * (size - 1)\<close>, is computed in \<open>float\<close>.
\<close>

section \<open>The index in single precision\<close>

text \<open>
  A nonnegative \<open>float\<close> as significand and binary exponent. The operations of IEEE single
  precision round the exact result to 24 bits, or to multiples of \<open>2 ^ -149\<close>, the nearest and
  on a tie the even one. Results stay far below the largest \<open>float\<close>.
\<close>

type_synonym single = "nat \<times> int"

fun bit_length :: "nat \<Rightarrow> nat" where
  "bit_length m = (if m = 0 then 0 else Suc (bit_length (m div 2)))"

declare bit_length.simps [simp del]

lemma bit_length_eval [simp]:
  "bit_length 0 = 0" "bit_length (Suc 0) = 1"
  "bit_length (numeral n) = Suc (bit_length (numeral n div 2))"
  by (simp_all add: bit_length.simps [of 0] bit_length.simps [of "Suc 0"] bit_length.simps [of "numeral n"])

definition round_even :: "nat \<Rightarrow> nat \<Rightarrow> nat" where
  "round_even m s =
     (let q = m div 2 ^ s; r = m mod 2 ^ s in
      if 2 ^ s < 2 * r \<or> 2 ^ s = 2 * r \<and> odd q then q + 1 else q)"

definition round_single :: "single \<Rightarrow> single" where
  "round_single x =
     (case x of (m, e) \<Rightarrow>
        let s = max (bit_length m - 24) (nat (- 149 - e)) in (round_even m s, e + int s))"

definition single_of_nat :: "nat \<Rightarrow> single" where
  "single_of_nat n = round_single (n, 0)"

definition single_mult :: "single \<Rightarrow> single \<Rightarrow> single" where
  "single_mult x y = round_single (fst x * fst y, snd x + snd y)"

definition single_trunc :: "single \<Rightarrow> nat" where
  "single_trunc x =
     (case x of (m, e) \<Rightarrow> if 0 \<le> e then m * 2 ^ nat e else m div 2 ^ nat (- e))"

definition float_index :: "single \<Rightarrow> nat \<Rightarrow> nat" where
  "float_index p n = single_trunc (single_mult p (single_of_nat (n - 1)))"

text \<open>The values that the constructor's checks admit: from \<open>0.0f\<close> to \<open>1.0f\<close>.\<close>

definition is_percentile :: "single \<Rightarrow> bool" where
  "is_percentile p \<longleftrightarrow> fst p < 2 ^ 24 \<and> - 149 \<le> snd p \<and> snd p \<le> 0 \<and> fst p \<le> 2 ^ nat (- snd p)"






text \<open>It is not for more: with \<open>1.0f\<close> and 16777220 elements the index is that of \<open>end()\<close>.\<close>

lemma float_index_too_big: "is_percentile (1, 0) \<and> float_index (1, 0) 16777220 = 16777220"
  by (simp add: is_percentile_def float_index_def single_of_nat_def single_mult_def single_trunc_def
      round_single_def round_even_def Let_def)

section \<open>The filter\<close>











section \<open>Positions in a sorted list\<close>





section \<open>The index is the iterator's position\<close>









section \<open>Observations as a multiset\<close>










section \<open>Properties\<close>



end
