(* ===== verification/Flat_Tree.thy ===== *)
theory Flat_Tree
  imports Map_Contract Sorted_Map "HOL-Library.Multiset"
begin

text \<open>
  The sorted vector behind \<open>flat_set\<close> and \<open>flat_map\<close> (\<open>rtc_base/containers/flat_tree.h\<close>). The
  container \<open>body_\<close> is the list of values, an iterator is a position in it (\<open>end()\<close> is the length).
  The template arguments \<open>GetKeyFromValue\<close> and \<open>KeyCompare\<close> are the arguments \<open>key\<close> and \<open>cmp\<close>; the
  class has no other state. The standard algorithms the code calls (\<open>lower_bound\<close>, \<open>stable_sort\<close>,
  \<open>unique\<close>, \<open>inplace_merge\<close>, \<open>remove_if\<close>) come first, then the operations in the order of the file.
  \<open>RTC_CHECK\<close> ends the program when its condition fails: the value is then \<open>None\<close>.

  The contract is stated for any strict weak order. \<open>first_of\<close> is the abstraction: the first value of
  a list whose key is equivalent to a given one. Every algorithm keeps it, and two sorted lists
  with the same \<open>first_of\<close> are equal, which gives the equivalences between the fast and the simple
  routines.
\<close>

type_synonym 'v flat_tree = "'v list"
type_synonym iterator = nat

section \<open>The standard algorithms\<close>

text \<open>The binary search of \<open>std::lower_bound\<close> and \<open>std::upper_bound\<close> over \<open>[at, at + len)\<close>.\<close>

function partition_pos :: "('v \<Rightarrow> bool) \<Rightarrow> 'v list \<Rightarrow> nat \<Rightarrow> nat \<Rightarrow> nat" where
  "partition_pos p xs at len =
     (if len = 0 then at
      else if p (xs ! (at + len div 2)) then partition_pos p xs (at + len div 2 + 1) (len - len div 2 - 1)
      else partition_pos p xs at (len div 2))"
  by pat_completeness auto

termination
  by (relation "measure (\<lambda>(p, xs, at, len). len)") auto

declare partition_pos.simps [simp del]

fun stable_insert :: "('v \<Rightarrow> 'v \<Rightarrow> bool) \<Rightarrow> 'v \<Rightarrow> 'v list \<Rightarrow> 'v list" where
  "stable_insert lt x [] = [x]"
| "stable_insert lt x (y # ys) =
     (if lt y x then y # stable_insert lt x ys else x # y # ys)"

definition stable_sort :: "('v \<Rightarrow> 'v \<Rightarrow> bool) \<Rightarrow> 'v list \<Rightarrow> 'v list" where
  "stable_sort lt xs = foldr (stable_insert lt) xs []"

fun std_unique :: "('v \<Rightarrow> 'v \<Rightarrow> bool) \<Rightarrow> 'v list \<Rightarrow> 'v list" where
  "std_unique same [] = []"
| "std_unique same [x] = [x]"
| "std_unique same (x # y # xs) =
     (if same x y then std_unique same (x # xs) else x # std_unique same (y # xs))"

fun std_merge :: "('v \<Rightarrow> 'v \<Rightarrow> bool) \<Rightarrow> 'v list \<Rightarrow> 'v list \<Rightarrow> 'v list" where
  "std_merge lt [] ys = ys"
| "std_merge lt xs [] = xs"
| "std_merge lt (x # xs) (y # ys) =
     (if lt y x then y # std_merge lt (x # xs) ys else x # std_merge lt xs (y # ys))"

definition inplace_merge :: "('v \<Rightarrow> 'v \<Rightarrow> bool) \<Rightarrow> nat \<Rightarrow> nat \<Rightarrow> 'v list \<Rightarrow> 'v list" where
  "inplace_merge lt at middle xs =
     take at xs @ std_merge lt (drop at (take middle xs)) (drop middle xs)"

section \<open>The tree\<close>

definition value_compare :: "('v \<Rightarrow> 'k) \<Rightarrow> ('k \<Rightarrow> 'k \<Rightarrow> bool) \<Rightarrow> 'v \<Rightarrow> 'v \<Rightarrow> bool" where
  "value_compare key cmp l r = cmp (key l) (key r)"

text \<open>\<open>adjacent_find\<close> of \<open>not_fn(comp)\<close> finds nothing.\<close>

fun is_sorted_and_unique :: "('v \<Rightarrow> 'v \<Rightarrow> bool) \<Rightarrow> 'v list \<Rightarrow> bool" where
  "is_sorted_and_unique lt (x # y # xs) \<longleftrightarrow> lt x y \<and> is_sorted_and_unique lt (y # xs)"
| "is_sorted_and_unique lt _ \<longleftrightarrow> True"

text \<open>
  \<open>InsertionSort\<close>: the inner loop swaps the element at \<open>curr\<close> down, the outer one starts it at
  every position after the first.
\<close>

primrec swap_down :: "('v \<Rightarrow> 'v \<Rightarrow> bool) \<Rightarrow> nat \<Rightarrow> 'v list \<Rightarrow> 'v list" where
  "swap_down lt 0 xs = xs"
| "swap_down lt (Suc c) xs =
     (if lt (xs ! Suc c) (xs ! c) then swap_down lt c (xs[Suc c := xs ! c, c := xs ! Suc c]) else xs)"

definition InsertionSort :: "('v \<Rightarrow> 'v \<Rightarrow> bool) \<Rightarrow> 'v list \<Rightarrow> 'v list" where
  "InsertionSort lt xs = (if xs = [] then xs else fold (swap_down lt) [1..<length xs] xs)"

definition flat_sort_and_unique ::
  "('v \<Rightarrow> 'k) \<Rightarrow> ('k \<Rightarrow> 'k \<Rightarrow> bool) \<Rightarrow> iterator \<Rightarrow> iterator \<Rightarrow> 'v flat_tree \<Rightarrow> 'v flat_tree" where
  "flat_sort_and_unique key cmp a b t =
     take a t @
     std_unique (\<lambda>l r. \<not> value_compare key cmp l r)
       (stable_sort (value_compare key cmp) (drop a (take b t))) @
     drop b t"

definition new_flat_tree :: "('v \<Rightarrow> 'k) \<Rightarrow> ('k \<Rightarrow> 'k \<Rightarrow> bool) \<Rightarrow> 'v list \<Rightarrow> 'v flat_tree" where
  "new_flat_tree key cmp items = flat_sort_and_unique key cmp 0 (length items) items"

definition new_flat_tree_sorted ::
  "bool \<Rightarrow> ('v \<Rightarrow> 'k) \<Rightarrow> ('k \<Rightarrow> 'k \<Rightarrow> bool) \<Rightarrow> 'v list \<Rightarrow> 'v flat_tree option" where
  "new_flat_tree_sorted dcheck_is_on key cmp items =
     (if dcheck_is_on \<and> \<not> is_sorted_and_unique (value_compare key cmp) items then None
      else Some items)"

definition flat_assign :: "('v \<Rightarrow> 'k) \<Rightarrow> ('k \<Rightarrow> 'k \<Rightarrow> bool) \<Rightarrow> 'v list \<Rightarrow> 'v flat_tree \<Rightarrow> 'v flat_tree" where
  "flat_assign key cmp ilist t = flat_sort_and_unique key cmp 0 (length ilist) ilist"

section \<open>Search\<close>

definition flat_lower_bound :: "('v \<Rightarrow> 'k) \<Rightarrow> ('k \<Rightarrow> 'k \<Rightarrow> bool) \<Rightarrow> 'v flat_tree \<Rightarrow> 'k \<Rightarrow> iterator" where
  "flat_lower_bound key cmp t k = partition_pos (\<lambda>v. cmp (key v) k) t 0 (length t)"

definition flat_upper_bound :: "('v \<Rightarrow> 'k) \<Rightarrow> ('k \<Rightarrow> 'k \<Rightarrow> bool) \<Rightarrow> 'v flat_tree \<Rightarrow> 'k \<Rightarrow> iterator" where
  "flat_upper_bound key cmp t k = partition_pos (\<lambda>v. \<not> cmp k (key v)) t 0 (length t)"

definition flat_equal_range ::
  "('v \<Rightarrow> 'k) \<Rightarrow> ('k \<Rightarrow> 'k \<Rightarrow> bool) \<Rightarrow> 'v flat_tree \<Rightarrow> 'k \<Rightarrow> iterator \<times> iterator" where
  "flat_equal_range key cmp t k =
     (let lower = flat_lower_bound key cmp t k in
      if lower = length t \<or> cmp k (key (t ! lower)) then (lower, lower) else (lower, lower + 1))"

definition flat_count :: "('v \<Rightarrow> 'k) \<Rightarrow> ('k \<Rightarrow> 'k \<Rightarrow> bool) \<Rightarrow> 'v flat_tree \<Rightarrow> 'k \<Rightarrow> nat" where
  "flat_count key cmp t k = (let (a, b) = flat_equal_range key cmp t k in b - a)"

definition flat_find :: "('v \<Rightarrow> 'k) \<Rightarrow> ('k \<Rightarrow> 'k \<Rightarrow> bool) \<Rightarrow> 'v flat_tree \<Rightarrow> 'k \<Rightarrow> iterator" where
  "flat_find key cmp t k =
     (let (a, b) = flat_equal_range key cmp t k in if a = b then length t else a)"

definition flat_contains :: "('v \<Rightarrow> 'k) \<Rightarrow> ('k \<Rightarrow> 'k \<Rightarrow> bool) \<Rightarrow> 'v flat_tree \<Rightarrow> 'k \<Rightarrow> bool" where
  "flat_contains key cmp t k =
     (let lower = flat_lower_bound key cmp t k in
      lower \<noteq> length t \<and> \<not> cmp k (key (t ! lower)))"

section \<open>Insertion\<close>

definition unsafe_emplace :: "iterator \<Rightarrow> 'v \<Rightarrow> 'v flat_tree \<Rightarrow> 'v flat_tree" where
  "unsafe_emplace i v t = take i t @ v # drop i t"

definition emplace_key_args ::
  "('v \<Rightarrow> 'k) \<Rightarrow> ('k \<Rightarrow> 'k \<Rightarrow> bool) \<Rightarrow> 'k \<Rightarrow> 'v \<Rightarrow> 'v flat_tree \<Rightarrow> 'v flat_tree \<times> iterator \<times> bool" where
  "emplace_key_args key cmp k v t =
     (let lower = flat_lower_bound key cmp t k in
      if lower = length t \<or> cmp k (key (t ! lower)) then (unsafe_emplace lower v t, lower, True)
      else (t, lower, False))"

definition emplace_hint_key_args ::
  "('v \<Rightarrow> 'k) \<Rightarrow> ('k \<Rightarrow> 'k \<Rightarrow> bool) \<Rightarrow> iterator \<Rightarrow> 'k \<Rightarrow> 'v \<Rightarrow> 'v flat_tree \<Rightarrow>
   'v flat_tree \<times> iterator \<times> bool" where
  "emplace_hint_key_args key cmp hint k v t =
     (if hint = 0 \<or> cmp (key (t ! (hint - 1))) k
      then if hint = length t \<or> cmp k (key (t ! hint)) then (unsafe_emplace hint v t, hint, True)
           else if \<not> cmp (key (t ! hint)) k then (t, hint, False)
           else emplace_key_args key cmp k v t
      else emplace_key_args key cmp k v t)"

definition flat_insert ::
  "('v \<Rightarrow> 'k) \<Rightarrow> ('k \<Rightarrow> 'k \<Rightarrow> bool) \<Rightarrow> 'v \<Rightarrow> 'v flat_tree \<Rightarrow> 'v flat_tree \<times> iterator \<times> bool" where
  "flat_insert key cmp v t = emplace_key_args key cmp (key v) v t"

definition flat_insert_hint ::
  "('v \<Rightarrow> 'k) \<Rightarrow> ('k \<Rightarrow> 'k \<Rightarrow> bool) \<Rightarrow> iterator \<Rightarrow> 'v \<Rightarrow> 'v flat_tree \<Rightarrow> 'v flat_tree \<times> iterator" where
  "flat_insert_hint key cmp hint v t =
     (let (t', i, b) = emplace_hint_key_args key cmp hint (key v) v t in (t', i))"

definition tree_insert_or_assign ::
  "('v \<Rightarrow> 'k) \<Rightarrow> ('k \<Rightarrow> 'k \<Rightarrow> bool) \<Rightarrow> 'v \<Rightarrow> 'v flat_tree \<Rightarrow> 'v flat_tree \<times> iterator \<times> bool" where
  "tree_insert_or_assign key cmp v t =
     (let position = flat_lower_bound key cmp t (key v) in
      if position = length t \<or> value_compare key cmp v (t ! position)
      then (unsafe_emplace position v t, position, True)
      else (t[position := v], position, False))"

text \<open>\<open>append_unique\<close> and \<open>append_or_assign\<close> search only \<open>[begin, up_to)\<close>.\<close>

definition append_unique ::
  "('v \<Rightarrow> 'k) \<Rightarrow> ('k \<Rightarrow> 'k \<Rightarrow> bool) \<Rightarrow> iterator \<Rightarrow> 'v \<Rightarrow> 'v flat_tree \<Rightarrow> 'v flat_tree \<times> iterator \<times> bool" where
  "append_unique key cmp up_to v t =
     (let position = partition_pos (\<lambda>w. value_compare key cmp w v) t 0 up_to in
      if position = up_to \<or> value_compare key cmp v (t ! position) then (t @ [v], position, True)
      else (t, position, False))"

definition append_or_assign ::
  "('v \<Rightarrow> 'k) \<Rightarrow> ('k \<Rightarrow> 'k \<Rightarrow> bool) \<Rightarrow> iterator \<Rightarrow> 'v \<Rightarrow> 'v flat_tree \<Rightarrow> 'v flat_tree \<times> iterator \<times> bool" where
  "append_or_assign key cmp up_to v t =
     (let position = partition_pos (\<lambda>w. value_compare key cmp w v) t 0 up_to in
      if position = up_to \<or> value_compare key cmp v (t ! position) then (t @ [v], position, True)
      else (t[position := v], position, False))"

primrec insert_loop ::
  "('v \<Rightarrow> 'k) \<Rightarrow> ('k \<Rightarrow> 'k \<Rightarrow> bool) \<Rightarrow> nat \<Rightarrow> 'v list \<Rightarrow> 'v flat_tree \<times> nat \<Rightarrow> 'v flat_tree \<times> nat" where
  "insert_loop key cmp middle [] s = s"
| "insert_loop key cmp middle (v # vs) s =
     (let (t, pos_first_new) = s;
          (t', position, new) = append_unique key cmp middle v t in
      insert_loop key cmp middle vs
        (t', if new then min pos_first_new position else pos_first_new))"

definition flat_insert_range ::
  "('v \<Rightarrow> 'k) \<Rightarrow> ('k \<Rightarrow> 'k \<Rightarrow> bool) \<Rightarrow> bool \<Rightarrow> 'v list \<Rightarrow> 'v flat_tree \<Rightarrow> 'v flat_tree" where
  "flat_insert_range key cmp multipass vs t =
     (if vs = [] then t
      else if multipass \<and> tl vs = [] then fst (flat_insert_hint key cmp (length t) (hd vs) t)
      else let middle = length t;
               (t1, pos_first_new) = insert_loop key cmp middle vs (t, length t);
               t2 = flat_sort_and_unique key cmp middle (length t1) t1 in
           inplace_merge (value_compare key cmp) pos_first_new middle t2)"

section \<open>Erasure and the container\<close>

definition flat_erase_range :: "iterator \<Rightarrow> iterator \<Rightarrow> 'v flat_tree \<Rightarrow> 'v flat_tree" where
  "flat_erase_range a b t = take a t @ drop b t"

definition flat_erase_at :: "iterator \<Rightarrow> 'v flat_tree \<Rightarrow> ('v flat_tree \<times> iterator) option" where
  "flat_erase_at i t = (if i = length t then None else Some (flat_erase_range i (i + 1) t, i))"

definition flat_erase_key ::
  "('v \<Rightarrow> 'k) \<Rightarrow> ('k \<Rightarrow> 'k \<Rightarrow> bool) \<Rightarrow> 'k \<Rightarrow> 'v flat_tree \<Rightarrow> 'v flat_tree \<times> nat" where
  "flat_erase_key key cmp k t =
     (let (a, b) = flat_equal_range key cmp t k in (flat_erase_range a b t, b - a))"

definition EraseIf :: "('v \<Rightarrow> bool) \<Rightarrow> 'v flat_tree \<Rightarrow> 'v flat_tree \<times> nat" where
  "EraseIf pred t =
     (let kept = filter (\<lambda>v. \<not> pred v) t in (kept, length t - length kept))"

definition flat_extract :: "'v flat_tree \<Rightarrow> 'v list \<times> 'v flat_tree" where
  "flat_extract t = (t, [])"

definition flat_replace ::
  "bool \<Rightarrow> ('v \<Rightarrow> 'k) \<Rightarrow> ('k \<Rightarrow> 'k \<Rightarrow> bool) \<Rightarrow> 'v list \<Rightarrow> 'v flat_tree \<Rightarrow> 'v flat_tree option" where
  "flat_replace dcheck_is_on key cmp body t =
     (if dcheck_is_on \<and> \<not> is_sorted_and_unique (value_compare key cmp) body then None
      else Some body)"

section \<open>\<open>flat_map\<close> and \<open>flat_set\<close>\<close>

text \<open>
  \<open>flat_map\<close> adds the operations on the second component (\<open>flat_map.h\<close>). \<open>std::less\<close> is its default
  order. \<open>operator[]\<close> returns a reference, here the position it refers to; a write through it is
  \<open>map_write\<close>.
\<close>

definition std_less :: "'a::linorder \<Rightarrow> 'a \<Rightarrow> bool" where
  "std_less a b \<longleftrightarrow> a < b"

type_synonym ('k, 'm) flat_map = "('k \<times> 'm) flat_tree"

definition map_at :: "('k \<Rightarrow> 'k \<Rightarrow> bool) \<Rightarrow> 'k \<Rightarrow> ('k, 'm) flat_map \<Rightarrow> 'm option" where
  "map_at cmp k t =
     (let found = flat_find fst cmp t k in if found = length t then None else Some (snd (t ! found)))"

definition map_index ::
  "('k \<Rightarrow> 'k \<Rightarrow> bool) \<Rightarrow> 'm \<Rightarrow> 'k \<Rightarrow> ('k, 'm) flat_map \<Rightarrow> ('k, 'm) flat_map \<times> iterator" where
  "map_index cmp mapped_type k t =
     (let found = flat_lower_bound fst cmp t k in
      if found = length t \<or> cmp k (fst (t ! found))
      then (unsafe_emplace found (k, mapped_type) t, found) else (t, found))"

definition map_write :: "iterator \<Rightarrow> 'm \<Rightarrow> ('k, 'm) flat_map \<Rightarrow> ('k, 'm) flat_map" where
  "map_write i m t = t[i := (fst (t ! i), m)]"

definition map_insert_or_assign ::
  "('k \<Rightarrow> 'k \<Rightarrow> bool) \<Rightarrow> 'k \<Rightarrow> 'm \<Rightarrow> ('k, 'm) flat_map \<Rightarrow> ('k, 'm) flat_map \<times> iterator \<times> bool" where
  "map_insert_or_assign cmp k obj t =
     (let (t', i, new) = emplace_key_args fst cmp k (k, obj) t in
      if \<not> new then (map_write i obj t', i, new) else (t', i, new))"

definition map_insert_or_assign_hint ::
  "('k \<Rightarrow> 'k \<Rightarrow> bool) \<Rightarrow> iterator \<Rightarrow> 'k \<Rightarrow> 'm \<Rightarrow> ('k, 'm) flat_map \<Rightarrow> ('k, 'm) flat_map \<times> iterator" where
  "map_insert_or_assign_hint cmp hint k obj t =
     (let (t', i, new) = emplace_hint_key_args fst cmp hint k (k, obj) t in
      if \<not> new then (map_write i obj t', i) else (t', i))"

definition try_emplace ::
  "('k \<Rightarrow> 'k \<Rightarrow> bool) \<Rightarrow> 'k \<Rightarrow> 'm \<Rightarrow> ('k, 'm) flat_map \<Rightarrow> ('k, 'm) flat_map \<times> iterator \<times> bool" where
  "try_emplace cmp k m t = emplace_key_args fst cmp k (k, m) t"

definition try_emplace_hint ::
  "('k \<Rightarrow> 'k \<Rightarrow> bool) \<Rightarrow> iterator \<Rightarrow> 'k \<Rightarrow> 'm \<Rightarrow> ('k, 'm) flat_map \<Rightarrow> ('k, 'm) flat_map \<times> iterator" where
  "try_emplace_hint cmp hint k m t =
     (let (t', i, new) = emplace_hint_key_args fst cmp hint k (k, m) t in (t', i))"


section \<open>Binary search\<close>

text \<open>On a range that is split by \<open>p\<close>, the search finds the split.\<close>

lemma partition_pos_split:
  assumes "\<And>i j. at \<le> i \<Longrightarrow> i < j \<Longrightarrow> j < at + len \<Longrightarrow> p (xs ! j) \<Longrightarrow> p (xs ! i)"
  shows "at \<le> partition_pos p xs at len \<and> partition_pos p xs at len \<le> at + len \<and>
    (\<forall>i. at \<le> i \<and> i < at + len \<longrightarrow> (p (xs ! i) \<longleftrightarrow> i < partition_pos p xs at len))"
  using assms
proof (induction p xs at len rule: partition_pos.induct)
  case (1 p xs at len)
  note mono = "1.prems"
  let ?h = "at + len div 2"
  consider "len = 0" | "len \<noteq> 0" "p (xs ! ?h)" | "len \<noteq> 0" "\<not> p (xs ! ?h)" by blast
  then show ?case
  proof cases
    case 1
    then show ?thesis by (auto simp: partition_pos.simps)
  next
    case 2
    then have below: "p (xs ! i)" if "at \<le> i" "i \<le> ?h" for i
      using mono [of i ?h] that by (cases "i = ?h") auto
    have eq: "partition_pos p xs at len = partition_pos p xs (?h + 1) (len - len div 2 - 1)"
      using 2 by (simp add: partition_pos.simps [of p xs at len])
    have end_eq: "?h + 1 + (len - len div 2 - 1) = at + len" using 2(1) by linarith
    have IH: "?h + 1 \<le> partition_pos p xs at len \<and> partition_pos p xs at len \<le> at + len \<and>
        (\<forall>i. ?h + 1 \<le> i \<and> i < at + len \<longrightarrow> (p (xs ! i) \<longleftrightarrow> i < partition_pos p xs at len))"
      unfolding eq end_eq [symmetric]
    proof (rule "1.IH"(1) [OF 2])
      show "p (xs ! i)" if "?h + 1 \<le> i" "i < j" "j < ?h + 1 + (len - len div 2 - 1)" "p (xs ! j)" for i j
        using mono [of i j] that unfolding end_eq by simp
    qed
    show ?thesis
    proof (intro conjI allI impI)
      show "p (xs ! i) \<longleftrightarrow> i < partition_pos p xs at len" if "at \<le> i \<and> i < at + len" for i
        using IH below [of i] that by (cases "i \<le> ?h") auto
    qed (use IH in auto)
  next
    case 3
    then have above: "\<not> p (xs ! i)" if "?h \<le> i" "i < at + len" for i
      using mono [of ?h i] that by (cases "i = ?h") auto
    have eq: "partition_pos p xs at len = partition_pos p xs at (len div 2)"
      using 3 by (simp add: partition_pos.simps [of p xs at len])
    have IH: "at \<le> partition_pos p xs at len \<and> partition_pos p xs at len \<le> ?h \<and>
        (\<forall>i. at \<le> i \<and> i < ?h \<longrightarrow> (p (xs ! i) \<longleftrightarrow> i < partition_pos p xs at len))"
      unfolding eq
    proof (rule "1.IH"(2) [OF 3])
      show "p (xs ! i)" if "at \<le> i" "i < j" "j < at + len div 2" "p (xs ! j)" for i j
        using mono [of i j] that by simp
    qed
    have "?h \<le> at + len" by simp
    show ?thesis
    proof (intro conjI allI impI)
      show "p (xs ! i) \<longleftrightarrow> i < partition_pos p xs at len" if "at \<le> i \<and> i < at + len" for i
        using IH above [of i] that by (cases "?h \<le> i") auto
    qed (use IH \<open>?h \<le> at + len\<close> in auto)
  qed
qed

lemma partition_pos_append:
  "at + len \<le> length xs \<Longrightarrow> partition_pos p (xs @ ys) at len = partition_pos p xs at len"
proof (induction p xs at len rule: partition_pos.induct)
  case (1 p xs at len)
  show ?case
  proof (cases "len = 0")
    case False
    with "1.prems" have "at + len div 2 < length xs" by linarith
    then have mid: "(xs @ ys) ! (at + len div 2) = xs ! (at + len div 2)" by (simp add: nth_append)
    from False "1.prems" have "at + len div 2 + 1 + (len - len div 2 - 1) \<le> length xs"
      by linarith+
    with 1 False show ?thesis
      by (simp add: partition_pos.simps [of p "xs @ ys" at len] partition_pos.simps [of p xs at len] mid)
  qed (simp add: partition_pos.simps)
qed

section \<open>The order and the abstraction\<close>

text \<open>What the standard requires of the comparison of an ordered container.\<close>

locale strict_weak_order =
  fixes cmp :: "'k \<Rightarrow> 'k \<Rightarrow> bool"
  assumes irrefl: "\<not> cmp a a"
    and trans: "cmp a b \<Longrightarrow> cmp b c \<Longrightarrow> cmp a c"
    and incomparable: "\<not> cmp a b \<Longrightarrow> \<not> cmp b c \<Longrightarrow> \<not> cmp a c"

text \<open>The first value whose key is equivalent to \<open>k\<close>.\<close>

definition equivalent :: "('k \<Rightarrow> 'k \<Rightarrow> bool) \<Rightarrow> 'k \<Rightarrow> 'k \<Rightarrow> bool" where
  "equivalent cmp a b \<longleftrightarrow> \<not> cmp a b \<and> \<not> cmp b a"

definition first_of :: "('v \<Rightarrow> 'k) \<Rightarrow> ('k \<Rightarrow> 'k \<Rightarrow> bool) \<Rightarrow> 'v list \<Rightarrow> 'k \<Rightarrow> 'v option" where
  "first_of key cmp vs k = List.find (\<lambda>v. equivalent cmp k (key v)) vs"

abbreviation tree_ok :: "('v \<Rightarrow> 'k) \<Rightarrow> ('k \<Rightarrow> 'k \<Rightarrow> bool) \<Rightarrow> 'v flat_tree \<Rightarrow> bool" where
  "tree_ok key cmp t \<equiv> sorted_wrt (value_compare key cmp) t"

lemma first_of_simps [simp]:
  "first_of key cmp [] k = None"
  "first_of key cmp (v # vs) k =
    (if equivalent cmp k (key v) then Some v else first_of key cmp vs k)"
  by (simp_all add: first_of_def)

lemma first_of_append:
  "first_of key cmp (xs @ ys) k =
    (case first_of key cmp xs k of None \<Rightarrow> first_of key cmp ys k | Some v \<Rightarrow> Some v)"
  by (induction xs) auto

lemma first_of_None: "first_of key cmp vs k = None \<longleftrightarrow> (\<forall>v\<in>set vs. \<not> equivalent cmp k (key v))"
  by (induction vs) auto

lemma first_of_Some: "first_of key cmp vs k = Some v \<Longrightarrow> v \<in> set vs \<and> equivalent cmp k (key v)"
  by (induction vs) (auto split: if_splits)

text \<open>A strictly sorted list is determined by its elements.\<close>

lemma sorted_wrt_set_eq:
  assumes "sorted_wrt R xs" and "sorted_wrt R ys" and "set xs = set ys"
    and asym: "\<And>a b. R a b \<Longrightarrow> \<not> R b a"
  shows "xs = ys"
  using assms(1-3)
proof (induction xs arbitrary: ys)
  case (Cons x xs)
  then obtain y ys' where y: "ys = y # ys'" by (cases ys) auto
  have "x = y"
  proof (rule ccontr)
    assume "x \<noteq> y"
    with Cons.prems y have "y \<in> set xs" "x \<in> set ys'" by auto
    with Cons.prems y have "R x y" "R y x" by auto
    with asym show False by blast
  qed
  moreover have irrefl: "\<not> R a a" for a using asym by blast
  then have "x \<notin> set xs" "y \<notin> set ys'"
    using Cons.prems y irrefl [of x] irrefl [of y] by auto
  ultimately have "set xs = set ys'"
    using Cons.prems(3) y by (simp add: insert_ident)
  with Cons y \<open>x = y\<close> show ?case by simp
qed simp

lemma set_stable_insert [simp]: "set (stable_insert lt x xs) = insert x (set xs)"
  by (induction lt x xs rule: stable_insert.induct) auto

lemma set_stable_sort [simp]: "set (stable_sort lt xs) = set xs"
  unfolding stable_sort_def by (induction xs) auto

lemma stable_sort_simps [simp]:
  "stable_sort lt [] = []"
  "stable_sort lt (x # xs) = stable_insert lt x (stable_sort lt xs)"
  by (simp_all add: stable_sort_def)

lemma set_std_merge [simp]: "set (std_merge lt xs ys) = set xs \<union> set ys"
  by (induction lt xs ys rule: std_merge.induct) auto

lemma set_std_unique: "set (std_unique same xs) \<subseteq> set xs"
  by (induction same xs rule: std_unique.induct) auto

lemma hd_std_unique: "xs \<noteq> [] \<Longrightarrow> hd (std_unique same xs) = hd xs"
  by (induction same xs rule: std_unique.induct) auto

text \<open>A value with key \<open>k\<close> belongs at position \<open>i\<close>.\<close>

definition fits :: "('v \<Rightarrow> 'k) \<Rightarrow> ('k \<Rightarrow> 'k \<Rightarrow> bool) \<Rightarrow> nat \<Rightarrow> 'k \<Rightarrow> 'v list \<Rightarrow> bool" where
  "fits key cmp i k t \<longleftrightarrow>
     (\<forall>x\<in>set (take i t). cmp (key x) k) \<and> (\<forall>x\<in>set (drop i t). cmp k (key x))"

text \<open>Insertion behind the equal elements, as the inner loop of the insertion sort does it.\<close>

fun insert_after :: "('v \<Rightarrow> 'v \<Rightarrow> bool) \<Rightarrow> 'v \<Rightarrow> 'v list \<Rightarrow> 'v list" where
  "insert_after lt x [] = [x]"
| "insert_after lt x (y # ys) = (if lt x y then x # y # ys else y # insert_after lt x ys)"

lemma length_stable_sort [simp]: "length (stable_sort lt xs) = length xs"
proof -
  have "length (stable_insert lt x ys) = Suc (length ys)" for x ys
    by (induction lt x ys rule: stable_insert.induct) auto
  then show ?thesis by (induction xs) auto
qed

lemma mset_stable_sort [simp]: "mset (stable_sort lt xs) = mset xs"
proof -
  have "mset (stable_insert lt x ys) = add_mset x (mset ys)" for x ys
    by (induction lt x ys rule: stable_insert.induct) auto
  then show ?thesis by (induction xs) auto
qed

locale keyed_order = strict_weak_order cmp for cmp :: "'k \<Rightarrow> 'k \<Rightarrow> bool" +
  fixes key :: "'v \<Rightarrow> 'k"
begin

lemma asym: "cmp a b \<Longrightarrow> \<not> cmp b a"
  using trans irrefl by blast

lemma value_incomparable:
  "\<not> value_compare key cmp a b \<Longrightarrow> \<not> value_compare key cmp b c \<Longrightarrow> \<not> value_compare key cmp a c"
  unfolding value_compare_def by (rule incomparable)

lemma equivalent_less: "equivalent cmp a b \<Longrightarrow> cmp b c \<longleftrightarrow> cmp a c" "equivalent cmp a b \<Longrightarrow> cmp c b \<longleftrightarrow> cmp c a"
  unfolding equivalent_def using incomparable by blast+

lemma equivalent_refl [simp]: "equivalent cmp a a"
  by (simp add: equivalent_def irrefl)

lemma equivalent_sym: "equivalent cmp a b \<longleftrightarrow> equivalent cmp b a"
  by (auto simp: equivalent_def)

lemma equivalent_trans: "equivalent cmp a b \<Longrightarrow> equivalent cmp b c \<longleftrightarrow> equivalent cmp a c"
  unfolding equivalent_def using equivalent_less [of a b c] by (simp add: equivalent_def)

lemma less_not_equivalent: "cmp a b \<Longrightarrow> \<not> equivalent cmp a b \<and> \<not> equivalent cmp b a"
  by (simp add: equivalent_def)

lemma first_of_cong: "equivalent cmp k l \<Longrightarrow> first_of key cmp vs k = first_of key cmp vs l"
  by (induction vs) (auto simp: equivalent_trans)

text \<open>Two sorted trees with the same first values are equal.\<close>

lemma tree_first_of: "tree_ok key cmp t \<Longrightarrow> v \<in> set t \<longleftrightarrow> first_of key cmp t (key v) = Some v"
proof (induction t)
  case (Cons w t)
  then show ?case
    by (auto simp: value_compare_def dest: less_not_equivalent first_of_Some)
qed simp

lemma tree_ext:
  assumes "tree_ok key cmp s" and "tree_ok key cmp t"
    and "\<And>k. first_of key cmp s k = first_of key cmp t k"
  shows "s = t"
proof -
  have "v \<in> set s \<longleftrightarrow> v \<in> set t" for v
    by (simp only: tree_first_of [OF assms(1)] tree_first_of [OF assms(2)] assms(3))
  then show ?thesis
    using asym by (intro sorted_wrt_set_eq [OF assms(1,2)]) (auto simp: value_compare_def)
qed

subsection \<open>Search\<close>

lemma lower_bound_split:
  assumes "tree_ok key cmp t"
  shows "flat_lower_bound key cmp t k \<le> length t"
    and "i < length t \<Longrightarrow> cmp (key (t ! i)) k \<longleftrightarrow> i < flat_lower_bound key cmp t k"
proof -
  have "cmp (key (t ! i)) k" if "i < j" "j < length t" "cmp (key (t ! j)) k" for i j
    using assms that trans by (fastforce simp: sorted_wrt_iff_nth_less value_compare_def)
  then show "flat_lower_bound key cmp t k \<le> length t"
    and "i < length t \<Longrightarrow> cmp (key (t ! i)) k \<longleftrightarrow> i < flat_lower_bound key cmp t k"
    using partition_pos_split [of 0 "length t" "\<lambda>v. cmp (key v) k" t]
    by (auto simp: flat_lower_bound_def)
qed

lemma upper_bound_split:
  assumes "tree_ok key cmp t"
  shows "flat_upper_bound key cmp t k \<le> length t"
    and "i < length t \<Longrightarrow> \<not> cmp k (key (t ! i)) \<longleftrightarrow> i < flat_upper_bound key cmp t k"
proof -
  have "\<not> cmp k (key (t ! i))" if "i < j" "j < length t" "\<not> cmp k (key (t ! j))" for i j
    using assms that trans by (fastforce simp: sorted_wrt_iff_nth_less value_compare_def)
  then show "flat_upper_bound key cmp t k \<le> length t"
    and "i < length t \<Longrightarrow> \<not> cmp k (key (t ! i)) \<longleftrightarrow> i < flat_upper_bound key cmp t k"
    using partition_pos_split [of 0 "length t" "\<lambda>v. \<not> cmp k (key v)" t]
    by (auto simp: flat_upper_bound_def)
qed

lemma lower_bound_unique:
  assumes "tree_ok key cmp t" and "h \<le> length t" and "h = 0 \<or> cmp (key (t ! (h - 1))) k"
    and "h = length t \<or> \<not> cmp (key (t ! h)) k"
  shows "flat_lower_bound key cmp t k = h"
proof (rule ccontr)
  assume "\<not> ?thesis"
  then consider "flat_lower_bound key cmp t k < h" | "h < flat_lower_bound key cmp t k" by linarith
  then show False
  proof cases
    case 1
    then have "h - 1 < length t" "\<not> h - 1 < flat_lower_bound key cmp t k" "h \<noteq> 0"
      using assms(2) by linarith+
    then show ?thesis using assms(3) lower_bound_split(2) [OF assms(1), of "h - 1" k] by blast
  next
    case 2
    then show ?thesis
      using assms(2,4) lower_bound_split(1) [OF assms(1), of k] lower_bound_split(2) [OF assms(1), of h k]
      by auto
  qed
qed

lemma lower_bound_fits:
  fixes k :: 'k
  assumes "tree_ok key cmp t"
  defines "l \<equiv> flat_lower_bound key cmp t k"
  shows "if l = length t \<or> cmp k (key (t ! l)) then fits key cmp l k t
    else first_of key cmp t k = Some (t ! l) \<and> l < length t"
proof -
  note l = lower_bound_split [OF assms(1), where k = k, folded l_def]
  have below: "\<forall>x\<in>set (take l t). cmp (key x) k"
    using l by (auto simp: in_set_conv_nth)
  show ?thesis
  proof (cases "l = length t \<or> cmp k (key (t ! l))")
    case True
    have "cmp k (key x)" if x: "x \<in> set (drop l t)" for x
    proof -
      from x obtain i where i: "x = t ! i" "l \<le> i" "i < length t"
        by (auto simp: in_set_conv_nth)
      with True have "cmp k (key (t ! l))" by auto
      with i assms(1) trans show ?thesis
        by (cases "i = l") (fastforce simp: sorted_wrt_iff_nth_less value_compare_def)+
    qed
    with True below show ?thesis by (simp add: fits_def)
  next
    case False
    with l(1) have less: "l < length t" by simp
    with l(2) [of l] have "\<not> cmp (key (t ! l)) k" by simp
    with False have "equivalent cmp k (key (t ! l))" by (simp add: equivalent_def)
    moreover have "first_of key cmp (take l t) k = None"
      using below by (auto simp: first_of_None dest: less_not_equivalent)
    moreover have "first_of key cmp t k = first_of key cmp (take l t @ t ! l # drop (Suc l) t) k"
      using less by (simp add: id_take_nth_drop [symmetric])
    ultimately show ?thesis using False less by (simp add: first_of_append)
  qed
qed

lemma fits_None: "fits key cmp i k t \<Longrightarrow> first_of key cmp t k = None"
  by (subst append_take_drop_id [of i t, symmetric])
    (auto simp: fits_def first_of_None simp del: append_take_drop_id dest: less_not_equivalent)

lemma first_of_lower_bound:
  "tree_ok key cmp t \<Longrightarrow> first_of key cmp t k =
    (let l = flat_lower_bound key cmp t k in
     if l = length t \<or> cmp k (key (t ! l)) then None else Some (t ! l))"
  using lower_bound_fits [of t k] fits_None by (auto simp: Let_def split: if_splits)

lemma unsafe_emplace_ok:
  assumes "tree_ok key cmp t" and "fits key cmp i (key v) t"
  shows "tree_ok key cmp (unsafe_emplace i v t)"
    and "first_of key cmp (unsafe_emplace i v t) = first_of key cmp (t @ [v])"
proof -
  have "tree_ok key cmp (take i t @ drop i t)" using assms(1) by simp
  then show "tree_ok key cmp (unsafe_emplace i v t)"
    using assms(2) trans unfolding unsafe_emplace_def sorted_wrt_append
    by (auto simp: fits_def value_compare_def)
  have "first_of key cmp (unsafe_emplace i v t) l = first_of key cmp (t @ [v]) l" for l
  proof (cases "equivalent cmp l (key v)")
    case True
    then have "first_of key cmp t l = None" 
      using fits_None [OF assms(2)] first_of_cong [OF True] by simp
    then have "first_of key cmp (take i t) l = None" "first_of key cmp t l = None"
      by (auto simp: first_of_None dest: in_set_takeD)
    with True show ?thesis by (simp add: unsafe_emplace_def first_of_append)
  next
    case False
    have "first_of key cmp t l = first_of key cmp (take i t @ drop i t) l" by simp
    with False show ?thesis
      by (simp add: unsafe_emplace_def first_of_append del: append_take_drop_id split: option.split)
  qed
  then show "first_of key cmp (unsafe_emplace i v t) = first_of key cmp (t @ [v])" ..
qed

subsection \<open>Insertion\<close>

lemma emplace_key_args_ok:
  assumes "tree_ok key cmp t" and "emplace_key_args key cmp (key v) v t = (t', i, new)"
  shows "tree_ok key cmp t'" and "first_of key cmp t' = first_of key cmp (t @ [v])"
    and "new \<longleftrightarrow> first_of key cmp t (key v) = None"
    and "i < length t'" and "first_of key cmp t' (key v) = Some (t' ! i)"
proof -
  let ?l = "flat_lower_bound key cmp t (key v)"
  have le: "?l \<le> length t" by (rule lower_bound_split [OF assms(1)])
  have "tree_ok key cmp t' \<and> first_of key cmp t' = first_of key cmp (t @ [v]) \<and>
    (new \<longleftrightarrow> first_of key cmp t (key v) = None) \<and> i < length t' \<and>
    first_of key cmp t' (key v) = Some (t' ! i)"
  proof (cases "?l = length t \<or> cmp (key v) (key (t ! ?l))")
    case True
    with lower_bound_fits [OF assms(1), of "key v"] have fits: "fits key cmp ?l (key v) t" by simp
    with True assms(2) have t': "t' = unsafe_emplace ?l v t" "i = ?l" "new"
      by (auto simp: emplace_key_args_def Let_def)
    with unsafe_emplace_ok [OF assms(1) fits] fits_None [OF fits] le show ?thesis
      by (auto simp: first_of_append) (auto simp: unsafe_emplace_def nth_append)
  next
    case False
    with lower_bound_fits [OF assms(1), of "key v"]
    have hit: "first_of key cmp t (key v) = Some (t ! ?l)" "?l < length t" by simp_all
    with False assms(2) have t': "t' = t" "i = ?l" "\<not> new"
      by (auto simp: emplace_key_args_def Let_def)
    have "first_of key cmp t = first_of key cmp (t @ [v])"
    proof
      show "first_of key cmp t l = first_of key cmp (t @ [v]) l" for l
        using hit(1) first_of_cong [of l "key v" t]
        by (auto simp: first_of_append split: option.split)
    qed
    with t' hit assms(1) show ?thesis by simp
  qed
  then show "tree_ok key cmp t'" "first_of key cmp t' = first_of key cmp (t @ [v])"
    "new \<longleftrightarrow> first_of key cmp t (key v) = None" "i < length t'"
    "first_of key cmp t' (key v) = Some (t' ! i)" by auto
qed

lemma hint_irrelevant:
  assumes "tree_ok key cmp t" and "hint \<le> length t"
  shows "emplace_hint_key_args key cmp hint k v t = emplace_key_args key cmp k v t"
  using lower_bound_unique [OF assms, of k] asym
  by (auto simp: emplace_hint_key_args_def emplace_key_args_def Let_def)

lemma upper_bound_unique:
  assumes "tree_ok key cmp t" and "h \<le> length t" and "h = 0 \<or> \<not> cmp k (key (t ! (h - 1)))"
    and "h = length t \<or> cmp k (key (t ! h))"
  shows "flat_upper_bound key cmp t k = h"
proof (rule ccontr)
  assume "\<not> ?thesis"
  then consider "flat_upper_bound key cmp t k < h" | "h < flat_upper_bound key cmp t k" by linarith
  then show False
  proof cases
    case 1
    then have "h - 1 < length t" "\<not> h - 1 < flat_upper_bound key cmp t k" "h \<noteq> 0"
      using assms(2) by linarith+
    then show ?thesis using assms(3) upper_bound_split(2) [OF assms(1), of "h - 1" k] by blast
  next
    case 2
    then show ?thesis
      using assms(2,4) upper_bound_split(1) [OF assms(1), of k] upper_bound_split(2) [OF assms(1), of h k]
      by auto
  qed
qed

lemma equal_range_bounds:
  assumes "tree_ok key cmp t"
  shows "flat_equal_range key cmp t k = (flat_lower_bound key cmp t k, flat_upper_bound key cmp t k)"
proof -
  let ?l = "flat_lower_bound key cmp t k"
  note l = lower_bound_split [OF assms, where k = k]
  show ?thesis
  proof (cases "?l = length t \<or> cmp k (key (t ! ?l))")
    case True
    have "?l = 0 \<or> \<not> cmp k (key (t ! (?l - 1)))"
      using l(1) l(2) [of "?l - 1"] asym by (cases "?l = 0") auto
    with True l(1) have "flat_upper_bound key cmp t k = ?l"
      by (intro upper_bound_unique [OF assms]) auto
    with True show ?thesis by (simp add: flat_equal_range_def Let_def)
  next
    case False
    with l(1) have less: "?l < length t" by simp
    have "Suc ?l = length t \<or> cmp k (key (t ! Suc ?l))"
    proof (cases "Suc ?l < length t")
      case True
      with assms have "cmp (key (t ! ?l)) (key (t ! Suc ?l))"
        by (simp add: sorted_wrt_iff_nth_less value_compare_def)
      with l(2) [OF less] incomparable [of "key (t ! ?l)" k "key (t ! Suc ?l)"] show ?thesis by auto
    qed (use less in simp)
    with False less have "flat_upper_bound key cmp t k = Suc ?l"
      by (intro upper_bound_unique [OF assms]) auto
    with False show ?thesis by (simp add: flat_equal_range_def Let_def)
  qed
qed

subsection \<open>Sorting, removing duplicates, merging\<close>

abbreviation weakly_sorted :: "'v list \<Rightarrow> bool" where
  "weakly_sorted xs \<equiv> sorted_wrt (\<lambda>a b. \<not> value_compare key cmp b a) xs"

lemma stable_insert_sorted:
  "weakly_sorted xs \<Longrightarrow> weakly_sorted (stable_insert (value_compare key cmp) x xs)"
proof (induction xs)
  case (Cons y xs)
  show ?case
  proof (cases "value_compare key cmp y x")
    case True
    with Cons asym show ?thesis by (auto simp: value_compare_def)
  next
    case False
    moreover have "\<not> value_compare key cmp z x" if "z \<in> set xs" for z
      using False Cons.prems that incomparable [of "key z" "key y" "key x"]
      by (auto simp: value_compare_def)
    ultimately show ?thesis using Cons.prems by auto
  qed
qed simp

lemma stable_sort_sorted: "weakly_sorted (stable_sort (value_compare key cmp) xs)"
  by (induction xs) (simp_all add: stable_insert_sorted)

lemma first_of_stable_insert:
  "first_of key cmp (stable_insert (value_compare key cmp) x xs) k = first_of key cmp (x # xs) k"
  by (induction xs)
    (auto simp: value_compare_def equivalent_sym dest: equivalent_trans less_not_equivalent)

lemma first_of_stable_sort:
  "first_of key cmp (stable_sort (value_compare key cmp) xs) k = first_of key cmp xs k"
  by (induction xs) (simp_all add: first_of_stable_insert)

lemma std_unique_ok:
  assumes "weakly_sorted xs"
  defines "u \<equiv> std_unique (\<lambda>l r. \<not> value_compare key cmp l r) xs"
  shows "tree_ok key cmp u \<and> first_of key cmp u k = first_of key cmp xs k"
  unfolding u_def using assms(1)
proof (induction "\<lambda>l r. \<not> value_compare key cmp l r" xs rule: std_unique.induct)
  case (3 x y xs)
  show ?case
  proof (cases "value_compare key cmp x y")
    case False
    with 3 have "equivalent cmp (key x) (key y)" by (simp add: equivalent_def value_compare_def)
    then have "first_of key cmp (x # y # xs) k = first_of key cmp (x # xs) k"
      using equivalent_trans [of "key x" "key y" k] equivalent_sym by auto
    with 3 False show ?thesis by simp
  next
    case True
    have "value_compare key cmp x z" if "z \<in> set (std_unique (\<lambda>l r. \<not> value_compare key cmp l r) (y # xs))" for z
    proof -
      from that set_std_unique have "z \<in> set (y # xs)" by fastforce
      with 3 have "\<not> value_compare key cmp z y" using irrefl by (auto simp: value_compare_def)
      with True show ?thesis
        using incomparable [of "key x" "key z" "key y"] by (auto simp: value_compare_def)
    qed
    with 3 True show ?thesis by simp
  qed
qed simp_all

lemma std_merge_ok:
  assumes "tree_ok key cmp xs" and "tree_ok key cmp ys"
    and "\<forall>x\<in>set xs. \<forall>y\<in>set ys. \<not> equivalent cmp (key x) (key y)"
  defines "m \<equiv> std_merge (value_compare key cmp) xs ys"
  shows "tree_ok key cmp m \<and> first_of key cmp m k = first_of key cmp (xs @ ys) k"
  unfolding m_def using assms(1-3)
proof (induction "value_compare key cmp" xs ys rule: std_merge.induct)
  case (3 x xs y ys)
  show ?case
  proof (cases "value_compare key cmp y x")
    case True
    then have less: "value_compare key cmp y z" if "z \<in> set (x # xs)" for z
      using "3.prems"(1) that trans [of "key y" "key x" "key z"] by (auto simp: value_compare_def)
    have "first_of key cmp (x # xs) k = None" if "equivalent cmp k (key y)"
      unfolding first_of_None
    proof
      fix z assume "z \<in> set (x # xs)"
      with less have "cmp (key y) (key z)" by (auto simp: value_compare_def)
      with equivalent_less(1) [OF that] show "\<not> equivalent cmp k (key z)"
        by (simp add: equivalent_def)
    qed
    with 3 True less show ?thesis
      by (auto simp: first_of_append split: option.split if_splits)
  next
    case False
    with 3 have "value_compare key cmp x y" by (auto simp: equivalent_def value_compare_def)
    then have "value_compare key cmp x z" if "z \<in> set (y # ys)" for z
      using "3.prems"(2) that trans [of "key x" "key y" "key z"] by (auto simp: value_compare_def)
    with 3 False show ?thesis by (simp add: ball_Un)
  qed
qed simp_all

lemma sort_and_unique_ok:
  "flat_sort_and_unique key cmp (length t) (length t + length ns) (t @ ns) =
    t @ std_unique (\<lambda>l r. \<not> value_compare key cmp l r) (stable_sort (value_compare key cmp) ns)"
  by (simp add: flat_sort_and_unique_def)

lemma new_flat_tree_ok:
  "tree_ok key cmp (new_flat_tree key cmp vs) \<and>
    first_of key cmp (new_flat_tree key cmp vs) = first_of key cmp vs"
  unfolding new_flat_tree_def using std_unique_ok [OF stable_sort_sorted, of vs]
  by (simp add: flat_sort_and_unique_def fun_eq_iff first_of_stable_sort)

subsection \<open>Inserting a range\<close>

lemma append_unique_new:
  assumes "tree_ok key cmp t"
  shows "append_unique key cmp (length t) v (t @ ns) =
    (if first_of key cmp t (key v) = None
     then (t @ ns @ [v], flat_lower_bound key cmp t (key v), True)
     else (t @ ns, flat_lower_bound key cmp t (key v), False))"
proof -
  have pos: "partition_pos (\<lambda>w. value_compare key cmp w v) (t @ ns) 0 (length t) =
      flat_lower_bound key cmp t (key v)"
    by (simp add: partition_pos_append flat_lower_bound_def value_compare_def)
  have "flat_lower_bound key cmp t (key v) \<le> length t"
    by (rule lower_bound_split [OF assms])
  then show ?thesis
    unfolding append_unique_def pos
    by (auto simp: first_of_lower_bound [OF assms] value_compare_def nth_append Let_def)
qed

abbreviation new_values :: "'v list \<Rightarrow> 'v list \<Rightarrow> 'v list" where
  "new_values t vs \<equiv> filter (\<lambda>v. first_of key cmp t (key v) = None) vs"

lemma insert_loop_new:
  assumes "tree_ok key cmp t"
  shows "\<exists>pos' \<le> pos. insert_loop key cmp (length t) vs (t @ ns, pos) = (t @ ns @ new_values t vs, pos') \<and>
    (\<forall>v\<in>set (new_values t vs). pos' \<le> flat_lower_bound key cmp t (key v))"
proof (induction vs arbitrary: ns pos)
  case (Cons v vs)
  let ?new = "first_of key cmp t (key v) = None"
  let ?ns = "if ?new then ns @ [v] else ns"
  let ?pos = "if ?new then min pos (flat_lower_bound key cmp t (key v)) else pos"
  have step: "insert_loop key cmp (length t) (v # vs) (t @ ns, pos) =
      insert_loop key cmp (length t) vs (t @ ?ns, ?pos)"
    by (simp add: append_unique_new [OF assms])
  from Cons.IH [where ns = ?ns and pos = ?pos] obtain pos' where "pos' \<le> ?pos"
    "insert_loop key cmp (length t) vs (t @ ?ns, ?pos) = (t @ ?ns @ new_values t vs, pos')"
    "\<forall>v\<in>set (new_values t vs). pos' \<le> flat_lower_bound key cmp t (key v)" by blast
  then show ?case unfolding step
    by (intro exI [of _ pos']) auto
qed auto

lemma first_of_new_values: "first_of key cmp (t @ new_values t vs) = first_of key cmp (t @ vs)"
proof
  fix k
  have "first_of key cmp t k = None \<Longrightarrow> first_of key cmp (new_values t vs) k = first_of key cmp vs k"
  proof (induction vs)
    case (Cons v vs)
    then show ?case using first_of_cong [of k "key v" t] by auto
  qed simp
  then show "first_of key cmp (t @ new_values t vs) k = first_of key cmp (t @ vs) k"
    by (simp add: first_of_append split: option.split)
qed

lemma merge_at_ok:
  assumes t: "tree_ok key cmp t" and u: "tree_ok key cmp u" and pos: "pos \<le> length t"
    and new: "\<And>v. v \<in> set u \<Longrightarrow>
      first_of key cmp t (key v) = None \<and> pos \<le> flat_lower_bound key cmp t (key v)"
  defines "m \<equiv> inplace_merge (value_compare key cmp) pos (length t) (t @ u)"
  shows "tree_ok key cmp m \<and> first_of key cmp m = first_of key cmp (t @ u)"
proof -
  let ?a = "take pos t" and ?b = "drop pos t"
  have m: "m = ?a @ std_merge (value_compare key cmp) ?b u"
    using pos by (simp add: m_def inplace_merge_def)
  have ab: "tree_ok key cmp (?a @ ?b)" using t by simp
  have cross: "\<forall>x\<in>set ?b. \<forall>y\<in>set u. \<not> equivalent cmp (key x) (key y)"
  proof (intro ballI)
    fix x y assume "x \<in> set ?b" "y \<in> set u"
    then have "\<not> equivalent cmp (key y) (key x)"
      using new [of y] by (auto simp: first_of_None dest: in_set_dropD)
    then show "\<not> equivalent cmp (key x) (key y)" by (simp add: equivalent_sym)
  qed
  have merged: "tree_ok key cmp (std_merge (value_compare key cmp) ?b u) \<and>
      first_of key cmp (std_merge (value_compare key cmp) ?b u) k = first_of key cmp (?b @ u) k" for k
    using ab u cross by (intro std_merge_ok) (simp_all add: sorted_wrt_append del: append_take_drop_id)
  have "cmp (key x) (key v)" if "x \<in> set ?a" "v \<in> set u" for x v
  proof -
    from that(1) obtain i where i: "x = t ! i" "i < pos" by (auto simp: in_set_conv_nth)
    with new [OF that(2)] pos show ?thesis
      using lower_bound_split(2) [OF t, of i "key v"] by simp
  qed
  with ab merged have "tree_ok key cmp m"
    unfolding m sorted_wrt_append by (auto simp: value_compare_def simp del: append_take_drop_id)
  moreover have "first_of key cmp m k = first_of key cmp (?a @ ?b @ u) k" for k
    unfolding m using merged by (simp only: first_of_append)
  moreover have "?a @ ?b @ u = t @ u" by simp
  ultimately show ?thesis by (auto simp: fun_eq_iff)
qed

lemma flat_insert_ok:
  assumes "tree_ok key cmp t"
  shows "tree_ok key cmp (fst (flat_insert key cmp v t)) \<and>
    first_of key cmp (fst (flat_insert key cmp v t)) = first_of key cmp (t @ [v])"
  using emplace_key_args_ok(1,2) [OF assms, of v]
  by (cases "emplace_key_args key cmp (key v) v t") (auto simp: flat_insert_def)

lemma insert_all_ok:
  assumes "tree_ok key cmp t"
  shows "tree_ok key cmp (fold (\<lambda>v t. fst (flat_insert key cmp v t)) vs t) \<and>
    first_of key cmp (fold (\<lambda>v t. fst (flat_insert key cmp v t)) vs t) = first_of key cmp (t @ vs)"
  using assms
proof (induction vs arbitrary: t)
  case (Cons v vs)
  from flat_insert_ok [OF Cons.prems, of v] Cons.IH [of "fst (flat_insert key cmp v t)"]
  show ?case by (simp add: fun_eq_iff first_of_append split: option.split)
qed simp

lemma insert_range_all:
  assumes "tree_ok key cmp t"
  shows "flat_insert_range key cmp multipass vs t =
    fold (\<lambda>v t. fst (flat_insert key cmp v t)) vs t"
proof (cases "vs = [] \<or> multipass \<and> tl vs = []")
  case True
  then show ?thesis
    using hint_irrelevant [OF assms, of "length t"]
    by (cases vs) (auto simp: flat_insert_range_def flat_insert_hint_def flat_insert_def split: prod.splits)
next
  case False
  obtain pos where pos: "pos \<le> length t"
    "insert_loop key cmp (length t) vs (t, length t) = (t @ new_values t vs, pos)"
    "\<forall>v\<in>set (new_values t vs). pos \<le> flat_lower_bound key cmp t (key v)"
    using insert_loop_new [OF assms, of "length t" vs "[]"] by auto
  define u where "u = std_unique (\<lambda>l r. \<not> value_compare key cmp l r)
    (stable_sort (value_compare key cmp) (new_values t vs))"
  have u: "tree_ok key cmp u" "first_of key cmp u = first_of key cmp (new_values t vs)"
    using std_unique_ok [OF stable_sort_sorted] unfolding u_def
    by (auto simp: first_of_stable_sort)
  have "set u \<subseteq> set (new_values t vs)"
    using set_std_unique by (fastforce simp: u_def)
  with pos(3) have new: "first_of key cmp t (key v) = None \<and> pos \<le> flat_lower_bound key cmp t (key v)"
    if "v \<in> set u" for v using that by auto
  have eq: "flat_insert_range key cmp multipass vs t =
      inplace_merge (value_compare key cmp) pos (length t) (t @ u)"
    using False pos(2) by (auto simp: flat_insert_range_def sort_and_unique_ok u_def Let_def)
  have "first_of key cmp (t @ u) = first_of key cmp (t @ new_values t vs)"
    by (rule ext) (simp add: first_of_append u(2) split: option.split)
  then have "first_of key cmp (t @ u) = first_of key cmp (t @ vs)"
    by (simp only: first_of_new_values)
  with merge_at_ok [OF assms u(1) pos(1) new] insert_all_ok [OF assms, of vs] show ?thesis
    unfolding eq by (intro tree_ext) simp_all
qed

lemma new_flat_tree_inserts:
  "new_flat_tree key cmp vs = fold (\<lambda>v t. fst (flat_insert key cmp v t)) vs []"
  using new_flat_tree_ok [of vs] insert_all_ok [of "[]" vs] by (intro tree_ext) simp_all

lemma filter_stable_insert:
  "filter (\<lambda>v. equivalent cmp k (key v)) (stable_insert (value_compare key cmp) x xs) =
    filter (\<lambda>v. equivalent cmp k (key v)) (x # xs)"
  by (induction xs) (auto simp: value_compare_def equivalent_def dest: trans incomparable)

lemma filter_stable_sort:
  "filter (\<lambda>v. equivalent cmp k (key v)) (stable_sort (value_compare key cmp) xs) =
    filter (\<lambda>v. equivalent cmp k (key v)) xs"
  by (induction xs) (simp_all add: filter_stable_insert)

lemma is_sorted_and_unique_ok: "is_sorted_and_unique (value_compare key cmp) t \<longleftrightarrow> tree_ok key cmp t"
proof (induction "value_compare key cmp" t rule: is_sorted_and_unique.induct)
  case (1 x y xs)
  then show ?case using trans by (auto simp: value_compare_def)
qed auto

subsection \<open>Search and erasure\<close>

lemma find_first_of:
  assumes "tree_ok key cmp t"
  shows "first_of key cmp t k =
    (if flat_find key cmp t k = length t then None else Some (t ! flat_find key cmp t k))"
    and "flat_find key cmp t k \<le> length t"
  using first_of_lower_bound [OF assms, of k] lower_bound_split(1) [OF assms, of k]
  by (auto simp: flat_find_def flat_equal_range_def Let_def)

lemma contains_first_of:
  "tree_ok key cmp t \<Longrightarrow> flat_contains key cmp t k \<longleftrightarrow> first_of key cmp t k \<noteq> None"
  using first_of_lower_bound [of t k] by (auto simp: flat_contains_def Let_def)

lemma count_first_of:
  "tree_ok key cmp t \<Longrightarrow>
    flat_count key cmp t k = (if first_of key cmp t k = None then 0 else 1)"
  using first_of_lower_bound [of t k] by (auto simp: flat_count_def flat_equal_range_def Let_def)

lemma erase_key_ok:
  assumes "tree_ok key cmp t" and "flat_erase_key key cmp k t = (t', n)"
  shows "tree_ok key cmp t'"
    and "first_of key cmp t' l = (if equivalent cmp l k then None else first_of key cmp t l)"
    and "n = (if first_of key cmp t k = None then 0 else 1)"
proof -
  let ?l = "flat_lower_bound key cmp t k"
  have "tree_ok key cmp t' \<and>
    first_of key cmp t' l = (if equivalent cmp l k then None else first_of key cmp t l) \<and>
    n = (if first_of key cmp t k = None then 0 else 1)"
  proof (cases "?l = length t \<or> cmp k (key (t ! ?l))")
    case True
    with assms(2) have "t' = t" "n = 0"
      by (auto simp: flat_erase_key_def flat_equal_range_def flat_erase_range_def Let_def)
    with True assms(1) show ?thesis
      using first_of_lower_bound [OF assms(1), of k] first_of_cong [of l k t] by auto
  next
    case False
    with lower_bound_fits [OF assms(1), of k]
    have hit: "first_of key cmp t k = Some (t ! ?l)" "?l < length t" by simp_all
    with False assms(2) have t': "t' = take ?l t @ drop (Suc ?l) t" "n = 1"
      by (auto simp: flat_erase_key_def flat_equal_range_def flat_erase_range_def Let_def)
    have t: "t = take ?l t @ t ! ?l # drop (Suc ?l) t" using hit(2) by (rule id_take_nth_drop)
    with assms(1) have ok: "tree_ok key cmp (take ?l t @ t ! ?l # drop (Suc ?l) t)" by simp
    then have "tree_ok key cmp t'" unfolding t' sorted_wrt_append by auto
    moreover from hit(1) have equiv: "equivalent cmp k (key (t ! ?l))"
      by (auto dest: first_of_Some)
    moreover have "first_of key cmp t' k = None"
      unfolding first_of_None
    proof
      fix x assume "x \<in> set t'"
      with ok have "cmp (key x) (key (t ! ?l)) \<or> cmp (key (t ! ?l)) (key x)"
        by (auto simp: t' sorted_wrt_append value_compare_def)
      with equivalent_less [OF equiv] show "\<not> equivalent cmp k (key x)"
        by (auto simp: equivalent_def)
    qed
    moreover have "first_of key cmp t l = first_of key cmp t' l" if "\<not> equivalent cmp l k"
    proof -
      have "\<not> equivalent cmp l (key (t ! ?l))"
        using that equiv equivalent_trans equivalent_sym by blast
      then show ?thesis unfolding t' by (subst t) (simp add: first_of_append split: option.split)
    qed
    ultimately show ?thesis using hit(1) t'(2) first_of_cong [of l k t'] by simp
  qed
  then show "tree_ok key cmp t'"
    "first_of key cmp t' l = (if equivalent cmp l k then None else first_of key cmp t l)"
    "n = (if first_of key cmp t k = None then 0 else 1)" by auto
qed

lemma EraseIf_ok:
  assumes "tree_ok key cmp t" and "EraseIf pred t = (t', n)"
  shows "tree_ok key cmp t'" and "n = length t - length t'"
    and "first_of key cmp t' k =
      (case first_of key cmp t k of None \<Rightarrow> None | Some v \<Rightarrow> if pred v then None else Some v)"
proof -
  have t': "t' = filter (\<lambda>v. \<not> pred v) t" "n = length t - length t'"
    using assms(2) by (auto simp: EraseIf_def Let_def)
  then show "tree_ok key cmp t'" "n = length t - length t'"
    using assms(1) by (simp_all add: sorted_wrt_filter)
  have "first_of key cmp (filter (\<lambda>v. \<not> pred v) t) k =
      (case first_of key cmp t k of None \<Rightarrow> None | Some v \<Rightarrow> if pred v then None else Some v)"
    using assms(1)
  proof (induction t)
    case (Cons w t)
    have "first_of key cmp (filter (\<lambda>v. \<not> pred v) t) k = None" if "equivalent cmp k (key w)"
      using Cons.prems equivalent_less(1) [OF that]
      by (auto simp: first_of_None value_compare_def equivalent_def)
    with Cons show ?case by auto
  qed simp
  then show "first_of key cmp t' k =
      (case first_of key cmp t k of None \<Rightarrow> None | Some v \<Rightarrow> if pred v then None else Some v)"
    by (simp add: t')
qed

lemma erase_key_filter:
  assumes "tree_ok key cmp t" and "flat_erase_key key cmp k t = (t', n)"
  shows "t' = filter (\<lambda>v. \<not> equivalent cmp k (key v)) t"
proof -
  let ?f = "filter (\<lambda>v. \<not> equivalent cmp k (key v)) t"
  have "EraseIf (\<lambda>v. equivalent cmp k (key v)) t = (?f, length t - length ?f)"
    by (simp add: EraseIf_def Let_def)
  note f = EraseIf_ok [OF assms(1) this]
  show ?thesis
  proof (rule tree_ext)
    fix l
    have "equivalent cmp k (key v) \<longleftrightarrow> equivalent cmp l k" if "first_of key cmp t l = Some v" for v
      using first_of_Some [OF that] equivalent_trans equivalent_sym by blast
    then show "first_of key cmp t' l = first_of key cmp ?f l"
      unfolding f(3) erase_key_ok(2) [OF assms] using first_of_cong [of l k t]
      by (auto split: option.split)
  qed (use f(1) erase_key_ok(1) [OF assms] in auto)
qed

subsection \<open>Insertion sort\<close>

lemma insert_after_stable:
  "insert_after (value_compare key cmp) x (stable_insert (value_compare key cmp) y xs) =
    stable_insert (value_compare key cmp) y (insert_after (value_compare key cmp) x xs)"
proof (induction xs)
  case (Cons z xs)
  then show ?case
    using trans [of "key x" "key z" "key y"] incomparable [of "key x" "key z" "key y"]
    by (auto simp: value_compare_def)
qed auto

lemma insert_after_last:
  "weakly_sorted (xs @ [y]) \<Longrightarrow> insert_after (value_compare key cmp) x (xs @ [y]) =
    (if value_compare key cmp x y then insert_after (value_compare key cmp) x xs @ [y] else xs @ [y, x])"
proof (induction xs)
  case (Cons z xs)
  then show ?case
    using value_incomparable [of x y z] by auto
qed simp

lemma swap_down_insert:
  "weakly_sorted xs \<Longrightarrow> swap_down (value_compare key cmp) (length xs) (xs @ x # ys) =
    insert_after (value_compare key cmp) x xs @ ys"
proof (induction xs arbitrary: ys rule: rev_induct)
  case (snoc y xs)
  then have "weakly_sorted xs" by (simp add: sorted_wrt_append)
  from snoc.IH [OF this, of "y # ys"] show ?case
    unfolding insert_after_last [OF snoc.prems] by (simp add: nth_append list_update_append)
qed simp

lemma stable_sort_snoc:
  "stable_sort (value_compare key cmp) (xs @ [x]) =
    insert_after (value_compare key cmp) x (stable_sort (value_compare key cmp) xs)"
  by (induction xs) (simp_all add: insert_after_stable)

lemma insertion_loop:
  "i \<le> length xs \<Longrightarrow> fold (swap_down (value_compare key cmp)) [0..<i] xs =
    stable_sort (value_compare key cmp) (take i xs) @ drop i xs"
proof (induction i)
  case (Suc i)
  let ?s = "stable_sort (value_compare key cmp) (take i xs)"
  have "length ?s = i" using Suc.prems by simp
  moreover have "drop i xs = xs ! i # drop (Suc i) xs" using Suc.prems by (simp add: Cons_nth_drop_Suc)
  moreover have "take (Suc i) xs = take i xs @ [xs ! i]"
    using Suc.prems by (simp add: take_Suc_conv_app_nth)
  ultimately show ?case
    using Suc swap_down_insert [OF stable_sort_sorted, of "take i xs" "xs ! i" "drop (Suc i) xs"]
    by (simp add: stable_sort_snoc)
qed simp

lemma InsertionSort_stable:
  "InsertionSort (value_compare key cmp) xs = stable_sort (value_compare key cmp) xs"
  using insertion_loop [of "length xs" xs]
  by (cases "xs = []") (simp_all add: InsertionSort_def upt_rec [of 0])

end

section \<open>The instances: \<open>flat_set\<close> and \<open>flat_map\<close> with \<open>std::less\<close>\<close>

text \<open>\<open>flat_set\<close> takes the value itself as its key (\<open>identity\<close>), \<open>flat_map\<close> the first component.\<close>

interpretation less_set: keyed_order std_less "\<lambda>v. v"
  by unfold_locales (auto simp: std_less_def)

interpretation less_map: keyed_order std_less fst
  by unfold_locales (auto simp: std_less_def)

abbreviation flat_map_ok :: "('k::linorder, 'm) flat_map \<Rightarrow> bool" where
  "flat_map_ok \<equiv> tree_ok fst std_less"

lemma equivalent_std_less [simp]: "equivalent std_less a b \<longleftrightarrow> a = b"
  by (auto simp: equivalent_def std_less_def)

lemma first_of_map: "first_of fst std_less t k = map_option (Pair k) (map_of t k)"
  by (induction t) auto

lemma map_of_first: "map_of t k = map_option snd (first_of fst std_less t k)"
  by (induction t) auto

lemma flat_map_map_ok: "flat_map_ok t \<longleftrightarrow> map_ok t"
  by (simp add: sorted_wrt_map value_compare_def [abs_def] std_less_def)

lemma map_at_map_of:
  assumes "flat_map_ok t"
  shows "map_at std_less k t = map_of t k"
  using less_map.find_first_of(1) [OF assms, of k]
  by (cases "map_of t k") (auto simp: map_at_def first_of_map Let_def split: if_splits dest: sym)

lemma map_write_ok:
  assumes "flat_map_ok t" and "i < length t" and "fst (t ! i) = k"
  shows "flat_map_ok (map_write i m t) \<and> map_of (map_write i m t) = (map_of t)(k \<mapsto> m)"
proof -
  let ?xs = "take i t" and ?ys = "drop (Suc i) t"
  obtain old where old: "t ! i = (k, old)" using assms(3) by (cases "t ! i") auto
  have t: "t = ?xs @ (k, old) # ?ys"
    using id_take_nth_drop [OF assms(2)] old by simp
  have wr: "map_write i m t = ?xs @ (k, m) # ?ys"
    using upd_conv_take_nth_drop [OF assms(2)] assms(3) by (simp add: map_write_def)
  have ok: "flat_map_ok (?xs @ (k, old) # ?ys)" using assms(1) t by simp
  then have "flat_map_ok (map_write i m t)"
    unfolding wr sorted_wrt_append by (auto simp: value_compare_def)
  moreover have "map_of ?xs k = None"
    using ok unfolding sorted_wrt_append map_of_eq_None_iff by (auto simp: value_compare_def std_less_def)
  then have "map_of (?xs @ (k, m) # ?ys) = (map_of (?xs @ (k, old) # ?ys))(k \<mapsto> m)"
    by (auto simp: fun_eq_iff map_add_def split: option.split)
  ultimately show ?thesis using t wr by simp
qed

lemma first_of_map_of:
  "first_of fst std_less s = first_of fst std_less t \<longleftrightarrow> map_of s = map_of t"
proof
  assume "first_of fst std_less s = first_of fst std_less t"
  then have "map_option (Pair k) (map_of s k) = map_option (Pair k) (map_of t k)" for k
    by (simp only: first_of_map [symmetric])
  then show "map_of s = map_of t"
    by (intro ext) (metis option.inj_map_strong prod.inject)
qed (simp add: fun_eq_iff first_of_map)

lemma write_emplaced:
  "i \<le> length t \<Longrightarrow> map_write i m (unsafe_emplace i (k, z) t) = unsafe_emplace i (k, m) t"
  by (simp add: map_write_def unsafe_emplace_def list_update_append nth_append)

text \<open>The hint of an insertion and the order of writing make no difference.\<close>

lemma emplace_map:
  assumes "flat_map_ok t" and "emplace_key_args fst std_less k (k, m) t = (t', i, new)"
  shows "flat_map_ok t' \<and> i < length t' \<and> fst (t' ! i) = k \<and> (new \<longleftrightarrow> map_of t k = None) \<and>
    map_of t' = (if new then (map_of t)(k \<mapsto> m) else map_of t)"
proof -
  note e = less_map.emplace_key_args_ok [of t "(k, m)", simplified, OF assms]
  from e(5) have "fst (t' ! i) = k"
    by (auto dest: first_of_Some)
  moreover from e(3) have new: "new \<longleftrightarrow> map_of t k = None" by (simp add: first_of_map)
  moreover from e(2) have "map_of t' = map_of (t @ [(k, m)])" by (simp only: first_of_map_of)
  then have "map_of t' = (if new then (map_of t)(k \<mapsto> m) else map_of t)"
    using new by (auto simp: fun_eq_iff map_add_def split: option.split)
  ultimately show ?thesis using e(1,4) by simp
qed

lemma insert_or_assign_ok:
  assumes "flat_map_ok t"
  shows "flat_map_ok (fst (map_insert_or_assign std_less k m t)) \<and>
    map_of (fst (map_insert_or_assign std_less k m t)) = (map_of t)(k \<mapsto> m)"
proof -
  obtain t' i new where e: "emplace_key_args fst std_less k (k, m) t = (t', i, new)"
    by (cases "emplace_key_args fst std_less k (k, m) t")
  with emplace_map [OF assms e] map_write_ok [of t' i k m] show ?thesis
    by (simp add: map_insert_or_assign_def)
qed

lemma erase_key_map:
  assumes "flat_map_ok t"
  shows "flat_map_ok (fst (flat_erase_key fst std_less k t)) \<and>
    map_of (fst (flat_erase_key fst std_less k t)) = (map_of t)(k := None)"
proof -
  obtain t' n where e: "flat_erase_key fst std_less k t = (t', n)"
    by (cases "flat_erase_key fst std_less k t")
  have "map_of t' l = ((map_of t)(k := None)) l" for l
    unfolding map_of_first using less_map.erase_key_ok(2) [OF assms e, of l] by simp
  with less_map.erase_key_ok(1) [OF assms e] show ?thesis by (auto simp: e)
qed

interpretation flat: map_interface flat_map_ok "[]" "\<lambda>t k. map_at std_less k t"
  "\<lambda>k m t. fst (map_insert_or_assign std_less k m t)" "\<lambda>k t. fst (flat_erase_key fst std_less k t)"
proof unfold_locales
  fix t :: "('a :: linorder, 'b) flat_map" and k m
  assume t: "flat_map_ok t"
  let ?p = "fst (map_insert_or_assign std_less k m t)" and ?d = "fst (flat_erase_key fst std_less k t)"
  from insert_or_assign_ok [OF t, of k m] erase_key_map [OF t, of k]
  show "flat_map_ok ?p" "flat_map_ok ?d"
    and "(\<lambda>l. map_at std_less l ?p) = (\<lambda>l. map_at std_less l t)(k \<mapsto> m)"
    and "(\<lambda>l. map_at std_less l ?d) = (\<lambda>l. map_at std_less l t)(k := None)"
    using t by (simp_all add: map_at_map_of fun_eq_iff)
qed (simp_all add: map_at_map_of)

interpretation flat_std: map_pair flat_map_ok "[]" "\<lambda>t k. map_at std_less k t"
  "\<lambda>k m t. fst (map_insert_or_assign std_less k m t)" "\<lambda>k t. fst (flat_erase_key fst std_less k t)"
  map_ok "[]" map_of map_put map_erase
  by unfold_locales

section \<open>Properties\<close>

text \<open>
  C9: The fast ways to fill a tree give exactly what inserting one value after the other gives, for
  any strict weak order of the keys: the range insertion, which appends the new values, sorts
  them, removes duplicates and merges from the first insertion point; the constructor, which sorts
  once; and the insertion with a hint, for every hint, right or wrong. Of values with equivalent
  keys the first one stays.
\<close>

theorem flat_bulk_insertion:
  assumes "strict_weak_order cmp" and "tree_ok key cmp t" and "hint \<le> length t"
  shows "flat_insert_range key cmp multipass vs t = fold (\<lambda>v t. fst (flat_insert key cmp v t)) vs t \<and>
    new_flat_tree key cmp vs = fold (\<lambda>v t. fst (flat_insert key cmp v t)) vs [] \<and>
    flat_insert_hint key cmp hint v t =
      (fst (flat_insert key cmp v t), fst (snd (flat_insert key cmp v t))) \<and>
    (\<forall>k. first_of key cmp (flat_insert_range key cmp multipass vs t) k = first_of key cmp (t @ vs) k)"
proof -
  note order = keyed_order.intro [OF assms(1)]
  show ?thesis
    using keyed_order.insert_range_all [OF order assms(2), of multipass vs]
      keyed_order.insert_all_ok [OF order assms(2), of vs]
      keyed_order.hint_irrelevant [OF order assms(2,3), of "key v" v]
      keyed_order.new_flat_tree_inserts [OF order, of key vs]
    by (simp add: flat_insert_hint_def flat_insert_def split: prod.split)
qed

lemma flat_bulk_insertion_witness:
  "flat_insert_range fst std_less True [(2, ''b''), (1, ''a''), (5, ''x''), (1, ''z'')] [(3 :: nat, ''c''), (5, ''e'')] =
    [(1, ''a''), (2, ''b''), (3, ''c''), (5, ''e'')]"
proof -
  have order: "strict_weak_order (std_less :: nat \<Rightarrow> nat \<Rightarrow> bool)" by unfold_locales
  have ok: "tree_ok fst std_less [(3 :: nat, ''c''), (5, ''e'')]"
    by (simp add: value_compare_def std_less_def)
  from flat_bulk_insertion [OF order ok, of 0 True "[(2, ''b''), (1, ''a''), (5, ''x''), (1, ''z'')]"]
  show ?thesis
    by (simp add: flat_insert_def emplace_key_args_def flat_lower_bound_def unsafe_emplace_def
        partition_pos.simps std_less_def Let_def nth_Cons')
qed

text \<open>
  The insertion sort by swaps sorts stably: the result is ordered, has the same elements, and
  elements with equivalent keys keep their order.
\<close>

theorem insertion_sort_sorts:
  fixes key :: "'v \<Rightarrow> 'k" and xs :: "'v list"
  assumes "strict_weak_order cmp"
  defines "s \<equiv> InsertionSort (value_compare key cmp) xs"
  shows "sorted_wrt (\<lambda>a b. \<not> cmp (key b) (key a)) s \<and> mset s = mset xs \<and>
    filter (\<lambda>v. equivalent cmp k (key v)) s = filter (\<lambda>v. equivalent cmp k (key v)) xs"
proof -
  note order = keyed_order.intro [OF assms(1)]
  have "s = stable_sort (value_compare key cmp) xs"
    unfolding s_def by (rule keyed_order.InsertionSort_stable [OF order])
  then show ?thesis
    using keyed_order.stable_sort_sorted [OF order, of key xs] keyed_order.filter_stable_sort [OF order, of k key xs]
    by (simp add: mset_stable_sort value_compare_def)
qed

lemma insertion_sort_sorts_witness:
  "InsertionSort (value_compare fst std_less) [(2, ''b''), (1, ''x''), (2, ''a''), (1 :: nat, ''y'')] =
    [(1, ''x''), (1, ''y''), (2, ''b''), (2, ''a'')] \<and>
    mset [(1, ''x''), (1, ''y''), (2, ''b''), (2, ''a'')] = mset [(2, ''b''), (1, ''x''), (2, ''a''), (1 :: nat, ''y'')]"
proof -
  have order: "strict_weak_order (std_less :: nat \<Rightarrow> nat \<Rightarrow> bool)" by unfold_locales
  show ?thesis
    using insertion_sort_sorts [OF order, of fst "[(2, ''b''), (1, ''x''), (2, ''a''), (1 :: nat, ''y'')]"]
    by (simp add: InsertionSort_def value_compare_def std_less_def upt_rec eval_nat_numeral)
qed

text \<open>
  C8: A \<open>flat_map\<close> and a \<open>std::map\<close> (the sorted entries of the JSON objects and the response table)
  give the same answers to any calls, those of a mathematical map, and the vector stays
  strictly sorted.
\<close>

theorem flat_map_is_std_map:
  fixes cs :: "('k :: linorder, 'm) map_call list"
  defines "t \<equiv> run_calls (\<lambda>k m t. fst (map_insert_or_assign std_less k m t))
      (\<lambda>k t. fst (flat_erase_key fst std_less k t)) cs []"
  shows "is_sorted_and_unique (value_compare fst std_less) t \<and>
    map_at std_less k t = map_of (run_calls map_put map_erase cs []) k \<and>
    map_at std_less k t = map_spec cs k"
  unfolding t_def
  using flat.run_refines(1) [where cs = cs] flat_std.same_answers [where k = k and cs = cs] std_map.run_refines(2) [where cs = cs]
  by (simp add: less_map.is_sorted_and_unique_ok)

text \<open>
  All ways to write an entry agree, whatever the hint: \<open>operator[]\<close> followed by an assignment,
  and \<open>insert_or_assign\<close> with and without a hint leave the same vector; \<open>try_emplace\<close> leaves an existing
  entry alone.
\<close>

theorem flat_map_writes:
  fixes m zero :: 'm and k :: "'k :: linorder"
  assumes "flat_map_ok t" and "hint \<le> length t"
  defines "u \<equiv> fst (map_insert_or_assign std_less k m t)"
  shows "fst (map_insert_or_assign_hint std_less hint k m t) = u \<and>
    (let (t', i) = map_index std_less zero k t in map_write i m t') = u \<and>
    try_emplace_hint std_less hint k m t =
      (fst (try_emplace std_less k m t), fst (snd (try_emplace std_less k m t))) \<and>
    fst (try_emplace std_less k m t) = (if map_of t k = None then u else t) \<and>
    map_at std_less k u = Some m"
proof -
  have hint: "emplace_hint_key_args fst std_less hint k v t = emplace_key_args fst std_less k v t" for v
    using less_map.hint_irrelevant [OF assms(1,2)] by simp
  have "fst (map_insert_or_assign_hint std_less hint k m t) = u"
    by (simp add: map_insert_or_assign_hint_def u_def map_insert_or_assign_def hint split: prod.split)
  moreover have "(let (t', i) = map_index std_less zero k t in map_write i m t') = u"
    using less_map.lower_bound_split(1) [OF assms(1), of k]
    by (simp add: u_def map_index_def map_insert_or_assign_def emplace_key_args_def Let_def write_emplaced)
  moreover have "try_emplace_hint std_less hint k m t =
      (fst (try_emplace std_less k m t), fst (snd (try_emplace std_less k m t)))"
    by (simp add: try_emplace_hint_def try_emplace_def hint split: prod.split)
  moreover have "fst (try_emplace std_less k m t) = (if map_of t k = None then u else t)"
  proof -
    obtain t' i new where e: "emplace_key_args fst std_less k (k, m) t = (t', i, new)"
      by (cases "emplace_key_args fst std_less k (k, m) t")
    then have "\<not> new \<Longrightarrow> t' = t" by (auto simp: emplace_key_args_def Let_def split: if_splits)
    moreover have "new \<longleftrightarrow> map_of t k = None" using emplace_map [OF assms(1) e] by simp
    ultimately show ?thesis by (simp add: try_emplace_def u_def map_insert_or_assign_def e)
  qed
  moreover have "map_at std_less k u = Some m"
    using insert_or_assign_ok [OF assms(1), of k m] by (simp add: u_def map_at_map_of)
  ultimately show ?thesis by simp
qed

lemma flat_map_writes_witness:
  "(let (t', i) = map_index std_less ''new'' 2 [(1 :: nat, ''a''), (3, ''c'')] in map_write i ''b'' t') =
    [(1, ''a''), (2, ''b''), (3, ''c'')]"
  using flat_map_writes [of "[(1 :: nat, ''a''), (3, ''c'')]" 2 2 "''b''" "''new''"]
  by (simp add: value_compare_def std_less_def map_insert_or_assign_def emplace_key_args_def
      flat_lower_bound_def partition_pos.simps unsafe_emplace_def Let_def)

text \<open>
  Search and erasure, for any strict weak order: \<open>find\<close>, \<open>contains\<close>, \<open>count\<close> and the two bounds agree
  on whether and where a value with an equivalent key is; \<open>erase\<close> removes exactly it and returns how
  many it removed, \<open>EraseIf\<close> exactly the values chosen. The vector stays sorted.
\<close>

theorem flat_search_erase:
  assumes "strict_weak_order cmp" and "tree_ok key cmp t"
  shows "(flat_find key cmp t k < length t \<longleftrightarrow> flat_contains key cmp t k) \<and>
    flat_count key cmp t k = (if flat_contains key cmp t k then 1 else 0) \<and>
    flat_equal_range key cmp t k = (flat_lower_bound key cmp t k, flat_upper_bound key cmp t k) \<and>
    (flat_contains key cmp t k \<longrightarrow> equivalent cmp k (key (t ! flat_find key cmp t k))) \<and>
    (flat_contains key cmp t k \<longleftrightarrow> (\<exists>v\<in>set t. equivalent cmp k (key v))) \<and>
    (case flat_erase_key key cmp k t of (t', n) \<Rightarrow>
       t' = filter (\<lambda>v. \<not> equivalent cmp k (key v)) t \<and> n = flat_count key cmp t k) \<and>
    (case EraseIf pred t of (t', n) \<Rightarrow> tree_ok key cmp t' \<and> n + length t' = length t)"
proof -
  note order = keyed_order.intro [OF assms(1)]
  note find = keyed_order.find_first_of [OF order assms(2), of k]
  note contains = keyed_order.contains_first_of [OF order assms(2), of k]
  obtain t' n where e: "flat_erase_key key cmp k t = (t', n)" by (cases "flat_erase_key key cmp k t")
  note erased = keyed_order.erase_key_filter [OF order assms(2) e]
    keyed_order.erase_key_ok(3) [OF order assms(2) e]
  have "flat_contains key cmp t k \<longleftrightarrow> (\<exists>v\<in>set t. equivalent cmp k (key v))"
    using contains first_of_None [of key cmp t k] by auto
  moreover have "equivalent cmp k (key (t ! flat_find key cmp t k))" if "flat_contains key cmp t k"
    using that contains find first_of_Some [of key cmp t k] by (auto split: if_splits)
  moreover have "case EraseIf pred t of (t', n) \<Rightarrow> tree_ok key cmp t' \<and> n + length t' = length t"
    using keyed_order.EraseIf_ok(1) [OF order assms(2), of pred]
    by (auto simp: EraseIf_def Let_def length_filter_le)
  ultimately show ?thesis
    using find contains keyed_order.count_first_of [OF order assms(2), of k]
      keyed_order.equal_range_bounds [OF order assms(2), of k] erased e
    by (auto split: if_splits)
qed

lemma flat_search_erase_witness:
  "flat_erase_key fst std_less 2 [(1 :: nat, ''a''), (2, ''b'')] = ([(1, ''a'')], 1)"
proof -
  have order: "strict_weak_order (std_less :: nat \<Rightarrow> nat \<Rightarrow> bool)" by unfold_locales
  have ok: "tree_ok fst std_less [(1 :: nat, ''a''), (2, ''b'')]"
    by (simp add: value_compare_def std_less_def)
  from flat_search_erase [OF order ok, of 2 "\<lambda>v. True"] show ?thesis
    by (auto split: prod.splits if_splits)
qed

end
