(* ===== verification/Json_Escape.thy ===== *)
theory Json_Escape
  imports Json_Valid
begin

text \<open>
  \<open>serializer::dump_escaped\<close> with all its options: \<open>ensure_ascii\<close> and the three ways to treat
  ill-formed UTF-8. The first definition follows the source: a buffer of 512 bytes that is written
  out when fewer than 13 are left, the mark of the last accepted code point, and the byte that is
  read again after a rejected sequence. The second leaves the buffer out; it is proved to give the
  same text, and to be read back by the lexer as the cleaned string.
\<close>

datatype error_handler = Strict | Replace | Ignore

text \<open>
  A write or read outside of one of the serializer's buffers is undefined behaviour, an outcome
  of its own.
\<close>

datatype dump_error = Json_error json_error | Outside_buffer

section \<open>The loop of the source\<close>

text \<open>The text for an accepted code point; \<open>c\<close> is its last byte.\<close>

definition escape_text :: "bool \<Rightarrow> nat \<Rightarrow> char \<Rightarrow> string" where
  "escape_text ensure_ascii cp c =
     (if cp = 8 then [CHR 0x5C, CHR ''b'']
      else if cp = 9 then [CHR 0x5C, CHR ''t'']
      else if cp = 10 then [CHR 0x5C, CHR ''n'']
      else if cp = 12 then [CHR 0x5C, CHR ''f'']
      else if cp = 13 then [CHR 0x5C, CHR ''r'']
      else if cp = 34 then [CHR 0x5C, CHR 0x22]
      else if cp = 92 then [CHR 0x5C, CHR 0x5C]
      else if cp \<le> 31 \<or> ensure_ascii \<and> 127 \<le> cp then
        if cp \<le> 65535 then [CHR 0x5C, CHR ''u''] @ hex4 cp
        else [CHR 0x5C, CHR ''u''] @ hex4 (55232 + cp div 1024) @
             [CHR 0x5C, CHR ''u''] @ hex4 (56320 + cp mod 1024)
      else [c])"

text \<open>\<open>snprintf\<close> also writes a terminating zero.\<close>

definition bytes_written :: "string \<Rightarrow> nat" where
  "bytes_written t = (if 6 \<le> length t then length t + 1 else length t)"

definition replacement :: "bool \<Rightarrow> string" where
  "replacement ensure_ascii =
     (if ensure_ascii then CHR 0x5C # ''ufffd'' else [CHR 0xEF, CHR 0xBF, CHR 0xBD])"

record escaper =
  codepoint :: nat
  state :: nat
  string_buffer :: string
  bytes_after_last_accept :: nat
  undumped_chars :: nat
  written :: string

definition buffer_put :: "nat \<Rightarrow> string \<Rightarrow> escaper \<Rightarrow> (dump_error, escaper) result" where
  "buffer_put room t e =
     (if length (string_buffer e) + room \<le> 512
      then Inr (e\<lparr>string_buffer := string_buffer e @ t\<rparr>) else Inl Outside_buffer)"

definition buffer_accept :: "escaper \<Rightarrow> escaper" where
  "buffer_accept e =
     (let e1 = (if 512 - length (string_buffer e) < 13
                then e\<lparr>written := written e @ string_buffer e, string_buffer := []\<rparr> else e)
      in e1\<lparr>bytes_after_last_accept := length (string_buffer e1)\<rparr>)"

definition on_accept :: "bool \<Rightarrow> char \<Rightarrow> escaper \<Rightarrow> (dump_error, escaper) result" where
  "on_accept ensure_ascii c e =
     (let t = escape_text ensure_ascii (codepoint e) c in
      bind_result (buffer_put (bytes_written t) t e)
        (\<lambda>e1. Inr ((buffer_accept e1)\<lparr>undumped_chars := 0\<rparr>)))"

definition on_reject :: "error_handler \<Rightarrow> bool \<Rightarrow> escaper \<Rightarrow> (dump_error, escaper) result" where
  "on_reject h ensure_ascii e =
     (case h of
        Strict \<Rightarrow> Inl (Json_error (Type_error 316))
      | _ \<Rightarrow>
        (let e1 = e\<lparr>string_buffer := take (bytes_after_last_accept e) (string_buffer e)\<rparr> in
         bind_result
           (if h = Replace
            then bind_result (buffer_put (length (replacement ensure_ascii)) (replacement ensure_ascii) e1)
              (\<lambda>e2. Inr (buffer_accept e2))
            else Inr e1)
           (\<lambda>e3. Inr (e3\<lparr>undumped_chars := 0, state := 0\<rparr>))))"

definition on_incomplete :: "bool \<Rightarrow> char \<Rightarrow> escaper \<Rightarrow> (dump_error, escaper) result" where
  "on_incomplete ensure_ascii c e =
     bind_result (if ensure_ascii then Inr e else buffer_put 1 [c] e)
       (\<lambda>e1. Inr (e1\<lparr>undumped_chars := undumped_chars e1 + 1\<rparr>))"

definition decode :: "nat \<Rightarrow> escaper \<Rightarrow> escaper" where
  "decode b e =
     e\<lparr>codepoint := decode_codepoint (state e) (codepoint e) b, state := decode_state (state e) b\<rparr>"

definition on_end :: "error_handler \<Rightarrow> bool \<Rightarrow> escaper \<Rightarrow> (dump_error, string) result" where
  "on_end h ensure_ascii e =
     (if state e = 0 then Inr (written e @ string_buffer e)
      else case h of
        Strict \<Rightarrow> Inl (Json_error (Type_error 316))
      | Ignore \<Rightarrow> Inr (written e @ take (bytes_after_last_accept e) (string_buffer e))
      | Replace \<Rightarrow> Inr (written e @ take (bytes_after_last_accept e) (string_buffer e) @
          replacement ensure_ascii))"

function (sequential) escape_run ::
  "error_handler \<Rightarrow> bool \<Rightarrow> string \<Rightarrow> escaper \<Rightarrow> (dump_error, string) result" where
  "escape_run h a [] e = on_end h a e"
| "escape_run h a (c # s) e =
     (let e1 = decode (byte c) e in
      if state e1 = 0 then
        (case on_accept a c e1 of Inl x \<Rightarrow> Inl x | Inr e2 \<Rightarrow> escape_run h a s e2)
      else if state e1 = 1 then
        (case on_reject h a e1 of
           Inl x \<Rightarrow> Inl x
         | Inr e2 \<Rightarrow> if 0 < undumped_chars e1 then escape_run h a (c # s) e2 else escape_run h a s e2)
      else
        (case on_incomplete a c e1 of Inl x \<Rightarrow> Inl x | Inr e2 \<Rightarrow> escape_run h a s e2))"
  by pat_completeness auto
termination
  by (relation "measure (\<lambda>(h, a, s, e). 2 * length s + (if 0 < undumped_chars e then 1 else 0))")
    (auto simp: decode_def on_reject_def bind_result_def Let_def
      split: error_handler.splits sum.splits if_splits)

definition new_escaper :: escaper where
  "new_escaper =
     \<lparr>codepoint = 0, state = 0, string_buffer = [], bytes_after_last_accept = 0,
      undumped_chars = 0, written = []\<rparr>"

definition escape_string :: "error_handler \<Rightarrow> bool \<Rightarrow> string \<Rightarrow> (dump_error, string) result" where
  "escape_string h ensure_ascii s = escape_run h ensure_ascii s new_escaper"

section \<open>The loop without its buffer\<close>

text \<open>
  \<open>pend\<close> are the bytes since the last accepted code point. What is emitted for an accepted code
  point and for a rejected sequence are arguments, so that the same recursion also describes the
  string that survives.
\<close>

function (sequential) escape_gen ::
  "(nat \<Rightarrow> string \<Rightarrow> char \<Rightarrow> string) \<Rightarrow> string \<Rightarrow> error_handler \<Rightarrow> nat \<Rightarrow> nat \<Rightarrow> string \<Rightarrow> string \<Rightarrow>
   (json_error, string) result" where
  "escape_gen em rp h st cp pend [] =
     (if st = 0 then Inr []
      else case h of Strict \<Rightarrow> Inl (Type_error 316) | Ignore \<Rightarrow> Inr [] | Replace \<Rightarrow> Inr rp)"
| "escape_gen em rp h st cp pend (c # s) =
     (let cp' = decode_codepoint st cp (byte c); st' = decode_state st (byte c) in
      if st' = 0 then
        bind_result (escape_gen em rp h 0 cp' [] s) (\<lambda>t. Inr (em cp' pend c @ t))
      else if st' = 1 then
        (if h = Strict then Inl (Type_error 316)
         else bind_result (if pend = [] then escape_gen em rp h 0 cp' [] s
                           else escape_gen em rp h 0 cp' [] (c # s))
           (\<lambda>t. Inr ((if h = Replace then rp else []) @ t)))
      else escape_gen em rp h st' cp' (pend @ [c]) s)"
  by pat_completeness auto
termination
  by (relation "measure (\<lambda>(em, rp, h, st, cp, pend, s). 2 * length s + (if pend = [] then 0 else 1))")
    auto

definition emit_text :: "bool \<Rightarrow> nat \<Rightarrow> string \<Rightarrow> char \<Rightarrow> string" where
  "emit_text ensure_ascii cp pend c = (if ensure_ascii then [] else pend) @ escape_text ensure_ascii cp c"

definition emit_raw :: "nat \<Rightarrow> string \<Rightarrow> char \<Rightarrow> string" where
  "emit_raw cp pend c = pend @ [c]"

definition escape_plain :: "error_handler \<Rightarrow> bool \<Rightarrow> string \<Rightarrow> (json_error, string) result" where
  "escape_plain h a s = escape_gen (emit_text a) (replacement a) h 0 0 [] s"

text \<open>The string with every ill-formed sequence replaced or dropped.\<close>

definition cleaned :: "error_handler \<Rightarrow> string \<Rightarrow> string" where
  "cleaned h s = (case escape_gen emit_raw (replacement False) h 0 0 [] s of Inr t \<Rightarrow> t | Inl _ \<Rightarrow> s)"

section \<open>The decoder and the bytes it has seen\<close>

text \<open>The state, the partial code point and the bytes so far belong together.\<close>

inductive partial :: "nat \<Rightarrow> nat \<Rightarrow> string \<Rightarrow> bool" where
  two: "2 \<le> cp \<Longrightarrow> cp \<le> 31 \<Longrightarrow> partial 2 cp [chr (192 + cp)]"
| three1: "cp \<le> 15 \<Longrightarrow> st = (if cp = 0 then 4 else if cp = 13 then 5 else 3) \<Longrightarrow>
    partial st cp [chr (224 + cp)]"
| three2: "32 \<le> cp \<Longrightarrow> cp \<le> 1023 \<Longrightarrow> \<not> (864 \<le> cp \<and> cp \<le> 895) \<Longrightarrow>
    partial 2 cp [chr (224 + cp div 64), chr (128 + cp mod 64)]"
| four1: "cp \<le> 4 \<Longrightarrow> st = (if cp = 0 then 6 else if cp = 4 then 8 else 7) \<Longrightarrow>
    partial st cp [chr (240 + cp)]"
| four2: "16 \<le> cp \<Longrightarrow> cp \<le> 271 \<Longrightarrow> partial 3 cp [chr (240 + cp div 64), chr (128 + cp mod 64)]"
| four3: "1024 \<le> cp \<Longrightarrow> cp \<le> 17407 \<Longrightarrow>
    partial 2 cp [chr (240 + cp div 4096), chr (128 + cp div 64 mod 64), chr (128 + cp mod 64)]"

definition scalar :: "nat \<Rightarrow> bool" where
  "scalar cp \<longleftrightarrow> cp \<le> 1114111 \<and> \<not> (55296 \<le> cp \<and> cp \<le> 57343)"

lemma partial_good: "partial st cp pend \<Longrightarrow> good_state st \<and> pend \<noteq> [] \<and> length pend \<le> 3"
  by (induction rule: partial.induct) (auto simp: good_state_def)

lemma continuation_div_mod:
  "(cp * 64 + r) div 64 = cp" "(cp * 64 + r) mod 64 = r" "(cp * 64 + r) div 4096 = cp div 64"
  "(cp * 64 + r) div 262144 = cp div 4096" if "r < 64" for cp r :: nat
proof -
  show "(cp * 64 + r) div 64 = cp" "(cp * 64 + r) mod 64 = r" using that by simp_all
  have "(cp * 64 + r) div (64 * 64) = (cp * 64 + r) div 64 div 64"
    "(cp * 64 + r) div (64 * 4096) = (cp * 64 + r) div 64 div 4096"
    by (simp_all only: div_mult2_eq)
  with that show "(cp * 64 + r) div 4096 = cp div 64" "(cp * 64 + r) div 262144 = cp div 4096"
    by simp_all
qed

lemma continuation_byte:
  assumes "good_state st" and "decode_state st (byte c) \<noteq> 1"
  shows "byte c = 128 + byte c mod 64"
proof -
  have "st < 9" using assms(1) by (simp add: good_state_def)
  with assms have "128 \<le> byte c \<and> byte c \<le> 191"
    by (auto elim!: good_state_cases simp: decode_state_class next_state_def byte_class_def
        split: if_splits)
  then show ?thesis using mod_sub [of 2 64 "byte c"] by (cases "byte c < 192") simp_all
qed

lemma eq_chr: "n < 256 \<Longrightarrow> c = chr n \<longleftrightarrow> byte c = n"
  by (metis byte_chr chr_byte)

lemma utf8_bytes_cases:
  "128 \<le> cp \<Longrightarrow> cp \<le> 2047 \<Longrightarrow> utf8_bytes cp = [chr (192 + cp div 64), chr (128 + cp mod 64)]"
  "2048 \<le> cp \<Longrightarrow> cp \<le> 65535 \<Longrightarrow>
    utf8_bytes cp = [chr (224 + cp div 4096), chr (128 + cp div 64 mod 64), chr (128 + cp mod 64)]"
  "65536 \<le> cp \<Longrightarrow> utf8_bytes cp = [chr (240 + cp div 262144), chr (128 + cp div 4096 mod 64),
      chr (128 + cp div 64 mod 64), chr (128 + cp mod 64)]"
  by (simp_all add: utf8_bytes_def)

text \<open>The state after a continuation byte \<open>128 + r\<close>.\<close>

lemma state_after:
  assumes "r < 64"
  shows "next_state 2 (byte_class (128 + r)) = 0" "next_state 3 (byte_class (128 + r)) = 2"
    "next_state 4 (byte_class (128 + r)) = (if 32 \<le> r then 2 else 1)"
    "next_state 5 (byte_class (128 + r)) = (if r < 32 then 2 else 1)"
    "next_state 6 (byte_class (128 + r)) = (if 16 \<le> r then 3 else 1)"
    "next_state 7 (byte_class (128 + r)) = 3"
    "next_state 8 (byte_class (128 + r)) = (if r < 16 then 3 else 1)"
  using assms by (auto simp: next_state_def byte_class_def)

lemma partial_step:
  assumes p: "partial st cp pend" and ne: "decode_state st (byte c) \<noteq> 1"
  defines "cp' \<equiv> decode_codepoint st cp (byte c)" and "st' \<equiv> decode_state st (byte c)"
  shows "st' = 0 \<and> pend @ [c] = utf8_bytes cp' \<and> 128 \<le> cp' \<and> scalar cp' \<or>
    partial st' cp' (pend @ [c])"
proof -
  obtain r where r_def: "byte c mod 64 = r" by simp
  then have r: "r < 64" by auto
  from partial_good [OF p] have g: "good_state st" by simp
  then have st: "st < 9" "st \<noteq> 0" by (simp_all add: good_state_def)
  have b: "byte c = 128 + r" using continuation_byte [OF g ne] r_def by simp
  have c: "c = chr (128 + r)" by (metis b chr_byte)
  have cp': "cp' = cp * 64 + r" using st r_def by (simp add: cp'_def decode_codepoint_def)
  have "st' = next_state st (byte_class (byte c))"
    using st by (simp add: st'_def decode_state_class)
  then have st': "st' = next_state st (byte_class (128 + r))" using b by simp
  have ne': "st' \<noteq> 1" using ne by (simp add: st'_def)
  note dm = continuation_div_mod [OF r, of cp, folded cp']
  from p show ?thesis
  proof (cases rule: partial.cases)
    case two
    then have b: "128 \<le> cp'" "cp' \<le> 2047" "st' = 0" using cp' r state_after [OF r] st' by simp_all
    have "pend @ [c] = utf8_bytes cp'"
      unfolding two(2) utf8_bytes_cases(1) [OF b(1,2)] dm c by simp
    with b show ?thesis by (simp add: scalar_def)
  next
    case three1
    then have b: "st' = 2" "32 \<le> cp'" "cp' \<le> 1023" "\<not> (864 \<le> cp' \<and> cp' \<le> 895)"
      using ne' st' cp' state_after [OF r] r by (auto split: if_splits)
    have "pend @ [c] = [chr (224 + cp' div 64), chr (128 + cp' mod 64)]"
      unfolding three1(1) dm c by simp
    with b show ?thesis by (simp add: partial.three2)
  next
    case three2
    then have b: "2048 \<le> cp'" "cp' \<le> 65535" "\<not> (55296 \<le> cp' \<and> cp' \<le> 57343)" "st' = 0"
      using cp' r state_after [OF r] st' by auto
    have "pend @ [c] = utf8_bytes cp'"
      unfolding three2(2) utf8_bytes_cases(2) [OF b(1,2)] dm c by simp
    with b show ?thesis by (simp add: scalar_def)
  next
    case four1
    then have b: "st' = 3" "16 \<le> cp'" "cp' \<le> 271"
      using ne' st' cp' state_after [OF r] r by (auto split: if_splits)
    have "pend @ [c] = [chr (240 + cp' div 64), chr (128 + cp' mod 64)]"
      unfolding four1(1) dm c by simp
    with b show ?thesis by (simp add: partial.four2)
  next
    case four2
    then have b: "st' = 2" "1024 \<le> cp'" "cp' \<le> 17407"
      using st' cp' state_after [OF r] r by auto
    have "pend @ [c] = [chr (240 + cp' div 4096), chr (128 + cp' div 64 mod 64), chr (128 + cp' mod 64)]"
      unfolding four2(2) dm c by simp
    with b show ?thesis by (simp add: partial.four3)
  next
    case four3
    then have b: "65536 \<le> cp'" "cp' \<le> 1114111" "st' = 0"
      using cp' r state_after [OF r] st' by auto
    have "pend @ [c] = utf8_bytes cp'"
      unfolding four3(2) utf8_bytes_cases(3) [OF b(1)] dm c by simp
    with b show ?thesis by (simp add: scalar_def)
  qed
qed

lemma partial_lead:
  assumes "128 \<le> byte c" and "decode_state 0 (byte c) \<noteq> 1"
  shows "partial (decode_state 0 (byte c)) (decode_codepoint 0 cp (byte c)) [c]"
proof -
  let ?b = "byte c"
  have st: "decode_state 0 ?b = next_state 0 (byte_class ?b)" by (simp add: decode_state_class)
  have cp: "decode_codepoint 0 cp ?b = lead_cp ?b"
    by (simp add: decode_codepoint_def utf8d_row lead_cp_def shifted_mask byte_class_less)
  have m: "192 \<le> ?b \<Longrightarrow> ?b < 224 \<Longrightarrow> ?b mod 64 = ?b - 192"
    "224 \<le> ?b \<Longrightarrow> ?b < 240 \<Longrightarrow> ?b mod 32 = ?b - 224" "237 = ?b \<Longrightarrow> ?b mod 16 = 13"
    "240 \<le> ?b \<Longrightarrow> ?b < 244 \<Longrightarrow> ?b mod 4 = ?b - 240"
    using mod_sub [of 3 64 ?b] mod_sub [of 7 32 ?b] mod_sub [of 60 4 ?b] by auto
  consider "?b < 194 \<or> 245 \<le> ?b" | (two) "194 \<le> ?b" "?b < 224" | (three) "224 \<le> ?b" "?b < 240"
    | (four) "240 \<le> ?b" "?b \<le> 244" by linarith
  then show ?thesis
  proof cases
    case 1
    with assms st show ?thesis
      by (auto simp: byte_class_def next_state_def split: if_splits)
  next
    case two
    then have "lead_cp ?b = ?b - 192" using m(1) by (simp add: lead_cp_def byte_class_def)
    moreover have "decode_state 0 ?b = 2" using two st by (simp add: byte_class_def next_state_def)
    ultimately show ?thesis
      using two partial.two [of "?b - 192"] cp by simp
  next
    case three
    then have "lead_cp ?b = ?b - 224" using m(2,3) by (auto simp: lead_cp_def byte_class_def)
    moreover have "decode_state 0 ?b = (if ?b - 224 = 0 then 4 else if ?b - 224 = 13 then 5 else 3)"
      using three st by (auto simp: byte_class_def next_state_def)
    ultimately show ?thesis
      using three partial.three1 [of "?b - 224"] cp by simp
  next
    case four
    then have "lead_cp ?b = ?b - 240" using m(4) by (auto simp: lead_cp_def byte_class_def)
    moreover have "decode_state 0 ?b = (if ?b - 240 = 0 then 6 else if ?b - 240 = 4 then 8 else 7)"
      using four st by (auto simp: byte_class_def next_state_def)
    ultimately show ?thesis
      using four partial.four1 [of "?b - 240"] cp by simp
  qed
qed

section \<open>The buffer makes no difference\<close>

text \<open>
  At every byte the buffer holds the accepted text \<open>base\<close>, with room for one code point, and the
  pending bytes unless they will be escaped.
\<close>

definition esc_inv :: "bool \<Rightarrow> string \<Rightarrow> string \<Rightarrow> escaper \<Rightarrow> bool" where
  "esc_inv a base pend e \<longleftrightarrow>
     (state e = 0 \<and> pend = [] \<or> partial (state e) (codepoint e) pend) \<and>
     string_buffer e = base @ (if a then [] else pend) \<and>
     bytes_after_last_accept e = length base \<and> length base + 13 \<le> 512 \<and>
     undumped_chars e = length pend"

lemma length_hex4 [simp]: "length (hex4 n) = 4"
  by (simp add: hex4_def)

lemma bytes_written_le: "bytes_written (escape_text a cp c) \<le> (if a then 13 else 10)"

proof (cases "a \<or> cp \<le> 65535")
  case True
  then show ?thesis by (auto simp: escape_text_def bytes_written_def)
next
  case False
  then show ?thesis by (auto simp: escape_text_def bytes_written_def)
qed

lemma partial_length: "partial st cp pend \<Longrightarrow> length pend \<le> 3"
  by (simp add: partial_good)

lemma accept_inv:
  assumes "length (string_buffer e) \<le> 512" and "state e = 0" and "undumped_chars e = 0"
  shows "\<exists>base. esc_inv a base [] (buffer_accept e) \<and>
    written (buffer_accept e) @ base = written e @ string_buffer e \<and>
    codepoint (buffer_accept e) = codepoint e \<and> state (buffer_accept e) = 0 \<and>
    undumped_chars (buffer_accept e) = 0"
  using assms by (auto simp: buffer_accept_def esc_inv_def Let_def)

lemma on_accept_inv:
  assumes "esc_inv a base pend e" and "state (decode (byte c) e) = 0"
  shows "\<exists>e' base'. on_accept a c (decode (byte c) e) = Inr e' \<and> esc_inv a base' [] e' \<and>
    written e' @ base' = written e @ base @ emit_text a (codepoint (decode (byte c) e)) pend c \<and>
    codepoint e' = codepoint (decode (byte c) e) \<and> state e' = 0"
proof -
  let ?d = "decode (byte c) e" and ?t = "escape_text a (codepoint (decode (byte c) e)) c"
  have room: "length pend \<le> 3" "length base + 13 \<le> 512"
    using assms(1) partial_length by (auto simp: esc_inv_def)
  have buf: "string_buffer ?d = base @ (if a then [] else pend)" "written ?d = written e"
    using assms(1) by (simp_all add: esc_inv_def decode_def)
  have fits: "length (string_buffer ?d) + bytes_written ?t \<le> 512"
    using room buf bytes_written_le [of a "codepoint ?d" c] by (auto split: if_splits)
  have len: "length ?t \<le> bytes_written ?t" by (simp add: bytes_written_def)
  define e1 where "e1 = ?d\<lparr>string_buffer := string_buffer ?d @ ?t, undumped_chars := 0\<rparr>"
  have "on_accept a c ?d = Inr (buffer_accept e1)"
    using fits by (simp add: on_accept_def buffer_put_def e1_def buffer_accept_def Let_def)
  moreover from accept_inv [of e1 a] obtain base' where
    "esc_inv a base' [] (buffer_accept e1)" "written (buffer_accept e1) @ base' = written e1 @ string_buffer e1"
    "codepoint (buffer_accept e1) = codepoint e1" "state (buffer_accept e1) = 0"
    using fits len assms(2) by (auto simp: e1_def)
  ultimately show ?thesis using buf by (auto simp: e1_def emit_text_def)
qed

lemma on_reject_inv:
  assumes "esc_inv a base pend e" and "h \<noteq> Strict"
  shows "\<exists>e' base'. on_reject h a (decode b e) = Inr e' \<and> esc_inv a base' [] e' \<and>
    written e' @ base' = written e @ base @ (if h = Replace then replacement a else []) \<and>
    codepoint e' = codepoint (decode b e) \<and> state e' = 0 \<and> undumped_chars e' = 0"
proof -
  let ?d = "decode b e"
  have buf: "take (bytes_after_last_accept ?d) (string_buffer ?d) = base" "length base + 13 \<le> 512"
    "written ?d = written e"
    using assms(1) by (simp_all add: esc_inv_def decode_def)
  show ?thesis
  proof (cases "h = Replace")
    case True
    define e1 where
      "e1 = ?d\<lparr>string_buffer := base @ replacement a, undumped_chars := 0, state := 0\<rparr>"
    have fits: "length base + length (replacement a) \<le> 512"
      using buf(2) by (simp add: replacement_def)
    then have "on_reject h a ?d = Inr (buffer_accept e1)"
      using True buf by (simp add: on_reject_def buffer_put_def e1_def buffer_accept_def Let_def)
    moreover from accept_inv [of e1 a] fits obtain base' where
      "esc_inv a base' [] (buffer_accept e1)" "written (buffer_accept e1) @ base' = written e1 @ string_buffer e1"
      "codepoint (buffer_accept e1) = codepoint e1" "state (buffer_accept e1) = 0"
      "undumped_chars (buffer_accept e1) = 0"
      by (auto simp: e1_def)
    ultimately show ?thesis using buf True by (auto simp: e1_def)
  next
    case False
    with assms(2) have "h = Ignore" by (cases h) auto
    with assms(1) buf show ?thesis
      by (auto simp: on_reject_def esc_inv_def decode_def Let_def split: if_splits)
  qed
qed

lemma on_incomplete_inv:
  assumes "esc_inv a base pend e" and "partial (state (decode (byte c) e)) (codepoint (decode (byte c) e)) (pend @ [c])"
  shows "\<exists>e'. on_incomplete a c (decode (byte c) e) = Inr e' \<and> esc_inv a base (pend @ [c]) e' \<and>
    written e' = written e \<and> codepoint e' = codepoint (decode (byte c) e) \<and>
    state e' = state (decode (byte c) e)"
  using assms partial_length [OF assms(2)]
  by (auto simp: on_incomplete_def buffer_put_def esc_inv_def decode_def)

text \<open>What the decoder can do with the next byte.\<close>

lemma decode_step:
  assumes "state e = 0 \<and> pend = [] \<or> partial (state e) (codepoint e) pend"
    and "state (decode (byte c) e) \<noteq> 0" and "state (decode (byte c) e) \<noteq> 1"
  shows "partial (state (decode (byte c) e)) (codepoint (decode (byte c) e)) (pend @ [c])"
  using assms(1)
proof
  assume e: "state e = 0 \<and> pend = []"
  with assms(2) have "128 \<le> byte c" by (cases "byte c < 128") (auto simp: decode_def ascii_state)
  with e assms(3) show ?thesis by (simp add: decode_def partial_lead)
next
  assume "partial (state e) (codepoint e) pend"
  from partial_step [OF this, of c] assms(2,3) show ?thesis by (simp add: decode_def)
qed

lemma escape_run_plain:
  assumes "esc_inv a base pend e"
  shows "escape_run h a s e =
    (case escape_gen (emit_text a) (replacement a) h (state e) (codepoint e) pend s of
       Inl x \<Rightarrow> Inl (Json_error x) | Inr t \<Rightarrow> Inr (written e @ base @ t))"
  using assms
proof (induction h a s e arbitrary: base pend rule: escape_run.induct)
  case (1 h a e)
  have "take (bytes_after_last_accept e) (string_buffer e) = base"
    using 1 by (simp add: esc_inv_def)
  moreover have "state e = 0 \<Longrightarrow> string_buffer e = base"
    using 1 by (auto simp: esc_inv_def good_state_def dest: partial_good)
  ultimately show ?case by (cases h) (simp_all add: on_end_def)
next
  case (2 h a c s e)
  let ?d = "decode (byte c) e"
  have d: "state ?d = decode_state (state e) (byte c)" "codepoint ?d = decode_codepoint (state e) (codepoint e) (byte c)"
    by (simp_all add: decode_def)
  have und: "undumped_chars ?d = length pend" using "2.prems" by (simp add: esc_inv_def decode_def)
  consider (acc) "state ?d = 0" | (rej) "state ?d = 1" | (inc) "state ?d \<noteq> 0" "state ?d \<noteq> 1" by blast
  then show ?case
  proof cases
    case acc
    from on_accept_inv [OF "2.prems" acc] obtain e' base' where
      e': "on_accept a c ?d = Inr e'" "esc_inv a base' [] e'"
        "written e' @ base' = written e @ base @ emit_text a (codepoint ?d) pend c"
        "codepoint e' = codepoint ?d" "state e' = 0" by blast
    from "2.IH"(1) [OF refl acc e'(1,2)] e' acc d show ?thesis
      by (auto simp: bind_result_def Let_def split: sum.split)
  next
    case rej
    show ?thesis
    proof (cases "h = Strict")
      case True
      with rej d show ?thesis by (simp add: on_reject_def Let_def)
    next
      case False
      from on_reject_inv [OF "2.prems" False, of "byte c"] obtain e' base' where
        e': "on_reject h a ?d = Inr e'" "esc_inv a base' [] e'"
          "written e' @ base' = written e @ base @ (if h = Replace then replacement a else [])"
          "codepoint e' = codepoint ?d" "state e' = 0" by blast
      from "2.IH"(2) [OF refl _ rej e'(1) _ e'(2)] "2.IH"(3) [OF refl _ rej e'(1) _ e'(2)] e' rej d und False
      show ?thesis
        by (cases "pend = []") (auto simp: bind_result_def Let_def split: sum.split)
    qed
  next
    case inc
    have "partial (state ?d) (codepoint ?d) (pend @ [c])"
      by (rule decode_step [OF _ inc]) (use "2.prems" in \<open>simp add: esc_inv_def\<close>)
    from on_incomplete_inv [OF "2.prems" this] obtain e' where
      e': "on_incomplete a c ?d = Inr e'" "esc_inv a base (pend @ [c]) e'" "written e' = written e"
        "codepoint e' = codepoint ?d" "state e' = state ?d" by blast
    from "2.IH"(4) [OF refl inc e'(1,2)] e' inc d show ?thesis
      by (simp add: Let_def split: sum.split)
  qed
qed

lemma escape_string_plain:
  "escape_string h a s =
    (case escape_plain h a s of Inl x \<Rightarrow> Inl (Json_error x) | Inr t \<Rightarrow> Inr t)"
  using escape_run_plain [of a "[]" "[]" new_escaper h s]
  by (simp add: escape_string_def escape_plain_def new_escaper_def esc_inv_def split: sum.split)

section \<open>The lexer reads the cleaned string back\<close>

lemma next_byte_split: "next_byte_in_range rs s = Some (cs, s') \<Longrightarrow> s = cs @ s'"
  by (induction rs s arbitrary: cs rule: next_byte_in_range.induct) (auto split: if_splits)

lemma scan_one:
  assumes "utf8_ok (c # cs)" and "128 \<le> byte c" and "\<forall>d\<in>set cs. 128 \<le> byte d \<and> byte d < 192"
  shows "scan_string acc (c # cs @ r) = scan_string (acc @ c # cs) r"
proof -
  from assms(1,2) obtain rs cs1 s' where rs: "follow_ranges (byte c) = Some rs"
    "next_byte_in_range rs cs = Some (cs1, s')" "utf8_ok s'"
    by (auto split: option.splits)
  have "s' = []"
  proof (cases s')
    case (Cons d s2)
    with next_byte_split [OF rs(2)] assms(3) have "128 \<le> byte d" "byte d < 192" by auto
    with rs(3) Cons show ?thesis by (simp add: follow_ranges_def)
  qed simp
  with rs(2) next_byte_split [OF rs(2)] next_byte_append [OF rs(2), of r]
  have "next_byte_in_range rs (cs @ r) = Some (cs, r)" by simp
  with rs(1) assms(2) show ?thesis by simp
qed

lemma scan_utf8:
  assumes "128 \<le> cp" and "scalar cp"
  shows "scan_string acc (utf8_bytes cp @ r) = scan_string (acc @ utf8_bytes cp) r"
proof -
  have ok: "utf8_ok (utf8_bytes cp)" using assms(2) by (intro utf8_ok_bytes) (auto simp: scalar_def)
  have m: "n mod 64 < 64" for n :: nat by simp
  consider "128 \<le> cp" "cp \<le> 2047" | "2048 \<le> cp" "cp \<le> 65535" | "65536 \<le> cp" using assms(1) by linarith
  then show ?thesis
  proof cases
    case 1
    then have "cp div 64 \<le> 31" by linarith
    with ok 1 m [of cp] show ?thesis
      using scan_one [of "chr (192 + cp div 64)" "[chr (128 + cp mod 64)]" acc r]
      by (simp add: utf8_bytes_cases del: scan_string.simps utf8_ok.simps)
  next
    case 2
    then have "cp div 4096 \<le> 15" by linarith
    with ok 2 m [of cp] m [of "cp div 64"] show ?thesis
      using scan_one [of "chr (224 + cp div 4096)" "[chr (128 + cp div 64 mod 64), chr (128 + cp mod 64)]" acc r]
      by (simp add: utf8_bytes_cases del: scan_string.simps utf8_ok.simps)
  next
    case 3
    then have "cp div 262144 \<le> 4" using assms(2) by (simp add: scalar_def)
    with ok 3 m [of cp] m [of "cp div 64"] m [of "cp div 4096"] show ?thesis
      using scan_one [of "chr (240 + cp div 262144)" "[chr (128 + cp div 4096 mod 64),
        chr (128 + cp div 64 mod 64), chr (128 + cp mod 64)]" acc r]
      by (simp add: utf8_bytes_cases del: scan_string.simps utf8_ok.simps)
  qed
qed

lemma scan_hex:
  assumes "scalar cp"
  shows "cp \<le> 65535 \<Longrightarrow> scan_unicode (hex4 cp @ r) = Some (utf8_bytes cp, r)"
    and "65535 < cp \<Longrightarrow> scan_unicode (hex4 (55232 + cp div 1024) @ [CHR 0x5C, CHR ''u''] @
      hex4 (56320 + cp mod 1024) @ r) = Some (utf8_bytes cp, r)"
proof -
  show "scan_unicode (hex4 cp @ r) = Some (utf8_bytes cp, r)" if "cp \<le> 65535"
    using assms that by (auto simp: scan_unicode_def get_codepoint_hex4 scalar_def)
  assume "65535 < cp"
  with assms have hi: "64 \<le> cp div 1024" "cp div 1024 \<le> 1087" by (auto simp: scalar_def)
  have lo: "cp mod 1024 < 1024" by simp
  have "cp div 1024 * 1024 + cp mod 1024 = cp" by simp
  then have "(55232 + cp div 1024) * 1024 + (56320 + cp mod 1024) = 56613888 + cp"
    unfolding distrib_right by linarith
  then have "(55232 + cp div 1024) * 1024 + (56320 + cp mod 1024) - 56613888 = cp" by simp
  with hi lo show "scan_unicode (hex4 (55232 + cp div 1024) @ [CHR 0x5C, CHR ''u''] @
      hex4 (56320 + cp mod 1024) @ r) = Some (utf8_bytes cp, r)"
    by (simp add: scan_unicode_def get_codepoint_hex4)
qed

lemma escape_text_high:
  "128 \<le> cp \<Longrightarrow> escape_text a cp c =
    (if \<not> a then [c] else if cp \<le> 65535 then [CHR 0x5C, CHR ''u''] @ hex4 cp
     else [CHR 0x5C, CHR ''u''] @ hex4 (55232 + cp div 1024) @ [CHR 0x5C, CHR ''u''] @ hex4 (56320 + cp mod 1024))"
  by (simp add: escape_text_def)

lemma escape_text_accepted: "\<not> (a \<and> 127 \<le> cp) \<Longrightarrow> escape_text a cp c = escape_accepted cp c"
  by (auto simp: escape_text_def escape_accepted_def)

lemma scan_u: "scan_unicode t = Some (cs, s) \<Longrightarrow>
    scan_string acc (CHR 0x5C # CHR ''u'' # t) = scan_string (acc @ cs) s"
  by (simp add: simple_escape_def byte_literals)

lemma scan_emit:
  assumes "pend = [] \<and> byte c < 128 \<and> cp = byte c \<or>
    pend @ [c] = utf8_bytes cp \<and> 128 \<le> cp \<and> scalar cp"
  shows "scan_string acc (emit_text a cp pend c @ r) = scan_string (acc @ pend @ [c]) r"
  using assms
proof
  assume low: "pend = [] \<and> byte c < 128 \<and> cp = byte c"
  show ?thesis
  proof (cases "a \<and> 127 \<le> cp")
    case True
    with low have cp: "cp = 127" "c = chr 127" by (auto simp: eq_chr)
    then have "scan_unicode (hex4 cp @ r) = Some ([c], r)"
      using scan_hex(1) [of 127 r] by (simp add: scalar_def utf8_bytes_def)
    from scan_u [OF this] True low cp(1) show ?thesis
      by (simp add: emit_text_def escape_text_def del: scan_string.simps)
  next
    case False
    with low show ?thesis
      by (simp add: emit_text_def escape_text_accepted scan_escaped_ascii del: scan_string.simps)
  qed
next
  assume high: "pend @ [c] = utf8_bytes cp \<and> 128 \<le> cp \<and> scalar cp"
  show ?thesis
  proof (cases a)
    case True
    with high show ?thesis
      by (simp add: emit_text_def escape_text_high scan_u [OF scan_hex(1)] scan_u [OF scan_hex(2), simplified append_Cons append_Nil append_assoc]
          del: scan_string.simps)
  next
    case False
    have "emit_text a cp pend c = pend @ [c]" using False high by (simp add: emit_text_def escape_text_high)
    with high scan_utf8 [of cp acc r] show ?thesis by simp
  qed
qed

lemma replacement_chars:
  "chr 239 = CHR 0xEF" "chr 191 = CHR 0xBF" "chr 189 = CHR 0xBD" "chr 102 = CHR ''f''" "chr 100 = CHR ''d''"
  by code_simp+

lemma replacement_char:
  "replacement False = utf8_bytes 65533" "replacement True = [CHR 0x5C, CHR ''u''] @ hex4 65533"
  by (simp_all add: replacement_def utf8_bytes_def hex4_def hex_digit_def flip: replacement_chars)

lemma scan_replacement:
  "scan_string acc (replacement a @ r) = scan_string (acc @ replacement False) r"
proof (cases a)
  case True
  then show ?thesis
    by (simp add: replacement_char scan_u [OF scan_hex(1)] scalar_def del: scan_string.simps)
next
  case False
  then show ?thesis by (simp add: replacement_char scan_utf8 scalar_def)
qed

declare escape_gen.simps(2) [simp del]

lemmas escape_gen_Cons = escape_gen.simps(2) [unfolded Let_def]

text \<open>The two outcomes of a byte that is not rejected.\<close>

lemma accepted_char:
  assumes "st = 0 \<and> pend = [] \<or> partial st cp pend" and "decode_state st (byte c) = 0"
  defines "cp' \<equiv> decode_codepoint st cp (byte c)"
  shows "pend = [] \<and> byte c < 128 \<and> cp' = byte c \<or>
    pend @ [c] = utf8_bytes cp' \<and> 128 \<le> cp' \<and> scalar cp'"
  using assms(1)
proof
  assume p: "st = 0 \<and> pend = []"
  show ?thesis
  proof (cases "byte c < 128")
    case False
    with assms(2) p partial_lead [of c cp] partial_good show ?thesis by (fastforce simp: good_state_def)
  qed (use p in \<open>simp add: ascii_state cp'_def\<close>)
next
  assume "partial st cp pend"
  from partial_step [OF this, of c] assms(2) partial_good show ?thesis
    by (fastforce simp: good_state_def cp'_def)
qed

lemma pending_char:
  assumes "st = 0 \<and> pend = [] \<or> partial st cp pend"
    and "decode_state st (byte c) \<noteq> 0" and "decode_state st (byte c) \<noteq> 1"
  shows "partial (decode_state st (byte c)) (decode_codepoint st cp (byte c)) (pend @ [c])"
  using assms(1)
proof
  assume p: "st = 0 \<and> pend = []"
  with assms(2) have "128 \<le> byte c" by (cases "byte c < 128") (auto simp: ascii_state)
  with p assms(3) show ?thesis by (simp add: partial_lead)
next
  assume "partial st cp pend"
  from partial_step [OF this, of c] assms(2,3) show ?thesis by simp
qed

lemma escape_scan:
  assumes "escape_gen (emit_text a) (replacement a) h st cp pend s = Inr e"
    and "st = 0 \<and> pend = [] \<or> partial st cp pend"
  shows "\<exists>s'. escape_gen emit_raw (replacement False) h st cp pend s = Inr s' \<and>
    (\<forall>acc r. scan_string acc (e @ CHR 0x22 # r) = (Tok_string (acc @ s') :: 'f token, r))"
  using assms
proof (induction "emit_text a" "replacement a" h st cp pend s arbitrary: e rule: escape_gen.induct)
  case (1 h st cp pend)
  have "scan_string acc (replacement a @ CHR 0x22 # r) = (Tok_string (acc @ replacement False), r)" for acc r
    by (subst scan_replacement) (simp add: byte_literals)
  with 1 show ?case by (auto simp: byte_literals split: if_splits error_handler.splits)
next
  case (2 h st cp pend c s)
  let ?cp = "decode_codepoint st cp (byte c)" and ?st = "decode_state st (byte c)"
  consider (acc) "?st = 0" | (rej) "?st = 1" | (inc) "?st \<noteq> 0" "?st \<noteq> 1" by blast
  then show ?case
  proof cases
    case acc
    from 2(5) acc obtain t where t: "escape_gen (emit_text a) (replacement a) h 0 ?cp [] s = Inr t"
      "e = emit_text a ?cp pend c @ t" by (auto simp: bind_result_Inr_iff escape_gen_Cons)
    note char = accepted_char [OF 2(6) acc]
    from 2(1) [OF refl refl acc t(1)] obtain s' where
      "escape_gen emit_raw (replacement False) h 0 ?cp [] s = Inr s'"
      "\<forall>acc r. scan_string acc (t @ CHR 0x22 # r) = (Tok_string (acc @ s') :: 'f token, r)" by blast
    with acc t(2) show ?thesis
      by (auto simp: emit_raw_def escape_gen_Cons scan_emit [OF char] simp del: scan_string.simps)
  next
    case rej
    then have not0: "?st \<noteq> 0" by simp
    define s0 where "s0 = (if pend = [] then s else c # s)"
    with rej 2(5) obtain t where h: "h \<noteq> Strict"
      and t: "escape_gen (emit_text a) (replacement a) h 0 ?cp [] s0 = Inr t"
      and e: "e = (if h = Replace then replacement a else []) @ t"
      by (auto simp: bind_result_Inr_iff escape_gen_Cons [of _ _ _ st] split: if_splits)
    obtain s' where s': "escape_gen emit_raw (replacement False) h 0 ?cp [] s0 = Inr s'"
      "\<forall>acc r. scan_string acc (t @ CHR 0x22 # r) = (Tok_string (acc @ s') :: 'f token, r)"
    proof (cases "pend = []")
      case True
      with t have "escape_gen (emit_text a) (replacement a) h 0 ?cp [] s = Inr t" by (simp add: s0_def)
      from 2(2) [OF refl refl not0 rej h True this] have
        "\<exists>s'. escape_gen emit_raw (replacement False) h 0 ?cp [] s = Inr s' \<and>
          (\<forall>acc r. scan_string acc (t @ CHR 0x22 # r) = (Tok_string (acc @ s') :: 'f token, r))"
        by (simp del: scan_string.simps)
      with True that show thesis by (auto simp: s0_def simp del: scan_string.simps)
    next
      case False
      with t have "escape_gen (emit_text a) (replacement a) h 0 ?cp [] (c # s) = Inr t" by (simp add: s0_def)
      from 2(3) [OF refl refl not0 rej h False this] have
        "\<exists>s'. escape_gen emit_raw (replacement False) h 0 ?cp [] (c # s) = Inr s' \<and>
          (\<forall>acc r. scan_string acc (t @ CHR 0x22 # r) = (Tok_string (acc @ s') :: 'f token, r))"
        by (simp del: scan_string.simps)
      with False that show thesis by (auto simp: s0_def simp del: scan_string.simps)
    qed
    have "escape_gen emit_raw (replacement False) h st cp pend (c # s) =
        Inr ((if h = Replace then replacement False else []) @ s')"
      using rej h s'(1) by (cases h) (simp_all add: escape_gen_Cons [of _ _ _ st] s0_def split: if_splits)
    moreover have "scan_string acc (e @ CHR 0x22 # r) =
        (Tok_string (acc @ (if h = Replace then replacement False else []) @ s') :: 'f token, r)" for acc r
      using s'(2) e by (simp add: scan_replacement [of _ a] del: scan_string.simps)
    ultimately show ?thesis by blast
  next
    case inc
    from pending_char [OF 2(6) inc] have "partial ?st ?cp (pend @ [c])" .
    with 2(4) [OF refl refl inc, of e] 2(5) inc show ?thesis by (auto simp: escape_gen_Cons [of _ _ _ st])
  qed
qed

section \<open>Which strings are printed, and how\<close>

lemma escape_gen_total: "h \<noteq> Strict \<Longrightarrow> \<exists>e. escape_gen em rp h st cp pend s = Inr e"
proof (induction em rp h st cp pend s rule: escape_gen.induct)
  case (1 em rp h st cp pend)
  then show ?case by (cases h) auto
next
  case (2 em rp h st cp pend c s)
  then show ?case
    unfolding escape_gen_Cons [of em rp h st cp pend c s]
    by (auto simp: bind_result_Inr_iff)
qed

lemma escape_gen_strict_raw:
  "escape_gen emit_raw rp Strict st cp pend s = Inr t \<Longrightarrow> st = 0 \<longrightarrow> pend = [] \<Longrightarrow> t = pend @ s"
  by (induction emit_raw rp Strict st cp pend s arbitrary: t rule: escape_gen.induct)
    (auto simp: escape_gen_Cons bind_result_Inr_iff emit_raw_def split: if_splits)

lemma escape_gen_strict_loop:
  "st = 0 \<longrightarrow> pend = [] \<Longrightarrow> escape_gen (emit_text False) rp Strict st cp pend s =
    bind_result (escape_loop st cp s) (\<lambda>t. Inr (pend @ t))"
proof (induction s arbitrary: st cp pend)
  case (Cons c s)
  then show ?case
    by (auto simp: escape_gen_Cons emit_text_def escape_text_accepted bind_result_def split: sum.split)
qed auto

lemma escape_gen_strict_same:
  "escape_gen em rp Strict st cp pend s = Inr e \<Longrightarrow> escape_gen em rp h st cp pend s = Inr e"
  by (induction em rp Strict st cp pend s arbitrary: e rule: escape_gen.induct)
    (auto simp: escape_gen_Cons bind_result_Inr_iff split: if_splits)

lemma bind_Inr_Inl: "bind_result r (\<lambda>t. Inr (f t)) = Inl x \<longleftrightarrow> r = Inl x"
  by (cases r) simp_all

lemma escape_gen_errors:
  "escape_gen em rp h st cp pend s = Inl x \<longleftrightarrow> escape_gen em' rp' h st cp pend s = Inl x"
proof (induction em rp h st cp pend s rule: escape_gen.induct)
  case (1 em rp h st cp pend)
  then show ?case by (cases h) auto
next
  case (2 em rp h st cp pend c s)
  then show ?case
    unfolding escape_gen_Cons [of em rp h st cp pend c s] escape_gen_Cons [of em' rp' h st cp pend c s]
    by (simp add: bind_Inr_Inl)
qed

lemma escape_gen_316: "escape_gen em rp h st cp pend s = Inl x \<Longrightarrow> x = Type_error 316"
proof (induction em rp h st cp pend s rule: escape_gen.induct)
  case (1 em rp h st cp pend)
  then show ?case by (cases h) (auto split: if_splits)
next
  case (2 em rp h st cp pend c s)
  then show ?case
    unfolding escape_gen_Cons [of em rp h st cp pend c s]
    by (auto simp: bind_Inr_Inl split: if_splits)
qed

lemma escape_plain_strict_ok: "(\<exists>e. escape_plain Strict a s = Inr e) \<longleftrightarrow> utf8_ok s"
proof -
  have "(\<exists>e. escape_plain Strict a s = Inr e) \<longleftrightarrow> (\<exists>e. escape_plain Strict False s = Inr e)"
    using escape_gen_errors [of "emit_text a" "replacement a" Strict 0 0 "[]" s _ "emit_text False" "replacement False"]
    unfolding escape_plain_def by (metis sum.exhaust sum.distinct(1))
  also have "\<dots> \<longleftrightarrow> utf8_ok s"
    by (auto simp: escape_plain_def escape_gen_strict_loop bind_result_Inr_iff simp flip: escapes_utf8)
  finally show ?thesis .
qed

lemma escape_plain_ok: "(\<exists>e. escape_plain h a s = Inr e) \<longleftrightarrow> (h = Strict \<longrightarrow> utf8_ok s)"
  using escape_plain_strict_ok [of a s] escape_gen_total [of h "emit_text a" "replacement a" 0 0 "[]" s]
  by (cases "h = Strict") (auto simp: escape_plain_def)

lemma escape_plain_default: "escape_plain Strict False s = dump_escaped s"
  by (cases "escape_loop 0 0 s") (simp_all add: escape_plain_def dump_escaped_def escape_gen_strict_loop)

lemma escape_plain_valid: "utf8_ok s \<Longrightarrow> escape_plain h a s = escape_plain Strict a s"
proof -
  assume "utf8_ok s"
  then obtain e where "escape_plain Strict a s = Inr e" using escape_plain_strict_ok by blast
  with escape_gen_strict_same [of "emit_text a" "replacement a" 0 0 "[]" s e h] show ?thesis
    by (simp add: escape_plain_def)
qed

lemma cleaned_valid: "utf8_ok s \<Longrightarrow> cleaned h s = s"
proof -
  assume "utf8_ok s"
  then obtain e where "escape_plain Strict False s = Inr e" using escape_plain_strict_ok by blast
  then obtain t where t: "escape_gen emit_raw (replacement False) Strict 0 0 [] s = Inr t"
    using escape_scan [of False Strict 0 0 "[]" s e] by (auto simp: escape_plain_def)
  from escape_gen_strict_raw [OF t] escape_gen_strict_same [OF t, of h] show ?thesis
    by (simp add: cleaned_def)
qed

lemma escape_plain_scan:
  assumes "escape_plain h a s = Inr e"
  shows "scan_string acc (e @ CHR 0x22 # r) = (Tok_string (acc @ cleaned h s) :: 'f token, r)"
  using escape_scan [where 'f = 'f, of a h 0 0 "[]" s e] assms by (auto simp: escape_plain_def cleaned_def)

lemma cleaned_utf8:
  assumes "h \<noteq> Strict"
  shows "utf8_ok (cleaned h s)"
proof -
  obtain e where e: "escape_plain h False s = Inr e" using escape_plain_ok [of h False s] assms by auto
  from escape_plain_scan [OF e, of "[]" "[]"]
  have "scan_string [] (e @ [CHR 0x22]) = (Tok_string (cleaned h s) :: 'f token, [])" by simp
  from scan_string_ok [OF this] show ?thesis by simp
qed

text \<open>With \<open>ensure_ascii\<close> the text is ASCII.\<close>

abbreviation ascii :: "string \<Rightarrow> bool" where
  "ascii t \<equiv> list_all (\<lambda>c. byte c < 128) t"

lemma ascii_hex4: "ascii (hex4 n)"
proof -
  have "byte (hex_digit d) < 128" if "d < 16" for d using that by (simp add: hex_digit_def)
  then show ?thesis by (simp add: hex4_def)
qed

lemma ascii_escape: "byte c < 128 \<or> 128 \<le> cp \<Longrightarrow> ascii (escape_text True cp c)"
  by (auto simp: escape_text_def ascii_hex4 byte_literals)

lemma escape_ascii:
  assumes "escape_gen (emit_text True) (replacement True) h st cp pend s = Inr e"
    and "st = 0 \<and> pend = [] \<or> partial st cp pend"
  shows "ascii e"
  using assms
proof (induction "emit_text True" "replacement True" h st cp pend s arbitrary: e rule: escape_gen.induct)
  case (1 h st cp pend)
  then show ?case
    by (auto simp: replacement_char ascii_hex4 byte_literals split: if_splits error_handler.splits)
next
  case (2 h st cp pend c s)
  let ?cp = "decode_codepoint st cp (byte c)" and ?st = "decode_state st (byte c)"
  consider (acc) "?st = 0" | (rej) "?st = 1" | (inc) "?st \<noteq> 0" "?st \<noteq> 1" by blast
  then show ?case
  proof cases
    case acc
    from 2(5) acc obtain t where t: "escape_gen (emit_text True) (replacement True) h 0 ?cp [] s = Inr t"
      "e = emit_text True ?cp pend c @ t" by (auto simp: bind_result_Inr_iff escape_gen_Cons)
    have "ascii (emit_text True ?cp pend c)"
      using accepted_char [OF 2(6) acc] ascii_escape by (auto simp: emit_text_def)
    with 2(1) [OF refl refl acc t(1)] t(2) show ?thesis by simp
  next
    case rej
    then have not0: "?st \<noteq> 0" by simp
    from rej 2(5) obtain t where h: "h \<noteq> Strict"
      and t: "(if pend = [] then escape_gen (emit_text True) (replacement True) h 0 ?cp [] s
        else escape_gen (emit_text True) (replacement True) h 0 ?cp [] (c # s)) = Inr t"
      and e: "e = (if h = Replace then replacement True else []) @ t"
      by (auto simp: bind_result_Inr_iff escape_gen_Cons [of _ _ _ st] split: if_splits)
    have "ascii t"
      using t 2(2) [OF refl refl not0 rej h] 2(3) [OF refl refl not0 rej h] by (cases "pend = []") auto
    with e show ?thesis by (simp add: replacement_char ascii_hex4 byte_literals)
  next
    case inc
    with 2(4) [OF refl refl inc, of e] 2(5) pending_char [OF 2(6) inc] show ?thesis
      by (auto simp: escape_gen_Cons [of _ _ _ st])
  qed
qed

end
