(* ===== verification/Json_Serializer.thy ===== *)
theory Json_Serializer
  imports Json_Escape
begin

text \<open>
  \<open>class serializer\<close> with all options: pretty printing, the indentation character, \<open>ensure_ascii\<close> and
  the error handler (\<open>Json_Escape\<close>), the integer printer with its table and buffer, and
  \<open>basic_json::dump\<close> on top. The serializer's state that outlives a call is \<open>indent_string\<close>: 512
  copies of the indentation character, doubled with blanks once when a deeper indentation is asked
  for. Reading past its end is an outcome of its own.
\<close>

section \<open>Integers\<close>

definition digits_to_99 :: "nat \<Rightarrow> string" where
  "digits_to_99 i = [chr (48 + i div 10), chr (48 + i mod 10)]"

function count_digits :: "nat \<Rightarrow> nat" where
  "count_digits x =
     (if x < 10 then 1 else if x < 100 then 2 else if x < 1000 then 3 else if x < 10000 then 4
      else count_digits (x div 10000) + 4)"
  by pat_completeness auto

termination
  by (relation "measure id") auto

declare count_digits.simps [simp del]

definition remove_sign :: "int \<Rightarrow> nat" where
  "remove_sign x = nat (- (x + 1)) + 1"

text \<open>The loop that fills \<open>number_buffer\<close> from position \<open>p\<close> downwards.\<close>

function fill_digits :: "nat \<Rightarrow> nat \<Rightarrow> string \<Rightarrow> string" where
  "fill_digits abs_value p buf =
     (if 100 \<le> abs_value then
        fill_digits (abs_value div 100) (p - 2)
          (buf[p - 1 := digits_to_99 (abs_value mod 100) ! 1, p - 2 := digits_to_99 (abs_value mod 100) ! 0])
      else if 10 \<le> abs_value then
        buf[p - 1 := digits_to_99 abs_value ! 1, p - 2 := digits_to_99 abs_value ! 0]
      else buf[p - 1 := chr (48 + abs_value)])"
  by pat_completeness auto

termination
  by (relation "measure fst") auto

declare fill_digits.simps [simp del]

definition dump_integer :: "int \<Rightarrow> string" where
  "dump_integer x =
     (if x = 0 then ''0''
      else
        let buf = replicate 64 (chr 0);
            abs_value = (if x < 0 then remove_sign x else nat x);
            n_chars = (if x < 0 then 1 + count_digits abs_value else count_digits abs_value);
            buf1 = (if x < 0 then buf[0 := CHR ''-''] else buf) in
        take n_chars (fill_digits abs_value n_chars buf1))"

section \<open>Indentation\<close>

definition grow_indent :: "string \<Rightarrow> nat \<Rightarrow> string" where
  "grow_indent indent_string new_indent =
     (if length indent_string < new_indent
      then indent_string @ replicate (length indent_string) (CHR '' '') else indent_string)"

text \<open>\<open>write_characters(indent_string.c_str(), n)\<close>; the byte after the last is the terminating zero.\<close>

definition write_indent :: "string \<Rightarrow> nat \<Rightarrow> (dump_error, string) result" where
  "write_indent indent_string n =
     (if n \<le> length indent_string + 1 then Inr (take n (indent_string @ [chr 0]))
      else Inl Outside_buffer)"

section \<open>Values\<close>

record dump_options =
  handler :: error_handler
  ensure_ascii :: bool
  pretty_print :: bool
  indent_step :: nat

definition new_indentation :: "dump_options \<Rightarrow> nat \<Rightarrow> nat" where
  "new_indentation opt current = (current + indent_step opt) mod 2 ^ 32"

definition dump_quoted :: "dump_options \<Rightarrow> string \<Rightarrow> (dump_error, string) result" where
  "dump_quoted opt s =
     bind_result (escape_string (handler opt) (ensure_ascii opt) s)
       (\<lambda>e. Inr (CHR 0x22 # e @ [CHR 0x22]))"

fun join_bytes :: "string \<Rightarrow> nat list \<Rightarrow> string" where
  "join_bytes sep [] = []"
| "join_bytes sep [b] = dump_integer (int b)"
| "join_bytes sep (b # bs) = dump_integer (int b) @ sep @ join_bytes sep bs"

definition dump_subtype :: "nat option \<Rightarrow> string" where
  "dump_subtype st = (case st of None \<Rightarrow> ''null'' | Some n \<Rightarrow> dump_integer (int n))"

definition serialize_binary ::
  "dump_options \<Rightarrow> nat \<Rightarrow> string \<Rightarrow> nat list \<Rightarrow> nat option \<Rightarrow> (dump_error, string \<times> string) result" where
  "serialize_binary opt current ind bs st =
     (let q = [CHR 0x22]; nl = [CHR 0x0A] in
      if pretty_print opt then
        let new = new_indentation opt current; ind1 = grow_indent ind new in
        bind_result (write_indent ind1 new) (\<lambda>t.
        bind_result (write_indent ind1 current) (\<lambda>u.
          Inr (''{'' @ nl @ t @ q @ ''bytes'' @ q @ '': ['' @ join_bytes '', '' bs @ ''],'' @ nl @
            t @ q @ ''subtype'' @ q @ '': '' @ dump_subtype st @ nl @ u @ ''}'', ind1)))
      else
        Inr (''{'' @ q @ ''bytes'' @ q @ '':['' @ join_bytes '','' bs @ ''],'' @
          q @ ''subtype'' @ q @ '':'' @ dump_subtype st @ ''}'', ind))"

text \<open>
  A value at the indentation \<open>current\<close>, with the indentation string before and after. Members and
  elements take the indentation of their lines.
\<close>

fun serialize ::
  "('f \<Rightarrow> string) \<Rightarrow> dump_options \<Rightarrow> 'f json \<Rightarrow> nat \<Rightarrow> string \<Rightarrow> (dump_error, string \<times> string) result"
and serialize_members ::
  "('f \<Rightarrow> string) \<Rightarrow> dump_options \<Rightarrow> (string \<times> 'f json) list \<Rightarrow> nat \<Rightarrow> string \<Rightarrow>
   (dump_error, string \<times> string) result"
and serialize_elements ::
  "('f \<Rightarrow> string) \<Rightarrow> dump_options \<Rightarrow> 'f json list \<Rightarrow> nat \<Rightarrow> string \<Rightarrow>
   (dump_error, string \<times> string) result"
where
  "serialize ftoa opt (JObject m) current ind =
     (if m = [] then Inr (''{}'', ind)
      else if pretty_print opt then
        let new = new_indentation opt current in
        bind_result (serialize_members ftoa opt m new (grow_indent ind new)) (\<lambda>(s, ind1).
        bind_result (write_indent ind1 current) (\<lambda>u.
          Inr (''{'' @ [CHR 0x0A] @ s @ [CHR 0x0A] @ u @ ''}'', ind1)))
      else
        bind_result (serialize_members ftoa opt m current ind) (\<lambda>(s, ind1). Inr (''{'' @ s @ ''}'', ind1)))"
| "serialize ftoa opt (JArray vs) current ind =
     (if vs = [] then Inr (''[]'', ind)
      else if pretty_print opt then
        let new = new_indentation opt current in
        bind_result (serialize_elements ftoa opt vs new (grow_indent ind new)) (\<lambda>(s, ind1).
        bind_result (write_indent ind1 current) (\<lambda>u.
          Inr (''['' @ [CHR 0x0A] @ s @ [CHR 0x0A] @ u @ '']'', ind1)))
      else
        bind_result (serialize_elements ftoa opt vs current ind) (\<lambda>(s, ind1). Inr (''['' @ s @ '']'', ind1)))"
| "serialize ftoa opt (JString s) current ind = bind_result (dump_quoted opt s) (\<lambda>t. Inr (t, ind))"
| "serialize ftoa opt (JBinary bs st) current ind = serialize_binary opt current ind bs st"
| "serialize ftoa opt (JBoolean b) current ind = Inr (if b then ''true'' else ''false'', ind)"
| "serialize ftoa opt (JInteger i) current ind = Inr (dump_integer i, ind)"
| "serialize ftoa opt (JUnsigned n) current ind = Inr (dump_integer (int n), ind)"
| "serialize ftoa opt (JFloat f) current ind = Inr (ftoa f, ind)"
| "serialize ftoa opt JDiscarded current ind = Inr (''<discarded>'', ind)"
| "serialize ftoa opt JNull current ind = Inr (''null'', ind)"
| "serialize_members ftoa opt [] at ind = Inr ([], ind)"
| "serialize_members ftoa opt ((k, v) # m) at ind =
     bind_result (if pretty_print opt then write_indent ind at else Inr []) (\<lambda>t.
     bind_result (dump_quoted opt k) (\<lambda>ek.
     bind_result (serialize ftoa opt v at ind) (\<lambda>(ev, ind1).
       let member = t @ ek @ (if pretty_print opt then '': '' else '':'') @ ev in
       if m = [] then Inr (member, ind1)
       else bind_result (serialize_members ftoa opt m at ind1) (\<lambda>(s, ind2).
         Inr (member @ '','' @ (if pretty_print opt then [CHR 0x0A] else []) @ s, ind2)))))"
| "serialize_elements ftoa opt [] at ind = Inr ([], ind)"
| "serialize_elements ftoa opt (v # vs) at ind =
     bind_result (if pretty_print opt then write_indent ind at else Inr []) (\<lambda>t.
     bind_result (serialize ftoa opt v at ind) (\<lambda>(ev, ind1).
       if vs = [] then Inr (t @ ev, ind1)
       else bind_result (serialize_elements ftoa opt vs at ind1) (\<lambda>(s, ind2).
         Inr (t @ ev @ '','' @ (if pretty_print opt then [CHR 0x0A] else []) @ s, ind2))))"

text \<open>\<open>basic_json::dump(indent, indent_char, ensure_ascii, error_handler)\<close>.\<close>

definition json_dump ::
  "('f \<Rightarrow> string) \<Rightarrow> int \<Rightarrow> char \<Rightarrow> bool \<Rightarrow> error_handler \<Rightarrow> 'f json \<Rightarrow> (dump_error, string) result" where
  "json_dump ftoa indent indent_char only_ascii h j =
     (let opt = (if 0 \<le> indent
                 then \<lparr>handler = h, ensure_ascii = only_ascii, pretty_print = True, indent_step = nat indent\<rparr>
                 else \<lparr>handler = h, ensure_ascii = only_ascii, pretty_print = False, indent_step = 0\<rparr>) in
      bind_result (serialize ftoa opt j 0 (replicate 512 indent_char)) (\<lambda>(s, ind). Inr s))"

section \<open>The integer printer\<close>

lemma nat_digits_100:
  assumes "100 \<le> n"
  shows "nat_digits n = nat_digits (n div 100) @ digits_to_99 (n mod 100)"
proof -
  have "n div 10 mod 10 = n mod 100 div 10" "n mod 10 = n mod 100 mod 10"
    by (simp_all add: mod_mult2_eq [of n 10 10, simplified] mod_mod_cancel)
  moreover have "nat_digits n = nat_digits (n div 10) @ [digit_char (n mod 10)]"
    "nat_digits (n div 10) = nat_digits (n div 10 div 10) @ [digit_char (n div 10 mod 10)]"
    using assms by (simp_all add: nat_digits.simps [of n] nat_digits.simps [of "n div 10"])
  ultimately show ?thesis
    by (simp add: digits_to_99_def digit_char_def chr_def div_mult2_eq [of n 10 10, simplified])
qed

lemma nat_digits_10: "10 \<le> n \<Longrightarrow> n < 100 \<Longrightarrow> nat_digits n = digits_to_99 n"
  by (simp add: nat_digits.simps [of n] nat_digits.simps [of "n div 10"] digits_to_99_def
      digit_char_def chr_def)

lemma length_nat_digits: "n < 10 ^ Suc k \<Longrightarrow> length (nat_digits n) \<le> Suc k"
proof (induction k arbitrary: n)
  case 0
  then show ?case by (simp add: nat_digits.simps [of n])
next
  case (Suc k)
  then have "n div 10 < 10 ^ Suc k" by (simp add: less_mult_imp_div_less)
  from Suc.IH [OF this] show ?case by (simp add: nat_digits.simps [of n])
qed

lemma count_digits_length: "count_digits n = length (nat_digits n)"
proof (induction n rule: count_digits.induct)
  case (1 x)
  have s: "nat_digits m = nat_digits (m div 10) @ [digit_char (m mod 10)]" if "10 \<le> m" for m
    using that by (simp add: nat_digits.simps [of m])
  consider "x < 10" | "10 \<le> x" "x < 100" | "100 \<le> x" "x < 1000" | "1000 \<le> x" "x < 10000" | "10000 \<le> x"
    by linarith
  then show ?case
  proof cases
    case 3
    then have "10 \<le> x div 10" "x div 10 div 10 < 10" by linarith+
    with 3 show ?thesis
      by (simp add: count_digits.simps [of x] s [of x] s [of "x div 10"] nat_digits.simps [of "x div 10 div 10"])
  next
    case 4
    then have "10 \<le> x div 10" "10 \<le> x div 10 div 10" "x div 10 div 10 div 10 < 10" by linarith+
    with 4 show ?thesis
      by (simp add: count_digits.simps [of x] s [of x] s [of "x div 10"] s [of "x div 10 div 10"]
          nat_digits.simps [of "x div 10 div 10 div 10"])
  next
    case 5
    have "x div 10000 = x div 10 div 10 div 10 div 10" by (simp flip: div_mult2_eq)
    moreover have "10 \<le> x div 10" "10 \<le> x div 10 div 10" "10 \<le> x div 10 div 10 div 10"
      using 5 by linarith+
    ultimately show ?thesis
      using 5 1 by (simp add: count_digits.simps [of x] s [of x] s [of "x div 10"] s [of "x div 10 div 10"]
          s [of "x div 10 div 10 div 10"])
  qed (simp_all add: count_digits.simps [of x] nat_digits.simps)
qed

lemma put_digit: "1 \<le> p \<Longrightarrow> p \<le> length buf \<Longrightarrow> buf[p - 1 := x] = take (p - 1) buf @ [x] @ drop p buf"
  using upd_conv_take_nth_drop [of "p - 1" buf x] by simp

lemma put_digits:
  assumes "2 \<le> p" and "p \<le> length buf"
  shows "buf[p - 1 := y, p - 2 := x] = take (p - 2) buf @ [x, y] @ drop p buf"
proof -
  have "buf[p - 1 := y] = take (p - 1) buf @ [y] @ drop p buf" using assms by (intro put_digit) simp_all
  then have "buf[p - 1 := y, p - 2 := x] = (take (p - 1) buf)[p - 2 := x] @ [y] @ drop p buf"
    using assms by (simp only:) (simp add: list_update_append1)
  also have "(take (p - 1) buf)[p - 2 := x] = take (p - 2) buf @ [x]"
    using assms put_digit [of "p - 1" "take (p - 1) buf" x] by (simp add: numeral_2_eq_2)
  finally show ?thesis by simp
qed

lemma fill_digits_ok:
  assumes "length (nat_digits n) \<le> p" and "p \<le> length buf"
  shows "fill_digits n p buf = take (p - length (nat_digits n)) buf @ nat_digits n @ drop p buf"
  using assms
proof (induction n p buf rule: fill_digits.induct)
  case (1 n p buf)
  consider "100 \<le> n" | "10 \<le> n" "n < 100" | "n < 10" by linarith
  then show ?case
  proof cases
    case 1
    let ?x = "digits_to_99 (n mod 100) ! 0" and ?y = "digits_to_99 (n mod 100) ! 1"
    have d: "nat_digits n = nat_digits (n div 100) @ [?x, ?y]"
      unfolding nat_digits_100 [OF 1] by (simp add: digits_to_99_def)
    with "1.prems" have p: "2 \<le> p" "length (nat_digits (n div 100)) \<le> p - 2" by simp_all
    note two = put_digits [OF p(1) "1.prems"(2)]
    define buf1 where "buf1 = take (p - 2) buf @ [?x, ?y] @ drop p buf"
    have "fill_digits n p buf = fill_digits (n div 100) (p - 2) buf1"
      unfolding buf1_def put_digits [OF p(1) "1.prems"(2), symmetric]
      using 1 by (simp add: fill_digits.simps [of n])
    also have "\<dots> = take (p - 2 - length (nat_digits (n div 100))) buf1 @ nat_digits (n div 100) @ drop (p - 2) buf1"
      using "1.IH" [OF 1] p "1.prems"(2) put_digits [OF p(1) "1.prems"(2), of ?y ?x]
      by (simp add: buf1_def)
    also have "take (p - 2 - length (nat_digits (n div 100))) buf1 = take (p - length (nat_digits n)) buf"
      using p "1.prems"(2) d by (auto simp: buf1_def min_def)
    also have "drop (p - 2) buf1 = [?x, ?y] @ drop p buf"
      using p(1) "1.prems"(2) by (simp add: buf1_def)
    finally show ?thesis using d by simp
  next
    case 2
    with "1.prems" nat_digits_10 [OF 2] put_digits [of p buf] show ?thesis
      by (simp add: fill_digits.simps [of n] digits_to_99_def numeral_2_eq_2)
  next
    case 3
    with "1.prems" put_digit [of p buf] show ?thesis
      by (simp add: fill_digits.simps [of n] nat_digits.simps [of n] digit_char_def chr_def)
  qed
qed

lemma dump_integer_ok:
  assumes "- (2 ^ 63) \<le> x" and "x < 2 ^ 64"
  shows "dump_integer x = std_to_string x"
proof -
  let ?a = "if x < 0 then remove_sign x else nat x"
  have a: "?a = nat \<bar>x\<bar>" by (auto simp: remove_sign_def)
  with assms have "?a < 10 ^ Suc 19" by auto
  then have len: "length (nat_digits ?a) \<le> 20" using length_nat_digits [of ?a 19] by simp
  show ?thesis
  proof (cases "x = 0")
    case True
    then show ?thesis by (simp add: dump_integer_def std_to_string_def nat_digits.simps)
  next
    case False
    show ?thesis
    proof (cases "x < 0")
      case True
      with a len fill_digits_ok [of ?a "1 + length (nat_digits ?a)" "(replicate 64 (chr 0))[0 := CHR ''-'']"]
      show ?thesis
        by (simp add: dump_integer_def count_digits_length std_to_string_def eval_nat_numeral)
    next
      case False
      with a len \<open>x \<noteq> 0\<close> fill_digits_ok [of ?a "length (nat_digits ?a)" "replicate 64 (chr 0)"]
      show ?thesis
        by (simp add: dump_integer_def count_digits_length std_to_string_def)
    qed
  qed
qed

section \<open>White space between tokens\<close>

lemma scan_space: "list_all is_space w \<Longrightarrow> scan strtod (w @ s) = scan strtod s"
  by (simp add: scan_def skip_whitespace_def dropWhile_append2 list_all_iff)

lemma read_value_space: "list_all is_space w \<Longrightarrow> read_value strtod (w @ s) fs = read_value strtod s fs"
  by (simp add: read_value_def scan_space)

lemma read_member_space:
  "list_all is_space w \<Longrightarrow> read_member strtod (w @ s) m fs = read_member strtod s m fs"
  by (simp add: read_member_def scan_space)

lemma value_done_space:
  "list_all is_space w \<Longrightarrow> value_done strtod v (w @ s) (f # fs) = value_done strtod v s (f # fs)"
  by (cases f) (simp_all add: scan_space)

text \<open>What may stand before a closing bracket.\<close>

definition closing :: "string \<Rightarrow> bool" where
  "closing w \<longleftrightarrow> list_all is_space w \<and> (w = [] \<or> hd w = CHR 0x0A)"

lemma closing_delim: "closing w \<Longrightarrow> delim r \<Longrightarrow> delim (w @ r)"
  by (cases w) (auto simp: closing_def)

lemma newline_space [simp]: "is_space (CHR 0x0A)" "is_space (CHR '' '')"
  by (simp_all add: byte_def)

section \<open>The indentation string\<close>

definition ind_ok :: "dump_options \<Rightarrow> nat \<Rightarrow> string \<Rightarrow> bool" where
  "ind_ok opt current ind \<longleftrightarrow>
     (pretty_print opt \<longrightarrow>
        list_all is_space ind \<and> current \<le> length ind \<and> 512 \<le> length ind \<and> indent_step opt \<le> 1024 \<and>
        (current = 0 \<or> indent_step opt \<le> length ind))"

definition ind_grown :: "dump_options \<Rightarrow> string \<Rightarrow> string \<Rightarrow> bool" where
  "ind_grown opt ind ind1 \<longleftrightarrow>
     length ind \<le> length ind1 \<and> (pretty_print opt \<longrightarrow> list_all is_space ind \<longrightarrow> list_all is_space ind1)"

lemma ind_grown_refl [simp]: "ind_grown opt ind ind"
  by (simp add: ind_grown_def)

lemma ind_grown_trans: "ind_grown opt a b \<Longrightarrow> ind_grown opt b c \<Longrightarrow> ind_grown opt a c"
  by (auto simp: ind_grown_def)

lemma ind_ok_grown: "ind_ok opt at ind \<Longrightarrow> ind_grown opt ind ind1 \<Longrightarrow> ind_ok opt at ind1"
  by (auto simp: ind_ok_def ind_grown_def)

lemma all_replicate: "list_all P (replicate n x) \<longleftrightarrow> n = 0 \<or> P x"
  by (induction n) auto

lemma ind_grow:
  assumes "ind_ok opt current ind"
  defines "new \<equiv> new_indentation opt current"
  shows "ind_ok opt new (grow_indent ind new)" and "ind_grown opt ind (grow_indent ind new)"
proof -
  have le: "new \<le> current + indent_step opt" unfolding new_def new_indentation_def by simp
  have first: "current = 0 \<Longrightarrow> indent_step opt \<le> 1024 \<Longrightarrow> new = indent_step opt"
    by (simp add: new_def new_indentation_def)
  have space: "list_all is_space ind \<Longrightarrow> list_all is_space (grow_indent ind new)"
    by (simp add: grow_indent_def all_replicate del: is_space.simps)
  have len: "length (grow_indent ind new) = (if length ind < new then 2 * length ind else length ind)"
    by (simp add: grow_indent_def)
  have "new \<le> 2 * length ind" if "pretty_print opt"
    using assms(1) le that by (auto simp: ind_ok_def)
  with len space first assms(1) show "ind_ok opt new (grow_indent ind new)"
    unfolding ind_ok_def by (auto split: if_splits)
  show "ind_grown opt ind (grow_indent ind new)"
    using space len by (simp add: ind_grown_def del: is_space.simps)
qed

lemma write_indent_ok:
  assumes "ind_ok opt at ind" and "pretty_print opt"
  shows "write_indent ind at = Inr (take at ind) \<and> list_all is_space (take at ind)"
  using assms by (auto simp: ind_ok_def write_indent_def list_all_iff dest: in_set_takeD)

section \<open>What the text is read back as\<close>

text \<open>The value with its strings cleaned; keys that become equal merge, the last value stays.\<close>

fun clean_json :: "error_handler \<Rightarrow> 'f json \<Rightarrow> 'f json" where
  "clean_json h (JObject m) =
     JObject (fold (\<lambda>(k, v). map_put k v) (map (\<lambda>(k, v). (cleaned h k, clean_json h v)) m) [])"
| "clean_json h (JArray vs) = JArray (map (clean_json h) vs)"
| "clean_json h (JString s) = JString (cleaned h s)"
| "clean_json h j = j"

text \<open>Values without floating-point numbers and binary data, in the types the lexer chooses.\<close>

fun textual :: "'f json \<Rightarrow> bool" where
  "textual (JObject m) \<longleftrightarrow> (\<forall>(k, v) \<in> set m. textual v)"
| "textual (JArray vs) \<longleftrightarrow> (\<forall>v \<in> set vs. textual v)"
| "textual (JInteger i) \<longleftrightarrow> i < 0 \<and> - (2 ^ 63) \<le> i"
| "textual (JUnsigned n) \<longleftrightarrow> n < 2 ^ 64"
| "textual JNull \<longleftrightarrow> True"
| "textual (JString s) \<longleftrightarrow> True"
| "textual (JBoolean b) \<longleftrightarrow> True"
| "textual _ \<longleftrightarrow> False"

abbreviation put_members :: "error_handler \<Rightarrow> (string \<times> 'f json) list \<Rightarrow> (string \<times> 'f json) list \<Rightarrow>
    (string \<times> 'f json) list" where
  "put_members h m m0 \<equiv>
     fold (\<lambda>(k, v). map_put k v) (map (\<lambda>(k, v). (cleaned h k, clean_json h v)) m) m0"

lemma quoted_Inr:
  "dump_quoted opt s = Inr q \<longleftrightarrow>
    (\<exists>e. escape_plain (handler opt) (ensure_ascii opt) s = Inr e \<and> q = CHR 0x22 # e @ [CHR 0x22])"
  by (auto simp: dump_quoted_def escape_string_plain bind_result_Inr_iff split: sum.splits)

lemma scan_quoted:
  "dump_quoted opt s = Inr q \<Longrightarrow> scan strtod (q @ r) = (Tok_string (cleaned (handler opt) s), r)"
  by (auto simp: quoted_Inr scan_quote escape_plain_scan simp del: scan_string.simps)

lemma quoted_hd: "dump_quoted opt s = Inr q \<Longrightarrow> q \<noteq> [] \<and> byte (hd q) < 128"
  by (auto simp: quoted_Inr byte_def)

text \<open>One member, one element, and what follows it.\<close>

lemma quoted_member:
  assumes "dump_quoted opt k = Inr q" and "value_reads strtod v ev" and "delim r"
    and "list_all is_space t" and "list_all is_space u"
  shows "read_member strtod (t @ q @ CHR '':'' # u @ ev @ r) m fs =
      value_done strtod v r (Frame_object m (cleaned (handler opt) k) # fs) \<and>
    fst (scan strtod (t @ q @ CHR '':'' # u @ ev @ r)) \<noteq> Tok_end_object"
proof -
  have "read_member strtod (q @ CHR '':'' # u @ ev @ r) m fs =
      value_done strtod v r (Frame_object m (cleaned (handler opt) k) # fs)"
    using assms by (simp add: read_member_def scan_quoted scan_key_def read_value_space value_readsD
        del: is_space.simps)
  with assms(1,4) show ?thesis by (simp add: read_member_space scan_space scan_quoted del: is_space.simps)
qed

lemma spaced_element:
  assumes "value_reads strtod v ev" and "delim r" and "list_all is_space t"
  shows "read_value strtod (t @ ev @ r) fs = value_done strtod v r fs \<and>
    fst (scan strtod (t @ ev @ r)) \<noteq> Tok_end_array"
  using assms by (simp add: read_value_space scan_space value_readsD del: is_space.simps)

lemma done_closing:
  assumes "closing w"
  shows "value_done strtod v (w @ CHR '']'' # s) (Frame_array vs # fs) = value_done strtod (JArray (vs @ [v])) s fs"
    and "value_done strtod v (w @ CHR ''}'' # s) (Frame_object m k # fs) =
      value_done strtod (JObject (map_put k v m)) s fs"
proof -
  have "list_all is_space w" using assms by (simp add: closing_def)
  note space = value_done_space [OF this]
  show "value_done strtod v (w @ CHR '']'' # s) (Frame_array vs # fs) = value_done strtod (JArray (vs @ [v])) s fs"
    "value_done strtod v (w @ CHR ''}'' # s) (Frame_object m k # fs) =
      value_done strtod (JObject (map_put k v m)) s fs"
    unfolding space by simp_all
qed

lemma done_separator:
  assumes "list_all is_space u"
  shows "value_done strtod v (CHR '','' # u @ s) (Frame_array vs # fs) =
      read_value strtod s (Frame_array (vs @ [v]) # fs)"
    and "value_done strtod v (CHR '','' # u @ s) (Frame_object m k # fs) =
      read_member strtod s (map_put k v m) fs"
  using assms by (simp_all only: value_done_comma read_value_space read_member_space)

lemma read_object:
  assumes "\<And>w r fs. closing w \<Longrightarrow> read_member strtod (s @ w @ CHR ''}'' # r) [] fs = value_done strtod (JObject m) r fs \<and>
      fst (scan strtod (s @ w @ CHR ''}'' # r)) \<noteq> Tok_end_object"
    and "closing w" and "list_all is_space t"
  shows "value_reads strtod (JObject m) (CHR ''{'' # t @ s @ w @ [CHR ''}''])"
proof -
  have "read_value strtod (CHR ''{'' # t @ s @ w @ CHR ''}'' # r) fs = value_done strtod (JObject m) r fs" for r fs
  proof -
    have "read_value strtod (CHR ''{'' # t @ s @ w @ CHR ''}'' # r) fs =
        parse_value strtod Tok_begin_object (t @ s @ w @ CHR ''}'' # r) fs"
      by (simp add: read_value_def)
    also have "\<dots> = read_member strtod (t @ s @ w @ CHR ''}'' # r) [] fs"
      using assms by (intro read_begin_object) (simp add: scan_space del: is_space.simps)
    also have "\<dots> = value_done strtod (JObject m) r fs"
      using assms by (simp add: read_member_space del: is_space.simps)
    finally show ?thesis .
  qed
  then show ?thesis by (simp add: value_reads_def byte_def)
qed

lemma read_array:
  assumes "\<And>w r fs. closing w \<Longrightarrow> read_value strtod (s @ w @ CHR '']'' # r) (Frame_array [] # fs) =
        value_done strtod (JArray vs) r fs \<and>
      fst (scan strtod (s @ w @ CHR '']'' # r)) \<noteq> Tok_end_array"
    and "closing w" and "list_all is_space t"
  shows "value_reads strtod (JArray vs) (CHR ''['' # t @ s @ w @ [CHR '']''])"
proof -
  have "read_value strtod (CHR ''['' # t @ s @ w @ CHR '']'' # r) fs = value_done strtod (JArray vs) r fs" for r fs
  proof -
    have "read_value strtod (CHR ''['' # t @ s @ w @ CHR '']'' # r) fs =
        parse_value strtod Tok_begin_array (t @ s @ w @ CHR '']'' # r) fs"
      by (simp add: read_value_def)
    also have "\<dots> = read_value strtod (t @ s @ w @ CHR '']'' # r) (Frame_array [] # fs)"
      using assms by (intro read_begin_array) (simp add: scan_space del: is_space.simps)
    also have "\<dots> = value_done strtod (JArray vs) r fs"
      using assms by (simp add: read_value_space del: is_space.simps)
    finally show ?thesis .
  qed
  then show ?thesis by (simp add: value_reads_def byte_def)
qed

lemma dump_leaf:
  "textual (JInteger i) \<Longrightarrow> dump_integer i = std_to_string i"
  "textual (JUnsigned n) \<Longrightarrow> dump_integer (int n) = nat_digits n"
  by (auto simp: dump_integer_ok) (simp add: dump_integer_ok std_to_string_def)

lemma serialize_reads:
  "serialize ftoa opt j current ind = Inr (s, ind1) \<Longrightarrow> textual j \<Longrightarrow> ind_ok opt current ind \<Longrightarrow>
    value_reads strtod (clean_json (handler opt) j) s \<and> ind_grown opt ind ind1"
  "serialize_members ftoa opt m at ind = Inr (s, ind1) \<Longrightarrow> \<forall>(k, v) \<in> set m. textual v \<Longrightarrow> m \<noteq> [] \<Longrightarrow>
    ind_ok opt at ind \<Longrightarrow> ind_grown opt ind ind1 \<and>
    (\<forall>m0 w r fs. closing w \<longrightarrow>
      read_member strtod (s @ w @ CHR ''}'' # r) m0 fs =
        value_done strtod (JObject (put_members (handler opt) m m0)) r fs \<and>
      fst (scan strtod (s @ w @ CHR ''}'' # r)) \<noteq> Tok_end_object)"
  "serialize_elements ftoa opt vs at ind = Inr (s, ind1) \<Longrightarrow> \<forall>v \<in> set vs. textual v \<Longrightarrow> vs \<noteq> [] \<Longrightarrow>
    ind_ok opt at ind \<Longrightarrow> ind_grown opt ind ind1 \<and>
    (\<forall>vs0 w r fs. closing w \<longrightarrow>
      read_value strtod (s @ w @ CHR '']'' # r) (Frame_array vs0 # fs) =
        value_done strtod (JArray (vs0 @ map (clean_json (handler opt)) vs)) r fs \<and>
      fst (scan strtod (s @ w @ CHR '']'' # r)) \<noteq> Tok_end_array)"
proof (induction ftoa opt j current ind and ftoa opt m at ind and ftoa opt vs at ind
    arbitrary: s ind1 and s ind1 and s ind1 rule: serialize_serialize_members_serialize_elements.induct)
  case (1 ftoa opt m current ind)
  show ?case
  proof (cases "m = []")
    case True
    with 1 show ?thesis by (auto simp: value_reads_def read_value_def byte_def)
  next
    case ne: False
    show ?thesis
    proof (cases "pretty_print opt")
      case True
      define new where "new = new_indentation opt current"
      note g = ind_grow [OF 1(5), folded new_def]
      from 1(3) ne True obtain e ind2 u where
        e: "serialize_members ftoa opt m new (grow_indent ind new) = Inr (e, ind2)"
        and u: "write_indent ind2 current = Inr u"
        and s: "s = CHR ''{'' # CHR 0x0A # e @ CHR 0x0A # u @ ''}''" "ind1 = ind2"
        by (auto simp: bind_result_Inr_iff new_def Let_def)
      from 1(1) [OF ne True new_def e _ ne g(1)] 1(4) have
        m: "ind_grown opt (grow_indent ind new) ind2" and
        r: "\<And>w r fs. closing w \<Longrightarrow> read_member strtod (e @ w @ CHR ''}'' # r) [] fs =
            value_done strtod (JObject (put_members (handler opt) m [])) r fs \<and>
          fst (scan strtod (e @ w @ CHR ''}'' # r)) \<noteq> Tok_end_object" by auto
      from ind_grown_trans [OF g(2) m] have grown: "ind_grown opt ind ind2" .
      from write_indent_ok [OF ind_ok_grown [OF 1(5) grown] True] u have "closing (CHR 0x0A # u)"
        by (simp add: closing_def del: is_space.simps)
      from read_object [OF r this, of "[CHR 0x0A]"] s grown show ?thesis by (simp del: is_space.simps)
    next
      case False
      from 1(3) ne False obtain e where
        e: "serialize_members ftoa opt m current ind = Inr (e, ind1)" and s: "s = CHR ''{'' # e @ ''}''"
        by (auto simp: bind_result_Inr_iff)
      from 1(2) [OF ne False e _ ne 1(5)] 1(4) have
        m: "ind_grown opt ind ind1" and
        r: "\<And>w r fs. closing w \<Longrightarrow> read_member strtod (e @ w @ CHR ''}'' # r) [] fs =
            value_done strtod (JObject (put_members (handler opt) m [])) r fs \<and>
          fst (scan strtod (e @ w @ CHR ''}'' # r)) \<noteq> Tok_end_object" by auto
      from read_object [OF r, of "[]" "[]"] s m show ?thesis by (simp add: closing_def)
    qed
  qed
next
  case (2 ftoa opt vs current ind)
  show ?case
  proof (cases "vs = []")
    case True
    with 2 show ?thesis by (auto simp: value_reads_def read_value_def byte_def)
  next
    case ne: False
    show ?thesis
    proof (cases "pretty_print opt")
      case True
      define new where "new = new_indentation opt current"
      note g = ind_grow [OF 2(5), folded new_def]
      from 2(3) ne True obtain e ind2 u where
        e: "serialize_elements ftoa opt vs new (grow_indent ind new) = Inr (e, ind2)"
        and u: "write_indent ind2 current = Inr u"
        and s: "s = CHR ''['' # CHR 0x0A # e @ CHR 0x0A # u @ '']''" "ind1 = ind2"
        by (auto simp: bind_result_Inr_iff new_def Let_def)
      from 2(1) [OF ne True new_def e _ ne g(1)] 2(4) have
        m: "ind_grown opt (grow_indent ind new) ind2" and
        r: "\<And>w r fs. closing w \<Longrightarrow> read_value strtod (e @ w @ CHR '']'' # r) (Frame_array [] # fs) =
            value_done strtod (JArray (map (clean_json (handler opt)) vs)) r fs \<and>
          fst (scan strtod (e @ w @ CHR '']'' # r)) \<noteq> Tok_end_array" by auto
      from ind_grown_trans [OF g(2) m] have grown: "ind_grown opt ind ind2" .
      from write_indent_ok [OF ind_ok_grown [OF 2(5) grown] True] u have "closing (CHR 0x0A # u)"
        by (simp add: closing_def del: is_space.simps)
      from read_array [OF r this, of "[CHR 0x0A]"] s grown show ?thesis by (simp del: is_space.simps)
    next
      case False
      from 2(3) ne False obtain e where
        e: "serialize_elements ftoa opt vs current ind = Inr (e, ind1)" and s: "s = CHR ''['' # e @ '']''"
        by (auto simp: bind_result_Inr_iff)
      from 2(2) [OF ne False e _ ne 2(5)] 2(4) have
        m: "ind_grown opt ind ind1" and
        r: "\<And>w r fs. closing w \<Longrightarrow> read_value strtod (e @ w @ CHR '']'' # r) (Frame_array [] # fs) =
            value_done strtod (JArray (map (clean_json (handler opt)) vs)) r fs \<and>
          fst (scan strtod (e @ w @ CHR '']'' # r)) \<noteq> Tok_end_array" by auto
      from read_array [OF r, of "[]" "[]"] s m show ?thesis by (simp add: closing_def)
    qed
  qed
next
  case (3 ftoa opt a current ind)
  then have q: "dump_quoted opt a = Inr s" and "ind1 = ind" by (auto simp: bind_result_Inr_iff)
  then show ?case
    using scan_quoted [OF q] quoted_hd [OF q]
    by (auto intro!: value_readsI [where t = "Tok_string (cleaned (handler opt) a)"])
next
  case (5 ftoa opt b current ind)
  then show ?case
    by (cases b) (auto simp: byte_def intro!: value_readsI [where t = "if b then Tok_true else Tok_false"])
next
  case (6 ftoa opt i current ind)
  then have s: "s = std_to_string i" "ind1 = ind" using dump_leaf(1) [of i] by simp_all
  with 6 have "byte (hd s) < 128" "s \<noteq> []" by (auto simp: std_to_string_def byte_def)
  with 6 s show ?case
    by (auto simp: scan_negative intro!: value_readsI [where t = "Tok_integer i"])
next
  case (7 ftoa opt n current ind)
  then have "s = nat_digits n" "ind1 = ind" using dump_leaf(2) [of n] by simp_all
  with 7 show ?case
    by (auto simp: scan_unsigned nat_digits_hd intro!: value_readsI [where t = "Tok_unsigned n"])
next
  case (10 ftoa opt current ind)
  then show ?case
    by (auto simp: byte_def intro!: value_readsI [where t = "Tok_null"])
next
  case (12 ftoa opt k v m at ind)
  let ?h = "handler opt"
  define b where "b = (if pretty_print opt then '' '' else [])"
  define n where "n = (if pretty_print opt then [CHR 0x0A] else [])"
  have sep: "(if pretty_print opt then '': '' else '':'') = CHR '':'' # b"
    by (simp add: b_def)
  from 12(3) obtain t q ev ind2 where t: "(if pretty_print opt then write_indent ind at else Inr []) = Inr t"
    and q: "dump_quoted opt k = Inr q" and ev: "serialize ftoa opt v at ind = Inr (ev, ind2)"
    and rest: "(if m = [] then Inr (t @ q @ CHR '':'' # b @ ev, ind2)
       else bind_result (serialize_members ftoa opt m at ind2)
         (\<lambda>(s, ind2). Inr (t @ q @ CHR '':'' # b @ ev @ CHR '','' # n @ s, ind2))) = Inr (s, ind1)"
    unfolding serialize_members.simps sep Let_def n_def [symmetric] bind_result_Inr_iff split_paired_Ex
    by (auto split: if_splits)
  have space: "list_all is_space t" "list_all is_space b" "list_all is_space n"
    using t write_indent_ok [OF 12(6)]
    by (auto simp: b_def n_def split: if_splits simp del: is_space.simps)
  from 12(1) [OF ev _ 12(6)] 12(4) have v: "value_reads strtod (clean_json ?h v) ev" "ind_grown opt ind ind2"
    by auto
  note member = quoted_member [OF q v(1) _ space(1,2)]
  show ?case
  proof (cases "m = []")
    case True
    with rest have s: "s = t @ q @ CHR '':'' # b @ ev" "ind1 = ind2" by auto
    have "delim (w @ CHR ''}'' # r)" if "closing w" for w r using that by (intro closing_delim) simp_all
    with member s v(2) True show ?thesis by (simp add: done_closing del: value_done.simps(2,3))
  next
    case False
    with rest obtain e where e: "serialize_members ftoa opt m at ind2 = Inr (e, ind1)"
      and s: "s = t @ q @ CHR '':'' # b @ ev @ CHR '','' # n @ e" by (auto simp: bind_result_Inr_iff)
    from 12(2) [OF refl False e _ False ind_ok_grown [OF 12(6) v(2)]] 12(4) have
      m: "ind_grown opt ind2 ind1" and r: "\<And>m0 w r fs. closing w \<Longrightarrow>
        read_member strtod (e @ w @ CHR ''}'' # r) m0 fs = value_done strtod (JObject (put_members ?h m m0)) r fs"
      by auto
    from ind_grown_trans [OF v(2) m] have "ind_grown opt ind ind1" .
    moreover have "read_member strtod (s @ w @ CHR ''}'' # r) m0 fs =
        value_done strtod (JObject (put_members ?h ((k, v) # m) m0)) r fs \<and>
        fst (scan strtod (s @ w @ CHR ''}'' # r)) \<noteq> Tok_end_object" if "closing w" for m0 w r fs
      using member [of "CHR '','' # n @ e @ w @ CHR ''}'' # r" m0 fs] s
      by (simp add: read_member_space [OF space(3)] r that del: value_done.simps(2,3))
    ultimately show ?thesis by blast
  qed
next
  case (14 ftoa opt v vs at ind)
  let ?h = "handler opt"
  define n where "n = (if pretty_print opt then [CHR 0x0A] else [])"
  from 14(3) obtain t ev ind2 where t: "(if pretty_print opt then write_indent ind at else Inr []) = Inr t"
    and ev: "serialize ftoa opt v at ind = Inr (ev, ind2)"
    and rest: "(if vs = [] then Inr (t @ ev, ind2)
       else bind_result (serialize_elements ftoa opt vs at ind2)
         (\<lambda>(s, ind2). Inr (t @ ev @ CHR '','' # n @ s, ind2))) = Inr (s, ind1)"
    unfolding serialize_elements.simps n_def [symmetric] bind_result_Inr_iff split_paired_Ex
    by (auto split: if_splits)
  have space: "list_all is_space t" "list_all is_space n"
    using t write_indent_ok [OF 14(6)]
    by (auto simp: n_def split: if_splits simp del: is_space.simps)
  from 14(1) [OF ev _ 14(6)] 14(4) have v: "value_reads strtod (clean_json ?h v) ev" "ind_grown opt ind ind2"
    by auto
  note element = spaced_element [OF v(1) _ space(1)]
  show ?case
  proof (cases "vs = []")
    case True
    with rest have s: "s = t @ ev" "ind1 = ind2" by auto
    have "delim (w @ CHR '']'' # r)" if "closing w" for w r using that by (intro closing_delim) simp_all
    with element s v(2) True show ?thesis by (simp add: done_closing del: value_done.simps(2,3))
  next
    case False
    with rest obtain e where e: "serialize_elements ftoa opt vs at ind2 = Inr (e, ind1)"
      and s: "s = t @ ev @ CHR '','' # n @ e" by (auto simp: bind_result_Inr_iff)
    from 14(2) [OF False e _ False ind_ok_grown [OF 14(6) v(2)]] 14(4) have
      m: "ind_grown opt ind2 ind1" and r: "\<And>vs0 w r fs. closing w \<Longrightarrow>
        read_value strtod (e @ w @ CHR '']'' # r) (Frame_array vs0 # fs) =
          value_done strtod (JArray (vs0 @ map (clean_json ?h) vs)) r fs"
      by auto
    from ind_grown_trans [OF v(2) m] have "ind_grown opt ind ind1" .
    moreover have "read_value strtod (s @ w @ CHR '']'' # r) (Frame_array vs0 # fs) =
        value_done strtod (JArray (vs0 @ map (clean_json ?h) (v # vs))) r fs \<and>
        fst (scan strtod (s @ w @ CHR '']'' # r)) \<noteq> Tok_end_array" if "closing w" for vs0 w r fs
      using element [of "CHR '','' # n @ e @ w @ CHR '']'' # r" "Frame_array vs0 # fs"] s
      by (simp add: read_value_space [OF space(2)] r that del: value_done.simps(2,3))
    ultimately show ?thesis by blast
  qed
qed simp_all

end
