(* ===== verification/Json_Options.thy ===== *)
theory Json_Options
  imports Json_Serializer
begin

text \<open>
  What the options of \<open>dump\<close> promise: which values are printed, what a parser reads from the text
  whatever the layout and the error handler, that the default options are the plain serializer of
  \<open>Json_Dump\<close>, and where the indentation leaves its buffer.
\<close>

section \<open>Which values are printed\<close>

lemma quoted_Inl:
  "dump_quoted opt s = Inl x \<longleftrightarrow> handler opt = Strict \<and> \<not> utf8_ok s \<and> x = Json_error (Type_error 316)"
proof -
  let ?p = "escape_plain (handler opt) (ensure_ascii opt) s"
  have "dump_quoted opt s = Inl x \<longleftrightarrow> (\<exists>y. ?p = Inl y \<and> x = Json_error y)"
    by (cases ?p) (auto simp: dump_quoted_def escape_string_plain)
  moreover have "?p = Inl y \<Longrightarrow> y = Type_error 316" for y
    unfolding escape_plain_def by (rule escape_gen_316)
  moreover have "(\<exists>y. ?p = Inl y) \<longleftrightarrow> handler opt = Strict \<and> \<not> utf8_ok s"
    using escape_plain_ok [of "handler opt" "ensure_ascii opt" s] by (cases ?p) auto
  ultimately show ?thesis by blast
qed

lemma quoted_ok: "dump_quoted opt s = Inr q \<Longrightarrow> handler opt = Strict \<Longrightarrow> utf8_ok s"
  using quoted_Inl [of opt s] by (metis sum.distinct(1))

lemma serialize_grown:
  "serialize ftoa opt j current ind = Inr (s, ind1) \<Longrightarrow> ind_ok opt current ind \<Longrightarrow> ind_grown opt ind ind1"
  "serialize_members ftoa opt m at ind = Inr (s, ind1) \<Longrightarrow> ind_ok opt at ind \<Longrightarrow> ind_grown opt ind ind1"
  "serialize_elements ftoa opt vs at ind = Inr (s, ind1) \<Longrightarrow> ind_ok opt at ind \<Longrightarrow> ind_grown opt ind ind1"
proof (induction ftoa opt j current ind and ftoa opt m at ind and ftoa opt vs at ind
    arbitrary: s ind1 and s ind1 and s ind1 rule: serialize_serialize_members_serialize_elements.induct)
  case (1 ftoa opt m current ind)
  show ?case
  proof (cases "m \<noteq> [] \<and> pretty_print opt")
    case True
    define new where "new = new_indentation opt current"
    note g = ind_grow [OF 1(4), folded new_def]
    from 1(3) True obtain e where "serialize_members ftoa opt m new (grow_indent ind new) = Inr (e, ind1)"
      by (auto simp: bind_result_Inr_iff new_def Let_def)
    with 1(1) [OF _ _ new_def _ g(1)] True ind_grown_trans [OF g(2)] show ?thesis by blast
  next
    case False
    with 1 show ?thesis by (auto simp: bind_result_Inr_iff split: if_splits)
  qed
next
  case (2 ftoa opt vs current ind)
  show ?case
  proof (cases "vs \<noteq> [] \<and> pretty_print opt")
    case True
    define new where "new = new_indentation opt current"
    note g = ind_grow [OF 2(4), folded new_def]
    from 2(3) True obtain e where "serialize_elements ftoa opt vs new (grow_indent ind new) = Inr (e, ind1)"
      by (auto simp: bind_result_Inr_iff new_def Let_def)
    with 2(1) [OF _ _ new_def _ g(1)] True ind_grown_trans [OF g(2)] show ?thesis by blast
  next
    case False
    with 2 show ?thesis by (auto simp: bind_result_Inr_iff split: if_splits)
  qed
next
  case (4 ftoa opt bs st current ind)
  then show ?case
    using ind_grow [OF 4(2)] by (auto simp: serialize_binary_def Let_def bind_result_Inr_iff split: if_splits)
next
  case (12 ftoa opt k v m at ind)
  then obtain ev ind2 where ev: "serialize ftoa opt v at ind = Inr (ev, ind2)"
    and rest: "m = [] \<and> ind1 = ind2 \<or> m \<noteq> [] \<and> (\<exists>e. serialize_members ftoa opt m at ind2 = Inr (e, ind1))"
    by (auto simp: bind_result_Inr_iff Let_def split: if_splits)
  from 12(1) [OF ev 12(4)] have g: "ind_grown opt ind ind2" .
  with rest 12(2) [OF refl _ _ ind_ok_grown [OF 12(4) g]] ind_grown_trans [OF g] show ?case by blast
next
  case (14 ftoa opt v vs at ind)
  then obtain ev ind2 where ev: "serialize ftoa opt v at ind = Inr (ev, ind2)"
    and rest: "vs = [] \<and> ind1 = ind2 \<or> vs \<noteq> [] \<and> (\<exists>e. serialize_elements ftoa opt vs at ind2 = Inr (e, ind1))"
    by (auto simp: bind_result_Inr_iff split: if_splits)
  from 14(1) [OF ev 14(4)] have g: "ind_grown opt ind ind2" .
  with rest 14(2) [OF _ _ ind_ok_grown [OF 14(4) g]] ind_grown_trans [OF g] show ?case by blast
qed (auto simp: bind_result_Inr_iff)

text \<open>A result says whether the strings were well-formed; there is no other failure.\<close>

definition printed :: "dump_options \<Rightarrow> bool \<Rightarrow> (dump_error, 'a) result \<Rightarrow> bool" where
  "printed opt ok r \<longleftrightarrow>
     (case r of
        Inl x \<Rightarrow> x = Json_error (Type_error 316) \<and> handler opt = Strict \<and> \<not> ok
      | Inr _ \<Rightarrow> handler opt = Strict \<longrightarrow> ok)"

lemma printed_simps [simp]:
  "printed opt ok (Inr a) \<longleftrightarrow> (handler opt = Strict \<longrightarrow> ok)"
  "printed opt ok (Inl x) \<longleftrightarrow> x = Json_error (Type_error 316) \<and> handler opt = Strict \<and> \<not> ok"
  by (simp_all add: printed_def)

lemma printed_bind:
  assumes "printed opt ok r" and "\<And>a. r = Inr a \<Longrightarrow> printed opt ok' (f a)"
  shows "printed opt (ok \<and> ok') (bind_result r f)"
  using assms by (cases r) (auto simp: printed_def split: sum.splits)

lemma printed_last:
  assumes "printed opt ok r" and "\<And>a. r = Inr a \<Longrightarrow> \<exists>b. f a = Inr b"
  shows "printed opt ok (bind_result r f)"
  using assms by (cases r) (auto simp: printed_def split: sum.splits)

lemma printed_quoted: "printed opt (utf8_ok s) (dump_quoted opt s)"
  using quoted_Inl [of opt s] by (cases "dump_quoted opt s") (auto simp: printed_def)

lemma write_indent_Inr:
  "ind_ok opt at ind \<Longrightarrow> \<exists>t. (if pretty_print opt then write_indent ind at else Inr []) = Inr t"
  using write_indent_ok [of opt at ind] by (cases "pretty_print opt") auto

lemma serialize_printed:
  "ind_ok opt current ind \<Longrightarrow> printed opt (printable j) (serialize ftoa opt j current ind)"
  "ind_ok opt at ind \<Longrightarrow>
    printed opt (\<forall>(k, v) \<in> set m. utf8_ok k \<and> printable v) (serialize_members ftoa opt m at ind)"
  "ind_ok opt at ind \<Longrightarrow> printed opt (\<forall>v \<in> set vs. printable v) (serialize_elements ftoa opt vs at ind)"
proof (induction ftoa opt j current ind and ftoa opt m at ind and ftoa opt vs at ind
    rule: serialize_serialize_members_serialize_elements.induct)
  case (1 ftoa opt m current ind)
  consider "m = []" | "m \<noteq> []" "pretty_print opt" | "m \<noteq> []" "\<not> pretty_print opt" by blast
  then show ?case
  proof cases
    case 2
    define new where "new = new_indentation opt current"
    note g = ind_grow [OF 1(3), folded new_def]
    have "printed opt (printable (JObject m)) (bind_result (serialize_members ftoa opt m new (grow_indent ind new))
        (\<lambda>(s, ind1). bind_result (write_indent ind1 current)
          (\<lambda>u. Inr (''{'' @ [CHR 0x0A] @ s @ [CHR 0x0A] @ u @ ''}'', ind1))))"
    proof (rule printed_last)
      show "printed opt (printable (JObject m)) (serialize_members ftoa opt m new (grow_indent ind new))"
        using 1(1) [OF 2 new_def g(1)] by simp
      fix a assume a: "serialize_members ftoa opt m new (grow_indent ind new) = Inr a"
      obtain s ind1 where s: "a = (s, ind1)" by (cases a)
      from ind_grown_trans [OF g(2) serialize_grown(2) [OF a [unfolded s] g(1)]]
      have "ind_ok opt current ind1" by (rule ind_ok_grown [OF 1(3)])
      from write_indent_ok [OF this 2(2)] s
      show "\<exists>b. (case a of (s, ind1) \<Rightarrow> bind_result (write_indent ind1 current)
          (\<lambda>u. Inr (''{'' @ [CHR 0x0A] @ s @ [CHR 0x0A] @ u @ ''}'', ind1))) = Inr b" by simp
    qed
    with 2 show ?thesis by (simp add: Let_def new_def)
  next
    case 3
    have "printed opt (printable (JObject m)) (bind_result (serialize_members ftoa opt m current ind)
        (\<lambda>(s, ind1). Inr (''{'' @ s @ ''}'', ind1)))"
      by (rule printed_last) (use 1(2) [OF 3 1(3)] in \<open>auto split: prod.splits\<close>)
    with 3 show ?thesis by simp
  qed simp
next
  case (2 ftoa opt vs current ind)
  consider "vs = []" | "vs \<noteq> []" "pretty_print opt" | "vs \<noteq> []" "\<not> pretty_print opt" by blast
  then show ?case
  proof cases
    case 2
    note c = 2
    define new where "new = new_indentation opt current"
    note g = ind_grow [OF "2.prems", folded new_def]
    have "printed opt (printable (JArray vs)) (bind_result (serialize_elements ftoa opt vs new (grow_indent ind new))
        (\<lambda>(s, ind1). bind_result (write_indent ind1 current)
          (\<lambda>u. Inr (''['' @ [CHR 0x0A] @ s @ [CHR 0x0A] @ u @ '']'', ind1))))"
    proof (rule printed_last)
      show "printed opt (printable (JArray vs)) (serialize_elements ftoa opt vs new (grow_indent ind new))"
        using "2.IH"(1) [OF c new_def g(1)] by simp
      fix a assume a: "serialize_elements ftoa opt vs new (grow_indent ind new) = Inr a"
      obtain s ind1 where s: "a = (s, ind1)" by (cases a)
      from ind_grown_trans [OF g(2) serialize_grown(3) [OF a [unfolded s] g(1)]]
      have "ind_ok opt current ind1" by (rule ind_ok_grown [OF "2.prems"])
      from write_indent_ok [OF this c(2)] s
      show "\<exists>b. (case a of (s, ind1) \<Rightarrow> bind_result (write_indent ind1 current)
          (\<lambda>u. Inr (''['' @ [CHR 0x0A] @ s @ [CHR 0x0A] @ u @ '']'', ind1))) = Inr b" by simp
    qed
    with c show ?thesis by (simp add: Let_def new_def)
  next
    case 3
    have "printed opt (printable (JArray vs)) (bind_result (serialize_elements ftoa opt vs current ind)
        (\<lambda>(s, ind1). Inr (''['' @ s @ '']'', ind1)))"
      by (rule printed_last) (use "2.IH"(2) [OF 3 "2.prems"] in \<open>auto split: prod.splits\<close>)
    with 3 show ?thesis by simp
  qed simp
next
  case (3 ftoa opt s current ind)
  have "printed opt (utf8_ok s) (bind_result (dump_quoted opt s) (\<lambda>t. Inr (t, ind)))"
    by (rule printed_last [OF printed_quoted]) simp
  then show ?case by simp
next
  case (4 ftoa opt bs st current ind)
  let ?new = "new_indentation opt current"
  note g = ind_grow [OF 4]
  show ?case
  proof (cases "pretty_print opt")
    case True
    from write_indent_ok [OF g(1) True] write_indent_ok [OF ind_ok_grown [OF 4 g(2)] True] True
    show ?thesis by (simp add: serialize_binary_def Let_def)
  qed (simp add: serialize_binary_def Let_def)
next
  case (12 ftoa opt k v m at ind)
  from write_indent_Inr [OF 12(3)] obtain t where
    t: "(if pretty_print opt then write_indent ind at else Inr []) = Inr t" by blast
  let ?m = "\<forall>(k, v) \<in> set m. utf8_ok k \<and> printable v"
  define rest where "rest ek = (\<lambda>(ev, ind1).
       let member = t @ ek @ (if pretty_print opt then '': '' else '':'') @ ev in
       if m = [] then Inr (member, ind1)
       else bind_result (serialize_members ftoa opt m at ind1) (\<lambda>(s, ind2).
         Inr (member @ '','' @ (if pretty_print opt then [CHR 0x0A] else []) @ s, ind2)))" for ek
  have "printed opt (utf8_ok k \<and> printable v \<and> ?m)
      (bind_result (dump_quoted opt k) (\<lambda>ek. bind_result (serialize ftoa opt v at ind) (rest ek)))"
  proof (rule printed_bind [OF printed_quoted], rule printed_bind [OF 12(1) [OF 12(3)]])
    fix ek a assume a: "serialize ftoa opt v at ind = Inr a"
    obtain ev ind1 where ev: "a = (ev, ind1)" by (cases a)
    from serialize_grown(1) [OF a [unfolded ev] 12(3)] have g: "ind_ok opt at ind1"
      by (rule ind_ok_grown [OF 12(3)])
    show "printed opt ?m (rest ek a)"
    proof (cases "m = []")
      case False
      have "printed opt ?m (serialize_members ftoa opt m at ind1)" by (rule 12(2) [OF refl False g])
      then show ?thesis using False ev
        by (auto simp: rest_def Let_def intro!: printed_last split: prod.splits)
    qed (simp add: rest_def ev)
  qed
  then show ?case using t unfolding rest_def by (simp add: conj_assoc)
next
  case (14 ftoa opt v vs at ind)
  from write_indent_Inr [OF 14(3)] obtain t where
    t: "(if pretty_print opt then write_indent ind at else Inr []) = Inr t" by blast
  let ?m = "\<forall>v \<in> set vs. printable v"
  define rest where "rest = (\<lambda>(ev, ind1).
       if vs = [] then Inr (t @ ev, ind1)
       else bind_result (serialize_elements ftoa opt vs at ind1) (\<lambda>(s, ind2).
         Inr (t @ ev @ '','' @ (if pretty_print opt then [CHR 0x0A] else []) @ s, ind2)))"
  have "printed opt (printable v \<and> ?m) (bind_result (serialize ftoa opt v at ind) rest)"
  proof (rule printed_bind [OF 14(1) [OF 14(3)]])
    fix a assume a: "serialize ftoa opt v at ind = Inr a"
    obtain ev ind1 where ev: "a = (ev, ind1)" by (cases a)
    from serialize_grown(1) [OF a [unfolded ev] 14(3)] have g: "ind_ok opt at ind1"
      by (rule ind_ok_grown [OF 14(3)])
    show "printed opt ?m (rest a)"
    proof (cases "vs = []")
      case False
      have "printed opt ?m (serialize_elements ftoa opt vs at ind1)" by (rule 14(2) [OF False g])
      then show ?thesis using False ev
        by (auto simp: rest_def intro!: printed_last split: prod.splits)
    qed (simp add: rest_def ev)
  qed
  then show ?case using t unfolding rest_def by simp
qed simp_all

section \<open>The default options\<close>

fun in_range :: "'f json \<Rightarrow> bool" where
  "in_range (JObject m) \<longleftrightarrow> (\<forall>(k, v) \<in> set m. in_range v)"
| "in_range (JArray vs) \<longleftrightarrow> (\<forall>v \<in> set vs. in_range v)"
| "in_range (JInteger i) \<longleftrightarrow> - (2 ^ 63) \<le> i \<and> i < 2 ^ 63"
| "in_range (JUnsigned n) \<longleftrightarrow> n < 2 ^ 64"
| "in_range (JBinary bs st) \<longleftrightarrow> (\<forall>b \<in> set bs. b < 256) \<and> (\<forall>n. st = Some n \<longrightarrow> n < 2 ^ 64)"
| "in_range _ \<longleftrightarrow> True"

lemma std_to_string_nat [simp]: "std_to_string (int n) = nat_digits n"
  by (simp add: std_to_string_def)

lemma dump_nat: "n < 2 ^ 64 \<Longrightarrow> dump_integer (int n) = nat_digits n"
  by (simp add: dump_integer_ok std_to_string_def)

lemma join_bytes_dump: "\<forall>b \<in> set bs. b < 256 \<Longrightarrow> join_bytes '','' bs = dump_bytes bs"
  by (induction bs rule: dump_bytes.induct) (simp_all add: dump_nat)

definition plain_options :: dump_options where
  "plain_options =
     \<lparr>handler = Strict, ensure_ascii = False, pretty_print = False, indent_step = 0\<rparr>"

lemma plain_options_simps [simp]:
  "handler plain_options = Strict" "\<not> ensure_ascii plain_options" "\<not> pretty_print plain_options"
  by (simp_all add: plain_options_def)

definition lifted :: "string \<Rightarrow> (json_error, string) result \<Rightarrow> (dump_error, string \<times> string) result" where
  "lifted ind r = (case r of Inl x \<Rightarrow> Inl (Json_error x) | Inr s \<Rightarrow> Inr (s, ind))"

lemma lifted_simps [simp]:
  "lifted ind (Inl x) = Inl (Json_error x)" "lifted ind (Inr s) = Inr (s, ind)"
  by (simp_all add: lifted_def)

lemma quoted_plain:
  "dump_quoted plain_options s =
    (case dump_escaped s of Inl x \<Rightarrow> Inl (Json_error x) | Inr e \<Rightarrow> Inr (CHR 0x22 # e @ [CHR 0x22]))"
  by (simp add: dump_quoted_def escape_string_plain escape_plain_default bind_result_def split: sum.split)

lemma serialize_plain:
  "in_range j \<Longrightarrow> serialize ftoa plain_options j current ind = lifted ind (dump ftoa j)"
  "\<forall>(k, v) \<in> set m. in_range v \<Longrightarrow>
    serialize_members ftoa plain_options m current ind = lifted ind (dump_members ftoa m)"
  "\<forall>v \<in> set vs. in_range v \<Longrightarrow>
    serialize_elements ftoa plain_options vs current ind = lifted ind (dump_elements ftoa vs)"
proof (induction ftoa j and ftoa m and ftoa vs rule: dump_dump_members_dump_elements.induct)
  case (1 ftoa m)
  then show ?case by (cases "dump_members ftoa m") auto
next
  case (2 ftoa vs)
  then show ?case by (cases "dump_elements ftoa vs") auto
next
  case (3 ftoa s)
  then show ?case by (cases "dump_escaped s") (auto simp: quoted_plain)
next
  case (4 ftoa bs st)
  then show ?case
    by (cases st) (auto simp: serialize_binary_def join_bytes_dump dump_subtype_def dump_nat Let_def)
next
  case (12 ftoa k v m)
  show ?case
  proof (cases "dump_escaped k")
    case (Inr ek)
    with 12 show ?thesis
      by (cases "dump ftoa v"; cases "m = []"; cases "dump_members ftoa m") (auto simp: quoted_plain Let_def)
  qed (simp add: quoted_plain)
next
  case (14 ftoa v vs)
  then show ?case
    by (cases "dump ftoa v"; cases "vs = []"; cases "dump_elements ftoa vs") auto
qed (auto simp: dump_integer_ok)

section \<open>ASCII\<close>

lemma quoted_ascii: "dump_quoted opt s = Inr q \<Longrightarrow> ensure_ascii opt \<Longrightarrow> ascii q"
  using escape_ascii [of "handler opt" 0 0 "[]" s] by (auto simp: quoted_Inr escape_plain_def byte_literals)

lemma ascii_digits: "ascii (dump_integer x)" if "in_range (JInteger x) \<or> 0 \<le> x \<and> x < 2 ^ 64"
proof -
  have "ascii (nat_digits n)" for n
    using nat_digits_digit by (fastforce simp: list_all_iff is_digit_def)
  with that show ?thesis by (auto simp: dump_integer_ok std_to_string_def byte_def)
qed

lemma space_ascii: "list_all is_space w \<Longrightarrow> ascii w"
  by (induction w) (auto simp: byte_def)

lemma serialize_ascii:
  "serialize ftoa opt j current ind = Inr (s, ind1) \<Longrightarrow> textual j \<Longrightarrow> ind_ok opt current ind \<Longrightarrow>
    ensure_ascii opt \<Longrightarrow> ascii s"
  "serialize_members ftoa opt m at ind = Inr (s, ind1) \<Longrightarrow> \<forall>(k, v) \<in> set m. textual v \<Longrightarrow>
    ind_ok opt at ind \<Longrightarrow> ensure_ascii opt \<Longrightarrow> ascii s"
  "serialize_elements ftoa opt vs at ind = Inr (s, ind1) \<Longrightarrow> \<forall>v \<in> set vs. textual v \<Longrightarrow>
    ind_ok opt at ind \<Longrightarrow> ensure_ascii opt \<Longrightarrow> ascii s"
proof (induction ftoa opt j current ind and ftoa opt m at ind and ftoa opt vs at ind
    arbitrary: s ind1 and s ind1 and s ind1 rule: serialize_serialize_members_serialize_elements.induct)
  case (1 ftoa opt m current ind)
  consider "m = []" | (pretty) "m \<noteq> []" "pretty_print opt" | (flat) "m \<noteq> []" "\<not> pretty_print opt" by blast
  then show ?case
  proof cases
    case pretty
    define new where "new = new_indentation opt current"
    note g = ind_grow [OF "1.prems"(3), folded new_def]
    from 1(3) pretty obtain e u where
      e: "serialize_members ftoa opt m new (grow_indent ind new) = Inr (e, ind1)"
      and u: "write_indent ind1 current = Inr u" and s: "s = CHR ''{'' # CHR 0x0A # e @ CHR 0x0A # u @ ''}''"
      by (auto simp: bind_result_Inr_iff new_def Let_def)
    from ind_grown_trans [OF g(2) serialize_grown(2) [OF e g(1)]]
    have "ind_ok opt current ind1" by (rule ind_ok_grown [OF "1.prems"(3)])
    from write_indent_ok [OF this pretty(2)] u have "ascii u" using space_ascii by auto
    with "1.IH"(1) [OF pretty new_def e _ g(1)] "1.prems" s show ?thesis by (auto simp: byte_def)
  next
    case flat
    with 1 show ?thesis by (auto simp: bind_result_Inr_iff byte_def)
  qed (use 1 in \<open>auto simp: byte_def\<close>)
next
  case (2 ftoa opt vs current ind)
  consider "vs = []" | (pretty) "vs \<noteq> []" "pretty_print opt" | (flat) "vs \<noteq> []" "\<not> pretty_print opt" by blast
  then show ?case
  proof cases
    case pretty
    define new where "new = new_indentation opt current"
    note g = ind_grow [OF "2.prems"(3), folded new_def]
    from 2(3) pretty obtain e u where
      e: "serialize_elements ftoa opt vs new (grow_indent ind new) = Inr (e, ind1)"
      and u: "write_indent ind1 current = Inr u" and s: "s = CHR ''['' # CHR 0x0A # e @ CHR 0x0A # u @ '']''"
      by (auto simp: bind_result_Inr_iff new_def Let_def)
    from ind_grown_trans [OF g(2) serialize_grown(3) [OF e g(1)]]
    have "ind_ok opt current ind1" by (rule ind_ok_grown [OF "2.prems"(3)])
    from write_indent_ok [OF this pretty(2)] u have "ascii u" using space_ascii by auto
    with "2.IH"(1) [OF pretty new_def e _ g(1)] "2.prems" s show ?thesis by (auto simp: byte_def)
  next
    case flat
    with 2 show ?thesis by (auto simp: bind_result_Inr_iff byte_def)
  qed (use 2 in \<open>auto simp: byte_def\<close>)
next
  case (3 ftoa opt a current ind)
  then show ?case using quoted_ascii by (auto simp: bind_result_Inr_iff)
next
  case (6 ftoa opt i current ind)
  then show ?case using ascii_digits [of i] by simp
next
  case (7 ftoa opt n current ind)
  then show ?case using ascii_digits [of "int n"] by simp
next
  case (12 ftoa opt k v m at ind)
  from write_indent_Inr [OF "12.prems"(3)] obtain t where
    t: "(if pretty_print opt then write_indent ind at else Inr []) = Inr t" by blast
  then have "ascii t"
    using write_indent_ok [OF "12.prems"(3)] space_ascii by (auto split: if_splits)
  from 12(3) t obtain q ev ind2 where q: "dump_quoted opt k = Inr q"
    and ev: "serialize ftoa opt v at ind = Inr (ev, ind2)"
    and rest: "m = [] \<and> s = t @ q @ (if pretty_print opt then '': '' else '':'') @ ev \<or>
      m \<noteq> [] \<and> (\<exists>e. serialize_members ftoa opt m at ind2 = Inr (e, ind1) \<and>
        s = t @ q @ (if pretty_print opt then '': '' else '':'') @ ev @ '','' @
          (if pretty_print opt then [CHR 0x0A] else []) @ e)"
    by (auto simp: bind_result_Inr_iff Let_def split: if_splits)
  note g = ind_ok_grown [OF "12.prems"(3) serialize_grown(1) [OF ev "12.prems"(3)]]
  have "ascii q" "ascii ev" using quoted_ascii [OF q] "12.IH"(1) [OF ev _ "12.prems"(3)] "12.prems" by auto
  with \<open>ascii t\<close> rest "12.IH"(2) [OF refl _ _ _ g] "12.prems" show ?case
    by (auto simp: byte_def)
next
  case (14 ftoa opt v vs at ind)
  from write_indent_Inr [OF "14.prems"(3)] obtain t where
    t: "(if pretty_print opt then write_indent ind at else Inr []) = Inr t" by blast
  then have "ascii t"
    using write_indent_ok [OF "14.prems"(3)] space_ascii by (auto split: if_splits)
  from 14(3) t obtain ev ind2 where ev: "serialize ftoa opt v at ind = Inr (ev, ind2)"
    and rest: "vs = [] \<and> s = t @ ev \<or>
      vs \<noteq> [] \<and> (\<exists>e. serialize_elements ftoa opt vs at ind2 = Inr (e, ind1) \<and>
        s = t @ ev @ '','' @ (if pretty_print opt then [CHR 0x0A] else []) @ e)"
    by (auto simp: bind_result_Inr_iff split: if_splits)
  note g = ind_ok_grown [OF "14.prems"(3) serialize_grown(1) [OF ev "14.prems"(3)]]
  have "ascii ev" using "14.IH"(1) [OF ev _ "14.prems"(3)] "14.prems" by auto
  with \<open>ascii t\<close> rest "14.IH"(2) [OF _ _ _ g] "14.prems" show ?case
    by (auto simp: byte_def)
qed (auto simp: byte_def)

section \<open>The options of a call\<close>

abbreviation dump_call :: "int \<Rightarrow> bool \<Rightarrow> error_handler \<Rightarrow> dump_options" where
  "dump_call indent only_ascii h \<equiv>
     (if 0 \<le> indent
      then \<lparr>handler = h, ensure_ascii = only_ascii, pretty_print = True, indent_step = nat indent\<rparr>
      else \<lparr>handler = h, ensure_ascii = only_ascii, pretty_print = False, indent_step = 0\<rparr>)"

lemma dump_call_simps [simp]:
  "handler (dump_call indent a h) = h" "ensure_ascii (dump_call indent a h) = a"
  "pretty_print (dump_call indent a h) \<longleftrightarrow> 0 \<le> indent" "indent_step (dump_call indent a h) = nat indent"
  by auto

lemma json_dump_run:
  "json_dump ftoa indent c a h j =
    bind_result (serialize ftoa (dump_call indent a h) j 0 (replicate 512 c)) (\<lambda>(s, ind). Inr s)"
  by (simp add: json_dump_def)

lemma start_ok: "is_space c \<Longrightarrow> indent \<le> 1024 \<Longrightarrow> ind_ok (dump_call indent a h) 0 (replicate 512 c)"
  unfolding ind_ok_def dump_call_simps by (simp add: all_replicate nat_le_iff del: is_space.simps)

lemma json_dump_Inr:
  "json_dump ftoa indent c a h j = Inr s \<longleftrightarrow>
    (\<exists>ind. serialize ftoa (dump_call indent a h) j 0 (replicate 512 c) = Inr (s, ind))"
  by (auto simp: json_dump_run bind_result_Inr_iff)

lemma json_dump_reads:
  assumes "json_dump ftoa indent c a h j = Inr s"
    and "is_space c" and "indent \<le> 1024" and "textual j"
  shows "json_parse strtod s = Inr (clean_json h j)"
proof -
  from assms(1) obtain ind where
    "serialize ftoa (dump_call indent a h) j 0 (replicate 512 c) = Inr (s, ind)"
    unfolding json_dump_Inr by blast
  from serialize_reads(1) [OF this assms(4) start_ok [OF assms(2,3)]]
  show ?thesis unfolding dump_call_simps by (blast intro: json_parse_reads)
qed

lemma json_dump_Inl:
  assumes "is_space c" and "indent \<le> 1024"
  shows "json_dump ftoa indent c a h j = Inl x \<longleftrightarrow>
    h = Strict \<and> \<not> printable j \<and> x = Json_error (Type_error 316)"
  using serialize_printed(1) [OF start_ok [OF assms, of h a], of j ftoa]
  unfolding json_dump_run printed_def dump_call_simps by (auto split: sum.splits)

text \<open>Values that are already clean.\<close>

lemma put_all:
  "map_ok (m0 @ m) \<Longrightarrow> fold (\<lambda>(k, v). map_put k v) m m0 = m0 @ m"
proof (induction m arbitrary: m0)
  case (Cons p m)
  obtain k v where p: "p = (k, v)" by (cases p)
  with Cons show ?case using map_put_snoc [of m0 k v m] by simp
qed simp

lemma clean_json_same: "storable j \<Longrightarrow> printable j \<Longrightarrow> clean_json h j = j"
proof (induction h j rule: clean_json.induct)
  case (1 h m)
  have "map (\<lambda>(k, v). (cleaned h k, clean_json h v)) m = m"
  proof (rule map_idI)
    fix p assume p: "p \<in> set m"
    obtain k v where kv: "p = (k, v)" by (cases p)
    with p 1(2,3) have "utf8_ok k" "storable v" "printable v" by fastforce+
    with 1(1) [OF p kv [symmetric]] kv show "(\<lambda>(k, v). (cleaned h k, clean_json h v)) p = p"
      by (simp add: cleaned_valid)
  qed
  with 1(2) put_all [of "[]" m] show ?case by simp
next
  case (2 h vs)
  then show ?case by (simp add: map_idI)
qed (auto simp: cleaned_valid)

lemma storable_textual: "storable j \<Longrightarrow> textual j"
  by (induction j rule: storable.induct) auto

end
