(* ===== verification/Json_Layout.thy ===== *)
theory Json_Layout
  imports Json_Options
begin

text \<open>
  The properties of \<open>basic_json::dump\<close> with its four parameters: the layout and the escapes never
  change the value, the error handler decides what becomes of ill-formed UTF-8, the buffers of the
  escaper and the integer printer are large enough, and the indentation string is not.
\<close>

definition layout_sample :: "unit json" where
  "layout_sample = JArray [JUnsigned 7, JObject []]"

lemma layout_sample_ok: "storable layout_sample" "printable layout_sample" "textual layout_sample"
  "in_range layout_sample"
  by (simp_all add: layout_sample_def)

definition layout_text :: string where
  "layout_text = ''['' @ [CHR 0x0A] @ ''  7,'' @ [CHR 0x0A] @ ''  {}'' @ [CHR 0x0A] @ '']''"

lemma replicate_512: "replicate 512 c = c # c # replicate 510 c"
  by (simp add: numeral_eq_Suc)

lemma layout_dump: "json_dump (\<lambda>_. []) 2 (CHR '' '') a h layout_sample = Inr layout_text"
  by (simp add: json_dump_def layout_sample_def layout_text_def new_indentation_def grow_indent_def
      write_indent_def replicate_512 dump_integer_ok std_to_string_def nat_digits.simps)



text \<open>
  With ill-formed UTF-8 and the handler \<open>replace\<close> or \<open>ignore\<close> the parser reads the value whose strings
  have each maximal ill-formed sequence replaced by U+FFFD or removed; keys that become equal merge
  and the last value stays.
\<close>

theorem json_cleaned_roundtrip:
  assumes "json_dump ftoa indent indent_char only_ascii h j = Inr s"
    and "is_space indent_char" and "indent \<le> 1024" and "textual j"
  shows "json_parse strtod s = Inr (clean_json h j)"
  using assms by (rule json_dump_reads)

theorem json_cleaned_roundtrip_witness:
  "json_parse (\<lambda>_. None) layout_text = Inr (clean_json Ignore layout_sample)"
  by (rule json_cleaned_roundtrip [OF layout_dump [of False Ignore]]) (simp_all add: layout_sample_ok byte_def)

text \<open>
  Printing fails only with the handler \<open>strict\<close>, only for a value with an ill-formed string, and only
  with the library's error 316.
\<close>

theorem json_dump_error:
  assumes "is_space indent_char" and "indent \<le> 1024"
  shows "json_dump ftoa indent indent_char only_ascii h j = Inl x \<longleftrightarrow>
    h = Strict \<and> \<not> printable j \<and> x = Json_error (Type_error 316)"
  using assms by (rule json_dump_Inl)

theorem json_dump_error_witness:
  "json_dump (\<lambda>_. []) 4 (CHR '' '') False Strict (JString [chr 255]) = Inl (Json_error (Type_error 316))"
  by (subst json_dump_error) (simp_all add: byte_chr follow_ranges_def del: is_space.simps)

text \<open>
  Without an argument (\<open>indent = -1\<close>, no \<open>ensure_ascii\<close>, \<open>strict\<close>) the printer is the plain one of
  \<open>Json_Dump\<close>, for values whose numbers fit their 64-bit types.
\<close>

theorem json_dump_default:
  assumes "indent < 0" and "in_range j"
  shows "json_dump ftoa indent indent_char False Strict j =
    (case dump ftoa j of Inl x \<Rightarrow> Inl (Json_error x) | Inr s \<Rightarrow> Inr s)"
proof -
  have "json_dump ftoa indent indent_char False Strict j =
      bind_result (lifted (replicate 512 indent_char) (dump ftoa j)) (\<lambda>(s, ind). Inr s)"
    using assms by (simp add: json_dump_def plain_options_def [symmetric] serialize_plain)
  then show ?thesis by (cases "dump ftoa j") simp_all
qed

theorem json_dump_default_witness:
  "json_dump (\<lambda>_. []) (- 1) (CHR '' '') False Strict layout_sample = Inr ''[7,{}]''"
  by (subst json_dump_default)
    (simp_all add: layout_sample_ok, simp add: layout_sample_def std_to_string_def nat_digits.simps)

text \<open>With \<open>ensure_ascii\<close> every byte of the text is below 128, the replacement character included.\<close>

theorem json_dump_ascii:
  assumes "json_dump ftoa indent indent_char True h j = Inr s"
    and "is_space indent_char" and "indent \<le> 1024" and "textual j"
  shows "\<forall>c \<in> set s. byte c < 128"
proof -
  from assms(1) obtain ind where
    s: "serialize ftoa (dump_call indent True h) j 0 (replicate 512 indent_char) = Inr (s, ind)"
    unfolding json_dump_Inr by blast
  from serialize_ascii(1) [OF s assms(4) start_ok [OF assms(2,3)]]
  show ?thesis unfolding dump_call_simps by (simp add: list_all_iff)
qed

theorem json_dump_ascii_witness: "\<forall>c \<in> set layout_text. byte c < 128"
  by (rule json_dump_ascii [OF layout_dump [of True Replace]]) (simp_all add: layout_sample_ok byte_def)

text \<open>
  C39: The escaper's buffer of 512 bytes is never left: it is written out whenever fewer than 13 bytes
  remain, and the text is the one of the loop without a buffer.
\<close>

theorem escape_buffer_safe:
  "escape_string h only_ascii s =
    (case escape_plain h only_ascii s of Inl x \<Rightarrow> Inl (Json_error x) | Inr t \<Rightarrow> Inr t)"
  by (rule escape_string_plain)

text \<open>
  The integer printer, which counts the digits first and then fills its buffer of 64 bytes from the
  right by pairs from a table, prints every signed and unsigned 64-bit number in decimal, the
  smallest negative one included.
\<close>

theorem dump_integer_decimal:
  assumes "- (2 ^ 63) \<le> x" and "x < 2 ^ 64"
  shows "dump_integer x = std_to_string x"
  using assms by (rule dump_integer_ok)

theorem dump_integer_decimal_witness: "dump_integer (- (2 ^ 63)) = std_to_string (- (2 ^ 63))"
  by (rule dump_integer_decimal) simp_all

section \<open>Where the indentation string ends\<close>

lemma far_indent:
  assumes "1025 < indent" and "indent < 2 ^ 31"
  shows "new_indentation (dump_call indent a h) 0 = nat indent"
    and "write_indent (grow_indent (replicate 512 c) (nat indent)) (nat indent) = Inl Outside_buffer"
proof -
  obtain n where n: "indent = int n" "1025 < n" "n < 2 ^ 31"
    using assms zero_le_imp_eq_int [of indent] by auto
  show "new_indentation (dump_call indent a h) 0 = nat indent"
    "write_indent (grow_indent (replicate 512 c) (nat indent)) (nat indent) = Inl Outside_buffer"
    using n by (simp_all add: new_indentation_def write_indent_def grow_indent_def)
qed

text \<open>
  The indentation string is doubled once, not until it is long enough. An indentation above 1025
  makes the serializer read past its end, for every array and object that is not empty.
\<close>

theorem indent_over_read:
  assumes "1025 < indent" and "indent < 2 ^ 31"
  shows "json_dump ftoa indent indent_char only_ascii h (JArray (v # vs)) = Inl Outside_buffer \<and>
    json_dump ftoa indent indent_char only_ascii h (JObject ((k, v) # m)) = Inl Outside_buffer"
  using assms far_indent(1) [OF assms, of h only_ascii] far_indent(2) [OF assms]
  by (simp_all add: json_dump_run Let_def del: if_split)

theorem indent_over_read_witness:
  "json_dump (\<lambda>_. []) 1026 (CHR '' '') False Strict layout_sample = Inl Outside_buffer"
proof -
  have "json_dump (\<lambda>_. []) 1026 (CHR '' '') False Strict (JArray [JUnsigned 7, JObject []]) =
      Inl Outside_buffer"
    by (rule conjunct1 [OF indent_over_read]) simp_all
  then show ?thesis unfolding layout_sample_def .
qed

text \<open>
  Between 513 and 1024 the rest of the indentation is blanks, whatever the indentation character.
\<close>

theorem indent_char_lost:
  assumes "512 < indent" and "indent \<le> 1024"
  shows "json_dump ftoa indent indent_char only_ascii h (JArray [JNull]) =
    Inr (''['' @ [CHR 0x0A] @ replicate 512 indent_char @ replicate (nat indent - 512) (CHR '' '') @
      ''null'' @ [CHR 0x0A] @ '']'')"
proof -
  obtain n where n: "indent = int n" "512 < n" "n \<le> 1024"
    using assms zero_le_imp_eq_int [of indent] by auto
  then show ?thesis
    by (simp add: json_dump_run new_indentation_def grow_indent_def write_indent_def Let_def min_def)
qed

theorem indent_char_lost_witness:
  "json_dump (\<lambda>_. []) 513 (CHR 0x09) False Strict (JArray [JNull]) =
    Inr (''['' @ [CHR 0x0A] @ replicate 512 (CHR 0x09) @ replicate 1 (CHR '' '') @
      ''null'' @ [CHR 0x0A] @ '']'')"
  using indent_char_lost [of 513 "\<lambda>_. []" "CHR 0x09" False Strict] by simp

end
