(* ===== verification/Json_Compare.thy ===== *)
theory Json_Compare
  imports Json_Value
begin

text \<open>
  The comparison operators of \<open>json.hpp\<close>. Comparison of \<open>double\<close> values, conversion to them and their
  text are arguments, collected in a record. Lists compare as \<open>std::vector\<close>, objects as \<open>std::map\<close>: in order,
  element by element.
\<close>

datatype value_t =
    Null_t | Object_t | Array_t | String_t | Boolean_t | Number_integer_t | Number_unsigned_t
  | Number_float_t | Binary_t | Discarded_t

fun type_of :: "'f json \<Rightarrow> value_t" where
  "type_of JNull = Null_t"
| "type_of (JObject m) = Object_t"
| "type_of (JArray vs) = Array_t"
| "type_of (JString s) = String_t"
| "type_of (JBoolean b) = Boolean_t"
| "type_of (JInteger i) = Number_integer_t"
| "type_of (JUnsigned n) = Number_unsigned_t"
| "type_of (JFloat f) = Number_float_t"
| "type_of (JBinary bs st) = Binary_t"
| "type_of JDiscarded = Discarded_t"

fun type_rank :: "value_t \<Rightarrow> nat option" where
  "type_rank Null_t = Some 0"
| "type_rank Object_t = Some 3"
| "type_rank Array_t = Some 4"
| "type_rank String_t = Some 5"
| "type_rank Boolean_t = Some 1"
| "type_rank Number_integer_t = Some 2"
| "type_rank Number_unsigned_t = Some 2"
| "type_rank Number_float_t = Some 2"
| "type_rank Binary_t = Some 6"
| "type_rank Discarded_t = None"

definition type_less :: "value_t \<Rightarrow> value_t \<Rightarrow> bool" where
  "type_less l r =
     (case (type_rank l, type_rank r) of (Some a, Some b) \<Rightarrow> a < b | _ \<Rightarrow> False)"

record 'f doubles =
  double_eq :: "'f \<Rightarrow> 'f \<Rightarrow> bool"
  double_less :: "'f \<Rightarrow> 'f \<Rightarrow> bool"
  to_double :: "int \<Rightarrow> 'f"
  double_text :: "'f \<Rightarrow> string"

text \<open>\<open>static_cast<number_integer_t>\<close> of an unsigned number keeps its 64 bits.\<close>

definition to_signed :: "nat \<Rightarrow> int" where
  "to_signed n = wrap_signed 64 (int n)"

definition scalar_eq :: "'f doubles \<Rightarrow> 'f json \<Rightarrow> 'f json \<Rightarrow> bool" where
  "scalar_eq d v w =
     (case v of
        JNull \<Rightarrow> (case w of JNull \<Rightarrow> True | _ \<Rightarrow> False)
      | JString s \<Rightarrow> (case w of JString t \<Rightarrow> s = t | _ \<Rightarrow> False)
      | JBoolean a \<Rightarrow> (case w of JBoolean b \<Rightarrow> a = b | _ \<Rightarrow> False)
      | JInteger i \<Rightarrow>
          (case w of
             JInteger j \<Rightarrow> i = j
           | JFloat f \<Rightarrow> double_eq d (to_double d i) f
           | JUnsigned n \<Rightarrow> i = to_signed n
           | _ \<Rightarrow> False)
      | JUnsigned m \<Rightarrow>
          (case w of
             JUnsigned n \<Rightarrow> m = n
           | JFloat f \<Rightarrow> double_eq d (to_double d (int m)) f
           | JInteger i \<Rightarrow> to_signed m = i
           | _ \<Rightarrow> False)
      | JFloat f \<Rightarrow>
          (case w of
             JFloat g \<Rightarrow> double_eq d f g
           | JInteger i \<Rightarrow> double_eq d f (to_double d i)
           | JUnsigned n \<Rightarrow> double_eq d f (to_double d (int n))
           | _ \<Rightarrow> False)
      | JBinary bs st \<Rightarrow> (case w of JBinary cs su \<Rightarrow> bs = cs \<and> st = su | _ \<Rightarrow> False)
      | _ \<Rightarrow> False)"

fun json_eq :: "'f doubles \<Rightarrow> 'f json \<Rightarrow> 'f json \<Rightarrow> bool"
and members_eq :: "'f doubles \<Rightarrow> (string \<times> 'f json) list \<Rightarrow> (string \<times> 'f json) list \<Rightarrow> bool"
and elements_eq :: "'f doubles \<Rightarrow> 'f json list \<Rightarrow> 'f json list \<Rightarrow> bool" where
  "json_eq d (JArray vs) w = (case w of JArray ws \<Rightarrow> elements_eq d vs ws | _ \<Rightarrow> False)"
| "json_eq d (JObject m) w = (case w of JObject m' \<Rightarrow> members_eq d m m' | _ \<Rightarrow> False)"
| "json_eq d v w = scalar_eq d v w"
| "members_eq d [] m' = (m' = [])"
| "members_eq d ((k, v) # m) m' =
     (case m' of [] \<Rightarrow> False | (k', v') # m'' \<Rightarrow> k = k' \<and> json_eq d v v' \<and> members_eq d m m'')"
| "elements_eq d [] ws = (ws = [])"
| "elements_eq d (v # vs) ws =
     (case ws of [] \<Rightarrow> False | w # ws' \<Rightarrow> json_eq d v w \<and> elements_eq d vs ws')"

definition scalar_less :: "'f doubles \<Rightarrow> 'f json \<Rightarrow> 'f json \<Rightarrow> bool" where
  "scalar_less d v w =
     (let by_type = type_less (type_of v) (type_of w) in
      case v of
        JString s \<Rightarrow> (case w of JString t \<Rightarrow> s < t | _ \<Rightarrow> by_type)
      | JBoolean a \<Rightarrow> (case w of JBoolean b \<Rightarrow> \<not> a \<and> b | _ \<Rightarrow> by_type)
      | JInteger i \<Rightarrow>
          (case w of
             JInteger j \<Rightarrow> i < j
           | JFloat f \<Rightarrow> double_less d (to_double d i) f
           | JUnsigned n \<Rightarrow> i < to_signed n
           | _ \<Rightarrow> by_type)
      | JUnsigned m \<Rightarrow>
          (case w of
             JUnsigned n \<Rightarrow> m < n
           | JFloat f \<Rightarrow> double_less d (to_double d (int m)) f
           | JInteger i \<Rightarrow> to_signed m < i
           | _ \<Rightarrow> by_type)
      | JFloat f \<Rightarrow>
          (case w of
             JFloat g \<Rightarrow> double_less d f g
           | JInteger i \<Rightarrow> double_less d f (to_double d i)
           | JUnsigned n \<Rightarrow> double_less d f (to_double d (int n))
           | _ \<Rightarrow> by_type)
      | JBinary bs st \<Rightarrow> (case w of JBinary cs su \<Rightarrow> bs < cs | _ \<Rightarrow> by_type)
      | _ \<Rightarrow> by_type)"

function (sequential) json_less :: "'f doubles \<Rightarrow> 'f json \<Rightarrow> 'f json \<Rightarrow> bool"
and members_less :: "'f doubles \<Rightarrow> (string \<times> 'f json) list \<Rightarrow> (string \<times> 'f json) list \<Rightarrow> bool"
and elements_less :: "'f doubles \<Rightarrow> 'f json list \<Rightarrow> 'f json list \<Rightarrow> bool" where
  "json_less d v w =
     (case (v, w) of
        (JArray vs, JArray ws) \<Rightarrow> elements_less d vs ws
      | (JObject m, JObject m') \<Rightarrow> members_less d m m'
      | _ \<Rightarrow> scalar_less d v w)"
| "members_less d m [] = False"
| "members_less d [] (p # m') = True"
| "members_less d ((k, v) # m) ((k', v') # m') =
     (if k < k' then True else if k' < k then False
      else if json_less d v v' then True else if json_less d v' v then False
      else members_less d m m')"
| "elements_less d vs [] = False"
| "elements_less d [] (w # ws) = True"
| "elements_less d (v # vs) (w # ws) =
     (if json_less d v w then True else if json_less d w v then False else elements_less d vs ws)"
  by pat_completeness auto

termination
  by (relation "measure (\<lambda>x. case x of
      Inl (d, v, w) \<Rightarrow> size v + size w
    | Inr (Inl (d, m, m')) \<Rightarrow> size_list (size_prod (\<lambda>_. 0) size) m + size_list (size_prod (\<lambda>_. 0) size) m'
    | Inr (Inr (d, vs, ws)) \<Rightarrow> size_list size vs + size_list size ws)") auto

declare json_less.simps [simp del]

section \<open>Equality\<close>

lemma json_eq_type:
  "json_eq d v w \<Longrightarrow> type_of v \<noteq> type_of w \<Longrightarrow> type_rank (type_of v) = Some 2 \<and> type_rank (type_of w) = Some 2"
  by (cases v; cases w) (simp_all add: scalar_eq_def)

lemma members_eq_all:
  "members_eq d m m' \<longleftrightarrow> list_all2 (\<lambda>(k, v) (k', v'). k = k' \<and> json_eq d v v') m m'"
proof (induction m arbitrary: m')
  case (Cons p m)
  then show ?case by (cases p; cases m') auto
qed simp

lemma elements_eq_all: "elements_eq d vs ws \<longleftrightarrow> list_all2 (json_eq d) vs ws"
proof (induction vs arbitrary: ws)
  case (Cons v vs)
  then show ?case by (cases ws) auto
qed simp

text \<open>A value of which no part is discarded or unequal to itself.\<close>

fun regular :: "'f doubles \<Rightarrow> 'f json \<Rightarrow> bool" where
  "regular d (JObject m) \<longleftrightarrow> (\<forall>(k, v) \<in> set m. regular d v)"
| "regular d (JArray vs) \<longleftrightarrow> (\<forall>v \<in> set vs. regular d v)"
| "regular d (JFloat f) \<longleftrightarrow> double_eq d f f"
| "regular d JDiscarded \<longleftrightarrow> False"
| "regular d _ \<longleftrightarrow> True"

lemma json_eq_refl: "json_eq d v v \<longleftrightarrow> regular d v"
proof (induction d v rule: regular.induct)
  case (1 d m)
  then have "(\<forall>(k, v) \<in> set m. json_eq d v v) \<longleftrightarrow> (\<forall>(k, v) \<in> set m. regular d v)" by fastforce
  then show ?case by (auto simp: members_eq_all list_all2_same)
next
  case (2 d vs)
  then show ?case by (simp add: elements_eq_all list_all2_same)
qed (simp_all add: scalar_eq_def)

lemma scalar_eq_sym:
  assumes "\<And>f g. double_eq d f g \<longleftrightarrow> double_eq d g f"
  shows "scalar_eq d v w \<longleftrightarrow> scalar_eq d w v"
  by (cases v; cases w) (auto simp: scalar_eq_def assms)

lemma scalar_json_eq: "scalar_eq d v w \<Longrightarrow> json_eq d v w"
  by (cases v) (simp_all add: scalar_eq_def)

lemma json_eq_sym_imp:
  assumes "\<And>f g. double_eq d f g \<longleftrightarrow> double_eq d g f"
  shows "json_eq d v w \<Longrightarrow> json_eq d w v"
proof (induction v arbitrary: w)
  case (JObject m)
  then obtain m' where m': "w = JObject m'"
    "list_all2 (\<lambda>(k, v) (k', v'). k = k' \<and> json_eq d v v') m m'"
    by (cases w) (auto simp: members_eq_all)
  have "\<forall>(k, v) \<in> set m. \<forall>w. json_eq d v w \<longrightarrow> json_eq d w v" using JObject(1) by fastforce
  with m'(2) have "list_all2 (\<lambda>(k, v) (k', v'). k = k' \<and> json_eq d v v') m' m"
    by (induction rule: list_all2_induct) auto
  then show ?case by (simp add: m' members_eq_all)
next
  case (JArray vs)
  then obtain ws where ws: "w = JArray ws" "list_all2 (json_eq d) vs ws"
    by (cases w) (auto simp: elements_eq_all)
  from ws(2) JArray(1) have "list_all2 (json_eq d) ws vs"
    by (induction rule: list_all2_induct) auto
  then show ?case by (simp add: ws elements_eq_all)
qed (simp; rule scalar_json_eq; subst scalar_eq_sym [OF assms]; assumption)+

end
