(* ===== verification/Json_Pointer.thy ===== *)
theory Json_Pointer
  imports Json_Compare Json_Roundtrip
begin

text \<open>
  \<open>class json_pointer\<close>: a path as its list of reference tokens, the text form with its escapes, the
  array index, and the three ways to follow a path. A reference into a value becomes a change of
  the value: \<open>modify_checked\<close> and \<open>modify_unchecked\<close> apply to the whole value what the caller does
  with the reference. Memory is unbounded, so filling an array up to an index always succeeds.
\<close>

section \<open>Text\<close>

function (sequential) replace_substring :: "string \<Rightarrow> string \<Rightarrow> string \<Rightarrow> string" where
  "replace_substring f t [] = []"
| "replace_substring f t (c # s) =
     (if f \<noteq> [] \<and> take (length f) (c # s) = f
      then t @ replace_substring f t (drop (length f) (c # s))
      else c # replace_substring f t s)"
  by pat_completeness auto
termination
  by (relation "measure (\<lambda>(f, t, s). length s)") auto

definition pointer_escape :: "string \<Rightarrow> string" where
  "pointer_escape s = replace_substring ''/'' ''~1'' (replace_substring ''~'' ''~0'' s)"

definition pointer_unescape :: "string \<Rightarrow> string" where
  "pointer_unescape s = replace_substring ''~0'' ''~'' (replace_substring ''~1'' ''/'' s)"

fun tildes_ok :: "string \<Rightarrow> bool" where
  "tildes_ok [] = True"
| "tildes_ok (c # s) =
     ((c = CHR ''~'' \<longrightarrow> s \<noteq> [] \<and> (hd s = CHR ''0'' \<or> hd s = CHR ''1'')) \<and> tildes_ok s)"

function split_tokens :: "string \<Rightarrow> (json_error, string list) result" where
  "split_tokens s =
     (let reference_token = takeWhile (\<lambda>c. c \<noteq> CHR ''/'') s;
          rest = dropWhile (\<lambda>c. c \<noteq> CHR ''/'') s in
      if \<not> tildes_ok reference_token then Inl (Parse_error 108)
      else if rest = [] then Inr [pointer_unescape reference_token]
      else bind_result (split_tokens (tl rest)) (\<lambda>ts. Inr (pointer_unescape reference_token # ts)))"
  by pat_completeness auto
termination
proof (relation "measure length", goal_cases)
  case (2 s t rest)
  then have "length (tl rest) < length rest" by simp
  also have "\<dots> \<le> length s" using 2 by (simp add: length_dropWhile_le)
  finally show ?case by simp
qed simp

declare split_tokens.simps [simp del]

definition pointer_split :: "string \<Rightarrow> (json_error, string list) result" where
  "pointer_split reference_string =
     (if reference_string = [] then Inr []
      else if hd reference_string \<noteq> CHR ''/'' then Inl (Parse_error 107)
      else split_tokens (tl reference_string))"

definition pointer_to_string :: "string list \<Rightarrow> string" where
  "pointer_to_string tokens = foldl (\<lambda>a b. a @ ''/'' @ pointer_escape b) [] tokens"

section \<open>Array indices\<close>

text \<open>\<open>std::stoull\<close> reads the longest run of digits; without any it throws \<open>std::invalid_argument\<close>.\<close>

definition array_index :: "string \<Rightarrow> (json_error, nat) result" where
  "array_index s =
     (if 1 < length s \<and> hd s = CHR ''0'' then Inl (Parse_error 106)
      else if 1 < length s \<and> \<not> (49 \<le> byte (hd s) \<and> byte (hd s) \<le> 57) then Inl (Parse_error 109)
      else
        let processed = takeWhile is_digit s; res = digits_nat processed in
        if processed = [] then Inl Std_invalid_argument
        else if 2 ^ 64 \<le> res then Inl (Out_of_range 404)
        else if processed \<noteq> s then Inl (Out_of_range 404)
        else if 2 ^ 64 - 1 \<le> res then Inl (Out_of_range 410)
        else Inr res)"

section \<open>Following a path\<close>

definition at_key :: "string \<Rightarrow> 'f json \<Rightarrow> (json_error, 'f json) result" where
  "at_key key j =
     (case j of
        JObject m \<Rightarrow> (case map_of m key of Some v \<Rightarrow> Inr v | None \<Rightarrow> Inl (Out_of_range 403))
      | _ \<Rightarrow> Inl (Type_error 304))"

definition at_index :: "nat \<Rightarrow> 'f json \<Rightarrow> (json_error, 'f json) result" where
  "at_index idx j =
     (case j of
        JArray vs \<Rightarrow> if idx < length vs then Inr (vs ! idx) else Inl (Out_of_range 401)
      | _ \<Rightarrow> Inl (Type_error 304))"

fun get_checked :: "string list \<Rightarrow> 'f json \<Rightarrow> (json_error, 'f json) result" where
  "get_checked [] j = Inr j"
| "get_checked (t # ts) j =
     (case j of
        JObject m \<Rightarrow> bind_result (at_key t j) (get_checked ts)
      | JArray vs \<Rightarrow>
          if t = ''-'' then Inl (Out_of_range 402)
          else bind_result (array_index t) (\<lambda>i. bind_result (at_index i j) (get_checked ts))
      | _ \<Rightarrow> Inl (Out_of_range 404))"

text \<open>The const version without checks reads what is not there.\<close>

fun get_unchecked_const :: "string list \<Rightarrow> 'f json \<Rightarrow> (json_error, 'f json) result" where
  "get_unchecked_const [] j = Inr j"
| "get_unchecked_const (t # ts) j =
     (case j of
        JObject m \<Rightarrow> bind_result (json_at j t) (get_unchecked_const ts)
      | JArray vs \<Rightarrow>
          if t = ''-'' then Inl (Out_of_range 402)
          else bind_result (array_index t) (\<lambda>i.
            if i < length vs then get_unchecked_const ts (vs ! i) else Inl Missing_element)
      | _ \<Rightarrow> Inl (Out_of_range 404))"

fun modify_checked ::
  "string list \<Rightarrow> ('f json \<Rightarrow> (json_error, 'f json) result) \<Rightarrow> 'f json \<Rightarrow> (json_error, 'f json) result"
where
  "modify_checked [] f j = f j"
| "modify_checked (t # ts) f j =
     (case j of
        JObject m \<Rightarrow>
          bind_result (at_key t j) (\<lambda>v.
          bind_result (modify_checked ts f v) (\<lambda>v'. Inr (JObject (map_put t v' m))))
      | JArray vs \<Rightarrow>
          if t = ''-'' then Inl (Out_of_range 402)
          else
            bind_result (array_index t) (\<lambda>i.
            bind_result (at_index i j) (\<lambda>v.
            bind_result (modify_checked ts f v) (\<lambda>v'. Inr (JArray (vs[i := v'])))))
      | _ \<Rightarrow> Inl (Out_of_range 404))"

text \<open>\<open>operator[]\<close> for writing: an index beyond the end fills the array with null values.\<close>

definition fill_to :: "nat \<Rightarrow> 'f json list \<Rightarrow> 'f json list" where
  "fill_to idx vs = (if length vs \<le> idx then vs @ replicate (idx + 1 - length vs) JNull else vs)"

fun modify_unchecked ::
  "string list \<Rightarrow> ('f json \<Rightarrow> (json_error, 'f json) result) \<Rightarrow> 'f json \<Rightarrow> (json_error, 'f json) result"
where
  "modify_unchecked [] f j = f j"
| "modify_unchecked (t # ts) f j =
     (let j1 = (case j of
            JNull \<Rightarrow> if list_all is_digit t \<or> t = ''-'' then JArray [] else JObject []
          | _ \<Rightarrow> j) in
      case j1 of
        JObject m \<Rightarrow>
          bind_result (modify_unchecked ts f (case map_of m t of Some v \<Rightarrow> v | None \<Rightarrow> JNull))
            (\<lambda>v'. Inr (JObject (map_put t v' m)))
      | JArray vs \<Rightarrow>
          bind_result (if t = ''-'' then Inr (length vs) else array_index t) (\<lambda>i.
          let us = fill_to i vs in
          bind_result (modify_unchecked ts f (us ! i)) (\<lambda>v'. Inr (JArray (us[i := v']))))
      | _ \<Rightarrow> Inl (Out_of_range 404))"

fun pointer_contains :: "string list \<Rightarrow> 'f json \<Rightarrow> (json_error, bool) result" where
  "pointer_contains [] j = Inr True"
| "pointer_contains (t # ts) j =
     (case j of
        JObject m \<Rightarrow>
          (case map_of m t of None \<Rightarrow> Inr False | Some v \<Rightarrow> pointer_contains ts v)
      | JArray vs \<Rightarrow>
          if t = ''-'' then Inr False
          else if length t = 1 \<and> \<not> is_digit (hd t) then Inr False
          else if 1 < length t \<and> \<not> (49 \<le> byte (hd t) \<and> byte (hd t) \<le> 57) then Inr False
          else if 1 < length t \<and> \<not> list_all is_digit (tl t) then Inr False
          else
            bind_result (array_index t) (\<lambda>i.
              if length vs \<le> i then Inr False else pointer_contains ts (vs ! i))
      | _ \<Rightarrow> Inr False)"

definition pop_back :: "string list \<Rightarrow> (json_error, string list \<times> string) result" where
  "pop_back tokens =
     (if tokens = [] then Inl (Out_of_range 405) else Inr (butlast tokens, last tokens))"

section \<open>Escapes\<close>

text \<open>Both replacements at once, character by character.\<close>

fun escaped :: "string \<Rightarrow> string" where
  "escaped [] = []"
| "escaped (c # s) =
     (if c = CHR ''~'' then ''~0'' else if c = CHR ''/'' then ''~1'' else [c]) @ escaped s"

fun unescaped :: "string \<Rightarrow> string" where
  "unescaped (a # b # s) =
     (if a = CHR ''~'' \<and> b = CHR ''0'' then CHR ''~'' # unescaped s
      else if a = CHR ''~'' \<and> b = CHR ''1'' then CHR ''/'' # unescaped s
      else a # unescaped (b # s))"
| "unescaped s = s"

lemma replace_cons:
  "replace_substring [x] t (c # s) = (if c = x then t else [c]) @ replace_substring [x] t s"
  by auto

lemma pointer_escape_eq: "pointer_escape s = escaped s"
proof (induction s)
  case (Cons c s)
  then show ?case by (simp add: pointer_escape_def)
qed (simp add: pointer_escape_def)

lemma replace_pair:
  "replace_substring [x, y] t [] = []"
  "replace_substring [x, y] t [a] = [a]"
  "replace_substring [x, y] t (a # b # s) =
    (if a = x \<and> b = y then t @ replace_substring [x, y] t s
     else a # replace_substring [x, y] t (b # s))"
  by auto

lemma replace_slash_hd:
  "hd (replace_substring ''~1'' ''/'' (b # s)) = CHR ''0'' \<Longrightarrow> b = CHR ''0''"
  by (cases s) (auto simp: replace_pair split: if_splits)

lemma unescaped_step:
  assumes "a \<noteq> CHR ''~''"
  shows "unescaped (a # s) = a # unescaped s"
  using assms by (cases s) auto

lemma pointer_unescape_step:
  assumes "a \<noteq> CHR ''~''"
  shows "pointer_unescape (a # s) = a # pointer_unescape s"
proof -
  have one: "replace_substring ''~1'' ''/'' (a # s) = a # replace_substring ''~1'' ''/'' s"
    using assms by (cases s) (simp_all add: replace_pair)
  then show ?thesis
    using assms by (cases "replace_substring ''~1'' ''/'' s") (simp_all add: pointer_unescape_def replace_pair)
qed

lemma pointer_unescape_tilde:
  "pointer_unescape (CHR ''~'' # CHR ''1'' # s) = CHR ''/'' # pointer_unescape s"
  "pointer_unescape (CHR ''~'' # CHR ''0'' # s) = CHR ''~'' # pointer_unescape s"
proof -
  show "pointer_unescape (CHR ''~'' # CHR ''1'' # s) = CHR ''/'' # pointer_unescape s"
    by (cases "replace_substring ''~1'' ''/'' s") (simp_all add: pointer_unescape_def replace_pair)
  have "replace_substring ''~1'' ''/'' (CHR ''~'' # CHR ''0'' # s) =
      CHR ''~'' # CHR ''0'' # replace_substring ''~1'' ''/'' s"
    by (cases s) (simp_all add: replace_pair)
  then show "pointer_unescape (CHR ''~'' # CHR ''0'' # s) = CHR ''~'' # pointer_unescape s"
    by (simp add: pointer_unescape_def replace_pair)
qed

lemma pointer_unescape_escape [simp]: "pointer_unescape (pointer_escape s) = s"
proof -
  have "pointer_unescape (escaped s) = s"
  proof (induction s)
    case (Cons c s)
    then show ?case by (simp add: pointer_unescape_tilde pointer_unescape_step)
  qed (simp add: pointer_unescape_def)
  then show ?thesis by (simp add: pointer_escape_eq)
qed

text \<open>On checked tokens, without slashes, escaping undoes unescaping.\<close>

lemma pointer_escape_unescape:
  "tildes_ok s \<Longrightarrow> CHR ''/'' \<notin> set s \<Longrightarrow> pointer_escape (pointer_unescape s) = s"
proof (induction s rule: length_induct)
  case (1 s)
  show ?case
  proof (cases s)
    case Nil
    then show ?thesis by (simp add: pointer_unescape_def pointer_escape_def)
  next
    case (Cons c t)
    show ?thesis
    proof (cases "c = CHR ''~''")
      case False
      moreover have "c \<noteq> CHR ''/''" using 1(3) Cons by auto
      ultimately show ?thesis using 1 Cons by (simp add: pointer_unescape_step pointer_escape_eq)
    next
      case True
      with 1 Cons obtain b u where t: "t = b # u" "b = CHR ''0'' \<or> b = CHR ''1''" by (cases t) auto
      with 1 Cons True have "pointer_escape (pointer_unescape u) = u" by auto
      with True Cons t show ?thesis by (auto simp: pointer_unescape_tilde pointer_escape_eq)
    qed
  qed
qed

lemma escaped_plain: "CHR ''~'' \<notin> set s \<Longrightarrow> CHR ''/'' \<notin> set s \<Longrightarrow> pointer_escape s = s"
  unfolding pointer_escape_eq by (induction s) auto

lemma tildes_ok_escaped: "tildes_ok (escaped s)"
  by (induction s) auto

lemma slash_escaped: "CHR ''/'' \<notin> set (escaped s)"
  by (induction s) auto

section \<open>Splitting and joining\<close>

lemma pointer_to_string_simps:
  "pointer_to_string [] = []"
  "pointer_to_string (ts @ [t]) = pointer_to_string ts @ CHR ''/'' # pointer_escape t"
  by (simp_all add: pointer_to_string_def)

lemma pointer_to_string_Cons:
  "pointer_to_string (t # ts) = CHR ''/'' # pointer_escape t @ pointer_to_string ts"
  by (induction ts rule: rev_induct)
    (simp_all add: pointer_to_string_def)

lemma until_slash:
  "x \<notin> set s \<Longrightarrow> takeWhile (\<lambda>c. c \<noteq> x) (s @ x # r) = s"
  "x \<notin> set s \<Longrightarrow> dropWhile (\<lambda>c. c \<noteq> x) (s @ x # r) = x # r"
  by (induction s) auto

lemma split_tokens_join:
  "split_tokens (pointer_escape t @ pointer_to_string ts) = Inr (t # ts)"
proof (induction ts arbitrary: t)
  case Nil
  have e: "takeWhile (\<lambda>c. c \<noteq> CHR ''/'') (pointer_escape t) = pointer_escape t"
    "dropWhile (\<lambda>c. c \<noteq> CHR ''/'') (pointer_escape t) = []"
    using slash_escaped [of t] by (auto simp: pointer_escape_eq takeWhile_eq_all_conv dropWhile_eq_Nil_conv)
  show ?case
    by (simp add: split_tokens.simps [of "pointer_escape t"] Let_def e pointer_to_string_simps
        tildes_ok_escaped [folded pointer_escape_eq])
next
  case (Cons u ts)
  let ?s = "pointer_escape t @ CHR ''/'' # pointer_escape u @ pointer_to_string ts"
  have "takeWhile (\<lambda>c. c \<noteq> CHR ''/'') ?s = pointer_escape t"
    "dropWhile (\<lambda>c. c \<noteq> CHR ''/'') ?s = CHR ''/'' # pointer_escape u @ pointer_to_string ts"
    using slash_escaped [of t] by (simp_all add: pointer_escape_eq until_slash)
  with Cons show ?case
    by (simp add: split_tokens.simps [of ?s] Let_def pointer_to_string_Cons tildes_ok_escaped [folded pointer_escape_eq])
qed

lemma pointer_split_to_string [simp]: "pointer_split (pointer_to_string ts) = Inr ts"
  by (cases ts) (simp_all add: pointer_split_def pointer_to_string_Cons split_tokens_join pointer_to_string_simps)

lemma split_tokens_to_string:
  "split_tokens s = Inr ts \<Longrightarrow> pointer_to_string ts = CHR ''/'' # s"
proof (induction s arbitrary: ts rule: split_tokens.induct)
  case (1 s)
  let ?t = "takeWhile (\<lambda>c. c \<noteq> CHR ''/'') s" and ?r = "dropWhile (\<lambda>c. c \<noteq> CHR ''/'') s"
  have ok: "tildes_ok ?t" using 1(2) by (simp add: split_tokens.simps [of s] Let_def split: if_splits)
  have t: "pointer_escape (pointer_unescape ?t) = ?t"
    by (rule pointer_escape_unescape [OF ok]) (auto dest: set_takeWhileD)
  show ?case
  proof (cases "?r = []")
    case True
    then have "?t = s" by (metis append_Nil2 takeWhile_dropWhile_id)
    with 1(2) True ok have "ts = [pointer_unescape s]"
      by (auto simp: split_tokens.simps [of s] Let_def)
    with t \<open>?t = s\<close> show ?thesis by (simp add: pointer_to_string_Cons pointer_to_string_simps)
  next
    case False
    then have r: "CHR ''/'' # tl ?r = ?r" using hd_dropWhile [OF False] by (cases ?r) auto
    have "\<exists>us. split_tokens (tl ?r) = Inr us \<and> ts = pointer_unescape ?t # us"
      using 1(2) False ok unfolding split_tokens.simps [of s] Let_def bind_result_def
      by (auto simp del: dropWhile_eq_Nil_conv split: sum.splits)
    then obtain us where us: "split_tokens (tl ?r) = Inr us" "ts = pointer_unescape ?t # us" by blast
    have "pointer_to_string us = ?r"
      using 1(1) [OF refl refl _ False us(1)] ok unfolding r by simp
    then show ?thesis by (simp only: us(2) pointer_to_string_Cons t takeWhile_dropWhile_id)
  qed
qed

lemma pointer_to_string_split: "pointer_split s = Inr ts \<Longrightarrow> pointer_to_string ts = s"
  by (cases s) (auto simp: pointer_split_def pointer_to_string_simps split_tokens_to_string split: if_splits)

section \<open>Indices and digits\<close>

lemma is_digit_iff: "is_digit c \<longleftrightarrow> (\<exists>d < 10. c = digit_char d)"
proof
  assume "is_digit c"
  then have b: "48 \<le> byte c" "byte c \<le> 57" by (simp_all add: is_digit_def)
  then have "c = digit_char (byte c - 48)" by (simp add: digit_char_def byte_def)
  with b show "\<exists>d < 10. c = digit_char d" by (intro exI [of _ "byte c - 48"]) auto
next
  assume "\<exists>d < 10. c = digit_char d"
  then show "is_digit c" by (auto simp: is_digit_def digit_char_def byte_def of_char_of)
qed

lemma digit_char_is_digit [simp]: "d < 10 \<Longrightarrow> is_digit (digit_char d)"
  by (auto simp: is_digit_iff)

lemma nat_digits_all: "list_all is_digit (nat_digits n)"
  by (induction n rule: nat_digits.induct) (subst nat_digits.simps, simp)

lemma digit_char_0: "d < 10 \<Longrightarrow> digit_char d = CHR ''0'' \<longleftrightarrow> d = 0"
  using char_digit_digit_char [of d] char_digit_digit_char [of 0] by fastforce

lemma nat_digits_hd_0: "hd (nat_digits n) = CHR ''0'' \<Longrightarrow> n = 0"
proof (induction n rule: nat_digits.induct)
  case (1 n)
  then show ?case by (cases "n < 10") (simp_all add: nat_digits.simps [of n] digit_char_0)
qed

lemma nat_digits_read:
  "list_all is_digit s \<Longrightarrow> s \<noteq> [] \<Longrightarrow> (length s = 1 \<or> hd s \<noteq> CHR ''0'') \<Longrightarrow> nat_digits (digits_nat s) = s"
proof (induction s rule: rev_induct)
  case (snoc c s)
  then obtain d where d: "d < 10" "c = digit_char d" by (auto simp: is_digit_iff)
  show ?case
  proof (cases "s = []")
    case True
    with d show ?thesis by (simp add: digits_nat_def nat_digits.simps [of d])
  next
    case False
    with snoc have s: "nat_digits (digits_nat s) = s" "hd s \<noteq> CHR ''0''" by auto
    have "digits_nat s \<noteq> 0"
    proof
      assume "digits_nat s = 0"
      with s(1) have "s = [digit_char 0]" by (simp add: nat_digits.simps [of 0])
      with s(2) show False by simp
    qed
    with d s(1) show ?thesis
      by (simp add: digits_nat_append nat_digits.simps [of "10 * digits_nat s + d"])
  qed
qed simp

lemma digit_nonzero: "is_digit c \<Longrightarrow> c \<noteq> CHR ''0'' \<Longrightarrow> 49 \<le> byte c \<and> byte c \<le> 57"
proof -
  assume c: "is_digit c" "c \<noteq> CHR ''0''"
  have "byte (CHR ''0'') = 48" by (simp add: byte_def)
  with c(2) have "byte c \<noteq> 48" by (metis chr_byte)
  with c(1) show ?thesis by (simp add: is_digit_def)
qed

text \<open>The index is read exactly from the decimal text without leading zeros.\<close>

lemma array_index_Inr: "array_index s = Inr n \<longleftrightarrow> s = nat_digits n \<and> n < 2 ^ 64 - 1"
proof
  assume i: "array_index s = Inr n"
  let ?p = "takeWhile is_digit s"
  from i have "?p = s \<and> ?p \<noteq> [] \<and> n = digits_nat ?p \<and> n < 2 ^ 64 - 1 \<and>
      \<not> (1 < length s \<and> hd s = CHR ''0'')"
    by (simp add: array_index_def Let_def del: takeWhile_eq_all_conv split: if_splits)
  then have p: "?p = s" "s \<noteq> []" "n = digits_nat s" "n < 2 ^ 64 - 1"
    "length s = 1 \<or> hd s \<noteq> CHR ''0''"
    by (auto simp del: takeWhile_eq_all_conv simp: neq_Nil_conv)
  then have "list_all is_digit s" by (simp add: takeWhile_eq_all_conv list_all_iff)
  with p nat_digits_read [of s] show "s = nat_digits n \<and> n < 2 ^ 64 - 1" by simp
next
  assume n: "s = nat_digits n \<and> n < 2 ^ 64 - 1"
  have p: "takeWhile is_digit (nat_digits n) = nat_digits n"
    using nat_digits_all [of n] by (simp add: takeWhile_eq_all_conv list_all_iff)
  have "\<not> (1 < length (nat_digits n) \<and> hd (nat_digits n) = CHR ''0'')"
    using nat_digits_hd_0 [of n] by (auto simp: nat_digits.simps [of 0])
  moreover have "is_digit (hd (nat_digits n))"
    using nat_digits_all [of n] by (cases "nat_digits n") auto
  ultimately have "1 < length (nat_digits n) \<longrightarrow> 49 \<le> byte (hd (nat_digits n)) \<and> byte (hd (nat_digits n)) \<le> 57"
    using digit_nonzero by blast
  with n \<open>\<not> _\<close> show "array_index s = Inr n" by (auto simp: array_index_def Let_def p)
qed

lemma nat_digits_not_dash: "nat_digits n \<noteq> ''-''"
  using nat_digits_all [of n] by (auto simp: is_digit_def byte_def)

lemma array_index_digits [simp]: "n < 2 ^ 64 - 1 \<Longrightarrow> array_index (nat_digits n) = Inr n"
  by (simp add: array_index_Inr)

lemma escape_digits [simp]: "pointer_escape (nat_digits n) = nat_digits n"
proof (rule escaped_plain)
  have "is_digit c \<Longrightarrow> c \<noteq> CHR ''~'' \<and> c \<noteq> CHR ''/''" for c by (auto simp: is_digit_def byte_def)
  with nat_digits_all [of n] show "CHR ''~'' \<notin> set (nat_digits n)" "CHR ''/'' \<notin> set (nat_digits n)"
    by (auto simp: list_all_iff)
qed

section \<open>Following a path, with and without checks\<close>

lemma map_put_same: "map_of m k = Some v \<Longrightarrow> map_ok m \<Longrightarrow> map_put k v m = m"
proof (induction m)
  case (Cons p m)
  then show ?case by (cases p) (fastforce split: if_splits dest: map_of_SomeD)
qed simp

lemma get_unchecked_same: "get_checked ts j = Inr v \<Longrightarrow> get_unchecked_const ts j = Inr v"
  by (induction ts arbitrary: j)
    (auto simp: bind_result_Inr_iff at_key_def at_index_def json_at_def
      split: json.splits option.splits if_splits)

lemma modify_unchecked_same:
  "get_checked ts j = Inr v \<Longrightarrow> modify_unchecked ts f j = modify_checked ts f j"
  by (induction ts arbitrary: j)
    (auto simp: bind_result_Inr_iff at_key_def at_index_def fill_to_def Let_def
      split: json.splits option.splits if_splits)

lemma modify_checked_Inl:
  "get_checked ts j = Inl e \<Longrightarrow> modify_checked ts f j = Inl e"
  by (induction ts arbitrary: j)
    (auto simp: bind_result_def at_key_def at_index_def
      split: json.splits option.splits if_splits sum.splits)

lemma index_checks:
  assumes "array_index t = Inr i"
  shows "t \<noteq> ''-''" and "\<not> (length t = 1 \<and> \<not> is_digit (hd t))"
    and "\<not> (1 < length t \<and> \<not> (49 \<le> byte (hd t) \<and> byte (hd t) \<le> 57))"
    and "\<not> (1 < length t \<and> \<not> list_all is_digit (tl t))"
proof -
  have t: "t = nat_digits i" using assms by (simp add: array_index_Inr)
  then show "t \<noteq> ''-''" by (simp add: nat_digits_not_dash)
  have d: "list_all is_digit t" using t nat_digits_all by simp
  then show "\<not> (length t = 1 \<and> \<not> is_digit (hd t))" "\<not> (1 < length t \<and> \<not> list_all is_digit (tl t))"
    by (cases t; simp)+
  show "\<not> (1 < length t \<and> \<not> (49 \<le> byte (hd t) \<and> byte (hd t) \<le> 57))"
    using assms by (auto simp: array_index_def split: if_splits)
qed

lemma contains_get:
  "pointer_contains ts j = Inr b \<Longrightarrow> b \<longleftrightarrow> (\<exists>v. get_checked ts j = Inr v)"
proof (induction ts arbitrary: j)
  case (Cons t ts)
  show ?case
  proof (cases j)
    case (JArray vs)
    show ?thesis
    proof (cases "array_index t")
      case (Inl e)
      with Cons(2) JArray have "\<not> b" by (auto simp: bind_result_def split: if_splits)
      with Inl JArray show ?thesis by auto
    next
      case (Inr i)
      note c = index_checks [OF Inr]
      have p: "pointer_contains (t # ts) j =
          (if length vs \<le> i then Inr False else pointer_contains ts (vs ! i))"
        using c Inr JArray by auto
      have g: "get_checked (t # ts) j = bind_result (at_index i (JArray vs)) (get_checked ts)"
        using c(1) Inr JArray by simp
      show ?thesis using Cons p g by (cases "i < length vs") (auto simp: at_index_def)
    qed
  qed (use Cons in \<open>auto simp: at_key_def split: option.splits\<close>)
qed simp

lemma byte_char_0: "byte (CHR ''0'') = 48"
  by (simp add: byte_def)

lemma contains_errors:
  "pointer_contains ts j = Inl e \<Longrightarrow> e \<in> {Std_invalid_argument, Out_of_range 404, Out_of_range 410}"
proof (induction ts arbitrary: j)
  case (Cons t ts)
  then show ?case
    by (cases j) (auto simp: byte_char_0 array_index_def bind_result_def Let_def split: option.splits sum.splits if_splits)
qed simp

section \<open>A value in its context\<close>

text \<open>
  \<open>C\<close> is the rest of a document around the place a path leads to: reading there gives the value
  put in, changing there changes the value put in and nothing else.
\<close>

definition at_path :: "string list \<Rightarrow> ('f json \<Rightarrow> 'f json) \<Rightarrow> bool" where
  "at_path ts C \<longleftrightarrow>
     (\<forall>us v. get_checked (ts @ us) (C v) = get_checked us v) \<and>
     (\<forall>us f v. modify_checked (ts @ us) f (C v) = bind_result (modify_checked us f v) (\<lambda>w. Inr (C w))) \<and>
     (\<forall>us f v. modify_unchecked (ts @ us) f (C v) = bind_result (modify_unchecked us f v) (\<lambda>w. Inr (C w)))"

lemma bind_result_assoc:
  "bind_result (bind_result r f) g = bind_result r (\<lambda>x. bind_result (f x) g)"
  by (cases r) simp_all

lemma bind_result_Inr [simp]: "bind_result r Inr = r"
  by (cases r) simp_all

lemma at_path_root: "at_path [] (\<lambda>v. v)"
  by (simp add: at_path_def)

lemma at_path_get: "at_path ts C \<Longrightarrow> get_checked ts (C v) = Inr v"
  unfolding at_path_def by (metis append_Nil2 get_checked.simps(1))

lemma at_path_modify: "at_path ts C \<Longrightarrow> modify_checked ts f (C v) = bind_result (f v) (\<lambda>w. Inr (C w))"
  unfolding at_path_def by (metis append_Nil2 modify_checked.simps(1))

lemma at_path_modify_unchecked:
  "at_path ts C \<Longrightarrow> modify_unchecked ts f (C v) = bind_result (f v) (\<lambda>w. Inr (C w))"
  unfolding at_path_def by (metis append_Nil2 modify_unchecked.simps(1))

lemma at_path_step:
  assumes "at_path ts C"
    and "\<And>us v. get_checked (t # us) (D v) = get_checked us v"
    and "\<And>us f v. modify_checked (t # us) f (D v) = bind_result (modify_checked us f v) (\<lambda>w. Inr (D w))"
    and "\<And>us f v. modify_unchecked (t # us) f (D v) = bind_result (modify_unchecked us f v) (\<lambda>w. Inr (D w))"
  shows "at_path (ts @ [t]) (\<lambda>v. C (D v))"
  using assms(1) unfolding at_path_def append_assoc append_Cons append_Nil
  by (simp only: assms(2-4) bind_result_assoc bind_result_simps simp_thms)

lemma at_path_element:
  assumes "at_path ts C" and "length xs < 2 ^ 64 - 1"
  shows "at_path (ts @ [nat_digits (length xs)]) (\<lambda>v. C (JArray (xs @ v # ys)))"
  by (rule at_path_step [OF assms(1)])
    (use assms(2) in \<open>simp_all add: nat_digits_not_dash at_index_def fill_to_def Let_def\<close>)

lemma map_of_middle: "map_ok (m1 @ (k, v) # m2) \<Longrightarrow> map_of (m1 @ (k, w) # m2) k = Some w"
  by (induction m1) auto

lemma map_put_middle:
  "map_ok (m1 @ (k, v) # m2) \<Longrightarrow> map_put k w (m1 @ (k, u) # m2) = m1 @ (k, w) # m2"
  by (induction m1) auto

lemma at_path_member:
  assumes "at_path ts C" and "map_ok (m1 @ (k, u) # m2)"
  shows "at_path (ts @ [k]) (\<lambda>v. C (JObject (m1 @ (k, v) # m2)))"
  by (rule at_path_step [OF assms(1)])
    (simp_all add: map_of_middle [OF assms(2)] map_put_middle [OF assms(2)] at_key_def del: map_of_append)

lemma map_of_split:
  assumes "map_of m k = Some u"
  obtains m1 m2 where "m = m1 @ (k, u) # m2"
  using map_of_SomeD [OF assms] by (auto dest: split_list)

lemma at_path_key:
  assumes "at_path ts C" and "map_ok m" and "map_of m k = Some u"
  shows "at_path (ts @ [k]) (\<lambda>v. C (JObject (map_put k v m)))"
proof -
  obtain m1 m2 where m: "m = m1 @ (k, u) # m2" using assms(3) by (rule map_of_split)
  with at_path_member [OF assms(1), of m1 k u m2] map_put_middle [of m1 k u m2] assms(2) show ?thesis by simp
qed

end
