(* ===== verification/Json_Patch.thy ===== *)
theory Json_Patch
  imports Json_Pointer Json_Utf8
begin

text \<open>
  JSON Patch (\<open>patch\<close>, \<open>diff\<close>) and JSON Merge Patch (\<open>merge_patch\<close>). A patch is itself a JSON value,
  an array of objects; each operation changes a copy of the document or throws.
\<close>

section \<open>Applying a patch\<close>

definition get_value :: "string \<Rightarrow> (string \<times> 'f json) list \<Rightarrow> (json_error, 'f json) result" where
  "get_value member val =
     (case map_of val member of Some v \<Rightarrow> Inr v | None \<Rightarrow> Inl (Parse_error 105))"

definition get_string_value :: "string \<Rightarrow> (string \<times> 'f json) list \<Rightarrow> (json_error, string) result" where
  "get_string_value member val =
     bind_result (get_value member val)
       (\<lambda>v. case v of JString s \<Rightarrow> Inr s | _ \<Rightarrow> Inl (Parse_error 105))"

definition add_to_parent :: "string \<Rightarrow> 'f json \<Rightarrow> 'f json \<Rightarrow> (json_error, 'f json) result" where
  "add_to_parent last_path val parent =
     (case parent of
        JNull \<Rightarrow> Inr (JObject [(last_path, val)])
      | JObject m \<Rightarrow> Inr (JObject (map_put last_path val m))
      | JArray vs \<Rightarrow>
          if last_path = ''-'' then Inr (JArray (vs @ [val]))
          else
            bind_result (array_index last_path) (\<lambda>idx.
              if length vs < idx then Inl (Out_of_range 401)
              else Inr (JArray (take idx vs @ val # drop idx vs)))
      | _ \<Rightarrow> Inl Assertion_failed)"

definition operation_add :: "string list \<Rightarrow> 'f json \<Rightarrow> 'f json \<Rightarrow> (json_error, 'f json) result" where
  "operation_add ptr val doc =
     (if ptr = [] then Inr val
      else
        let top = [hd ptr] in
        bind_result (if top \<noteq> ptr then get_checked top doc else Inr doc) (\<lambda>_.
          modify_unchecked (butlast ptr) (add_to_parent (last ptr) val) doc))"

definition remove_from_parent :: "string \<Rightarrow> 'f json \<Rightarrow> (json_error, 'f json) result" where
  "remove_from_parent last_path parent =
     (case parent of
        JObject m \<Rightarrow>
          if map_of m last_path = None then Inl (Out_of_range 403)
          else Inr (JObject (map_erase last_path m))
      | JArray vs \<Rightarrow>
          bind_result (array_index last_path) (\<lambda>idx.
            if length vs \<le> idx then Inl (Out_of_range 401)
            else Inr (JArray (take idx vs @ drop (idx + 1) vs)))
      | _ \<Rightarrow> Inr parent)"

definition operation_remove :: "string list \<Rightarrow> 'f json \<Rightarrow> (json_error, 'f json) result" where
  "operation_remove ptr doc =
     (if ptr = [] then Inl (Out_of_range 405)
      else modify_checked (butlast ptr) (remove_from_parent (last ptr)) doc)"

text \<open>
  The message of the exception for a failed test contains the printed operation, and printing may
  throw in turn. The place is read before the member \<open>value\<close>; the order of the two operands is not
  specified.
\<close>

definition operation_test ::
  "'f doubles \<Rightarrow> string list \<Rightarrow> (string \<times> 'f json) list \<Rightarrow> 'f json \<Rightarrow> (json_error, 'f json) result" where
  "operation_test d ptr val doc =
     (let failed =
        (case dump (double_text d) (JObject val) of Inl x \<Rightarrow> Inl x | Inr _ \<Rightarrow> Inl (Other_error 501)) in
      case bind_result (get_checked ptr doc) (\<lambda>v.
           bind_result (get_value ''value'' val) (\<lambda>w. Inr (json_eq d v w))) of
        Inl (Out_of_range _) \<Rightarrow> failed
      | Inl x \<Rightarrow> Inl x
      | Inr success \<Rightarrow> if success then Inr doc else failed)"

definition apply_operation :: "'f doubles \<Rightarrow> 'f json \<Rightarrow> 'f json \<Rightarrow> (json_error, 'f json) result" where
  "apply_operation d val doc =
     (case val of
        JObject m \<Rightarrow>
          bind_result (get_string_value ''op'' m) (\<lambda>op.
          bind_result (get_string_value ''path'' m) (\<lambda>path.
          bind_result (pointer_split path) (\<lambda>ptr.
            if op = ''add'' then
              bind_result (get_value ''value'' m) (\<lambda>v. operation_add ptr v doc)
            else if op = ''remove'' then operation_remove ptr doc
            else if op = ''replace'' then
              bind_result (get_value ''value'' m) (\<lambda>v. modify_checked ptr (\<lambda>_. Inr v) doc)
            else if op = ''move'' then
              bind_result (get_string_value ''from'' m) (\<lambda>from_path.
              bind_result (pointer_split from_path) (\<lambda>from_ptr.
              bind_result (get_checked from_ptr doc) (\<lambda>v.
              bind_result (operation_remove from_ptr doc) (\<lambda>doc1. operation_add ptr v doc1))))
            else if op = ''copy'' then
              bind_result (get_string_value ''from'' m) (\<lambda>from_path.
              bind_result (pointer_split from_path) (\<lambda>from_ptr.
              bind_result (get_checked from_ptr doc) (\<lambda>v. operation_add ptr v doc)))
            else if op = ''test'' then operation_test d ptr m doc
            else Inl (Parse_error 105))))
      | _ \<Rightarrow> Inl (Parse_error 104))"

fun apply_operations :: "'f doubles \<Rightarrow> 'f json list \<Rightarrow> 'f json \<Rightarrow> (json_error, 'f json) result" where
  "apply_operations d [] doc = Inr doc"
| "apply_operations d (val # vals) doc =
     bind_result (apply_operation d val doc) (apply_operations d vals)"

definition json_patch :: "'f doubles \<Rightarrow> 'f json \<Rightarrow> 'f json \<Rightarrow> (json_error, 'f json) result" where
  "json_patch d doc patch =
     (case patch of JArray vals \<Rightarrow> apply_operations d vals doc | _ \<Rightarrow> Inl (Parse_error 104))"

section \<open>Computing a patch\<close>

definition op_replace :: "string \<Rightarrow> 'f json \<Rightarrow> 'f json" where
  "op_replace path v = JObject [(''op'', JString ''replace''), (''path'', JString path), (''value'', v)]"

definition op_remove :: "string \<Rightarrow> 'f json" where
  "op_remove path = JObject [(''op'', JString ''remove''), (''path'', JString path)]"

definition op_add :: "string \<Rightarrow> 'f json \<Rightarrow> 'f json" where
  "op_add path v = JObject [(''op'', JString ''add''), (''path'', JString path), (''value'', v)]"

text \<open>Surplus elements are removed from the end, new members added in key order.\<close>

definition removes :: "nat \<Rightarrow> nat \<Rightarrow> string \<Rightarrow> 'f json list" where
  "removes n size_source path =
     map (\<lambda>i. op_remove (path @ ''/'' @ nat_digits i)) (rev [n ..< size_source])"

definition member_adds ::
  "(string \<times> 'f json) list \<Rightarrow> (string \<times> 'f json) list \<Rightarrow> string \<Rightarrow> 'f json list" where
  "member_adds source target path =
     map (\<lambda>(k, v). op_add (path @ ''/'' @ pointer_escape k) v)
       (filter (\<lambda>(k, v). map_of source k = None) target)"

fun diff :: "'f doubles \<Rightarrow> 'f json \<Rightarrow> 'f json \<Rightarrow> string \<Rightarrow> 'f json list"
and diff_elements :: "'f doubles \<Rightarrow> nat \<Rightarrow> 'f json list \<Rightarrow> 'f json list \<Rightarrow> string \<Rightarrow> 'f json list"
and diff_members ::
  "'f doubles \<Rightarrow> (string \<times> 'f json) list \<Rightarrow> (string \<times> 'f json) list \<Rightarrow> string \<Rightarrow> 'f json list" where
  "diff d (JArray vs) target path =
     (if json_eq d (JArray vs) target then []
      else case target of
        JArray ws \<Rightarrow>
          diff_elements d 0 vs ws path @ removes (length ws) (length vs) path @
          map (op_add (path @ ''/-'')) (drop (length vs) ws)
      | _ \<Rightarrow> [op_replace path target])"
| "diff d (JObject m) target path =
     (if json_eq d (JObject m) target then []
      else case target of
        JObject m' \<Rightarrow> diff_members d m m' path @ member_adds m m' path
      | _ \<Rightarrow> [op_replace path target])"
| "diff d source target path =
     (if json_eq d source target then [] else [op_replace path target])"
| "diff_elements d i [] ws path = []"
| "diff_elements d i (v # vs) ws path =
     (case ws of
        [] \<Rightarrow> []
      | w # ws' \<Rightarrow> diff d v w (path @ ''/'' @ nat_digits i) @ diff_elements d (i + 1) vs ws' path)"
| "diff_members d [] m' path = []"
| "diff_members d ((k, v) # m) m' path =
     (case map_of m' k of
        Some w \<Rightarrow> diff d v w (path @ ''/'' @ pointer_escape k)
      | None \<Rightarrow> [op_remove (path @ ''/'' @ pointer_escape k)]) @ diff_members d m m' path"

section \<open>Merging\<close>

text \<open>
  \<open>merge_patch\<close> on the value itself; the members of the patch are applied one after the other, in
  key order.
\<close>

fun merge_patch :: "'f json \<Rightarrow> 'f json \<Rightarrow> 'f json"
and merge_members :: "(string \<times> 'f json) list \<Rightarrow> (string \<times> 'f json) list \<Rightarrow> (string \<times> 'f json) list" where
  "merge_patch target (JObject p) =
     JObject (merge_members (case target of JObject m \<Rightarrow> m | _ \<Rightarrow> []) p)"
| "merge_patch target patch = patch"
| "merge_members m [] = m"
| "merge_members m ((k, v) # p) =
     merge_members
       (if v = JNull then map_erase k m
        else map_put k (merge_patch (case map_of m k of Some w \<Rightarrow> w | None \<Rightarrow> JNull) v) m) p"

section \<open>The operations a difference consists of\<close>

lemma apply_append:
  "apply_operations d (xs @ ys) doc = bind_result (apply_operations d xs doc) (apply_operations d ys)"
proof (induction xs arbitrary: doc)
  case (Cons x xs)
  then show ?case by (cases "apply_operation d x doc") simp_all
qed simp

lemma apply_replace:
  assumes "at_path ts C"
  shows "apply_operation d (op_replace (pointer_to_string ts) w) (C v) = Inr (C w)"
  by (simp add: apply_operation_def op_replace_def get_string_value_def get_value_def
      at_path_modify [OF assms])

lemma apply_remove:
  assumes "at_path ts C"
  shows "apply_operation d (op_remove (pointer_to_string (ts @ [t]))) (C v) =
    bind_result (remove_from_parent t v) (\<lambda>w. Inr (C w))"
  by (simp add: apply_operation_def op_remove_def get_string_value_def get_value_def
      operation_remove_def at_path_modify [OF assms])

text \<open>The check of the topmost token succeeds on a path that leads somewhere.\<close>

lemma get_checked_top: "get_checked (t # ts) doc = Inr v \<Longrightarrow> \<exists>w. get_checked [t] doc = Inr w"
  by (auto simp: bind_result_Inr_iff split: json.splits if_splits)

lemma apply_add:
  assumes "at_path ts C"
  shows "apply_operation d (op_add (pointer_to_string (ts @ [t])) w) (C v) =
    bind_result (add_to_parent t w v) (\<lambda>w. Inr (C w))"
proof -
  have "\<exists>x. (if [hd (ts @ [t])] \<noteq> ts @ [t] then get_checked [hd (ts @ [t])] (C v) else Inr (C v)) = Inr x"
    using at_path_get [OF assms, of v]
    by (cases ts) (auto simp del: get_checked.simps(2) dest: get_checked_top)
  then obtain x where
    e: "(if [hd (ts @ [t])] \<noteq> ts @ [t] then get_checked [hd (ts @ [t])] (C v) else Inr (C v)) = Inr x" ..
  have "operation_add (ts @ [t]) w (C v) = bind_result (add_to_parent t w v) (\<lambda>w. Inr (C w))"
    unfolding operation_add_def Let_def e by (simp add: at_path_modify_unchecked [OF assms])
  then show ?thesis by (simp add: apply_operation_def op_add_def get_string_value_def get_value_def)
qed

section \<open>Applying a difference\<close>

text \<open>Objects in key order, arrays whose indices are below the largest value of \<open>size_t\<close>.\<close>

fun well_formed :: "'f json \<Rightarrow> bool" where
  "well_formed (JObject m) \<longleftrightarrow> map_ok m \<and> (\<forall>(k, v) \<in> set m. well_formed v)"
| "well_formed (JArray vs) \<longleftrightarrow> length vs < 2 ^ 64 \<and> (\<forall>v \<in> set vs. well_formed v)"
| "well_formed _ \<longleftrightarrow> True"

lemma map_pointwise:
  assumes "map_ok m" and "map_ok m'"
    and "\<And>k. rel_option R (map_of m k) (map_of m' k)"
  shows "list_all2 (\<lambda>(k, v) (k', v'). k = k' \<and> R v v') m m'"
  using assms
proof (induction m arbitrary: m')
  case Nil
  have "map_of m' = Map.empty" by (rule ext) (use Nil(3) in auto)
  then show ?case by simp
next
  case (Cons p m)
  obtain k v where p: "p = (k, v)" by (cases p)
  have r: "rel_option R (map_of (p # m) x) (map_of m' x)" for x by (rule Cons(4))
  from r [of k] p obtain w where w: "map_of m' k = Some w" "R v w" by (auto simp: option_rel_Some1)
  then obtain q m'' where m': "m' = q # m''" by (cases m') auto
  obtain k' w' where q: "q = (k', w')" by (cases q)
  have k: "k' = k"
  proof (rule ccontr)
    assume ne: "k' \<noteq> k"
    with w(1) m' q Cons(3) have "k' < k" by (auto dest!: map_of_SomeD)
    moreover from r [of k'] m' q obtain u where "map_of (p # m) k' = Some u" by (auto simp: option_rel_Some2)
    with p ne Cons(2) have "k < k'" by (auto dest!: map_of_SomeD)
    ultimately show False by simp
  qed
  have "list_all2 (\<lambda>(k, v) (k', v'). k = k' \<and> R v v') m m''"
  proof (rule Cons.IH)
    show "map_ok m" "map_ok m''" using Cons(2,3) m' by auto
    fix x show "rel_option R (map_of m x) (map_of m'' x)"
    proof (cases "x = k")
      case True
      have "map_of m k = None" "map_of m'' k = None"
        using Cons(2,3) p q k m' map_ok_notin [of k m] map_ok_notin [of k m''] by auto
      with True show ?thesis by simp
    next
      case False
      with r [of x] p q k m' show ?thesis by simp
    qed
  qed
  with m' q k p w show ?case by simp
qed

lemma members_eq_pointwise:
  "map_ok m \<Longrightarrow> map_ok m' \<Longrightarrow> (\<And>k. rel_option (json_eq d) (map_of m k) (map_of m' k)) \<Longrightarrow>
    members_eq d m m'"
  unfolding members_eq_all by (rule map_pointwise)

lemma map_ok_eq:
  assumes "map_ok m" and "map_ok m'" and "\<And>k. map_of m k = map_of m' k"
  shows "m = m'"
proof -
  have "list_all2 (\<lambda>(k, v) (k', v'). k = k' \<and> v = v') m m'"
    using assms by (intro map_pointwise) (simp_all add: option.rel_eq)
  then show ?thesis by (induction rule: list_all2_induct) auto
qed

lemma apply_removes:
  assumes "at_path ts C" and "n \<le> length vs" and "length vs < 2 ^ 64"
  shows "apply_operations d (removes n (length vs) (pointer_to_string ts)) (C (JArray vs)) = Inr (C (JArray (take n vs)))"
  using assms(2,3)
proof (induction vs rule: rev_induct)
  case Nil
  then show ?case by (simp add: removes_def)
next
  case (snoc v vs)
  show ?case
  proof (cases "n = length (vs @ [v])")
    case True
    then show ?thesis by (simp add: removes_def)
  next
    case False
    with snoc(2) have n: "n \<le> length vs" by simp
    have "apply_operations d (removes n (length (vs @ [v])) (pointer_to_string ts)) =
        apply_operations d (op_remove (pointer_to_string (ts @ [nat_digits (length vs)])) #
          removes n (length vs) (pointer_to_string ts))"
      using n by (simp add: removes_def pointer_to_string_simps)
    with snoc n show ?thesis
      by (simp add: apply_remove [OF assms(1)] remove_from_parent_def)
  qed
qed

lemma apply_adds:
  assumes "at_path ts C"
  shows "apply_operations d (map (op_add (pointer_to_string ts @ ''/-'')) ws) (C (JArray vs)) = Inr (C (JArray (vs @ ws)))"
proof (induction ws arbitrary: vs)
  case (Cons w ws)
  have "pointer_to_string ts @ ''/-'' = pointer_to_string (ts @ [''-''])"
    by (simp add: pointer_to_string_simps escaped_plain)
  with Cons show ?case by (simp add: apply_add [OF assms] add_to_parent_def)
qed simp

lemma apply_member_adds:
  assumes "at_path ts C"
  shows "apply_operations d (map (\<lambda>(k, v). op_add (pointer_to_string ts @ ''/'' @ pointer_escape k) v) p) (C (JObject m)) =
    Inr (C (JObject (fold (\<lambda>(k, v). map_put k v) p m)))"
proof (induction p arbitrary: m)
  case (Cons q p)
  obtain k v where q: "q = (k, v)" by (cases q)
  have "pointer_to_string ts @ ''/'' @ pointer_escape k = pointer_to_string (ts @ [k])"
    by (simp add: pointer_to_string_simps)
  with Cons q show ?case by (simp add: apply_add [OF assms] add_to_parent_def)
qed simp

lemma map_ok_fold: "map_ok m \<Longrightarrow> map_ok (fold (\<lambda>(k, v). map_put k v) p m)"
  by (induction p arbitrary: m) (auto simp: map_ok_put)

lemma map_of_fold:
  "map_ok p \<Longrightarrow> map_of (fold (\<lambda>(k, v). map_put k v) p m) k =
    (case map_of p k of Some v \<Rightarrow> Some v | None \<Rightarrow> map_of m k)"
proof (induction p arbitrary: m)
  case (Cons q p)
  obtain k' v where q: "q = (k', v)" by (cases q)
  with Cons(2) have "map_of p k' = None" by (intro map_ok_notin) simp
  with Cons q show ?case by (auto split: option.splits)
qed simp

lemma map_ok_filter: "map_ok m \<Longrightarrow> map_ok (filter P m)"
  by (induction m) auto

lemma map_of_filter_key:
  "map_of (filter (\<lambda>(k, v). P k) m) k = (if P k then map_of m k else None)"
  by (induction m) auto

lemma apply_diff:
  "at_path ts C \<Longrightarrow> well_formed source \<Longrightarrow> well_formed target \<Longrightarrow> regular d target \<Longrightarrow>
    path = pointer_to_string ts \<Longrightarrow>
    \<exists>r. apply_operations d (diff d source target path) (C source) = Inr (C r) \<and> json_eq d r target"
  "at_path ts C \<Longrightarrow> \<forall>v \<in> set vs. well_formed v \<Longrightarrow> \<forall>w \<in> set ws. well_formed w \<and> regular d w \<Longrightarrow>
    path = pointer_to_string ts \<Longrightarrow> i + length vs < 2 ^ 64 \<Longrightarrow> length xs = i \<Longrightarrow>
    \<exists>rs. apply_operations d (diff_elements d i vs ws path) (C (JArray (xs @ vs))) =
        Inr (C (JArray (xs @ rs @ drop (length ws) vs))) \<and> list_all2 (json_eq d) rs (take (length vs) ws)"
  "at_path ts C \<Longrightarrow> \<forall>(k, v) \<in> set m. well_formed v \<and> map_of cur k = Some v \<Longrightarrow>
    \<forall>(k, v) \<in> set m'. well_formed v \<and> regular d v \<Longrightarrow> distinct (map fst m) \<Longrightarrow> map_ok cur \<Longrightarrow>
    path = pointer_to_string ts \<Longrightarrow>
    \<exists>cur'. apply_operations d (diff_members d m m' path) (C (JObject cur)) = Inr (C (JObject cur')) \<and>
      map_ok cur' \<and>
      (\<forall>k. if k \<in> fst ` set m then rel_option (json_eq d) (map_of cur' k) (map_of m' k)
           else map_of cur' k = map_of cur k)"
proof (induction d source target path and d i vs ws path and d m m' path
    arbitrary: ts C and ts C xs and ts C cur rule: diff_diff_elements_diff_members.induct)
  case (1 d vs target path)
  show ?case
  proof (cases "json_eq d (JArray vs) target")
    case True
    then show ?thesis by (intro exI [of _ "JArray vs"]) simp
  next
    case False
    show ?thesis
    proof (cases target)
      case (JArray ws)
      with 1(2-5) have ok: "length vs < 2 ^ 64" "\<forall>v \<in> set vs. well_formed v"
        "\<forall>w \<in> set ws. well_formed w \<and> regular d w" by auto
      from 1(1) [OF False JArray 1(2) ok(2,3) 1(6), of "[]"] ok(1) obtain rs where
        rs: "apply_operations d (diff_elements d 0 vs ws path) (C (JArray vs)) =
            Inr (C (JArray (rs @ drop (length ws) vs)))"
          "list_all2 (json_eq d) rs (take (length vs) ws)" by auto
      then have len: "length rs = min (length vs) (length ws)" by (auto dest: list_all2_lengthD)
      have "apply_operations d (removes (length ws) (length vs) path) (C (JArray (rs @ drop (length ws) vs))) =
          Inr (C (JArray rs))"
      proof (cases "length ws \<le> length vs")
        case True
        with apply_removes [OF 1(2), of "length ws" "rs @ drop (length ws) vs" d] len ok(1) 1(6)
        show ?thesis by simp
      next
        case False
        then show ?thesis by (simp add: removes_def)
      qed
      with rs(1) apply_adds [OF 1(2), of d "drop (length vs) ws" rs] 1(6) False JArray
      have "apply_operations d (diff d (JArray vs) target path) (C (JArray vs)) =
          Inr (C (JArray (rs @ drop (length vs) ws)))"
        by (simp add: apply_append)
      moreover have "list_all2 (json_eq d) (rs @ drop (length vs) ws) (take (length vs) ws @ drop (length vs) ws)"
        using rs(2) ok(3) by (intro list_all2_appendI) (auto simp: list_all2_same json_eq_refl dest: in_set_dropD)
      ultimately show ?thesis using JArray
        by (intro exI [of _ "JArray (rs @ drop (length vs) ws)"]) (simp add: elements_eq_all)
    qed (use False 1 apply_replace [OF 1(2)] in \<open>auto simp: json_eq_refl intro!: exI [of _ target]\<close>)
  qed
next
  case (2 d m target path)
  show ?case
  proof (cases "json_eq d (JObject m) target")
    case True
    then show ?thesis by (intro exI [of _ "JObject m"]) simp
  next
    case False
    show ?thesis
    proof (cases target)
      case (JObject m')
      with 2(2-5) have ok: "map_ok m" "map_ok m'" "\<forall>(k, v) \<in> set m'. well_formed v \<and> regular d v" by auto
      have m: "\<forall>(k, v) \<in> set m. well_formed v \<and> map_of m k = Some v"
        using 2(3) ok(1) by (auto simp: strict_sorted_iff)
      from 2(1) [OF False JObject 2(2) m ok(3) _ ok(1) 2(6)] ok(1) obtain cur where
        cur: "apply_operations d (diff_members d m m' path) (C (JObject m)) = Inr (C (JObject cur))"
          "map_ok cur"
          "\<And>k. if k \<in> fst ` set m then rel_option (json_eq d) (map_of cur k) (map_of m' k)
             else map_of cur k = map_of m k"
        by (auto simp: strict_sorted_iff)
      define p where "p = filter (\<lambda>(k, v). map_of m k = None) m'"
      define r where "r = fold (\<lambda>(k, v). map_put k v) p cur"
      have "apply_operations d (diff d (JObject m) target path) (C (JObject m)) = Inr (C (JObject r))"
        using cur(1) apply_member_adds [OF 2(2), of d p cur] 2(6) False JObject
        by (simp add: apply_append member_adds_def p_def r_def)
      moreover have "members_eq d r m'"
      proof (rule members_eq_pointwise)
        show "map_ok r" "map_ok m'" using cur(2) ok(2) by (simp_all add: r_def map_ok_fold)
        fix k
        have "map_ok p" using ok(2) by (simp add: p_def map_ok_filter)
        then have r: "map_of r k = (case map_of p k of Some v \<Rightarrow> Some v | None \<Rightarrow> map_of cur k)"
          by (simp add: r_def map_of_fold)
        have p: "map_of p k = (if map_of m k = None then map_of m' k else None)"
          using map_of_filter_key [of "\<lambda>k. map_of m k = None" m' k] by (simp add: p_def)
        show "rel_option (json_eq d) (map_of r k) (map_of m' k)"
        proof (cases "k \<in> fst ` set m")
          case True
          then have "map_of m k \<noteq> None" by (simp add: map_of_eq_None_iff)
          with True p r cur(3) [of k] show ?thesis by simp
        next
          case False
          then have n: "map_of m k = None" by (simp add: map_of_eq_None_iff)
          with False cur(3) [of k] have "map_of cur k = None" by simp
          with n p r ok(3) show ?thesis
            by (cases "map_of m' k") (auto simp: json_eq_refl dest!: map_of_SomeD)
        qed
      qed
      ultimately show ?thesis using JObject by (intro exI [of _ "JObject r"]) simp
    qed (use False 2 apply_replace [OF 2(2)] in \<open>auto simp: json_eq_refl intro!: exI [of _ target]\<close>)
  qed
next
  case (5 d i v vs ws path)
  show ?case
  proof (cases ws)
    case Nil
    then show ?thesis by (intro exI [of _ "[]"]) simp
  next
    case (Cons w ws')
    let ?C = "\<lambda>u. C (JArray (xs @ u # vs))"
    have "at_path (ts @ [nat_digits (length xs)]) ?C"
      using 5(3,7,8) by (intro at_path_element) simp_all
    moreover have "path @ ''/'' @ nat_digits i = pointer_to_string (ts @ [nat_digits (length xs)])"
      using 5(6,8) by (simp add: pointer_to_string_simps)
    ultimately obtain r where r: "apply_operations d (diff d v w (path @ ''/'' @ nat_digits i)) (?C v) = Inr (?C r)"
        "json_eq d r w"
      using 5(1) [OF Cons, of "ts @ [nat_digits (length xs)]" ?C] 5(4,5) Cons by auto
    have "\<exists>rs. apply_operations d (diff_elements d (i + 1) vs ws' path) (C (JArray ((xs @ [r]) @ vs))) =
        Inr (C (JArray ((xs @ [r]) @ rs @ drop (length ws') vs))) \<and>
        list_all2 (json_eq d) rs (take (length vs) ws')"
      using 5(3-8) Cons by (intro 5(2) [OF Cons]) auto
    then obtain rs where "apply_operations d (diff_elements d (i + 1) vs ws' path) (C (JArray (xs @ r # vs))) =
        Inr (C (JArray (xs @ r # rs @ drop (length ws') vs)))"
        "list_all2 (json_eq d) rs (take (length vs) ws')" by auto
    with r Cons show ?thesis
      by (intro exI [of _ "r # rs"]) (simp add: apply_append)
  qed
next
  case (7 d k v m m' path)
  have k: "map_of cur k = Some v" "k \<notin> fst ` set m" using 7(4,6) by auto
  have path: "path @ ''/'' @ pointer_escape k = pointer_to_string (ts @ [k])"
    using 7(8) by (simp add: pointer_to_string_simps)
  have "\<exists>cur1. apply_operations d (case map_of m' k of
          Some w \<Rightarrow> diff d v w (path @ ''/'' @ pointer_escape k)
        | None \<Rightarrow> [op_remove (path @ ''/'' @ pointer_escape k)]) (C (JObject cur)) = Inr (C (JObject cur1)) \<and>
      map_ok cur1 \<and> rel_option (json_eq d) (map_of cur1 k) (map_of m' k) \<and>
      (\<forall>x. x \<noteq> k \<longrightarrow> map_of cur1 x = map_of cur x)"
  proof (cases "map_of m' k")
    case None
    with k(1) 7(7) path show ?thesis
      by (intro exI [of _ "map_erase k cur"])
        (simp add: apply_remove [OF 7(3)] remove_from_parent_def map_of_erase map_ok_erase)
  next
    case (Some w)
    let ?C = "\<lambda>u. C (JObject (map_put k u cur))"
    have "at_path (ts @ [k]) ?C" using 7(3,7) k(1) by (rule at_path_key)
    moreover have "well_formed w \<and> regular d w" using 7(5) Some by (auto dest: map_of_SomeD)
    ultimately obtain r where "apply_operations d (diff d v w (path @ ''/'' @ pointer_escape k)) (?C v) = Inr (?C r)"
        "json_eq d r w"
      using 7(1) [OF Some, of "ts @ [k]" ?C] 7(4) path by auto
    moreover have "?C v = C (JObject cur)" using k(1) 7(7) by (simp add: map_put_same)
    ultimately show ?thesis using Some 7(7)
      by (intro exI [of _ "map_put k r cur"]) (simp add: map_ok_put)
  qed
  then obtain cur1 where cur1: "apply_operations d (case map_of m' k of
          Some w \<Rightarrow> diff d v w (path @ ''/'' @ pointer_escape k)
        | None \<Rightarrow> [op_remove (path @ ''/'' @ pointer_escape k)]) (C (JObject cur)) = Inr (C (JObject cur1))"
      "map_ok cur1" "rel_option (json_eq d) (map_of cur1 k) (map_of m' k)"
      "\<And>x. x \<noteq> k \<Longrightarrow> map_of cur1 x = map_of cur x" by blast
  have m1: "\<forall>(x, v) \<in> set m. well_formed v \<and> map_of cur1 x = Some v"
  proof (clarify, intro conjI)
    fix x u assume x: "(x, u) \<in> set m"
    with k(2) have "x \<noteq> k" by force
    from 7(4) x show "well_formed u" by auto
    from 7(4) x have "map_of cur x = Some u" by auto
    with cur1(4) [OF \<open>x \<noteq> k\<close>] show "map_of cur1 x = Some u" by simp
  qed
  have m2: "distinct (map fst m)" using 7(6) by simp
  from 7(2) [OF 7(3) m1 7(5) m2 cur1(2) 7(8)] obtain cur' where
    cur': "apply_operations d (diff_members d m m' path) (C (JObject cur1)) = Inr (C (JObject cur'))"
      "map_ok cur'"
    and all: "\<forall>x. if x \<in> fst ` set m then rel_option (json_eq d) (map_of cur' x) (map_of m' x)
        else map_of cur' x = map_of cur1 x"
    by (elim exE conjE) (rule that)
  show ?case
  proof (intro exI conjI allI)
    show "apply_operations d (diff_members d ((k, v) # m) m' path) (C (JObject cur)) = Inr (C (JObject cur'))"
      using cur1(1) cur'(1) by (simp add: apply_append)
    show "map_ok cur'" by (rule cur'(2))
    fix x
    show "if x \<in> fst ` set ((k, v) # m) then rel_option (json_eq d) (map_of cur' x) (map_of m' x)
        else map_of cur' x = map_of cur x"
      using all [rule_format, of x] cur1(3,4) k(2) by (cases "x = k") (auto split: if_splits)
  qed
qed (use apply_replace json_eq_refl in \<open>fastforce+\<close>)

end
