(* ===== verification/Json_Documents.thy ===== *)
theory Json_Documents
  imports Json_Patch
begin

text \<open>
  The properties of pointers, patches and merge patches, and where the code departs from the
  standards it implements.
\<close>

section \<open>Merging, key by key\<close>

lemma map_of_merge:
  "map_ok p \<Longrightarrow> map_ok m \<Longrightarrow>
    map_ok (merge_members m p) \<and>
    map_of (merge_members m p) k =
      (case map_of p k of
         None \<Rightarrow> map_of m k
       | Some v \<Rightarrow>
           if v = JNull then None
           else Some (merge_patch (case map_of m k of Some w \<Rightarrow> w | None \<Rightarrow> JNull) v))"
proof (induction p arbitrary: m)
  case (Cons q p)
  obtain k' v where q: "q = (k', v)" by (cases q)
  with Cons(2) have none: "map_of p k' = None" and p: "map_ok p" by (auto intro: map_ok_notin)
  show ?case
  proof (cases "v = JNull")
    case True
    with q none Cons.IH [OF p map_ok_erase [OF Cons(3)], of k'] Cons(3) show ?thesis
      by (auto simp: map_of_erase split: option.splits)
  next
    case False
    with q none Cons.IH [OF p map_ok_put [OF Cons(3)]] show ?thesis
      by (auto split: option.splits)
  qed
qed simp

lemma merge_patch_again:
  "well_formed p \<Longrightarrow> well_formed t \<Longrightarrow> merge_patch (merge_patch t p) p = merge_patch t p"
proof (induction p arbitrary: t)
  case (JObject p)
  define m where "m = (case t of JObject m \<Rightarrow> m | _ \<Rightarrow> [])"
  have p: "map_ok p" and m: "map_ok m" using JObject(2,3) by (auto simp: m_def split: json.split)
  have mw: "well_formed w" if "map_of m k = Some w" for k w
    using that JObject(3) by (auto simp: m_def split: json.splits dest!: map_of_SomeD)
  let ?r = "merge_members m p"
  note r = map_of_merge [OF p m]
  have ok: "map_ok ?r" using r by blast
  note rr = map_of_merge [OF p ok]
  have "merge_members ?r p = ?r"
  proof (rule map_ok_eq)
    show "map_ok (merge_members ?r p)" using rr by blast
    show "map_ok ?r" by (rule ok)
    fix k show "map_of (merge_members ?r p) k = map_of ?r k"
    proof (cases "map_of p k")
      case None
      then show ?thesis using r [of k] rr [of k] by simp
    next
      case (Some v)
      show ?thesis
      proof (cases "v = JNull")
        case True
        with Some r [of k] rr [of k] show ?thesis by simp
      next
        case False
        let ?w = "case map_of m k of Some w \<Rightarrow> w | None \<Rightarrow> JNull"
        from Some have kv: "(k, v) \<in> set p" by (rule map_of_SomeD)
        with JObject(2) have "well_formed v" by auto
        moreover have "well_formed ?w" using mw by (auto split: option.split)
        ultimately have "merge_patch (merge_patch ?w v) v = merge_patch ?w v"
          by (rule JObject(1) [OF kv, of v, simplified])
        with Some False r [of k] rr [of k] show ?thesis by simp
      qed
    qed
  qed
  then show ?case by (simp add: m_def)
qed simp_all

section \<open>The properties\<close>

definition exact_doubles :: "unit doubles" where
  "exact_doubles =
     \<lparr>double_eq = \<lambda>_ _. True, double_less = \<lambda>_ _. False, to_double = \<lambda>_. (), double_text = \<lambda>_. ''0.0''\<rparr>"

definition sample_source :: "unit json" where
  "sample_source =
     JObject [(''a'', JArray [JUnsigned 1, JString ''x'', JNull]), (''b/~'', JBoolean True)]"

definition sample_target :: "unit json" where
  "sample_target = JObject [(''a'', JArray [JUnsigned 2]), (''c'', JArray [])]"

lemma samples_ok:
  "well_formed sample_source" "well_formed sample_target" "regular d sample_target"
  by (simp_all add: sample_source_def sample_target_def)

text \<open>
  C18: Applying the difference of two values to the first gives a value equal to the second, without any
  exception: paths are escaped so that they are read back, elements are removed from the end, and
  no operation disturbs the place of another. The hypotheses exclude NaN and discarded values (which
  are not equal to themselves) and arrays too long for an index.
\<close>

theorem patch_diff:
  assumes "well_formed source" and "well_formed target" and "regular d target"
  shows "\<exists>r. json_patch d source (JArray (diff d source target [])) = Inr r \<and> json_eq d r target"
  using apply_diff(1) [OF at_path_root assms] by (simp add: json_patch_def pointer_to_string_simps)

theorem patch_diff_witness:
  "\<exists>r. json_patch exact_doubles sample_source (JArray (diff exact_doubles sample_source sample_target [])) = Inr r \<and>
    json_eq exact_doubles r sample_target"
  by (rule patch_diff) (simp_all add: samples_ok)

text \<open>
  C26: The text of a pointer and its tokens determine each other: a text is accepted exactly if it is
  what \<open>to_string\<close> prints of some tokens, and then these are the tokens.
\<close>

theorem pointer_text:
  "pointer_split s = Inr ts \<longleftrightarrow> s = pointer_to_string ts"
  using pointer_to_string_split [of s ts] by auto

text \<open>
  An array index is exactly the decimal text, without leading zeros, of a number below the largest
  \<open>size_t\<close>.
\<close>

theorem array_index_exact:
  "array_index s = Inr n \<longleftrightarrow> s = nat_digits n \<and> n < 2 ^ 64 - 1"
  by (rule array_index_Inr)

text \<open>
  The empty token and every single character that is no digit make \<open>array_index\<close> throw
  \<open>std::invalid_argument\<close>, which is no exception of the library: the checks before \<open>std::stoull\<close> look
  only at tokens of two characters or more. Nothing else does.
\<close>

theorem array_index_escapes:
  "array_index s = Inl Std_invalid_argument \<longleftrightarrow> s = [] \<or> (\<exists>c. s = [c] \<and> \<not> is_digit c)"
proof (cases s)
  case (Cons c t)
  have "49 \<le> byte c \<and> byte c \<le> 57 \<Longrightarrow> is_digit c" by (simp add: is_digit_def)
  with Cons show ?thesis by (cases t) (auto simp: array_index_def Let_def)
qed (simp add: array_index_def)

text \<open>
  \<open>contains\<close> answers whether \<open>at\<close> would find a value, in both directions. It throws for three reasons
  only: an empty token in an array, and an index of 2^64-1 or more.
\<close>

theorem contains_iff_at:
  "case pointer_contains ts j of
     Inr b \<Rightarrow> b \<longleftrightarrow> (\<exists>v. get_checked ts j = Inr v)
   | Inl e \<Rightarrow> e \<in> {Std_invalid_argument, Out_of_range 404, Out_of_range 410}"
  using contains_get [of ts j] contains_errors [of ts j]
  by (auto split: sum.split)

text \<open>
  C27: What a merge patch does to a member: absent from the patch it stays, with null it is removed, with
  any other value it is merged, starting from null when the target has none. Members the patch
  names in any order do not disturb each other.
\<close>

theorem merge_patch_members:
  assumes "map_ok p" and "map_ok m"
  shows "\<exists>r. merge_patch (JObject m) (JObject p) = JObject r \<and> map_ok r \<and>
    (\<forall>k. map_of r k =
      (case map_of p k of
         None \<Rightarrow> map_of m k
       | Some v \<Rightarrow>
           if v = JNull then None
           else Some (merge_patch (case map_of m k of Some w \<Rightarrow> w | None \<Rightarrow> JNull) v)))"
  using map_of_merge [OF assms] by (intro exI [of _ "merge_members m p"]) simp

theorem merge_patch_members_witness:
  "\<exists>r. merge_patch (JObject [(''a'', JNull)]) (JObject [(''a'', JNull), (''b'', JBoolean True)]) = JObject r \<and>
    map_ok r \<and>
    (\<forall>k. map_of r k =
      (case map_of [(''a'', JNull), (''b'', JBoolean True)] k of
         None \<Rightarrow> map_of [(''a'', JNull)] k
       | Some v \<Rightarrow>
           if v = JNull then None
           else Some (merge_patch (case map_of [(''a'', JNull)] k of Some w \<Rightarrow> w | None \<Rightarrow> JNull) v)))"
  by (rule merge_patch_members) simp_all

text \<open>Merging the same patch twice is merging it once.\<close>

theorem merge_patch_idempotent:
  assumes "well_formed p" and "well_formed t"
  shows "merge_patch (merge_patch t p) p = merge_patch t p"
  using assms by (rule merge_patch_again)

theorem merge_patch_idempotent_witness:
  "merge_patch (merge_patch sample_source sample_target) sample_target =
    merge_patch sample_source sample_target"
  by (rule merge_patch_idempotent) (simp_all add: samples_ok)

text \<open>
  A patch that removes a member of a string, a number or another scalar is accepted and does
  nothing, and one that adds such a member reaches an assertion that says it cannot happen.
\<close>

theorem patch_below_scalar:
  assumes "map_of m k = Some v" and "map_ok m"
    and "type_of v \<notin> {Object_t, Array_t, Null_t}"
  shows "json_patch d (JObject m) (JArray [op_remove (pointer_to_string [k, t])]) = Inr (JObject m) \<and>
    json_patch d (JObject m) (JArray [op_add (pointer_to_string [k, t]) w]) = Inl Assertion_failed"
proof -
  let ?C = "\<lambda>u. JObject (map_put k u m)"
  have C: "at_path ([] @ [k]) ?C" by (rule at_path_key [OF at_path_root assms(2,1)])
  have "?C v = JObject m" using assms(1,2) by (simp add: map_put_same)
  moreover have "remove_from_parent t v = Inr v" "add_to_parent t w v = Inl Assertion_failed"
    using assms(3) by (cases v; simp add: remove_from_parent_def add_to_parent_def)+
  ultimately show ?thesis
    using apply_remove [OF C, of d t v] apply_add [OF C, of d t w v] by (simp add: json_patch_def)
qed

theorem patch_below_scalar_witness:
  "json_patch exact_doubles sample_source (JArray [op_remove (pointer_to_string [''b/~'', ''x''])]) = Inr sample_source \<and>
    json_patch exact_doubles sample_source (JArray [op_add (pointer_to_string [''b/~'', ''x'']) JNull]) =
      Inl Assertion_failed"
  unfolding sample_source_def by (rule patch_below_scalar [where v = "JBoolean True"]) simp_all

text \<open>
  An unsigned number from 2^63 on is compared with a signed one after a cast that makes it negative:
  the largest unsigned number equals minus one, so the difference of the two values is empty, and
  the order of numbers is not transitive.
\<close>

theorem unsigned_equals_negative:
  "json_eq d (JUnsigned (2 ^ 64 - 1)) (JInteger (- 1)) \<and>
    diff d (JInteger (- 1)) (JUnsigned (2 ^ 64 - 1)) [] = [] \<and>
    json_less d (JUnsigned 0) (JUnsigned (2 ^ 63)) \<and> json_less d (JUnsigned (2 ^ 63)) (JInteger 0) \<and>
    \<not> json_less d (JUnsigned 0) (JInteger 0)"
  by (simp add: scalar_eq_def json_less.simps scalar_less_def to_signed_def wrap_signed_def)

end
