(* ===== verification/Json_Flatten.thy ===== *)
theory Json_Flatten
  imports Json_Pointer
begin

text \<open>
  \<open>flatten\<close> and \<open>unflatten\<close>: a value as an object from the text of pointers to its primitive parts, and
  back. \<open>get_and_create\<close> hands out a reference that the caller assigns to; \<open>modify_create\<close> is the
  assignment. Unlike \<open>operator[]\<close> of a pointer it makes an array of a null value for the token \<open>0\<close> only.
\<close>

section \<open>Flatten\<close>

fun flatten_into :: "string \<Rightarrow> 'f json \<Rightarrow> (string \<times> 'f json) list \<Rightarrow> (string \<times> 'f json) list"
and flatten_elements :: "string \<Rightarrow> nat \<Rightarrow> 'f json list \<Rightarrow> (string \<times> 'f json) list \<Rightarrow> (string \<times> 'f json) list"
and flatten_members ::
  "string \<Rightarrow> (string \<times> 'f json) list \<Rightarrow> (string \<times> 'f json) list \<Rightarrow> (string \<times> 'f json) list"
where
  "flatten_into reference_string (JArray vs) result =
     (if vs = [] then map_put reference_string JNull result
      else flatten_elements reference_string 0 vs result)"
| "flatten_into reference_string (JObject m) result =
     (if m = [] then map_put reference_string JNull result
      else flatten_members reference_string m result)"
| "flatten_into reference_string v result = map_put reference_string v result"
| "flatten_elements reference_string i [] result = result"
| "flatten_elements reference_string i (v # vs) result =
     flatten_elements reference_string (Suc i) vs
       (flatten_into (reference_string @ ''/'' @ nat_digits i) v result)"
| "flatten_members reference_string [] result = result"
| "flatten_members reference_string ((k, v) # m) result =
     flatten_members reference_string m (flatten_into (reference_string @ ''/'' @ pointer_escape k) v result)"

definition flatten :: "'f json \<Rightarrow> 'f json" where
  "flatten j = JObject (flatten_into [] j [])"

section \<open>Unflatten\<close>

fun modify_create :: "string list \<Rightarrow> 'f json \<Rightarrow> 'f json \<Rightarrow> (json_error, 'f json) result" where
  "modify_create [] w j = Inr w"
| "modify_create (t # ts) w j =
     (case j of
        JNull \<Rightarrow>
          if t = ''0'' then bind_result (modify_create ts w JNull) (\<lambda>v. Inr (JArray [v]))
          else bind_result (modify_create ts w JNull) (\<lambda>v. Inr (JObject [(t, v)]))
      | JObject m \<Rightarrow>
          bind_result (modify_create ts w (case map_of m t of Some v \<Rightarrow> v | None \<Rightarrow> JNull))
            (\<lambda>v. Inr (JObject (map_put t v m)))
      | JArray vs \<Rightarrow>
          bind_result (array_index t) (\<lambda>i.
          let us = fill_to i vs in
          bind_result (modify_create ts w (us ! i)) (\<lambda>v. Inr (JArray (us[i := v]))))
      | _ \<Rightarrow> Inl (Type_error 313))"

definition is_primitive :: "'f json \<Rightarrow> bool" where
  "is_primitive j \<longleftrightarrow>
     (case j of JArray vs \<Rightarrow> False | JObject m \<Rightarrow> False | JDiscarded \<Rightarrow> False | _ \<Rightarrow> True)"

fun unflatten_members :: "(string \<times> 'f json) list \<Rightarrow> 'f json \<Rightarrow> (json_error, 'f json) result" where
  "unflatten_members [] result = Inr result"
| "unflatten_members ((k, v) # m) result =
     (if \<not> is_primitive v then Inl (Type_error 315)
      else
        bind_result (pointer_split k) (\<lambda>ts.
        bind_result (modify_create ts v result) (unflatten_members m)))"

definition unflatten :: "'f json \<Rightarrow> (json_error, 'f json) result" where
  "unflatten flat =
     (case flat of JObject m \<Rightarrow> unflatten_members m JNull | _ \<Rightarrow> Inl (Type_error 314))"

section \<open>The primitive parts of a value\<close>

fun leaves :: "'f json \<Rightarrow> (string list \<times> 'f json) list"
and element_leaves :: "nat \<Rightarrow> 'f json list \<Rightarrow> (string list \<times> 'f json) list"
and member_leaves :: "(string \<times> 'f json) list \<Rightarrow> (string list \<times> 'f json) list"
where
  "leaves (JArray vs) = (if vs = [] then [([], JNull)] else element_leaves 0 vs)"
| "leaves (JObject m) = (if m = [] then [([], JNull)] else member_leaves m)"
| "leaves v = [([], v)]"
| "element_leaves i [] = []"
| "element_leaves i (v # vs) = map (apfst (Cons (nat_digits i))) (leaves v) @ element_leaves (Suc i) vs"
| "member_leaves [] = []"
| "member_leaves ((k, v) # m) = map (apfst (Cons k)) (leaves v) @ member_leaves m"

definition put_all :: "string list \<Rightarrow> (string list \<times> 'f json) list \<Rightarrow> (string \<times> 'f json) list \<Rightarrow> (string \<times> 'f json) list" where
  "put_all P xs m = fold (\<lambda>(p, v). map_put (pointer_to_string (P @ p)) v) xs m"

lemma put_all_simps:
  "put_all P [] m = m"
  "put_all P ((p, v) # xs) m = put_all P xs (map_put (pointer_to_string (P @ p)) v m)"
  "put_all P (xs @ ys) m = put_all P ys (put_all P xs m)"
  by (simp_all add: put_all_def)

lemma put_all_Cons: "put_all P (map (apfst (Cons t)) xs) m = put_all (P @ [t]) xs m"
  by (induction xs arbitrary: m) (auto simp: put_all_def)

lemma flatten_into_leaves:
  "flatten_into (pointer_to_string P) j m = put_all P (leaves j) m"
  "flatten_elements (pointer_to_string P) i vs m = put_all P (element_leaves i vs) m"
  "flatten_members (pointer_to_string P) ms m = put_all P (member_leaves ms) m"
proof (induction j and i vs and ms arbitrary: P m and P m and P m
    rule: leaves_element_leaves_member_leaves.induct)
  case (5 i v vs)
  have "pointer_to_string P @ ''/'' @ nat_digits i = pointer_to_string (P @ [nat_digits i])"
    by (simp add: pointer_to_string_simps)
  with 5 show ?case by (simp only: flatten_elements.simps element_leaves.simps put_all_simps put_all_Cons)
next
  case (7 k v ms)
  have "pointer_to_string P @ ''/'' @ pointer_escape k = pointer_to_string (P @ [k])"
    by (simp add: pointer_to_string_simps)
  with 7 show ?case by (simp only: flatten_members.simps member_leaves.simps put_all_simps put_all_Cons)
qed (simp_all add: put_all_simps)

lemma flatten_leaves: "flatten j = JObject (put_all [] (leaves j) [])"
  using flatten_into_leaves(1) [of "[]" j "[]"] by (simp add: flatten_def pointer_to_string_simps)

lemma pointer_to_string_inj: "pointer_to_string p = pointer_to_string q \<longleftrightarrow> p = q"
  by (metis pointer_split_to_string sum.inject(2))

lemma put_all_ok: "map_ok m \<Longrightarrow> map_ok (put_all P xs m)"
  unfolding put_all_def by (induction xs arbitrary: m) (auto simp: map_ok_put)

lemma put_all_map:
  "map_of (put_all [] xs m) = map_of m ++ map_of (rev (map (apfst pointer_to_string) xs))"
  unfolding put_all_def by (induction xs arbitrary: m) (auto simp: map_add_upd_left)

section \<open>Parts of a value\<close>

text \<open>
  \<open>partial S j w\<close>: the value \<open>w\<close> is what \<open>unflatten\<close> has made of \<open>j\<close> after the paths in \<open>S\<close>. Elements of
  an array without any path yet may be missing at the end or null in between.
\<close>

definition below :: "string \<Rightarrow> string list set \<Rightarrow> string list set" where
  "below t S = {p. t # p \<in> S}"

lemma below_simps [simp]:
  "below t {} = {}" "p \<in> below t S \<longleftrightarrow> t # p \<in> S"
  "below t (insert (t # p) S) = insert p (below t S)"
  "t \<noteq> u \<Longrightarrow> below t (insert (u # p) S) = below t S"
  by (auto simp: below_def)

function partial :: "string list set \<Rightarrow> 'f json \<Rightarrow> 'f json \<Rightarrow> bool" where
  "partial S j w \<longleftrightarrow>
     (if S = {} then w = JNull
      else
        (case j of
           JArray vs \<Rightarrow>
             (\<exists>us. w = JArray us \<and> length us \<le> length vs \<and>
               (\<forall>i < length vs. if i < length us then partial (below (nat_digits i) S) (vs ! i) (us ! i)
                 else below (nat_digits i) S = {}))
         | JObject m \<Rightarrow>
             (\<exists>n. w = JObject n \<and> map_ok n \<and> fst ` set n \<subseteq> fst ` set m \<and>
               (\<forall>(k, v) \<in> set m. case map_of n k of
                   None \<Rightarrow> below k S = {}
                 | Some u \<Rightarrow> below k S \<noteq> {} \<and> partial (below k S) v u))
         | _ \<Rightarrow> w = j))"
  by pat_completeness auto

lemma size_nth: "i < length vs \<Longrightarrow> size (vs ! i) < Suc (size_list size vs)"
  by (simp add: less_Suc_eq_le size_list_estimation' [OF nth_mem order_refl])

lemma size_member: "(k, v) \<in> set m \<Longrightarrow> size v < Suc (size_list (size_prod (\<lambda>_. 0) size) m)"
  by (induction m) auto

termination partial
  by (relation "measure (\<lambda>(S, j, w). size j)") (auto dest: size_nth size_member)

declare partial.simps [simp del]

lemma partial_empty [simp]: "partial {} j w \<longleftrightarrow> w = JNull"
  by (simp add: partial.simps)

lemma partial_arrayI:
  assumes "S \<noteq> {}" and "length us \<le> length vs"
    and "\<And>i. i < length vs \<Longrightarrow> if i < length us then partial (below (nat_digits i) S) (vs ! i) (us ! i)
      else below (nat_digits i) S = {}"
  shows "partial S (JArray vs) (JArray us)"
  using assms by (simp add: partial.simps [of S])

lemma partial_objectI:
  assumes "S \<noteq> {}" and "map_ok n" and "fst ` set n \<subseteq> fst ` set m"
    and "\<And>k v. (k, v) \<in> set m \<Longrightarrow> (case map_of n k of
      None \<Rightarrow> below k S = {} | Some u \<Rightarrow> below k S \<noteq> {} \<and> partial (below k S) v u)"
  shows "partial S (JObject m) (JObject n)"
  using assms by (simp add: partial.simps [of S] case_prod_beta)

section \<open>Values that can be restored\<close>

text \<open>
  Empty containers are flattened to null, as documented, and an object with the key \<open>0\<close> may come back
  as an array, which is not; discarded values are no values.
\<close>

fun flat_ok :: "'f json \<Rightarrow> bool" where
  "flat_ok (JArray vs) \<longleftrightarrow> vs \<noteq> [] \<and> length vs < 2 ^ 64 \<and> (\<forall>v \<in> set vs. flat_ok v)"
| "flat_ok (JObject m) \<longleftrightarrow>
     m \<noteq> [] \<and> map_ok m \<and> ''0'' \<notin> fst ` set m \<and> (\<forall>(k, v) \<in> set m. flat_ok v)"
| "flat_ok JDiscarded \<longleftrightarrow> False"
| "flat_ok _ \<longleftrightarrow> True"

definition paths :: "'f json \<Rightarrow> string list set" where
  "paths j = fst ` set (leaves j)"

lemma paths_iff: "p \<in> paths j \<longleftrightarrow> (\<exists>x. (p, x) \<in> set (leaves j))"
  by (force simp: paths_def)

lemma apfst_Cons_iff [simp]: "(p, x) \<in> apfst (Cons t) ` A \<longleftrightarrow> (\<exists>q. p = t # q \<and> (q, x) \<in> A)"
  by force

lemma element_leaves_iff:
  "(p, x) \<in> set (element_leaves i vs) \<longleftrightarrow>
    (\<exists>n q. p = nat_digits (i + n) # q \<and> n < length vs \<and> (q, x) \<in> set (leaves (vs ! n)))"
proof (induction vs arbitrary: i)
  case (Cons v vs)
  have "(\<exists>n q. p = nat_digits (i + n) # q \<and> n < length (v # vs) \<and> (q, x) \<in> set (leaves ((v # vs) ! n))) \<longleftrightarrow>
      (\<exists>q. p = nat_digits i # q \<and> (q, x) \<in> set (leaves v)) \<or>
      (\<exists>n q. p = nat_digits (Suc i + n) # q \<and> n < length vs \<and> (q, x) \<in> set (leaves (vs ! n)))"
    (is "?l \<longleftrightarrow> ?a \<or> ?b")
  proof
    assume ?l
    then obtain n q where "p = nat_digits (i + n) # q" "n < length (v # vs)" "(q, x) \<in> set (leaves ((v # vs) ! n))" by blast
    then show "?a \<or> ?b" by (cases n) auto
  next
    assume "?a \<or> ?b"
    then show ?l
    proof
      assume ?a
      then show ?l by (intro exI [of _ 0]) auto
    next
      assume ?b
      then obtain n q where "p = nat_digits (Suc i + n) # q" "n < length vs" "(q, x) \<in> set (leaves (vs ! n))" by blast
      then show ?l by (intro exI [of _ "Suc n"]) auto
    qed
  qed
  with Cons show ?case by auto
qed simp

lemma leaves_array:
  "vs \<noteq> [] \<Longrightarrow> (p, x) \<in> set (leaves (JArray vs)) \<longleftrightarrow>
    (\<exists>n q. p = nat_digits n # q \<and> n < length vs \<and> (q, x) \<in> set (leaves (vs ! n)))"
  using element_leaves_iff [of p x 0 vs] by simp

lemma leaves_object:
  "m \<noteq> [] \<Longrightarrow> (p, x) \<in> set (leaves (JObject m)) \<longleftrightarrow>
    (\<exists>k v q. p = k # q \<and> (k, v) \<in> set m \<and> (q, x) \<in> set (leaves v))"
proof -
  have "(p, x) \<in> set (member_leaves m) \<longleftrightarrow> (\<exists>k v q. p = k # q \<and> (k, v) \<in> set m \<and> (q, x) \<in> set (leaves v))"
    by (induction m) (auto, blast)
  then show "m \<noteq> [] \<Longrightarrow> ?thesis" by simp
qed

lemma digits_inj [simp]: "nat_digits m = nat_digits n \<longleftrightarrow> m = n"
  by (metis digits_nat_nat_digits)

lemma below_paths_array:
  "vs \<noteq> [] \<Longrightarrow> n < length vs \<Longrightarrow> below (nat_digits n) (paths (JArray vs)) = paths (vs ! n)"
  by (rule set_eqI) (simp add: paths_iff leaves_array del: leaves.simps)

lemma below_paths_object:
  assumes "map_ok m" and "(k, v) \<in> set m"
  shows "below k (paths (JObject m)) = paths v"
proof -
  have "(k, v') \<in> set m \<longleftrightarrow> v' = v" for v'
    using assms by (meson eq_key_imp_eq_value strict_sorted_iff)
  moreover have "m \<noteq> []" using assms(2) by auto
  ultimately show ?thesis by (intro set_eqI) (simp add: paths_iff leaves_object del: leaves.simps)
qed

lemma paths_nonempty: "flat_ok j \<Longrightarrow> paths j \<noteq> {}"
proof (induction j rule: flat_ok.induct)
  case (1 vs)
  then obtain v us where "vs = v # us" by (cases vs) auto
  with 1 show ?case by (auto simp: paths_def)
next
  case (2 m)
  then obtain k v n where "m = (k, v) # n" by (cases m) auto
  with 2 show ?case by (auto simp: paths_def)
qed (simp_all add: paths_def)

lemma leaves_primitive: "flat_ok j \<Longrightarrow> (p, x) \<in> set (leaves j) \<Longrightarrow> is_primitive x"
proof (induction p arbitrary: j)
  case Nil
  then show ?case by (cases j) (auto simp: leaves_array leaves_object is_primitive_def simp del: leaves.simps(1,2))
next
  case (Cons t p)
  show ?case
  proof (cases j)
    case (JArray vs)
    with Cons(2,3) obtain n where "n < length vs" "(p, x) \<in> set (leaves (vs ! n))"
      by (auto simp: leaves_array simp del: leaves.simps(1,2))
    with Cons.IH [of "vs ! n"] Cons(2) JArray show ?thesis by simp
  next
    case (JObject m)
    with Cons(2,3) obtain k v where "(k, v) \<in> set m" "(p, x) \<in> set (leaves v)"
      by (auto simp: leaves_object simp del: leaves.simps(1,2))
    with Cons.IH [of v] Cons(2) JObject show ?thesis by fastforce
  qed (use Cons in auto)
qed

section \<open>One path at a time\<close>

text \<open>A container without any path yet is started by the right token.\<close>

definition starts :: "string list set \<Rightarrow> string list \<Rightarrow> 'f json \<Rightarrow> bool" where
  "starts S p j \<longleftrightarrow>
     (\<forall>q t r vs. p = q @ t # r \<longrightarrow> get_checked q j = Inr (JArray vs) \<longrightarrow> (\<forall>s. q @ s \<notin> S) \<longrightarrow> t = ''0'')"

lemma starts_element:
  assumes "starts S (nat_digits n # r) (JArray vs)" and "n < length vs" and "length vs < 2 ^ 64"
  shows "starts (below (nat_digits n) S) r (vs ! n)"
  unfolding starts_def
proof (intro allI impI)
  fix q t r' us
  assume "r = q @ t # r'" "get_checked q (vs ! n) = Inr (JArray us)" "\<forall>s. q @ s \<notin> below (nat_digits n) S"
  then show "t = ''0''"
    using assms(1) [unfolded starts_def, rule_format, of "nat_digits n # q" t r' us] assms(2,3)
    by (simp add: nat_digits_not_dash at_index_def)
qed

lemma starts_member:
  assumes "starts S (k # r) (JObject m)" and "map_ok m" and "(k, v) \<in> set m"
  shows "starts (below k S) r v"
  unfolding starts_def
proof (intro allI impI)
  fix q t r' us
  assume "r = q @ t # r'" "get_checked q v = Inr (JArray us)" "\<forall>s. q @ s \<notin> below k S"
  moreover have "map_of m k = Some v" using assms(2,3) by (simp add: strict_sorted_iff)
  ultimately show "t = ''0''"
    using assms(1) [unfolded starts_def, rule_format, of "k # q" t r' us] by (simp add: at_key_def)
qed

lemma digits_0 [simp]: "nat_digits n = ''0'' \<longleftrightarrow> n = 0"
proof -
  have "nat_digits 0 = ''0''" by (simp add: nat_digits.simps [of 0] digit_char_numerals)
  then show ?thesis using digits_inj [of n 0] by simp
qed

lemma step_array:
  fixes vs :: "'f json list"
  assumes "partial S (JArray vs) w" and n: "n < length vs" "length vs < 2 ^ 64"
    and st: "S = {} \<longrightarrow> n = 0"
    and child: "\<And>u. partial (below (nat_digits n) S) (vs ! n) u \<Longrightarrow>
      \<exists>u'. modify_create r x u = Inr u' \<and> partial (insert r (below (nat_digits n) S)) (vs ! n) u'"
  shows "\<exists>w'. modify_create (nat_digits n # r) x w = Inr w' \<and> partial (insert (nat_digits n # r) S) (JArray vs) w'"
proof (cases "S = {}")
  case True
  with st have n0: "n = 0" by simp
  from child [of JNull] True obtain u' where u': "modify_create r x JNull = Inr u'" "partial {r} (vs ! n) u'" by auto
  have "w = JNull" using assms(1) True by simp
  then have "modify_create (nat_digits n # r) x w = Inr (JArray [u'])" using u' n0 by simp
  moreover have "partial (insert (nat_digits n # r) S) (JArray vs) (JArray [u'])"
    using u'(2) n n0 True by (auto simp: partial.simps [of _ "JArray vs"] Suc_le_eq)
  ultimately show ?thesis by blast
next
  case False
  from assms(1) False obtain us where w: "w = JArray us" and l: "length us \<le> length vs"
    and p: "\<forall>i < length vs. if i < length us then partial (below (nat_digits i) S) (vs ! i) (us ! i)
      else below (nat_digits i) S = {}"
    by (auto simp: partial.simps [of _ "JArray vs"])
  let ?us = "fill_to n us"
  have fill: "length ?us = max (length us) (n + 1)"
    "\<And>i. i < length ?us \<Longrightarrow> ?us ! i = (if i < length us then us ! i else JNull)"
    by (auto simp: fill_to_def nth_append)
  have at: "partial (below (nat_digits i) S) (vs ! i) (?us ! i)" if "i < length ?us" for i
    using p that fill n(1) l by (auto split: if_splits)
  have "n < length ?us" by (simp add: fill(1) less_max_iff_disj)
  from child [OF at [OF this]] obtain u' where u': "modify_create r x (?us ! n) = Inr u'"
    "partial (insert r (below (nat_digits n) S)) (vs ! n) u'" by blast
  have "modify_create (nat_digits n # r) x w = Inr (JArray (?us[n := u']))"
    using w u'(1) n by (simp add: Let_def)
  moreover have "partial (insert (nat_digits n # r) S) (JArray vs) (JArray (?us[n := u']))"
  proof -
    have "if i < length (?us[n := u']) then partial (below (nat_digits i) (insert (nat_digits n # r) S)) (vs ! i) (?us[n := u'] ! i)
        else below (nat_digits i) (insert (nat_digits n # r) S) = {}" if "i < length vs" for i
      using that at [of i] u'(2) p fill(1) by (cases "i = n") auto
    from partial_arrayI [OF _ _ this] show ?thesis using fill(1) l n(1) by simp
  qed
  ultimately show ?thesis by blast
qed

lemma step_object:
  assumes "partial S (JObject m) w" and m: "map_ok m" "(k, v) \<in> set m" "k \<noteq> ''0''"
    and child: "\<And>u. partial (below k S) v u \<Longrightarrow>
      \<exists>u'. modify_create r x u = Inr u' \<and> partial (insert r (below k S)) v u'"
  shows "\<exists>w'. modify_create (k # r) x w = Inr w' \<and> partial (insert (k # r) S) (JObject m) w'"
proof -
  have same: "v' = v" if "(k, v') \<in> set m" for v'
    using that m by (meson eq_key_imp_eq_value strict_sorted_iff)
  show ?thesis
  proof (cases "S = {}")
    case True
    from child [of JNull] True obtain u' where u': "modify_create r x JNull = Inr u'" "partial {r} v u'" by auto
    have "w = JNull" using assms(1) True by simp
    then have "modify_create (k # r) x w = Inr (JObject [(k, u')])" using u' m(3) by simp
    moreover have "partial (insert (k # r) S) (JObject m) (JObject [(k, u')])"
    proof -
      have "case map_of [(k, u')] k' of None \<Rightarrow> below k' (insert (k # r) S) = {}
          | Some u \<Rightarrow> below k' (insert (k # r) S) \<noteq> {} \<and> partial (below k' (insert (k # r) S)) v' u"
        if "(k', v') \<in> set m" for k' v'
        using that u'(2) same True by (cases "k' = k") auto
      moreover have "k \<in> fst ` set m" using m(2) by force
      ultimately show ?thesis by (intro partial_objectI) simp_all
    qed
    ultimately show ?thesis by blast
  next
    case False
    from assms(1) False obtain n where w: "w = JObject n" and n: "map_ok n" "fst ` set n \<subseteq> fst ` set m"
      and p: "\<forall>(k, v) \<in> set m. case map_of n k of None \<Rightarrow> below k S = {}
        | Some u \<Rightarrow> below k S \<noteq> {} \<and> partial (below k S) v u"
      by (auto simp: partial.simps [of _ "JObject m"])
    let ?u = "case map_of n k of Some u \<Rightarrow> u | None \<Rightarrow> JNull"
    have "partial (below k S) v ?u" using p m(2) by (cases "map_of n k") fastforce+
    from child [OF this] obtain u' where u': "modify_create r x ?u = Inr u'" "partial (insert r (below k S)) v u'" by auto
    have "modify_create (k # r) x w = Inr (JObject (map_put k u' n))" using w u'(1) by simp
    moreover have "partial (insert (k # r) S) (JObject m) (JObject (map_put k u' n))"
    proof -
      have "case map_of (map_put k u' n) k' of None \<Rightarrow> below k' (insert (k # r) S) = {}
          | Some u \<Rightarrow> below k' (insert (k # r) S) \<noteq> {} \<and> partial (below k' (insert (k # r) S)) v' u"
        if kv: "(k', v') \<in> set m" for k' v'
      proof (cases "k' = k")
        case True
        then show ?thesis using u'(2) same kv by auto
      next
        case False
        then show ?thesis using bspec [OF p kv] by (simp split: option.splits)
      qed
      moreover have "k \<in> fst ` set m" using m(2) by force
      then have "fst ` set (map_put k u' n) \<subseteq> fst ` set m" using n(2) by simp
      ultimately show ?thesis by (intro partial_objectI map_ok_put [OF n(1)]) simp_all
    qed
    ultimately show ?thesis by blast
  qed
qed

lemma partial_put_step:
  "partial S j w \<Longrightarrow> flat_ok j \<Longrightarrow> (p, x) \<in> set (leaves j) \<Longrightarrow> p \<notin> S \<Longrightarrow> S \<subseteq> paths j \<Longrightarrow> starts S p j \<Longrightarrow>
    \<exists>w'. modify_create p x w = Inr w' \<and> partial (insert p S) j w'"
proof (induction p arbitrary: S j w)
  case Nil
  from Nil(2,3) have j: "paths j = {[]}" "x = j" "is_primitive j"
    by (cases j; auto simp: leaves_array leaves_object paths_def is_primitive_def simp del: leaves.simps(1,2))+
  with Nil(4,5) have "S = {}" by auto
  then show ?case using j(2,3) by (cases j) (auto simp: partial.simps is_primitive_def)
next
  case (Cons t r)
  show ?case
  proof (cases j)
    case (JArray vs)
    with Cons(3,4) obtain n where t: "t = nat_digits n" and n: "n < length vs" and leaf: "(r, x) \<in> set (leaves (vs ! n))"
      and ok: "flat_ok (vs ! n)" "vs \<noteq> []" "length vs < 2 ^ 64"
      by (auto simp: leaves_array simp del: leaves.simps(1,2))
    have "S = {} \<longrightarrow> n = 0"
      using Cons(7) [unfolded starts_def, rule_format, of "[]" t r vs] JArray t by auto
    moreover have "\<exists>u'. modify_create r x u = Inr u' \<and> partial (insert r (below t S)) (vs ! n) u'"
      if "partial (below t S) (vs ! n) u" for u
    proof (rule Cons.IH [OF that ok(1) leaf])
      show "r \<notin> below t S" using Cons(5) by simp
      show "below t S \<subseteq> paths (vs ! n)"
        using Cons(6) below_paths_array [OF ok(2) n] JArray t by (auto simp: below_def)
      show "starts (below t S) r (vs ! n)" using starts_element [of S n r vs] Cons(7) JArray t n ok(3) by simp
    qed
    ultimately show ?thesis using step_array [of S vs w n r x] Cons(2) JArray t n ok(3) by simp
  next
    case (JObject m)
    with Cons(3,4) obtain v where v: "(t, v) \<in> set m" and leaf: "(r, x) \<in> set (leaves v)"
      by (auto simp: leaves_object simp del: leaves.simps(1,2))
    have ok: "map_ok m" "flat_ok v" "t \<noteq> ''0''" using Cons(3) JObject v by force+
    have "\<exists>u'. modify_create r x u = Inr u' \<and> partial (insert r (below t S)) v u'"
      if "partial (below t S) v u" for u
    proof (rule Cons.IH [OF that ok(2) leaf])
      show "r \<notin> below t S" using Cons(5) by simp
      show "below t S \<subseteq> paths v"
        using Cons(6) below_paths_object [OF ok(1) v] JObject by (auto simp: below_def)
      show "starts (below t S) r v" using starts_member [of S t r m v] Cons(7) JObject v ok(1) by simp
    qed
    then show ?thesis using step_object [of S m w t v r x] Cons(2) JObject v ok(1,3) by simp
  qed (use Cons in auto)
qed

section \<open>All paths\<close>

lemma paths_at:
  "flat_ok j \<Longrightarrow> get_checked q j = Inr v \<Longrightarrow> flat_ok v \<and> (\<forall>s. q @ s \<in> paths j \<longleftrightarrow> s \<in> paths v)"
proof (induction q arbitrary: j)
  case (Cons t q)
  show ?case
  proof (cases j)
    case (JArray vs)
    with Cons(3) obtain i where i: "array_index t = Inr i" "i < length vs" "get_checked q (vs ! i) = Inr v"
      by (auto simp: bind_result_Inr_iff at_index_def split: if_splits)
    then have t: "t = nat_digits i" by (simp add: array_index_Inr)
    from Cons(2) JArray i(2) have "flat_ok (vs ! i)" "vs \<noteq> []" by auto
    from Cons.IH [OF this(1) i(3)] below_paths_array [OF this(2) i(2)] show ?thesis
      unfolding JArray t below_def by auto
  next
    case (JObject m)
    with Cons(3) obtain u where u: "map_of m t = Some u" "get_checked q u = Inr v"
      by (auto simp: bind_result_Inr_iff at_key_def split: option.splits)
    have m: "(t, u) \<in> set m" using u(1) by (rule map_of_SomeD)
    from Cons(2) JObject m have "flat_ok u" "map_ok m" by auto
    from Cons.IH [OF this(1) u(2)] below_paths_object [OF this(2) m] show ?thesis
      unfolding JObject below_def by auto
  qed (use Cons in auto)
qed simp

lemma map_ok_ext:
  assumes "map_ok m" and "map_ok n" and "\<And>k. map_of m k = map_of n k"
  shows "m = n"
proof -
  have d: "distinct (map fst m)" "distinct (map fst n)" "sorted (map fst m)" "sorted (map fst n)"
    using assms(1,2) by (simp_all add: strict_sorted_iff)
  have "map_of m k = Some v \<longleftrightarrow> map_of n k = Some v" for k v using assms(3) by simp
  then have "set m = set n" using d(1,2) by auto
  then show ?thesis using d by (intro map_sorted_distinct_set_unique [of fst]) (auto intro: inj_onI simp: distinct_map inj_on_def)
qed

lemma partial_all: "flat_ok j \<Longrightarrow> partial (paths j) j w \<Longrightarrow> w = j"
proof (induction j arbitrary: w rule: flat_ok.induct)
  case (1 vs)
  have ne: "paths (JArray vs) \<noteq> {}" using paths_nonempty [OF 1(2)] .
  have vs: "vs \<noteq> []" "\<And>i. i < length vs \<Longrightarrow> flat_ok (vs ! i)" using 1(2) by auto
  from 1(3) ne obtain us where us: "w = JArray us" "length us \<le> length vs"
    "\<forall>i < length vs. if i < length us then partial (below (nat_digits i) (paths (JArray vs))) (vs ! i) (us ! i)
      else below (nat_digits i) (paths (JArray vs)) = {}"
    by (auto simp: partial.simps [of "paths (JArray vs)"])
  then have at: "if i < length us then partial (paths (vs ! i)) (vs ! i) (us ! i) else paths (vs ! i) = {}"
    if "i < length vs" for i
    using that below_paths_array [OF vs(1) that] by metis
  have len: "length us = length vs"
  proof (rule ccontr)
    assume "length us \<noteq> length vs"
    then show False using us(2) at [of "length us"] paths_nonempty [OF vs(2)] by auto
  qed
  have "us ! i = vs ! i" if "i < length vs" for i
    using 1(1) [OF nth_mem [OF that] vs(2) [OF that]] at [OF that] that len by simp
  then show ?case using us(1) len by (simp add: list_eq_iff_nth_eq)
next
  case (2 m)
  have ok: "map_ok m" "\<And>k v. (k, v) \<in> set m \<Longrightarrow> flat_ok v" using 2(2) by auto
  from 2(3) paths_nonempty [OF 2(2)] obtain n where n: "w = JObject n" "map_ok n" "fst ` set n \<subseteq> fst ` set m"
    and at: "\<forall>(k, v) \<in> set m. case map_of n k of None \<Rightarrow> below k (paths (JObject m)) = {}
      | Some u \<Rightarrow> below k (paths (JObject m)) \<noteq> {} \<and> partial (below k (paths (JObject m))) v u"
    unfolding partial.simps [of "paths (JObject m)"] by auto
  have "map_of n k = map_of m k" for k
  proof (cases "map_of m k")
    case None
    then have "k \<notin> fst ` set n" using n(3) by (auto simp: map_of_eq_None_iff)
    then have "map_of n k = None" by (simp add: map_of_eq_None_iff)
    then show ?thesis using None by simp
  next
    case (Some v)
    then have kv: "(k, v) \<in> set m" by (rule map_of_SomeD)
    obtain u where "map_of n k = Some u" "partial (paths v) v u"
      using bspec [OF at kv] below_paths_object [OF ok(1) kv] paths_nonempty [OF ok(2) [OF kv]] by (auto split: option.splits)
    then show ?thesis using 2(1) [OF kv refl ok(2) [OF kv]] Some by simp
  qed
  then have "n = m" using n(2) ok(1) by (intro map_ok_ext) auto
  then show ?case using n(1) by simp
qed (simp_all add: paths_def partial.simps)

text \<open>The paths of element 0 come first.\<close>

lemma append_less_iff: "xs @ ys < xs @ zs \<longleftrightarrow> ys < zs" for xs ys zs :: string
  by (induction xs) simp_all

lemma pointer_to_string_append: "pointer_to_string (p @ q) = pointer_to_string p @ pointer_to_string q"
  by (induction p) (simp_all add: pointer_to_string_Cons pointer_to_string_simps)

lemma element_0_first:
  assumes "n \<noteq> 0"
  shows "pointer_to_string (q @ ''0'' # s) < pointer_to_string (q @ nat_digits n # r)"
proof -
  obtain c cs where c: "nat_digits n = c # cs" by (cases "nat_digits n") auto
  have "is_digit c" using nat_digits_all [of n] c by simp
  moreover have "c \<noteq> CHR ''0''" using nat_digits_hd_0 [of n] assms c by auto
  ultimately have "49 \<le> byte c" using digit_nonzero by blast
  moreover have "byte (CHR ''0'') = 48" by (simp add: byte_def)
  ultimately have "CHR ''0'' < c" by (simp add: less_char_def byte_def)
  then have "''0'' @ pointer_to_string s < nat_digits n @ pointer_to_string r" using c by simp
  moreover have "pointer_escape ''0'' = ''0''" by (simp add: pointer_escape_eq)
  ultimately show ?thesis
    by (simp add: pointer_to_string_append append_less_iff pointer_to_string_Cons)
qed

lemma flat_entries:
  assumes "flat_ok j"
  shows "(k, x) \<in> set (put_all [] (leaves j) []) \<Longrightarrow> \<exists>p. k = pointer_to_string p \<and> (p, x) \<in> set (leaves j)"
    and "p \<in> paths j \<Longrightarrow> \<exists>x. (pointer_to_string p, x) \<in> set (put_all [] (leaves j) [])"
proof -
  let ?M = "put_all [] (leaves j) []"
  have ok: "map_ok ?M" by (rule put_all_ok) simp
  have m: "map_of ?M = map_of (rev (map (apfst pointer_to_string) (leaves j)))" by (simp add: put_all_map)
  show "\<exists>p. k = pointer_to_string p \<and> (p, x) \<in> set (leaves j)" if "(k, x) \<in> set ?M"
  proof -
    have "map_of ?M k = Some x" using that ok by (simp add: strict_sorted_iff)
    then have "(k, x) \<in> set (map (apfst pointer_to_string) (leaves j))" unfolding m by (auto dest: map_of_SomeD)
    then show ?thesis by auto
  qed
  show "\<exists>x. (pointer_to_string p, x) \<in> set ?M" if "p \<in> paths j"
  proof -
    obtain x where "(p, x) \<in> set (leaves j)" using \<open>p \<in> paths j\<close> by (auto simp: paths_iff)
    then have "(pointer_to_string p, x) \<in> set (rev (map (apfst pointer_to_string) (leaves j)))" by force
    then obtain y where "map_of ?M (pointer_to_string p) = Some y" unfolding m by (metis weak_map_of_SomeI)
    then show ?thesis by (auto dest: map_of_SomeD)
  qed
qed

text \<open>At every step the paths before it in the order of the texts are done.\<close>

lemma unflatten_loop:
  assumes j: "flat_ok j" and m: "put_all [] (leaves j) [] = done @ todo"
    and p: "partial {p \<in> paths j. pointer_to_string p \<in> fst ` set done} j w"
  shows "unflatten_members todo w = Inr j"
  using m p
proof (induction todo arbitrary: "done" w)
  case Nil
  have "{p \<in> paths j. pointer_to_string p \<in> fst ` set done} = paths j"
    using flat_entries(2) [OF j] Nil(1) by force
  with Nil(2) partial_all [OF j] show ?case by simp
next
  case (Cons e todo)
  let ?S = "{p \<in> paths j. pointer_to_string p \<in> fst ` set done}"
  have "map_ok (put_all [] (leaves j) [])" by (rule put_all_ok) simp
  then have sorted: "sorted_wrt (<) (map fst (done @ e # todo))" using Cons(2) by simp
  obtain p x where e: "e = (pointer_to_string p, x)" "(p, x) \<in> set (leaves j)"
    using flat_entries(1) [OF j, of "fst e" "snd e"] Cons(2) by (cases e) auto
  have less: "k \<in> fst ` set done" if "k < pointer_to_string p" "k \<in> fst ` set (done @ e # todo)" for k
    using that sorted e(1) by (auto simp: sorted_wrt_append)
  have new: "p \<notin> ?S" using sorted e(1) by (auto simp: sorted_wrt_append)
  have "starts ?S p j"
    unfolding starts_def
  proof (intro allI impI)
    fix q t r vs
    assume p: "p = q @ t # r" and q: "get_checked q j = Inr (JArray vs)" and none: "\<forall>s. q @ s \<notin> ?S"
    from paths_at [OF j q] have vs: "vs \<noteq> []" "\<And>s. q @ s \<in> paths j \<longleftrightarrow> s \<in> paths (JArray vs)"
      and ok: "flat_ok (vs ! 0)" by auto
    have "p \<in> paths j" using e(2) by (auto simp: paths_iff)
    then have "t # r \<in> paths (JArray vs)" using vs(2) p by simp
    then obtain n where t: "t = nat_digits n" by (auto simp: paths_iff leaves_array [OF vs(1)] simp del: leaves.simps)
    show "t = ''0''"
    proof (rule ccontr)
      assume "t \<noteq> ''0''"
      then have n: "n \<noteq> 0" using t by simp
      obtain s where "s \<in> paths (vs ! 0)" using paths_nonempty [OF ok] by blast
      then have "nat_digits 0 # s \<in> paths (JArray vs)"
        using below_paths_array [of vs 0] vs(1) by (auto simp: below_def)
      then have s: "q @ ''0'' # s \<in> paths j" using vs(2) digits_0 [of 0, THEN iffD2, OF refl] by simp
      have "pointer_to_string (q @ ''0'' # s) < pointer_to_string p" using element_0_first [OF n] p t by simp
      moreover have "pointer_to_string (q @ ''0'' # s) \<in> fst ` set (done @ e # todo)"
        using flat_entries(2) [OF j s] Cons(2) by force
      ultimately have "q @ ''0'' # s \<in> ?S" using less s by simp
      with none show False by blast
    qed
  qed
  from partial_put_step [OF Cons(3) j e(2) new _ this] obtain w' where w': "modify_create p x w = Inr w'"
    "partial (insert p ?S) j w'" by blast
  have "p \<in> paths j" using e(2) by (auto simp: paths_iff)
  then have "insert p ?S = {q \<in> paths j. pointer_to_string q \<in> fst ` set (done @ [e])}"
    using e(1) by (auto simp: pointer_to_string_inj)
  then have "unflatten_members todo w' = Inr j" using Cons.IH [of "done @ [e]" w'] Cons(2) w'(2) by simp
  then show ?case using w'(1) e leaves_primitive [OF j e(2)] by simp
qed

lemma unflatten_flatten: "flat_ok j \<Longrightarrow> unflatten (flatten j) = Inr j"
  using unflatten_loop [of j "[]" "put_all [] (leaves j) []" JNull] by (simp add: unflatten_def flatten_leaves)

section \<open>Properties\<close>

text \<open>
  C25: A flattened value can be restored, whatever its keys contain and however deep and long its arrays are,
  although \<open>unflatten\<close> meets the paths in the order of their texts (element 10 before element 2) and has to guess
  from the first token whether a container is an array. The hypothesis excludes empty containers, as
  the documentation does, and objects with a key \<open>0\<close>, which it does not.
\<close>

theorem flatten_roundtrip:
  assumes "flat_ok j"
  shows "unflatten (flatten j) = Inr j"
  using assms by (rule unflatten_flatten)

theorem flatten_roundtrip_witness:
  "unflatten (flatten (JObject [(''a/b'', JArray (replicate 12 (JInteger 1) @ [JArray [JNull, JString ''x'']]))])) =
    Inr (JObject [(''a/b'', JArray (replicate 12 (JInteger 1) @ [JArray [JNull, JString ''x'' :: nat json]]))])"
  by (rule flatten_roundtrip) simp

text \<open>
  Without that hypothesis it fails: an object whose only key is \<open>0\<close> comes back as an array, and with a further
  key the exception of \<open>std::stoull\<close> escapes.
\<close>

theorem flatten_key_0:
  assumes "is_primitive v" and "is_primitive u"
  shows "unflatten (flatten (JObject [(''0'', v)])) = Inr (JArray [v]) \<and>
    unflatten (flatten (JObject [(''0'', v), (''a'', u)])) = Inl Std_invalid_argument"
proof -
  have f: "flatten_into s w m = map_put s w m" if "is_primitive w" for s m and w :: "'a json"
    using that by (cases w) (simp_all add: is_primitive_def)
  have e: "pointer_escape ''0'' = ''0''" "pointer_escape ''a'' = ''a''" by (simp_all add: pointer_escape_eq)
  have s: "pointer_split ''/0'' = Inr [''0'']" "pointer_split ''/a'' = Inr [''a'']"
    using pointer_split_to_string [of "[''0'']"] pointer_split_to_string [of "[''a'']"]
    by (simp_all add: pointer_to_string_Cons pointer_to_string_simps e)
  have "array_index ''a'' = Inl Std_invalid_argument" by (simp add: array_index_def is_digit_def byte_def)
  moreover have "\<not> ''/a'' < ''/0''" by (simp add: less_char_def)
  ultimately show ?thesis
    using assms by (simp add: flatten_def unflatten_def f e s)
qed

theorem flatten_key_0_witness:
  "unflatten (flatten (JObject [(''0'', JInteger 1)])) = Inr (JArray [JInteger 1 :: nat json]) \<and>
    unflatten (flatten (JObject [(''0'', JInteger 1), (''a'', JInteger 2 :: nat json)])) = Inl Std_invalid_argument"
  by (rule flatten_key_0) (simp_all add: is_primitive_def)

end
