(* ===== verification/Binary_Numbers.thy ===== *)
theory Binary_Numbers
  imports Json_Patch
begin

text \<open>
  What the readers and writers of the binary formats share: numbers in network byte order, strings
  of a given length, the reading of one byte (\<open>get\<close>, with end of input), and the conversions of
  \<open>double\<close>, which are arguments. Bytes are numbers below 256. Exceptions are on, as by default.
\<close>

section \<open>Numbers\<close>

fun be_bytes :: "nat \<Rightarrow> nat \<Rightarrow> nat list" where
  "be_bytes 0 v = []"
| "be_bytes (Suc n) v = v div 256 ^ n mod 256 # be_bytes n v"

fun get_number_from :: "nat \<Rightarrow> nat \<Rightarrow> nat list \<Rightarrow> (json_error, nat \<times> nat list) result" where
  "get_number_from acc 0 rest = Inr (acc, rest)"
| "get_number_from acc (Suc n) [] = Inl (Parse_error 110)"
| "get_number_from acc (Suc n) (b # rest) = get_number_from (acc * 256 + b) n rest"

definition get_number :: "nat \<Rightarrow> nat list \<Rightarrow> (json_error, nat \<times> nat list) result" where
  "get_number n rest = get_number_from 0 n rest"

fun get_bytes :: "nat \<Rightarrow> nat list \<Rightarrow> (json_error, nat list \<times> nat list) result" where
  "get_bytes 0 rest = Inr ([], rest)"
| "get_bytes (Suc n) [] = Inl (Parse_error 110)"
| "get_bytes (Suc n) (b # rest) = bind_result (get_bytes n rest) (\<lambda>(bs, r). Inr (b # bs, r))"

text \<open>\<open>get\<close>: the next byte, or the end of the input.\<close>

fun get_byte :: "nat list \<Rightarrow> nat option \<times> nat list" where
  "get_byte [] = (None, [])"
| "get_byte (b # rest) = (Some b, rest)"

lemma length_be_bytes [simp]: "length (be_bytes n v) = n"
  by (induction n) simp_all

lemma get_number_from_be:
  "get_number_from a n (be_bytes n v @ r) = Inr (a * 256 ^ n + v mod 256 ^ n, r)"
proof (induction n arbitrary: a)
  case (Suc n)
  have "v mod 256 ^ Suc n = v div 256 ^ n mod 256 * 256 ^ n + v mod 256 ^ n"
    using mod_mult2_eq [of v "256 ^ n" 256] by (simp add: mult.commute)
  with Suc show ?case by (simp add: algebra_simps)
qed simp

lemma get_number_be [simp]: "v < 256 ^ n \<Longrightarrow> get_number n (be_bytes n v @ r) = Inr (v, r)"
  by (simp add: get_number_def get_number_from_be)

lemma get_number_1 [simp]: "get_number 1 (b # r) = Inr (b, r)" "get_number (Suc 0) (b # r) = Inr (b, r)"
  by (simp_all add: get_number_def)

lemma get_bytes_append [simp]: "get_bytes (length bs) (bs @ r) = Inr (bs, r)"
  by (induction bs) simp_all

lemma get_number_from_length: "get_number_from a n rest = Inr (v, r) \<Longrightarrow> length rest = n + length r"
  by (induction a n rest rule: get_number_from.induct) auto

lemma get_number_length: "get_number n rest = Inr (v, r) \<Longrightarrow> length rest = n + length r"
  unfolding get_number_def by (rule get_number_from_length)

lemma get_bytes_length: "get_bytes n rest = Inr (bs, r) \<Longrightarrow> length rest = n + length r \<and> length bs = n"
  by (induction n rest arbitrary: bs rule: get_bytes.induct) (auto simp: bind_result_Inr_iff)

lemma get_byte_length: "get_byte rest = (c, r) \<Longrightarrow> length r + (case c of None \<Rightarrow> 0 | Some _ \<Rightarrow> 1) = length rest"
  by (cases rest) auto

lemma get_byte_le: "length (snd (get_byte rest)) \<le> length rest"
  by (cases rest) auto

lemma get_byte_measure:
  "2 * length (snd (get_byte r)) + (if fst (get_byte r) = None then 0 else 2) \<le> 2 * length r"
  by (cases r) simp_all

lemma wrap_signed_mod:
  assumes "- (2 ^ (w - 1)) \<le> i" and "i < 2 ^ (w - 1)" and "0 < w"
  shows "wrap_signed w (i mod 2 ^ w) = i"
proof -
  have "wrap_signed w (i mod 2 ^ w) = wrap_signed w i"
    unfolding wrap_signed_def by (metis (no_types) mod_add_left_eq)
  also have "\<dots> = i" using assms by (intro wrap_signed_id) auto
  finally show ?thesis .
qed

section \<open>Floating point\<close>

record 'f float_codec =
  is_nan :: "'f \<Rightarrow> bool"
  is_inf :: "'f \<Rightarrow> bool"
  is_positive :: "'f \<Rightarrow> bool"
  single_bits :: "'f \<Rightarrow> nat option"
  double_bits :: "'f \<Rightarrow> nat"
  of_single_bits :: "nat \<Rightarrow> 'f"
  of_double_bits :: "nat \<Rightarrow> 'f"
  ldexp :: "nat \<Rightarrow> int \<Rightarrow> 'f"
  infinity :: 'f
  quiet_nan :: 'f
  negated :: "'f \<Rightarrow> 'f"

text \<open>\<open>single_bits\<close> is the bit pattern as \<open>float\<close> when the conversion to \<open>float\<close> loses nothing.\<close>

definition write_compact_float :: "'f float_codec \<Rightarrow> nat \<Rightarrow> nat \<Rightarrow> 'f \<Rightarrow> nat list" where
  "write_compact_float fc single_prefix double_prefix n =
     (case single_bits fc n of
        Some b \<Rightarrow> single_prefix # be_bytes 4 b
      | None \<Rightarrow> double_prefix # be_bytes 8 (double_bits fc n))"

text \<open>
  What the conversions promise: bit patterns have the width of their type, and the value comes back
  from them, unless it is a NaN.
\<close>

definition codec_ok :: "'f float_codec \<Rightarrow> 'f \<Rightarrow> bool" where
  "codec_ok fc f \<longleftrightarrow>
     \<not> is_nan fc f \<and>
     (\<forall>b. single_bits fc f = Some b \<longrightarrow> b < 2 ^ 32 \<and> of_single_bits fc b = f) \<and>
     double_bits fc f < 2 ^ 64 \<and> of_double_bits fc (double_bits fc f) = f \<and>
     (is_inf fc f \<longrightarrow> f = (if is_positive fc f then infinity fc else negated fc (infinity fc)))"

text \<open>The limits of \<open>std::vector\<close> and \<open>std::map\<close>, which the DOM handler checks.\<close>

record limits =
  max_array :: nat
  max_object :: nat

lemma bind_result_cong [fundef_cong]:
  "r = r' \<Longrightarrow> (\<And>a. r' = Inr a \<Longrightarrow> f a = f' a) \<Longrightarrow> bind_result r f = bind_result r' f'"
  by (cases r') (auto simp: bind_result_def)

section \<open>Longer input\<close>

text \<open>
  What a reader makes of input that goes on: unless it met the end of the input, it returns the same
  with the rest extended.
\<close>

definition extends ::
  "nat list \<Rightarrow> (json_error, 'a \<times> nat list) result \<Rightarrow> (json_error, 'a \<times> nat list) result \<Rightarrow> bool" where
  "extends x res res' \<longleftrightarrow>
     res = Inl (Parse_error 110) \<or> res' = (case res of Inl e \<Rightarrow> Inl e | Inr (v, r) \<Rightarrow> Inr (v, r @ x))"

lemma extends_Inr: "extends x (Inr (v, r)) (Inr (v, r @ x))"
  by (simp add: extends_def)

lemma extends_Inl: "extends x (Inl e) (Inl e)"
  by (simp add: extends_def)

lemma extends_eof [simp]: "extends x (Inl (Parse_error 110)) res"
  by (simp add: extends_def)

lemma extends_bind:
  assumes "extends x res res'"
    and "\<And>v r. res = Inr (v, r) \<Longrightarrow> extends x (f (v, r)) (f' (v, r @ x))"
  shows "extends x (bind_result res f) (bind_result res' f')"
  using assms by (cases res) (auto simp: extends_def)

lemma extends_if:
  "(P \<Longrightarrow> extends x a a') \<Longrightarrow> (\<not> P \<Longrightarrow> extends x b b') \<Longrightarrow>
    extends x (if P then a else b) (if P then a' else b')"
  by simp

lemma extends_option:
  assumes "rel_option (extends x) q q'"
    and "\<And>r r'. q = Some r \<Longrightarrow> extends x r r' \<Longrightarrow> extends x (f r) (f' r')"
    and "q = None \<Longrightarrow> extends x a b"
  shows "extends x (case q of None \<Rightarrow> a | Some r \<Rightarrow> f r) (case q' of None \<Rightarrow> b | Some r \<Rightarrow> f' r)"
  using assms by (cases q; cases q') auto

lemma extends_next:
  assumes "extends x (f (fst (get_byte r)) (snd (get_byte r))) (f (fst (get_byte r)) (snd (get_byte r) @ x))"
    and "f None [] = Inl (Parse_error 110)"
  shows "extends x (f (fst (get_byte r)) (snd (get_byte r)))
    (f (fst (get_byte (r @ x))) (snd (get_byte (r @ x))))"
  using assms by (cases r) simp_all

lemma extends_get_bytes: "extends x (get_bytes n rest) (get_bytes n (rest @ x))"
proof (induction n rest rule: get_bytes.induct)
  case (3 n b rest)
  then show ?case by (auto intro!: extends_bind simp: extends_Inr)
qed (simp_all add: extends_Inr)

lemma extends_get_number: "extends x (get_number n rest) (get_number n (rest @ x))"
proof -
  have "extends x (get_number_from a n rest) (get_number_from a n (rest @ x))" for a
    by (induction a n rest rule: get_number_from.induct) (simp_all add: extends_Inr)
  then show ?thesis by (simp add: get_number_def)
qed

section \<open>Documents\<close>

text \<open>
  \<open>sax_parse\<close>: one value, and with \<open>strict\<close> nothing after it. A format is a function that reads a value,
  given the byte last read (\<open>None\<close> is the end of input) and the rest.
\<close>

definition sax_parse ::
  "(nat option \<Rightarrow> nat list \<Rightarrow> (json_error, 'a \<times> nat list) result) \<Rightarrow> bool \<Rightarrow> nat list \<Rightarrow> (json_error, 'a) result"
where
  "sax_parse reader strict input =
     bind_result (reader (fst (get_byte input)) (snd (get_byte input))) (\<lambda>(v, r).
       if strict \<and> r \<noteq> [] then Inl (Parse_error 110) else Inr v)"

text \<open>What the document level asks of a format.\<close>

locale binary_format =
  fixes reader :: "nat option \<Rightarrow> nat list \<Rightarrow> (json_error, 'a \<times> nat list) result"
  assumes value_extends: "extends x (reader cur rest) (reader cur (rest @ x))"
    and value_eof: "reader None rest = Inl (Parse_error 110)"
begin

lemma document_extends:
  "extends x (reader (fst (get_byte p)) (snd (get_byte p))) (reader (fst (get_byte (p @ x))) (snd (get_byte (p @ x))))"
  by (rule extends_next) (simp_all add: value_extends value_eof)

lemma self_delimiting:
  assumes "sax_parse reader True w = Inr v"
  shows "(\<forall>p q. w = p @ q \<and> q \<noteq> [] \<longrightarrow> sax_parse reader True p = Inl (Parse_error 110)) \<and>
    (\<forall>x. x \<noteq> [] \<longrightarrow> sax_parse reader True (w @ x) = Inl (Parse_error 110))"
proof -
  have w: "reader (fst (get_byte w)) (snd (get_byte w)) = Inr (v, [])"
    using assms by (auto simp: sax_parse_def bind_result_Inr_iff split: if_split_asm)
  have "sax_parse reader True p = Inl (Parse_error 110)" if "w = p @ q" "q \<noteq> []" for p q
    using document_extends [of q p] w that
    by (cases "reader (fst (get_byte p)) (snd (get_byte p))") (auto simp: extends_def sax_parse_def)
  moreover have "sax_parse reader True (w @ x) = Inl (Parse_error 110)" if "x \<noteq> []" for x
    using document_extends [of x w] w that by (simp add: extends_def sax_parse_def)
  ultimately show ?thesis by blast
qed

end

end
