(* ===== verification/Json_Cbor.thy ===== *)
theory Json_Cbor
  imports Binary_Numbers
begin

text \<open>
  CBOR: \<open>binary_writer::write_cbor\<close> and the CBOR half of \<open>binary_reader\<close>, which builds the value
  through the DOM handler. Reading functions take the byte last read (\<open>current\<close>) where the source
  does, and return what is left of the input.
\<close>

section \<open>Writing\<close>

text \<open>The control byte with a number: in the byte itself, or in 1, 2, 4 or 8 bytes after it.\<close>

definition cbor_head :: "nat \<Rightarrow> nat \<Rightarrow> nat list" where
  "cbor_head base n =
     (if n \<le> 23 then [base + n]
      else if n \<le> 255 then (base + 24) # be_bytes 1 n
      else if n \<le> 65535 then (base + 25) # be_bytes 2 n
      else if n \<le> 4294967295 then (base + 26) # be_bytes 4 n
      else (base + 27) # be_bytes 8 n)"

definition cbor_float :: "'f float_codec \<Rightarrow> 'f \<Rightarrow> nat list" where
  "cbor_float fc f =
     (if is_nan fc f then [0xF9, 0x7E, 0x00]
      else if is_inf fc f then [0xF9, if is_positive fc f then 0x7C else 0xFC, 0x00]
      else write_compact_float fc 0xFA 0xFB f)"

definition cbor_subtype :: "nat option \<Rightarrow> nat list" where
  "cbor_subtype st =
     (case st of
        None \<Rightarrow> []
      | Some n \<Rightarrow>
          if n \<le> 255 then 0xD8 # be_bytes 1 n
          else if n \<le> 65535 then 0xD9 # be_bytes 2 n
          else if n \<le> 4294967295 then 0xDA # be_bytes 4 n
          else 0xDB # be_bytes 8 n)"

definition cbor_text :: "string \<Rightarrow> nat list" where
  "cbor_text s = cbor_head 0x60 (length s) @ map byte s"

fun write_cbor :: "'f float_codec \<Rightarrow> 'f json \<Rightarrow> nat list"
and write_cbor_members :: "'f float_codec \<Rightarrow> (string \<times> 'f json) list \<Rightarrow> nat list"
and write_cbor_elements :: "'f float_codec \<Rightarrow> 'f json list \<Rightarrow> nat list" where
  "write_cbor fc JNull = [0xF6]"
| "write_cbor fc (JBoolean b) = [if b then 0xF5 else 0xF4]"
| "write_cbor fc (JInteger i) = (if 0 \<le> i then cbor_head 0x00 (nat i) else cbor_head 0x20 (nat (- 1 - i)))"
| "write_cbor fc (JUnsigned n) = cbor_head 0x00 n"
| "write_cbor fc (JFloat f) = cbor_float fc f"
| "write_cbor fc (JString s) = cbor_text s"
| "write_cbor fc (JArray vs) = cbor_head 0x80 (length vs) @ write_cbor_elements fc vs"
| "write_cbor fc (JBinary bs st) = cbor_subtype st @ cbor_head 0x40 (length bs) @ bs"
| "write_cbor fc (JObject m) = cbor_head 0xA0 (length m) @ write_cbor_members fc m"
| "write_cbor fc JDiscarded = []"
| "write_cbor_members fc [] = []"
| "write_cbor_members fc ((k, v) # m) = cbor_text k @ write_cbor fc v @ write_cbor_members fc m"
| "write_cbor_elements fc [] = []"
| "write_cbor_elements fc (v # vs) = write_cbor fc v @ write_cbor_elements fc vs"

section \<open>Reading\<close>

datatype tag_handler = Tag_error | Tag_ignore | Tag_store

record 'f cbor_env =
  codec :: "'f float_codec"
  limit :: limits
  tags :: tag_handler

text \<open>
  \<open>get_cbor_string\<close> and \<open>get_cbor_binary\<close> differ in the first control byte only, 0x60 and 0x40.
\<close>

function cbor_bytes :: "nat \<Rightarrow> nat option \<Rightarrow> nat list \<Rightarrow> (json_error, nat list \<times> nat list) result"
and cbor_chunks :: "nat \<Rightarrow> nat list \<Rightarrow> (json_error, nat list \<times> nat list) result" where
  "cbor_bytes base cur rest =
     (case cur of
        None \<Rightarrow> Inl (Parse_error 110)
      | Some c \<Rightarrow>
          if base \<le> c \<and> c \<le> base + 23 then get_bytes (c mod 32) rest
          else if c = base + 24 then bind_result (get_number 1 rest) (\<lambda>(len, r). get_bytes len r)
          else if c = base + 25 then bind_result (get_number 2 rest) (\<lambda>(len, r). get_bytes len r)
          else if c = base + 26 then bind_result (get_number 4 rest) (\<lambda>(len, r). get_bytes len r)
          else if c = base + 27 then bind_result (get_number 8 rest) (\<lambda>(len, r). get_bytes len r)
          else if c = base + 31 then cbor_chunks base rest
          else Inl (Parse_error 113))"
| "cbor_chunks base rest =
     (let (cur, r) = get_byte rest in
      if cur = Some 0xFF then Inr ([], r)
      else
        bind_result (cbor_bytes base cur r) (\<lambda>(chunk, r1).
        bind_result (cbor_chunks base r1) (\<lambda>(s, r2). Inr (chunk @ s, r2))))"
  by pat_completeness auto

lemma cbor_bytes_partial:
  "cbor_bytes_cbor_chunks_dom (Inl (base, cur, rest)) \<Longrightarrow>
    cbor_bytes base cur rest = Inr (s, r) \<Longrightarrow> length r \<le> length rest"
  "cbor_bytes_cbor_chunks_dom (Inr (base', rest')) \<Longrightarrow>
    cbor_chunks base' rest' = Inr (s', r') \<Longrightarrow> length r' \<le> length rest'"
proof (induction base cur rest and base' rest' arbitrary: s r and s' r' rule: cbor_bytes_cbor_chunks.pinduct)
  case (1 base cur rest)
  from 1(3) show ?case
    by (auto simp: cbor_bytes.psimps [OF 1(1)] bind_result_Inr_iff dest!: get_number_length get_bytes_length
        split: option.splits if_splits intro: 1(2))
next
  case (2 base rest)
  obtain cur r1 where g: "get_byte rest = (cur, r1)" by (cases "get_byte rest")
  then have l: "length r1 \<le> length rest" using get_byte_length by fastforce
  show ?case
  proof (cases "cur = Some 0xFF")
    case True
    with 2(4) g l show ?thesis by (auto simp: cbor_chunks.psimps [OF 2(1)])
  next
    case False
    with 2(4) g obtain c r2 s where b: "cbor_bytes base cur r1 = Inr (c, r2)"
      and c: "cbor_chunks base r2 = Inr (s, r')"
      by (auto simp: cbor_chunks.psimps [OF 2(1)] bind_result_Inr_iff)
    from 2(2) [OF g [symmetric] refl False b] have "length r2 \<le> length r1" .
    moreover from 2(3) [OF g [symmetric] refl False b refl c] have "length r' \<le> length r2" .
    ultimately show ?thesis using l by simp
  qed
qed

lemma cbor_bytes_dom: "cbor_bytes_cbor_chunks_dom x"
proof -
  have "All cbor_bytes_cbor_chunks_dom"
  proof (relation "measure (\<lambda>x. case x of
        Inl (base, cur, rest) \<Rightarrow> 2 * length rest + (if cur = None then 0 else 2)
      | Inr (base, rest) \<Rightarrow> 2 * length rest + 1)", goal_cases)
    case (3 base rest x cur r)
    then have "get_byte rest = (cur, r)" by simp
    then show ?case using get_byte_length [of rest cur r] by (auto split: option.splits)
  next
    case (4 base rest x cur r p s r1)
    then have g: "get_byte rest = (cur, r)" and b: "cbor_bytes base cur r = Inr (s, r1)"
      and d: "cbor_bytes_cbor_chunks_dom (Inl (base, cur, r))" by simp_all
    have "cur \<noteq> None" using b unfolding cbor_bytes.psimps [OF d] by (cases cur) simp_all
    then show ?case
      using get_byte_length [OF g] cbor_bytes_partial(1) [OF d b] by auto
  qed auto
  then show ?thesis ..
qed

termination cbor_bytes
  by (rule allI) (rule cbor_bytes_dom)

lemmas cbor_bytes_length = cbor_bytes_partial(1) [OF cbor_bytes_dom]

lemma cbor_bytes_None [simp]: "cbor_bytes base None rest = Inl (Parse_error 110)"
  by simp

declare cbor_bytes.simps [simp del] cbor_chunks.simps [simp del]

text \<open>A number in the control byte or after it; for containers also the mark of an unknown length.\<close>

definition cbor_number :: "nat \<Rightarrow> nat \<Rightarrow> nat list \<Rightarrow> (json_error, nat \<times> nat list) result option" where
  "cbor_number base c rest =
     (if base \<le> c \<and> c \<le> base + 23 then Some (Inr (c - base, rest))
      else if c = base + 24 then Some (get_number 1 rest)
      else if c = base + 25 then Some (get_number 2 rest)
      else if c = base + 26 then Some (get_number 4 rest)
      else if c = base + 27 then Some (get_number 8 rest)
      else None)"

definition size_max :: nat where
  "size_max = 2 ^ 64 - 1"

definition cbor_count :: "nat \<Rightarrow> nat \<Rightarrow> nat list \<Rightarrow> (json_error, nat \<times> nat list) result option" where
  "cbor_count base c rest =
     (if c = base + 31 then Some (Inr (size_max, rest)) else cbor_number base c rest)"

definition cbor_tag_number :: "nat \<Rightarrow> nat list \<Rightarrow> (json_error, nat \<times> nat list) result" where
  "cbor_tag_number c rest =
     (if c = 0xD8 then get_number 1 rest else if c = 0xD9 then get_number 2 rest
      else if c = 0xDA then get_number 4 rest else if c = 0xDB then get_number 8 rest
      else Inr (0, rest))"

definition half_float :: "'f float_codec \<Rightarrow> nat \<Rightarrow> 'f" where
  "half_float fc half =
     (let exp = half div 1024 mod 32; mant = half mod 1024;
          val = (if exp = 0 then ldexp fc mant (- 24)
                 else if exp = 31 then (if mant = 0 then infinity fc else quiet_nan fc)
                 else ldexp fc (mant + 1024) (int exp - 25)) in
      if half div 32768 mod 2 = 1 then negated fc val else val)"

definition is_tag :: "nat \<Rightarrow> bool" where
  "is_tag c \<longleftrightarrow> 0xC6 \<le> c \<and> c \<le> 0xD4 \<or> 0xD8 \<le> c \<and> c \<le> 0xDB"

text \<open>The values after the containers: constants and floating point numbers; all else begins no value.\<close>

definition cbor_simple :: "'f cbor_env \<Rightarrow> nat \<Rightarrow> nat list \<Rightarrow> (json_error, 'f json \<times> nat list) result" where
  "cbor_simple env c rest =
     (if c = 0xF4 then Inr (JBoolean False, rest)
      else if c = 0xF5 then Inr (JBoolean True, rest)
      else if c = 0xF6 then Inr (JNull, rest)
      else if c = 0xF9 then
        bind_result (get_number 2 rest) (\<lambda>(half, r1). Inr (JFloat (half_float (codec env) half), r1))
      else if c = 0xFA then
        bind_result (get_number 4 rest) (\<lambda>(b, r1). Inr (JFloat (of_single_bits (codec env) b), r1))
      else if c = 0xFB then
        bind_result (get_number 8 rest) (\<lambda>(b, r1). Inr (JFloat (of_double_bits (codec env) b), r1))
      else Inl (Parse_error 112))"

text \<open>A tag with a number that is stored as the subtype of the binary data after it.\<close>

definition cbor_stored :: "nat \<Rightarrow> nat list \<Rightarrow> (json_error, 'f json \<times> nat list) result" where
  "cbor_stored c rest =
     bind_result (cbor_tag_number c rest) (\<lambda>(n, r1).
     bind_result (cbor_bytes 0x40 (fst (get_byte r1)) (snd (get_byte r1))) (\<lambda>(bs, r2).
       Inr (JBinary bs (Some n), r2)))"

text \<open>The values that contain no other value, and the bytes that begin none.\<close>

definition cbor_leaf :: "'f cbor_env \<Rightarrow> nat \<Rightarrow> nat list \<Rightarrow> (json_error, 'f json \<times> nat list) result" where
  "cbor_leaf env c rest =
     (case cbor_number 0x00 c rest of
        Some r \<Rightarrow> bind_result r (\<lambda>(n, r1). Inr (JUnsigned n, r1))
      | None \<Rightarrow>
     (case cbor_number 0x20 c rest of
        Some r \<Rightarrow> bind_result r (\<lambda>(n, r1). Inr (JInteger (- 1 - wrap_signed 64 (int n)), r1))
      | None \<Rightarrow>
          if 0x40 \<le> c \<and> c \<le> 0x5B \<or> c = 0x5F then
            bind_result (cbor_bytes 0x40 (Some c) rest) (\<lambda>(bs, r1). Inr (JBinary bs None, r1))
          else if 0x60 \<le> c \<and> c \<le> 0x7B \<or> c = 0x7F then
            bind_result (cbor_bytes 0x60 (Some c) rest) (\<lambda>(bs, r1). Inr (JString (map chr bs), r1))
          else if 0xD8 \<le> c \<and> c \<le> 0xDB \<and> tags env = Tag_store then cbor_stored c rest
          else cbor_simple env c rest))"

function cbor_value :: "'f cbor_env \<Rightarrow> nat option \<Rightarrow> nat list \<Rightarrow> (json_error, 'f json \<times> nat list) result"
and cbor_items ::
  "'f cbor_env \<Rightarrow> nat option \<Rightarrow> nat list \<Rightarrow> (json_error, 'f json list \<times> nat list) result"
and cbor_members ::
  "'f cbor_env \<Rightarrow> nat option \<Rightarrow> (string \<times> 'f json) list \<Rightarrow> nat list \<Rightarrow>
   (json_error, (string \<times> 'f json) list \<times> nat list) result"
where
  "cbor_value env cur rest =
     (case cur of
        None \<Rightarrow> Inl (Parse_error 110)
      | Some c \<Rightarrow>
          (case cbor_count 0x80 c rest of
             Some r \<Rightarrow>
               bind_result r (\<lambda>(len, r1).
                 if len \<noteq> size_max \<and> max_array (limit env) < len then Inl (Out_of_range 408)
                 else
                   bind_result (cbor_items env (if len = size_max then None else Some len) r1)
                     (\<lambda>(vs, r2). Inr (JArray vs, r2)))
           | None \<Rightarrow>
          (case cbor_count 0xA0 c rest of
             Some r \<Rightarrow>
               bind_result r (\<lambda>(len, r1).
                 if len \<noteq> size_max \<and> max_object (limit env) < len then Inl (Out_of_range 408)
                 else
                   bind_result (cbor_members env (if len = size_max then None else Some len) [] r1)
                     (\<lambda>(m, r2). Inr (JObject m, r2)))
           | None \<Rightarrow>
          if is_tag c \<and> (tags env = Tag_ignore \<or> tags env = Tag_store \<and> c \<le> 0xD4) then
            bind_result (cbor_tag_number c rest) (\<lambda>(n, r1).
              cbor_value env (fst (get_byte r1)) (snd (get_byte r1)))
          else cbor_leaf env c rest)))"
| "cbor_items env cnt rest =
     (if cnt = Some 0 then Inr ([], rest)
      else if cnt = None \<and> fst (get_byte rest) = Some 0xFF then Inr ([], snd (get_byte rest))
      else
        bind_result (cbor_value env (fst (get_byte rest)) (snd (get_byte rest))) (\<lambda>(v, r1).
        bind_result (cbor_items env (map_option (\<lambda>n. n - 1) cnt) r1) (\<lambda>(vs, r2).
          Inr (v # vs, r2))))"
| "cbor_members env cnt m rest =
     (if cnt = Some 0 then Inr (m, rest)
      else if cnt = None \<and> fst (get_byte rest) = Some 0xFF then Inr (m, snd (get_byte rest))
      else
        bind_result (cbor_bytes 0x60 (fst (get_byte rest)) (snd (get_byte rest))) (\<lambda>(k, r1).
        bind_result (cbor_value env (fst (get_byte r1)) (snd (get_byte r1))) (\<lambda>(v, r2).
          cbor_members env (map_option (\<lambda>n. n - 1) cnt) (map_put (map chr k) v m) r2)))"
  by pat_completeness auto


lemma cbor_number_length: "cbor_number base c rest = Some (Inr (n, r)) \<Longrightarrow> length r \<le> length rest"
  by (auto simp: cbor_number_def split: if_splits dest: get_number_length)

lemma cbor_count_length: "cbor_count base c rest = Some (Inr (n, r)) \<Longrightarrow> length r \<le> length rest"
  by (auto simp: cbor_count_def split: if_splits dest: cbor_number_length)

lemma cbor_tag_number_length: "cbor_tag_number c rest = Inr (n, r) \<Longrightarrow> length r \<le> length rest"
  by (auto simp: cbor_tag_number_def split: if_splits dest: get_number_length)

lemma cbor_bytes_le: "cbor_bytes base cur rest = Inr (s, r) \<Longrightarrow> length r \<le> length rest"
  by (rule cbor_bytes_length(1))

lemma cbor_leaf_length: "cbor_leaf env c rest = Inr (v, r) \<Longrightarrow> length r \<le> length rest"
  unfolding cbor_leaf_def cbor_simple_def cbor_stored_def
  by (auto simp: bind_result_Inr_iff split: option.splits if_splits
      dest!: cbor_number_length cbor_bytes_le get_number_length cbor_tag_number_length
      intro: order.trans [OF _ get_byte_le] order.trans [OF _ order.trans [OF get_byte_le]])

lemma cbor_value_partial:
  fixes env env' env'' :: "'f cbor_env"
  shows "cbor_value_cbor_items_cbor_members_dom (Inl (env, cur, rest)) \<Longrightarrow>
    cbor_value env cur rest = Inr (v, r) \<Longrightarrow> cur \<noteq> None \<and> length r \<le> length rest"
  "cbor_value_cbor_items_cbor_members_dom (Inr (Inl (env', cnt', rest'))) \<Longrightarrow>
    cbor_items env' cnt' rest' = Inr (vs, r') \<Longrightarrow> length r' \<le> length rest'"
  "cbor_value_cbor_items_cbor_members_dom (Inr (Inr (env'', cnt'', m, rest''))) \<Longrightarrow>
    cbor_members env'' cnt'' m rest'' = Inr (m', r'') \<Longrightarrow> length r'' \<le> length rest''"
proof (induction env cur rest and env' cnt' rest' and env'' cnt'' m rest''
    arbitrary: v r and vs r' and m' r'' rule: cbor_value_cbor_items_cbor_members.pinduct)
  case (1 env cur rest)
  note run = 1(5) [unfolded cbor_value.psimps [OF 1(1)]]
  then obtain c where c: "cur = Some c" by (cases cur) simp_all
  note run = run [unfolded c option.case]
  show ?case
  proof (cases "cbor_count 0x80 c rest")
    case (Some q)
    with run obtain len r1 vs where q: "q = Inr (len, r1)" and ok: "\<not> (len \<noteq> size_max \<and> max_array (limit env) < len)"
      and vs: "cbor_items env (if len = size_max then None else Some len) r1 = Inr (vs, r)"
      unfolding Some option.case bind_result_Inr_iff by (auto split: if_split_asm simp: bind_result_Inr_iff)
    from 1(4) [OF c Some q refl ok vs] cbor_count_length [OF Some [unfolded q]] c show ?thesis by simp
  next
    case arr: None
    show ?thesis
    proof (cases "cbor_count 0xA0 c rest")
      case (Some q)
      with run obtain len r1 m where q: "q = Inr (len, r1)" and ok: "\<not> (len \<noteq> size_max \<and> max_object (limit env) < len)"
        and m: "cbor_members env (if len = size_max then None else Some len) [] r1 = Inr (m, r)"
        unfolding arr Some option.case bind_result_Inr_iff by (auto split: if_split_asm simp: bind_result_Inr_iff)
      from 1(3) [OF c arr Some q refl ok m] cbor_count_length [OF Some [unfolded q]] c show ?thesis by simp
    next
      case None
      note run = run [unfolded arr None option.case]
      show ?thesis
      proof (cases "is_tag c \<and> (tags env = Tag_ignore \<or> tags env = Tag_store \<and> c \<le> 0xD4)")
        case True
        with run obtain n r1 where t: "cbor_tag_number c rest = Inr (n, r1)"
          and v: "cbor_value env (fst (get_byte r1)) (snd (get_byte r1)) = Inr (v, r)"
          by (auto simp: bind_result_Inr_iff)
        from 1(2) [OF c arr None True t refl v] cbor_tag_number_length [OF t] get_byte_le [of r1] c
        show ?thesis by auto
      next
        case False
        with run have "cbor_leaf env c rest = Inr (v, r)" by (simp only: if_False)
        then show ?thesis using cbor_leaf_length c by simp
      qed
    qed
  qed
next
  case (2 env cnt rest)
  show ?case
  proof (cases "cnt = Some 0 \<or> cnt = None \<and> fst (get_byte rest) = Some 255")
    case True
    with 2(4) get_byte_le [of rest] show ?thesis unfolding cbor_items.psimps [OF 2(1)] by auto
  next
    case False
    then have n: "cnt \<noteq> Some 0" "\<not> (cnt = None \<and> fst (get_byte rest) = Some 255)" by blast+
    with 2(4) obtain v r1 vs where v: "cbor_value env (fst (get_byte rest)) (snd (get_byte rest)) = Inr (v, r1)"
      and vs: "cbor_items env (map_option (\<lambda>n. n - 1) cnt) r1 = Inr (vs, r')"
      unfolding cbor_items.psimps [OF 2(1)] by (auto simp: bind_result_Inr_iff)
    from 2(2) [OF n v] 2(3) [OF n v refl vs] get_byte_le [of rest] show ?thesis by linarith
  qed
next
  case (3 env cnt m rest)
  show ?case
  proof (cases "cnt = Some 0 \<or> cnt = None \<and> fst (get_byte rest) = Some 255")
    case True
    with 3(4) get_byte_le [of rest] show ?thesis unfolding cbor_members.psimps [OF 3(1)] by auto
  next
    case False
    then have n: "cnt \<noteq> Some 0" "\<not> (cnt = None \<and> fst (get_byte rest) = Some 255)" by blast+
    with 3(4) obtain k r1 v r2 where k: "cbor_bytes 0x60 (fst (get_byte rest)) (snd (get_byte rest)) = Inr (k, r1)"
      and v: "cbor_value env (fst (get_byte r1)) (snd (get_byte r1)) = Inr (v, r2)"
      and ms: "cbor_members env (map_option (\<lambda>n. n - 1) cnt) (map_put (map chr k) v m) r2 = Inr (m', r'')"
      unfolding cbor_members.psimps [OF 3(1)] by (auto simp: bind_result_Inr_iff)
    from 3(2) [OF n k refl v] 3(3) [OF n k refl v refl ms] cbor_bytes_le [OF k] get_byte_le [of rest]
      get_byte_le [of r1]
    show ?thesis by linarith
  qed
qed

definition cbor_measure ::
  "'f cbor_env \<times> nat option \<times> nat list +
   ('f cbor_env \<times> nat option \<times> nat list + 'f cbor_env \<times> nat option \<times> (string \<times> 'f json) list \<times> nat list) \<Rightarrow> nat"
where
  "cbor_measure x =
     (case x of
        Inl (env, cur, rest) \<Rightarrow> 2 * length rest + (if cur = None then 0 else 2)
      | Inr (Inl (env, cnt, rest)) \<Rightarrow> 2 * length rest + 1
      | Inr (Inr (env, cnt, m, rest)) \<Rightarrow> 2 * length rest + 1)"

termination cbor_value
proof (relation "measure cbor_measure", goal_cases)
  case (2 env cur rest c a n r)
  then have "cbor_tag_number c rest = Inr (n, r)" by simp
  then show ?case
    using 2(1) cbor_tag_number_length [of c rest n r] get_byte_measure [of r] by (simp add: cbor_measure_def case_prod_beta)
next
  case (3 env cur rest c q a len r)
  then have "cbor_count 0xA0 c rest = Some (Inr (len, r))" by simp
  then show ?case using 3(1) cbor_count_length by (fastforce simp: cbor_measure_def)
next
  case (4 env cur rest c q a len r)
  then have "cbor_count 0x80 c rest = Some (Inr (len, r))" by simp
  then show ?case using 4(1) cbor_count_length by (fastforce simp: cbor_measure_def)
next
  case (5 env cnt rest)
  then show ?case using get_byte_measure [of rest] by (simp add: cbor_measure_def case_prod_beta)
next
  case (6 env cnt rest a v r)
  then have "cbor_value env (fst (get_byte rest)) (snd (get_byte rest)) = Inr (v, r)" by simp
  from cbor_value_partial(1) [OF 6(5) this] show ?case
    using get_byte_measure [of rest] by (auto simp: cbor_measure_def)
next
  case (7 env cnt m rest a k r)
  then have "cbor_bytes 0x60 (fst (get_byte rest)) (snd (get_byte rest)) = Inr (k, r)" by simp
  from cbor_bytes_le [OF this] show ?case
    using get_byte_measure [of r] get_byte_le [of rest] by (simp add: cbor_measure_def case_prod_beta)
next
  case (8 env cnt m rest a k r b v r2)
  then have "cbor_bytes 0x60 (fst (get_byte rest)) (snd (get_byte rest)) = Inr (k, r)"
    and v: "cbor_value env (fst (get_byte r)) (snd (get_byte r)) = Inr (v, r2)" by simp_all
  from cbor_bytes_le [OF this(1)] cbor_value_partial(1) [OF 8(7) v] show ?case
    using get_byte_measure [of r] get_byte_le [of rest] by (auto simp: cbor_measure_def)
qed simp

declare cbor_value.simps [simp del] cbor_items.simps [simp del] cbor_members.simps [simp del]

definition from_cbor :: "'f cbor_env \<Rightarrow> bool \<Rightarrow> nat list \<Rightarrow> (json_error, 'f json) result" where
  "from_cbor env strict input = sax_parse (cbor_value env) strict input"

end
