(* ===== verification/Cbor_Roundtrip.thy ===== *)
theory Cbor_Roundtrip
  imports Json_Cbor
begin

text \<open>
  What the CBOR reader makes of written text: the numbers in control bytes, texts of known length,
  and then whole values, by induction on the value.
\<close>

section \<open>Heads\<close>

lemma cbor_number_None: "c < base \<or> base + 27 < c \<Longrightarrow> cbor_number base c rest = None"
  by (auto simp: cbor_number_def)

lemma cbor_count_None: "c < base \<or> base + 31 < c \<Longrightarrow> cbor_count base c rest = None"
  by (auto simp: cbor_count_def cbor_number_None)

lemma cbor_count_number: "c \<noteq> base + 31 \<Longrightarrow> cbor_count base c rest = cbor_number base c rest"
  by (simp add: cbor_count_def)

lemma cbor_head_number:
  assumes "n < 2 ^ 64"
  shows "\<exists>c t. cbor_head base n = c # t \<and> base \<le> c \<and> c \<le> base + 27 \<and>
    (\<forall>r. cbor_number base c (t @ r) = Some (Inr (n, r)))"
  using assms get_number_be [of n 1] get_number_be [of n 2] get_number_be [of n 4] get_number_be [of n 8]
  by (simp add: cbor_head_def cbor_number_def)

lemma cbor_bytes_number:
  assumes "cbor_number base c rest = Some (Inr (n, r))" and "base mod 32 = 0"
  shows "cbor_bytes base (Some c) rest = get_bytes n r"
proof -
  have "c mod 32 = c - base" if "base \<le> c" "c \<le> base + 23"
  proof -
    have "(base + (c - base)) mod 32 = (c - base) mod 32" using assms(2) by (metis add_0 mod_add_left_eq)
    with that show ?thesis by simp
  qed
  then show ?thesis
    using assms(1) unfolding cbor_number_def cbor_bytes.simps [of base "Some c"] by (auto split: if_split_asm)
qed

lemma cbor_head_bytes:
  assumes "length bs < 2 ^ 64" and "base mod 32 = 0"
  shows "\<exists>c t. cbor_head base (length bs) = c # t \<and> base \<le> c \<and> c \<le> base + 27 \<and>
    (\<forall>r. cbor_bytes base (Some c) (t @ bs @ r) = Inr (bs, r))"
  using cbor_head_number [OF assms(1), of base] cbor_bytes_number [OF _ assms(2)] get_bytes_append [of bs]
  by metis

lemmas cbor_leaf_defs = cbor_leaf_def cbor_simple_def cbor_stored_def

section \<open>Values\<close>

fun unsigned_form :: "'f json \<Rightarrow> 'f json" where
  "unsigned_form (JInteger i) = (if 0 \<le> i then JUnsigned (nat i) else JInteger i)"
| "unsigned_form (JArray vs) = JArray (map unsigned_form vs)"
| "unsigned_form (JObject m) = JObject (map (\<lambda>(k, v). (k, unsigned_form v)) m)"
| "unsigned_form v = v"

fun cbor_ok :: "'f cbor_env \<Rightarrow> 'f json \<Rightarrow> bool" where
  "cbor_ok env (JInteger i) \<longleftrightarrow> - (2 ^ 63) \<le> i \<and> i < 2 ^ 63"
| "cbor_ok env (JUnsigned n) \<longleftrightarrow> n < 2 ^ 64"
| "cbor_ok env (JFloat f) \<longleftrightarrow> codec_ok (codec env) f"
| "cbor_ok env (JString s) \<longleftrightarrow> length s < 2 ^ 64"
| "cbor_ok env (JBinary bs st) \<longleftrightarrow>
     length bs < 2 ^ 64 \<and> (\<forall>n. st = Some n \<longrightarrow> tags env = Tag_store \<and> n < 2 ^ 64)"
| "cbor_ok env (JArray vs) \<longleftrightarrow>
     length vs < size_max \<and> length vs \<le> max_array (limit env) \<and> (\<forall>v \<in> set vs. cbor_ok env v)"
| "cbor_ok env (JObject m) \<longleftrightarrow>
     map_ok m \<and> length m < size_max \<and> length m \<le> max_object (limit env) \<and>
     (\<forall>(k, v) \<in> set m. length k < 2 ^ 64 \<and> cbor_ok env v)"
| "cbor_ok env JDiscarded \<longleftrightarrow> False"
| "cbor_ok env _ \<longleftrightarrow> True"

definition cbor_reads :: "'f cbor_env \<Rightarrow> nat list \<Rightarrow> 'f json \<Rightarrow> bool" where
  "cbor_reads env ws v \<longleftrightarrow>
     (\<exists>c t. ws = c # t \<and> (\<forall>r. cbor_value env (Some c) (t @ r) = Inr (v, r)))"

lemma cbor_readsI: "(\<And>r. cbor_value env (Some c) (t @ r) = Inr (v, r)) \<Longrightarrow> cbor_reads env (c # t) v"
  by (auto simp: cbor_reads_def)

lemma cbor_reads_items:
  assumes "\<forall>v \<in> set vs. cbor_reads env (write_cbor fc v) (g v)"
  shows "cbor_items env (Some (length vs)) (write_cbor_elements fc vs @ r) = Inr (map g vs, r)"
  using assms
proof (induction vs)
  case (Cons v vs)
  then obtain c t where "write_cbor fc v = c # t" "\<forall>r. cbor_value env (Some c) (t @ r) = Inr (g v, r)"
    by (auto simp: cbor_reads_def)
  with Cons show ?case by (simp add: cbor_items.simps [of env "Some (Suc (length vs))"])
qed (simp add: cbor_items.simps)

lemma cbor_value_leaf:
  assumes "c < 0x80 \<or> 0xBF < c" and "\<not> (is_tag c \<and> (tags env = Tag_ignore \<or> tags env = Tag_store \<and> c \<le> 0xD4))"
  shows "cbor_value env (Some c) rest = cbor_leaf env c rest"
proof -
  have "cbor_count 0x80 c rest = None" "cbor_count 0xA0 c rest = None"
    using assms(1) by (auto intro!: cbor_count_None)
  then show ?thesis by (simp add: cbor_value.simps assms(2) del: de_Morgan_conj)
qed

lemma cbor_text_bytes:
  assumes "length s < 2 ^ 64"
  shows "\<exists>c t. cbor_text s = c # t \<and> 0x60 \<le> c \<and> c \<le> 0x7B \<and>
    (\<forall>r. cbor_bytes 0x60 (Some c) (t @ r) = Inr (map byte s, r))"
  using cbor_head_bytes [of "map byte s" "0x60"] assms by (force simp: cbor_text_def)

lemma cbor_reads_members:
  assumes "\<forall>(k, v) \<in> set m. length k < 2 ^ 64 \<and> cbor_reads env (write_cbor fc v) (g v)"
    and "map_ok (m0 @ m)"
  shows "cbor_members env (Some (length m)) (map (\<lambda>(k, v). (k, g v)) m0) (write_cbor_members fc m @ r) =
    Inr (map (\<lambda>(k, v). (k, g v)) (m0 @ m), r)"
  using assms
proof (induction m arbitrary: m0)
  case (Cons p m)
  obtain k v where p: "p = (k, v)" by (cases p)
  from Cons(2) p obtain c t where v: "write_cbor fc v = c # t" "\<And>r. cbor_value env (Some c) (t @ r) = Inr (g v, r)"
    by (auto simp: cbor_reads_def)
  from Cons(2) p obtain c' t' where k: "cbor_text k = c' # t'"
    "\<And>r. cbor_bytes 0x60 (Some c') (t' @ r) = Inr (map byte k, r)"
    using cbor_text_bytes [of k] by auto
  have "map_put k (g v) (map (\<lambda>(k, v). (k, g v)) m0) = map (\<lambda>(k, v). (k, g v)) (m0 @ [(k, v)])"
    using Cons(3) p by (simp add: map_put_last sorted_wrt_append comp_def case_prod_beta)
  with Cons.IH [of "m0 @ [(k, v)]"] Cons(2,3) p v k show ?case
    by (simp add: cbor_members.simps [of env "Some (Suc (length m))"] comp_def)
qed (simp add: cbor_members.simps)

lemma half_infinity: "half_float fc 0x7C00 = infinity fc" "half_float fc 0xFC00 = negated fc (infinity fc)"
  by (simp_all add: half_float_def)

lemma cbor_float_reads:
  assumes "codec_ok (codec env) f"
  shows "cbor_reads env (cbor_float (codec env) f) (JFloat f)"
proof (cases "is_inf (codec env) f")
  case True
  have "get_number 2 (0x7C # 0 # r) = Inr (0x7C00, r)" "get_number 2 (0xFC # 0 # r) = Inr (0xFC00, r)" for r
    by (simp_all add: get_number_def numeral_2_eq_2)
  with assms True show ?thesis
    by (auto simp: codec_ok_def cbor_float_def cbor_value_leaf is_tag_def cbor_leaf_defs cbor_number_def half_infinity
        intro!: cbor_readsI)
next
  case False
  show ?thesis
  proof (cases "single_bits (codec env) f")
    case None
    with assms False get_number_be [of "double_bits (codec env) f" 8] show ?thesis
      by (auto simp: codec_ok_def cbor_float_def write_compact_float_def cbor_value_leaf is_tag_def cbor_leaf_defs
          cbor_number_def intro!: cbor_readsI)
  next
    case (Some b)
    with assms False get_number_be [of b 4] show ?thesis
      by (auto simp: codec_ok_def cbor_float_def write_compact_float_def cbor_value_leaf is_tag_def cbor_leaf_defs
          cbor_number_def intro!: cbor_readsI)
  qed
qed

lemma cbor_number_reads:
  assumes "n < 2 ^ 64"
  shows "cbor_reads env (cbor_head 0x00 n) (JUnsigned n)"
    and "n < 2 ^ 63 \<Longrightarrow> cbor_reads env (cbor_head 0x20 n) (JInteger (- 1 - int n))"
proof -
  from cbor_head_number [OF assms, of 0] obtain c t where "cbor_head 0 n = c # t" "c \<le> 27"
    "\<forall>r. cbor_number 0 c (t @ r) = Some (Inr (n, r))" by auto
  then show "cbor_reads env (cbor_head 0x00 n) (JUnsigned n)"
    by (auto simp: cbor_value_leaf is_tag_def cbor_leaf_defs intro!: cbor_readsI)
next
  assume "n < 2 ^ 63"
  then have "wrap_signed 64 (int n) = int n" by (intro wrap_signed_id) auto
  moreover from cbor_head_number [OF assms, of 32] obtain c t where "cbor_head 32 n = c # t" "32 \<le> c" "c \<le> 59"
    "\<forall>r. cbor_number 32 c (t @ r) = Some (Inr (n, r))" by auto
  ultimately show "cbor_reads env (cbor_head 0x20 n) (JInteger (- 1 - int n))"
    by (auto simp: cbor_value_leaf is_tag_def cbor_leaf_defs cbor_number_None intro!: cbor_readsI)
qed

lemma cbor_text_reads:
  assumes "length s < 2 ^ 64"
  shows "cbor_reads env (cbor_text s) (JString s)"
proof -
  from cbor_text_bytes [OF assms] obtain c t where "cbor_text s = c # t" "0x60 \<le> c" "c \<le> 0x7B"
    "\<forall>r. cbor_bytes 0x60 (Some c) (t @ r) = Inr (map byte s, r)" by auto
  then show ?thesis
    by (auto simp: cbor_value_leaf is_tag_def cbor_leaf_defs cbor_number_None comp_def intro!: cbor_readsI)
qed

lemma cbor_binary_reads:
  assumes "length bs < 2 ^ 64" and "\<And>n. st = Some n \<Longrightarrow> tags env = Tag_store \<and> n < 2 ^ 64"
  shows "cbor_reads env (cbor_subtype st @ cbor_head 0x40 (length bs) @ bs) (JBinary bs st)"
proof -
  from cbor_head_bytes [OF assms(1), of 64] obtain c t where h: "cbor_head 64 (length bs) = c # t" "64 \<le> c" "c \<le> 91"
    "\<And>r. cbor_bytes 64 (Some c) (t @ bs @ r) = Inr (bs, r)" by auto
  show ?thesis
  proof (cases st)
    case None
    with h show ?thesis
      by (auto simp: cbor_subtype_def cbor_value_leaf is_tag_def cbor_leaf_defs cbor_number_None intro!: cbor_readsI)
  next
    case (Some n)
    with assms(2) have n: "tags env = Tag_store" "n < 2 ^ 64" by auto
    have "\<exists>d u. cbor_subtype (Some n) = d # u \<and> 0xD8 \<le> d \<and> d \<le> 0xDB \<and>
        (\<forall>r. cbor_tag_number d (u @ r) = Inr (n, r))"
      using n(2) get_number_be [of n 1] get_number_be [of n 2] get_number_be [of n 4] get_number_be [of n 8]
      by (simp add: cbor_subtype_def cbor_tag_number_def)
    then obtain d u where "cbor_subtype (Some n) = d # u" "0xD8 \<le> d" "d \<le> 0xDB"
      "\<And>r. cbor_tag_number d (u @ r) = Inr (n, r)" by blast
    with h n Some show ?thesis
      by (auto simp: cbor_value_leaf is_tag_def cbor_leaf_defs cbor_number_None intro!: cbor_readsI)
  qed
qed

lemma cbor_array_reads:
  assumes "length vs < size_max" and "length vs \<le> max_array (limit env)"
    and "\<forall>v \<in> set vs. cbor_reads env (write_cbor fc v) (g v)"
  shows "cbor_reads env (cbor_head 0x80 (length vs) @ write_cbor_elements fc vs) (JArray (map g vs))"
proof -
  have "length vs < 2 ^ 64" using assms(1) by (simp add: size_max_def)
  from cbor_head_number [OF this, of 128] obtain c t where "cbor_head 128 (length vs) = c # t" "128 \<le> c" "c \<le> 155"
    "\<And>r. cbor_number 128 c (t @ r) = Some (Inr (length vs, r))" by auto
  with assms cbor_reads_items [OF assms(3)] show ?thesis
    by (auto simp: cbor_value.simps cbor_count_number intro!: cbor_readsI)
qed

lemma cbor_object_reads:
  assumes "length m < size_max" and "length m \<le> max_object (limit env)" and "map_ok m"
    and "\<forall>(k, v) \<in> set m. length k < 2 ^ 64 \<and> cbor_reads env (write_cbor fc v) (g v)"
  shows "cbor_reads env (cbor_head 0xA0 (length m) @ write_cbor_members fc m) (JObject (map (\<lambda>(k, v). (k, g v)) m))"
proof -
  have "length m < 2 ^ 64" using assms(1) by (simp add: size_max_def)
  from cbor_head_number [OF this, of 160] obtain c t where h: "cbor_head 160 (length m) = c # t" "160 \<le> c" "c \<le> 187"
    and n: "\<And>r. cbor_number 160 c (t @ r) = Some (Inr (length m, r))" by auto
  have "cbor_count 128 c r = None" for r using h
    by (cases "c = 159") (auto intro!: cbor_count_None)
  moreover have "cbor_count 160 c (t @ r) = Some (Inr (length m, r))" for r
    using h n by (simp add: cbor_count_number)
  ultimately show ?thesis
    using h assms cbor_reads_members [OF assms(4), of "[]"]
    by (auto simp: cbor_value.simps intro!: cbor_readsI)
qed

lemma cbor_word_reads:
  "cbor_reads env [0xF6] JNull" "cbor_reads env [0xF5] (JBoolean True)" "cbor_reads env [0xF4] (JBoolean False)"
  by (auto simp: cbor_value_leaf is_tag_def cbor_leaf_defs cbor_number_None intro!: cbor_readsI)

lemma write_cbor_reads: "cbor_ok env j \<Longrightarrow> cbor_reads env (write_cbor (codec env) j) (unsigned_form j)"
proof (induction j)
  case (JInteger i)
  then show ?case
    using cbor_number_reads(1) [of "nat i" env] cbor_number_reads(2) [of "nat (- 1 - i)" env] by auto
next
  case (JObject m)
  then have "\<forall>(k, v) \<in> set m. length k < 2 ^ 64 \<and> cbor_reads env (write_cbor (codec env) v) (unsigned_form v)"
    by fastforce
  with JObject(2) show ?case using cbor_object_reads by fastforce
next
  case (JArray vs)
  then have "\<forall>v \<in> set vs. cbor_reads env (write_cbor (codec env) v) (unsigned_form v)" by simp
  with JArray(2) show ?case using cbor_array_reads by fastforce
next
  case (JBinary bs st)
  then show ?case using cbor_binary_reads [of bs st env] by simp
qed (use cbor_number_reads cbor_text_reads cbor_word_reads cbor_float_reads in auto)

lemma from_cbor_write:
  assumes "cbor_ok env j"
  shows "from_cbor env strict (write_cbor (codec env) j) = Inr (unsigned_form j)"
proof -
  from write_cbor_reads [OF assms] obtain c t where w: "write_cbor (codec env) j = c # t"
    "\<And>r. cbor_value env (Some c) (t @ r) = Inr (unsigned_form j, r)" by (auto simp: cbor_reads_def)
  from w(2) [of "[]"] show ?thesis by (simp add: from_cbor_def sax_parse_def w(1))
qed

section \<open>Longer and shorter input\<close>

lemma cbor_number_extends:
  "rel_option (extends x) (cbor_number base c rest) (cbor_number base c (rest @ x))"
  by (simp add: cbor_number_def extends_get_number extends_Inr)

lemma cbor_count_extends:
  "rel_option (extends x) (cbor_count base c rest) (cbor_count base c (rest @ x))"
  by (simp add: cbor_count_def cbor_number_extends extends_Inr)

lemma cbor_tag_number_extends: "extends x (cbor_tag_number c rest) (cbor_tag_number c (rest @ x))"
  by (simp add: cbor_tag_number_def extends_get_number extends_Inr)

lemma cbor_bytes_extends:
  "extends x (cbor_bytes base cur rest) (cbor_bytes base cur (rest @ x))"
  "extends x (cbor_chunks base' rest') (cbor_chunks base' (rest' @ x))"
proof (induction base cur rest and base' rest' rule: cbor_bytes_cbor_chunks.induct)
  case (1 base cur rest)
  show ?case
  proof (cases cur)
    case (Some c)
    show ?thesis
      unfolding Some cbor_bytes.simps [of base "Some c"] option.case
      using 1 [OF Some]
      by (intro extends_if extends_bind extends_get_bytes extends_get_number extends_Inl)
        (auto simp: extends_get_bytes)
  qed simp
next
  case (2 base rest)
  show ?case
  proof (cases rest)
    case Nil
    then show ?thesis by (simp add: cbor_chunks.simps)
  next
    case (Cons c r)
    have "extends x (cbor_chunks base (c # r)) (cbor_chunks base (c # r @ x))"
      unfolding cbor_chunks.simps [of base "c # r"] cbor_chunks.simps [of base "c # r @ x"] get_byte.simps Let_def prod.case
      using 2(1) [of "(Some c, r)" "Some c" r] 2(2) [of "(Some c, r)" "Some c" r] Cons
      by (intro extends_if extends_bind extends_Inr) (auto intro!: extends_bind simp: extends_Inr)
    then show ?thesis using Cons by simp
  qed
qed

lemma cbor_value_None [simp]: "cbor_value env None rest = Inl (Parse_error 110)"
  by (simp add: cbor_value.simps)

lemma cbor_bytes_next_extends:
  "extends x (cbor_bytes base (fst (get_byte r)) (snd (get_byte r)))
    (cbor_bytes base (fst (get_byte (r @ x))) (snd (get_byte (r @ x))))"
  by (rule extends_next) (simp_all add: cbor_bytes_extends)

lemma cbor_leaf_extends: "extends x (cbor_leaf env c rest) (cbor_leaf env c (rest @ x))"
  unfolding cbor_leaf_def cbor_simple_def cbor_stored_def
  by (intro extends_option cbor_number_extends extends_if extends_bind cbor_bytes_extends
      cbor_tag_number_extends extends_get_number extends_Inr extends_Inl)
    (auto simp: extends_Inr intro!: extends_bind cbor_bytes_next_extends)

lemma cbor_value_extends:
  fixes env env' env'' :: "'f cbor_env"
  shows "extends x (cbor_value env cur rest) (cbor_value env cur (rest @ x))"
  "extends x (cbor_items env' cnt' rest') (cbor_items env' cnt' (rest' @ x))"
  "extends x (cbor_members env'' cnt'' m rest'') (cbor_members env'' cnt'' m (rest'' @ x))"
proof (induction env cur rest and env' cnt' rest' and env'' cnt'' m rest''
    rule: cbor_value_cbor_items_cbor_members.induct)
  case (1 env cur rest)
  show ?case
  proof (cases cur)
    case (Some c)
    have tag: "extends x (cbor_value env (fst (get_byte r)) (snd (get_byte r)))
        (cbor_value env (fst (get_byte (r @ x))) (snd (get_byte (r @ x))))"
      if "cbor_count 0x80 c rest = None" "cbor_count 0xA0 c rest = None"
        "is_tag c \<and> (tags env = Tag_ignore \<or> tags env = Tag_store \<and> c \<le> 0xD4)"
        "cbor_tag_number c rest = Inr (n, r)" for n r
      by (rule extends_next) (use 1(1) [OF Some that refl] in simp_all)
    have arr: "extends x (cbor_items env (if len = size_max then None else Some len) r)
        (cbor_items env (if len = size_max then None else Some len) (r @ x))"
      if "cbor_count 0x80 c rest = Some (Inr (len, r))" "\<not> (len \<noteq> size_max \<and> max_array (limit env) < len)"
      for len r using 1(3) [OF Some that(1) refl refl that(2)] .
    have obj: "extends x (cbor_members env (if len = size_max then None else Some len) [] r)
        (cbor_members env (if len = size_max then None else Some len) [] (r @ x))"
      if "cbor_count 0x80 c rest = None" "cbor_count 0xA0 c rest = Some (Inr (len, r))"
        "\<not> (len \<noteq> size_max \<and> max_object (limit env) < len)"
      for len r using 1(2) [OF Some that(1) that(2) refl refl that(3)] .
    show ?thesis
      unfolding Some cbor_value.simps [of env "Some c"] option.case
      by (intro extends_option cbor_count_extends extends_if extends_bind cbor_tag_number_extends cbor_leaf_extends)
        (use arr arr [of size_max] obj obj [of size_max] tag in
          \<open>auto intro!: extends_bind extends_Inl extends_Inr extends_if split del: if_split\<close>)
  qed simp
next
  case (2 env cnt rest)
  show ?case
  proof (cases rest)
    case Nil
    then show ?thesis using extends_Inr [of x _ "[]"] by (auto simp: cbor_items.simps)
  next
    case (Cons c r)
    have "extends x (cbor_items env cnt (c # r)) (cbor_items env cnt (c # r @ x))"
      unfolding cbor_items.simps [of env cnt] get_byte.simps fst_conv snd_conv append_Cons [symmetric]
      using 2 [unfolded Cons get_byte.simps fst_conv snd_conv]
      by (intro extends_if extends_bind extends_Inr) (auto simp: extends_Inr intro!: extends_bind)
    then show ?thesis using Cons by simp
  qed
next
  case (3 env cnt m rest)
  show ?case
  proof (cases rest)
    case Nil
    then show ?thesis using extends_Inr [of x _ "[]"] by (auto simp: cbor_members.simps)
  next
    case (Cons c r)
    have "extends x (cbor_members env cnt m (c # r)) (cbor_members env cnt m (c # r @ x))"
      unfolding cbor_members.simps [of env cnt] get_byte.simps fst_conv snd_conv append_Cons [symmetric]
      using 3 [unfolded Cons get_byte.simps fst_conv snd_conv]
      by (intro extends_if extends_bind extends_Inr cbor_bytes_extends)
        (auto simp: extends_Inr intro!: extends_bind extends_next cbor_bytes_extends)
    then show ?thesis using Cons by simp
  qed
qed

interpretation cbor: binary_format "cbor_value env"
  by unfold_locales (simp_all add: cbor_value_extends)

end
