(* ===== verification/Json_Msgpack.thy ===== *)
theory Json_Msgpack
  imports Binary_Numbers
begin

text \<open>
  MessagePack: \<open>binary_writer::write_msgpack\<close> and the MessagePack half of \<open>binary_reader\<close>, with the
  conventions of the CBOR theory: reading functions take the byte last read and return what is left.
\<close>

section \<open>Writing\<close>

text \<open>A signed number in the two's complement of its width.\<close>

definition signed_bytes :: "nat \<Rightarrow> int \<Rightarrow> nat list" where
  "signed_bytes k i = be_bytes k (nat (i mod 2 ^ (8 * k)))"

definition msgpack_unsigned :: "nat \<Rightarrow> nat list" where
  "msgpack_unsigned n =
     (if n < 128 then be_bytes 1 n
      else if n \<le> 255 then 0xCC # be_bytes 1 n
      else if n \<le> 65535 then 0xCD # be_bytes 2 n
      else if n \<le> 4294967295 then 0xCE # be_bytes 4 n
      else if n \<le> 18446744073709551615 then 0xCF # be_bytes 8 n
      else [])"

definition msgpack_negative :: "int \<Rightarrow> nat list" where
  "msgpack_negative i =
     (if - 32 \<le> i then signed_bytes 1 i
      else if - 128 \<le> i \<and> i \<le> 127 then 0xD0 # signed_bytes 1 i
      else if - 32768 \<le> i \<and> i \<le> 32767 then 0xD1 # signed_bytes 2 i
      else if - 2147483648 \<le> i \<and> i \<le> 2147483647 then 0xD2 # signed_bytes 4 i
      else if - 9223372036854775808 \<le> i \<and> i \<le> 9223372036854775807 then 0xD3 # signed_bytes 8 i
      else [])"

definition msgpack_text :: "string \<Rightarrow> nat list" where
  "msgpack_text s =
     (let n = length s in
      (if n \<le> 31 then [0xA0 + n]
       else if n \<le> 255 then 0xD9 # be_bytes 1 n
       else if n \<le> 65535 then 0xDA # be_bytes 2 n
       else if n \<le> 4294967295 then 0xDB # be_bytes 4 n
       else []) @ map byte s)"

text \<open>The sizes of arrays (from 0x90 and 0xDC) and of objects (from 0x80 and 0xDE).\<close>

definition msgpack_size :: "nat \<Rightarrow> nat \<Rightarrow> nat \<Rightarrow> nat list" where
  "msgpack_size fixed wide n =
     (if n \<le> 15 then [fixed + n]
      else if n \<le> 65535 then wide # be_bytes 2 n
      else if n \<le> 4294967295 then (wide + 1) # be_bytes 4 n
      else [])"

definition fixext :: "nat \<Rightarrow> nat option" where
  "fixext n =
     (if n = 1 then Some 0xD4 else if n = 2 then Some 0xD5 else if n = 4 then Some 0xD6
      else if n = 8 then Some 0xD7 else if n = 16 then Some 0xD8 else None)"

definition msgpack_binary_head :: "nat \<Rightarrow> bool \<Rightarrow> nat list" where
  "msgpack_binary_head n use_ext =
     (if n \<le> 255 then
        if use_ext then (case fixext n of Some c \<Rightarrow> [c] | None \<Rightarrow> 0xC7 # be_bytes 1 n)
        else 0xC4 # be_bytes 1 n
      else if n \<le> 65535 then (if use_ext then 0xC8 else 0xC5) # be_bytes 2 n
      else if n \<le> 4294967295 then (if use_ext then 0xC9 else 0xC6) # be_bytes 4 n
      else [])"

fun write_msgpack :: "'f float_codec \<Rightarrow> 'f json \<Rightarrow> nat list"
and write_msgpack_members :: "'f float_codec \<Rightarrow> (string \<times> 'f json) list \<Rightarrow> nat list"
and write_msgpack_elements :: "'f float_codec \<Rightarrow> 'f json list \<Rightarrow> nat list" where
  "write_msgpack fc JNull = [0xC0]"
| "write_msgpack fc (JBoolean b) = [if b then 0xC3 else 0xC2]"
| "write_msgpack fc (JInteger i) = (if 0 \<le> i then msgpack_unsigned (nat i) else msgpack_negative i)"
| "write_msgpack fc (JUnsigned n) = msgpack_unsigned n"
| "write_msgpack fc (JFloat f) = write_compact_float fc 0xCA 0xCB f"
| "write_msgpack fc (JString s) = msgpack_text s"
| "write_msgpack fc (JArray vs) = msgpack_size 0x90 0xDC (length vs) @ write_msgpack_elements fc vs"
| "write_msgpack fc (JBinary bs st) =
     msgpack_binary_head (length bs) (st \<noteq> None) @
     (case st of None \<Rightarrow> [] | Some n \<Rightarrow> be_bytes 1 n) @ bs"
| "write_msgpack fc (JObject m) = msgpack_size 0x80 0xDE (length m) @ write_msgpack_members fc m"
| "write_msgpack fc JDiscarded = []"
| "write_msgpack_members fc [] = []"
| "write_msgpack_members fc ((k, v) # m) =
     write_msgpack fc (JString k) @ write_msgpack fc v @ write_msgpack_members fc m"
| "write_msgpack_elements fc [] = []"
| "write_msgpack_elements fc (v # vs) = write_msgpack fc v @ write_msgpack_elements fc vs"

section \<open>Reading\<close>

definition get_signed :: "nat \<Rightarrow> nat list \<Rightarrow> (json_error, int \<times> nat list) result" where
  "get_signed k rest = bind_result (get_number k rest) (\<lambda>(n, r). Inr (wrap_signed (8 * k) (int n), r))"

definition msgpack_string :: "nat option \<Rightarrow> nat list \<Rightarrow> (json_error, nat list \<times> nat list) result" where
  "msgpack_string cur rest =
     (case cur of
        None \<Rightarrow> Inl (Parse_error 110)
      | Some c \<Rightarrow>
          if 0xA0 \<le> c \<and> c \<le> 0xBF then get_bytes (c mod 32) rest
          else if c = 0xD9 then bind_result (get_number 1 rest) (\<lambda>(len, r). get_bytes len r)
          else if c = 0xDA then bind_result (get_number 2 rest) (\<lambda>(len, r). get_bytes len r)
          else if c = 0xDB then bind_result (get_number 4 rest) (\<lambda>(len, r). get_bytes len r)
          else Inl (Parse_error 113))"

text \<open>Data of a given length after its subtype (\<open>assign_and_return_true\<close>), which is one byte.\<close>

definition msgpack_ext :: "nat \<Rightarrow> nat list \<Rightarrow> (json_error, 'f json \<times> nat list) result" where
  "msgpack_ext len rest =
     bind_result (get_number 1 rest) (\<lambda>(st, r).
     bind_result (get_bytes len r) (\<lambda>(bs, r2). Inr (JBinary bs (Some (st mod 256)), r2)))"

definition msgpack_binary :: "nat \<Rightarrow> nat list \<Rightarrow> (json_error, 'f json \<times> nat list) result option" where
  "msgpack_binary c rest =
     (let bin = \<lambda>k. bind_result (get_number k rest) (\<lambda>(len, r).
            bind_result (get_bytes len r) (\<lambda>(bs, r2). Inr (JBinary bs None, r2)));
          ext = \<lambda>k. bind_result (get_number k rest) (\<lambda>(len, r). msgpack_ext len r) in
      if c = 0xC4 then Some (bin 1) else if c = 0xC5 then Some (bin 2) else if c = 0xC6 then Some (bin 4)
      else if c = 0xC7 then Some (ext 1) else if c = 0xC8 then Some (ext 2) else if c = 0xC9 then Some (ext 4)
      else if c = 0xD4 then Some (msgpack_ext 1 rest) else if c = 0xD5 then Some (msgpack_ext 2 rest)
      else if c = 0xD6 then Some (msgpack_ext 4 rest) else if c = 0xD7 then Some (msgpack_ext 8 rest)
      else if c = 0xD8 then Some (msgpack_ext 16 rest)
      else None)"

definition msgpack_number :: "'f float_codec \<Rightarrow> nat \<Rightarrow> nat list \<Rightarrow> (json_error, 'f json \<times> nat list) result option" where
  "msgpack_number fc c rest =
     (let uns = \<lambda>k. bind_result (get_number k rest) (\<lambda>(n, r). Inr (JUnsigned n, r));
          sgn = \<lambda>k. bind_result (get_signed k rest) (\<lambda>(i, r). Inr (JInteger i, r)) in
      if c \<le> 0x7F then Some (Inr (JUnsigned c, rest))
      else if c = 0xCA then
        Some (bind_result (get_number 4 rest) (\<lambda>(b, r). Inr (JFloat (of_single_bits fc b), r)))
      else if c = 0xCB then
        Some (bind_result (get_number 8 rest) (\<lambda>(b, r). Inr (JFloat (of_double_bits fc b), r)))
      else if c = 0xCC then Some (uns 1) else if c = 0xCD then Some (uns 2)
      else if c = 0xCE then Some (uns 4) else if c = 0xCF then Some (uns 8)
      else if c = 0xD0 then Some (sgn 1) else if c = 0xD1 then Some (sgn 2)
      else if c = 0xD2 then Some (sgn 4) else if c = 0xD3 then Some (sgn 8)
      else if 0xE0 \<le> c then Some (Inr (JInteger (wrap_signed 8 (int c)), rest))
      else None)"

definition msgpack_leaf :: "'f float_codec \<Rightarrow> nat \<Rightarrow> nat list \<Rightarrow> (json_error, 'f json \<times> nat list) result" where
  "msgpack_leaf fc c rest =
     (case msgpack_number fc c rest of Some r \<Rightarrow> r | None \<Rightarrow>
     (case msgpack_binary c rest of Some r \<Rightarrow> r | None \<Rightarrow>
        if 0xA0 \<le> c \<and> c \<le> 0xBF \<or> 0xD9 \<le> c \<and> c \<le> 0xDB then
          bind_result (msgpack_string (Some c) rest) (\<lambda>(bs, r1). Inr (JString (map chr bs), r1))
        else if c = 0xC0 then Inr (JNull, rest)
        else if c = 0xC2 then Inr (JBoolean False, rest)
        else if c = 0xC3 then Inr (JBoolean True, rest)
        else Inl (Parse_error 112)))"

definition msgpack_count :: "nat \<Rightarrow> nat \<Rightarrow> nat \<Rightarrow> nat list \<Rightarrow> (json_error, nat \<times> nat list) result option" where
  "msgpack_count fixed wide c rest =
     (if fixed \<le> c \<and> c \<le> fixed + 15 then Some (Inr (c - fixed, rest))
      else if c = wide then Some (get_number 2 rest)
      else if c = wide + 1 then Some (get_number 4 rest)
      else None)"

function msgpack_value ::
  "'f float_codec \<Rightarrow> limits \<Rightarrow> nat option \<Rightarrow> nat list \<Rightarrow> (json_error, 'f json \<times> nat list) result"
and msgpack_items ::
  "'f float_codec \<Rightarrow> limits \<Rightarrow> nat \<Rightarrow> nat list \<Rightarrow> (json_error, 'f json list \<times> nat list) result"
and msgpack_members ::
  "'f float_codec \<Rightarrow> limits \<Rightarrow> nat \<Rightarrow> (string \<times> 'f json) list \<Rightarrow> nat list \<Rightarrow>
   (json_error, (string \<times> 'f json) list \<times> nat list) result"
where
  "msgpack_value fc lim cur rest =
     (case cur of
        None \<Rightarrow> Inl (Parse_error 110)
      | Some c \<Rightarrow>
          (case msgpack_count 0x80 0xDE c rest of
             Some r \<Rightarrow>
               bind_result r (\<lambda>(len, r1).
                 if max_object lim < len then Inl (Out_of_range 408)
                 else bind_result (msgpack_members fc lim len [] r1) (\<lambda>(m, r2). Inr (JObject m, r2)))
           | None \<Rightarrow>
          (case msgpack_count 0x90 0xDC c rest of
             Some r \<Rightarrow>
               bind_result r (\<lambda>(len, r1).
                 if max_array lim < len then Inl (Out_of_range 408)
                 else bind_result (msgpack_items fc lim len r1) (\<lambda>(vs, r2). Inr (JArray vs, r2)))
           | None \<Rightarrow> msgpack_leaf fc c rest)))"
| "msgpack_items fc lim n rest =
     (if n = 0 then Inr ([], rest)
      else
        bind_result (msgpack_value fc lim (fst (get_byte rest)) (snd (get_byte rest))) (\<lambda>(v, r1).
        bind_result (msgpack_items fc lim (n - 1) r1) (\<lambda>(vs, r2). Inr (v # vs, r2))))"
| "msgpack_members fc lim n m rest =
     (if n = 0 then Inr (m, rest)
      else
        bind_result (msgpack_string (fst (get_byte rest)) (snd (get_byte rest))) (\<lambda>(k, r1).
        bind_result (msgpack_value fc lim (fst (get_byte r1)) (snd (get_byte r1))) (\<lambda>(v, r2).
          msgpack_members fc lim (n - 1) (map_put (map chr k) v m) r2)))"
  by pat_completeness auto

lemma msgpack_count_length: "msgpack_count f w c rest = Some (Inr (n, r)) \<Longrightarrow> length r \<le> length rest"
  by (auto simp: msgpack_count_def split: if_splits dest: get_number_length)

lemma msgpack_string_length: "msgpack_string cur rest = Inr (bs, r) \<Longrightarrow> length r \<le> length rest"
  by (auto simp: msgpack_string_def bind_result_Inr_iff split: option.splits if_splits
      dest!: get_number_length get_bytes_length)

lemma msgpack_ext_length: "msgpack_ext n rest = Inr (v, r) \<Longrightarrow> length r \<le> length rest"
  by (auto simp: msgpack_ext_def bind_result_Inr_iff dest!: get_number_length get_bytes_length)

lemma msgpack_binary_length: "msgpack_binary c rest = Some (Inr (v, r)) \<Longrightarrow> length r \<le> length rest"
  by (auto simp: msgpack_binary_def Let_def bind_result_Inr_iff split: if_splits
      dest!: get_number_length get_bytes_length msgpack_ext_length)

lemma msgpack_number_length: "msgpack_number fc c rest = Some (Inr (v, r)) \<Longrightarrow> length r \<le> length rest"
  by (auto simp: msgpack_number_def get_signed_def Let_def bind_result_Inr_iff split: if_splits
      dest!: get_number_length)

lemma msgpack_leaf_length: "msgpack_leaf fc c rest = Inr (v, r) \<Longrightarrow> length r \<le> length rest"
  by (auto simp: msgpack_leaf_def bind_result_Inr_iff split: option.splits if_splits
      dest: msgpack_number_length msgpack_binary_length msgpack_string_length)

lemma msgpack_value_partial:
  fixes fc fc' fc'' :: "'f float_codec"
  shows "msgpack_value_msgpack_items_msgpack_members_dom (Inl (fc, lim, cur, rest)) \<Longrightarrow>
    msgpack_value fc lim cur rest = Inr (v, r) \<Longrightarrow> cur \<noteq> None \<and> length r \<le> length rest"
  "msgpack_value_msgpack_items_msgpack_members_dom (Inr (Inl (fc', lim', n', rest'))) \<Longrightarrow>
    msgpack_items fc' lim' n' rest' = Inr (vs, r') \<Longrightarrow> length r' \<le> length rest'"
  "msgpack_value_msgpack_items_msgpack_members_dom (Inr (Inr (fc'', lim'', n'', m, rest''))) \<Longrightarrow>
    msgpack_members fc'' lim'' n'' m rest'' = Inr (m', r'') \<Longrightarrow> length r'' \<le> length rest''"
proof (induction fc lim cur rest and fc' lim' n' rest' and fc'' lim'' n'' m rest''
    arbitrary: v r and vs r' and m' r'' rule: msgpack_value_msgpack_items_msgpack_members.pinduct)
  case (1 fc lim cur rest)
  note run = 1(4) [unfolded msgpack_value.psimps [OF 1(1)]]
  then obtain c where c: "cur = Some c" by (cases cur) simp_all
  note run = run [unfolded c option.case]
  show ?case
  proof (cases "msgpack_count 0x80 0xDE c rest")
    case (Some q)
    with run obtain len r1 m where q: "q = Inr (len, r1)" and ok: "\<not> max_object lim < len"
      and m: "msgpack_members fc lim len [] r1 = Inr (m, r)"
      unfolding Some option.case bind_result_Inr_iff by (auto split: if_split_asm simp: bind_result_Inr_iff)
    from 1(3) [OF c Some q refl ok m] msgpack_count_length [OF Some [unfolded q]] c show ?thesis by simp
  next
    case obj: None
    show ?thesis
    proof (cases "msgpack_count 0x90 0xDC c rest")
      case (Some q)
      with run obtain len r1 vs where q: "q = Inr (len, r1)" and ok: "\<not> max_array lim < len"
        and vs: "msgpack_items fc lim len r1 = Inr (vs, r)"
        unfolding obj Some option.case bind_result_Inr_iff by (auto split: if_split_asm simp: bind_result_Inr_iff)
      from 1(2) [OF c obj Some q refl ok vs] msgpack_count_length [OF Some [unfolded q]] c show ?thesis by simp
    next
      case None
      with run have "msgpack_leaf fc c rest = Inr (v, r)" by (simp only: obj None option.case)
      then show ?thesis using msgpack_leaf_length c by simp
    qed
  qed
next
  case (2 fc lim n rest)
  show ?case
  proof (cases "n = 0")
    case False
    with 2(4) obtain v r1 vs where v: "msgpack_value fc lim (fst (get_byte rest)) (snd (get_byte rest)) = Inr (v, r1)"
      and vs: "msgpack_items fc lim (n - 1) r1 = Inr (vs, r')"
      unfolding msgpack_items.psimps [OF 2(1)] by (auto simp: bind_result_Inr_iff)
    from 2(2) [OF False v] 2(3) [OF False v refl vs] get_byte_le [of rest] show ?thesis by linarith
  next
    case True
    with 2(4) show ?thesis unfolding msgpack_items.psimps [OF 2(1)] by simp
  qed
next
  case (3 fc lim n m rest)
  show ?case
  proof (cases "n = 0")
    case False
    with 3(4) obtain k r1 v r2 where k: "msgpack_string (fst (get_byte rest)) (snd (get_byte rest)) = Inr (k, r1)"
      and v: "msgpack_value fc lim (fst (get_byte r1)) (snd (get_byte r1)) = Inr (v, r2)"
      and ms: "msgpack_members fc lim (n - 1) (map_put (map chr k) v m) r2 = Inr (m', r'')"
      unfolding msgpack_members.psimps [OF 3(1)] by (auto simp: bind_result_Inr_iff)
    from 3(2) [OF False k refl v] 3(3) [OF False k refl v refl ms] msgpack_string_length [OF k]
      get_byte_le [of rest] get_byte_le [of r1]
    show ?thesis by linarith
  next
    case True
    with 3(4) show ?thesis unfolding msgpack_members.psimps [OF 3(1)] by simp
  qed
qed

definition msgpack_measure ::
  "'f float_codec \<times> limits \<times> nat option \<times> nat list +
   ('f float_codec \<times> limits \<times> nat \<times> nat list +
    'f float_codec \<times> limits \<times> nat \<times> (string \<times> 'f json) list \<times> nat list) \<Rightarrow> nat"
where
  "msgpack_measure x =
     (case x of
        Inl (fc, lim, cur, rest) \<Rightarrow> 2 * length rest + (if cur = None then 0 else 2)
      | Inr (Inl (fc, lim, n, rest)) \<Rightarrow> 2 * length rest + 1
      | Inr (Inr (fc, lim, n, m, rest)) \<Rightarrow> 2 * length rest + 1)"

termination msgpack_value
proof (relation "measure msgpack_measure", goal_cases)
  case (2 fc lim cur rest c q a len r)
  then have "msgpack_count 0x90 0xDC c rest = Some (Inr (len, r))" by simp
  then show ?case using 2(1) msgpack_count_length by (fastforce simp: msgpack_measure_def)
next
  case (3 fc lim cur rest c q a len r)
  then have "msgpack_count 0x80 0xDE c rest = Some (Inr (len, r))" by simp
  then show ?case using 3(1) msgpack_count_length by (fastforce simp: msgpack_measure_def)
next
  case (4 fc lim n rest)
  then show ?case using get_byte_measure [of rest] by (simp add: msgpack_measure_def case_prod_beta)
next
  case (5 fc lim n rest a v r)
  then have "msgpack_value fc lim (fst (get_byte rest)) (snd (get_byte rest)) = Inr (v, r)" by simp
  from msgpack_value_partial(1) [OF 5(4) this] show ?case
    using get_byte_measure [of rest] by (auto simp: msgpack_measure_def)
next
  case (6 fc lim n m rest a k r)
  then have "msgpack_string (fst (get_byte rest)) (snd (get_byte rest)) = Inr (k, r)" by simp
  from msgpack_string_length [OF this] show ?case
    using get_byte_measure [of r] get_byte_le [of rest] by (simp add: msgpack_measure_def case_prod_beta)
next
  case (7 fc lim n m rest a k r b v r2)
  then have "msgpack_string (fst (get_byte rest)) (snd (get_byte rest)) = Inr (k, r)"
    and v: "msgpack_value fc lim (fst (get_byte r)) (snd (get_byte r)) = Inr (v, r2)" by simp_all
  from msgpack_string_length [OF this(1)] msgpack_value_partial(1) [OF 7(6) v] show ?case
    using get_byte_measure [of r] get_byte_le [of rest] by (auto simp: msgpack_measure_def)
qed simp

declare msgpack_value.simps [simp del] msgpack_items.simps [simp del] msgpack_members.simps [simp del]

definition from_msgpack ::
  "'f float_codec \<Rightarrow> limits \<Rightarrow> bool \<Rightarrow> nat list \<Rightarrow> (json_error, 'f json) result" where
  "from_msgpack fc lim strict input = sax_parse (msgpack_value fc lim) strict input"

end
