(* ===== verification/Msgpack_Roundtrip.thy ===== *)
theory Msgpack_Roundtrip
  imports Json_Msgpack
begin

text \<open>What the MessagePack reader makes of written text, by induction on the value.\<close>

section \<open>Numbers\<close>

lemma get_signed_bytes:
  assumes "- (2 ^ (8 * k - 1)) \<le> i" and "i < 2 ^ (8 * k - 1)" and "0 < k"
  shows "get_signed k (signed_bytes k i @ r) = Inr (i, r)"
proof -
  have "nat (i mod 2 ^ (8 * k)) < 256 ^ k"
  proof -
    have "(2 :: int) ^ (8 * k) = 256 ^ k" by (simp add: power_mult)
    then have "i mod 2 ^ (8 * k) < 256 ^ k" by simp
    then show ?thesis by (simp add: nat_less_iff)
  qed
  then show ?thesis
    using assms by (simp add: get_signed_def signed_bytes_def wrap_signed_mod)
qed

section \<open>Values\<close>

definition msgpack_reads :: "'f float_codec \<Rightarrow> limits \<Rightarrow> nat list \<Rightarrow> 'f json \<Rightarrow> bool" where
  "msgpack_reads fc lim ws v \<longleftrightarrow>
     (\<exists>c t. ws = c # t \<and> (\<forall>r. msgpack_value fc lim (Some c) (t @ r) = Inr (v, r)))"

lemma msgpack_readsI:
  "(\<And>r. msgpack_value fc lim (Some c) (t @ r) = Inr (v, r)) \<Longrightarrow> msgpack_reads fc lim (c # t) v"
  by (auto simp: msgpack_reads_def)

lemma msgpack_count_None: "c < f \<or> f + 15 < c \<Longrightarrow> c < w \<or> w + 1 < c \<Longrightarrow> msgpack_count f w c r = None"
  by (auto simp: msgpack_count_def)

lemma msgpack_value_leaf:
  assumes "c < 0x80 \<or> 0x9F < c \<and> c < 0xDC \<or> 0xDF < c"
  shows "msgpack_value fc lim (Some c) rest = msgpack_leaf fc c rest"
proof -
  have "msgpack_count 0x80 0xDE c rest = None" "msgpack_count 0x90 0xDC c rest = None"
    using assms by (auto intro!: msgpack_count_None)
  then show ?thesis by (simp add: msgpack_value.simps)
qed

lemmas msgpack_number_simps =
  msgpack_value_leaf msgpack_leaf_def msgpack_number_def Let_def

lemma msgpack_unsigned_reads:
  assumes "n < 2 ^ 64"
  shows "msgpack_reads fc lim (msgpack_unsigned n) (JUnsigned n)"
  using assms get_number_be [of n 1] get_number_be [of n 2] get_number_be [of n 4] get_number_be [of n 8]
  by (auto simp: msgpack_unsigned_def msgpack_number_simps intro!: msgpack_readsI)

lemma msgpack_negative_reads:
  assumes "- (2 ^ 63) \<le> i" and "i < 0"
  shows "msgpack_reads fc lim (msgpack_negative i) (JInteger i)"
proof (cases "- 32 \<le> i")
  case True
  have w: "wrap_signed 8 (i mod 256) = i" using wrap_signed_mod [of 8 i] True assms by simp
  have "i mod 256 = (i + 256) mod 256" by simp
  also have "\<dots> = i + 256" using True assms(2) by (intro mod_pos_pos_trivial) auto
  finally have m: "i mod 256 = i + 256" .
  define c where "c = nat (i + 256)"
  have c: "0xDF < c" "int c = i + 256" "c mod 256 = c" using True assms(2) by (auto simp: c_def)
  have "msgpack_negative i = signed_bytes 1 i" using True by (simp add: msgpack_negative_def)
  also have "\<dots> = [c]" using c(3) by (simp add: signed_bytes_def m c_def)
  finally have "msgpack_negative i = [c]" .
  with c w m show ?thesis by (auto simp: msgpack_number_simps intro!: msgpack_readsI)
next
  case False
  then show ?thesis
    using assms get_signed_bytes [of 1 i] get_signed_bytes [of 2 i] get_signed_bytes [of 4 i] get_signed_bytes [of 8 i]
    by (auto simp: msgpack_negative_def msgpack_number_simps intro!: msgpack_readsI)
qed

lemma msgpack_text_bytes:
  assumes "length s < 2 ^ 32"
  shows "\<exists>c t. msgpack_text s = c # t \<and> (0xA0 \<le> c \<and> c \<le> 0xBF \<or> 0xD9 \<le> c \<and> c \<le> 0xDB) \<and>
    (\<forall>r. msgpack_string (Some c) (t @ r) = Inr (map byte s, r))"
proof -
  have g: "get_bytes (length s) (map byte s @ r) = Inr (map byte s, r)" for r
    using get_bytes_append [of "map byte s" r] by simp
  have "(160 + length s) mod 32 = length s" if "length s \<le> 31"
    using that mod_mult_self2 [of "length s" 32 5] by (simp add: add.commute)
  with assms g get_number_be [of "length s" 1] get_number_be [of "length s" 2] get_number_be [of "length s" 4]
  show ?thesis by (auto simp: msgpack_text_def msgpack_string_def Let_def)
qed

lemma msgpack_text_reads:
  fixes fc :: "'f float_codec"
  assumes "length s < 2 ^ 32"
  shows "msgpack_reads fc lim (msgpack_text s) (JString s)"
proof -
  from msgpack_text_bytes [OF assms] obtain c t where c: "msgpack_text s = c # t"
      "0xA0 \<le> c \<and> c \<le> 0xBF \<or> 0xD9 \<le> c \<and> c \<le> 0xDB"
    and s: "\<And>r. msgpack_string (Some c) (t @ r) = Inr (map byte s, r)" by auto
  have "msgpack_number fc c r = None"
    "(msgpack_binary c r :: (json_error, 'f json \<times> nat list) result option) = None" for r
    using c(2) by (auto simp: msgpack_number_def msgpack_binary_def)
  then show ?thesis
    using c s by (auto simp: msgpack_value_leaf msgpack_leaf_def comp_def intro!: msgpack_readsI)
qed

lemma msgpack_float_reads:
  assumes "codec_ok fc f"
  shows "msgpack_reads fc lim (write_compact_float fc 0xCA 0xCB f) (JFloat f)"
proof (cases "single_bits fc f")
  case None
  with assms get_number_be [of "double_bits fc f" 8] show ?thesis
    by (auto simp: codec_ok_def write_compact_float_def msgpack_number_simps intro!: msgpack_readsI)
next
  case (Some b)
  with assms get_number_be [of b 4] show ?thesis
    by (auto simp: codec_ok_def write_compact_float_def msgpack_number_simps intro!: msgpack_readsI)
qed

lemma msgpack_ext_reads:
  "n < 256 \<Longrightarrow> msgpack_ext (length bs) (n # bs @ r) = Inr (JBinary bs (Some n), r)"
  by (simp add: msgpack_ext_def)

lemma msgpack_binary_reads:
  fixes fc :: "'f float_codec"
  assumes "length bs < 2 ^ 32"
  shows "msgpack_reads fc lim
    (msgpack_binary_head (length bs) (st \<noteq> None) @ (case st of None \<Rightarrow> [] | Some n \<Rightarrow> be_bytes 1 n) @ bs)
    (JBinary bs (map_option (\<lambda>n. n mod 256) st))"
proof -
  note num = get_number_be [of "length bs" 1] get_number_be [of "length bs" 2] get_number_be [of "length bs" 4]
  have leaf: "msgpack_value fc lim (Some c) r = q"
    if "msgpack_binary c r = Some q" "msgpack_number fc c r = None" "0x9F < c" "c < 0xDC" for c r
      and q :: "(json_error, 'f json \<times> nat list) result"
    using that by (simp add: msgpack_value_leaf msgpack_leaf_def)
  show ?thesis
  proof (cases st)
    case None
    have "\<exists>c t. msgpack_binary_head (length bs) False @ bs = c # t \<and> 0xC4 \<le> c \<and> c \<le> 0xC6 \<and>
        (\<forall>r. msgpack_binary c (t @ r) = Some (Inr (JBinary bs None, r) :: (json_error, 'f json \<times> nat list) result))"
      using assms num by (simp add: msgpack_binary_head_def msgpack_binary_def Let_def)
    then obtain c t where h: "msgpack_binary_head (length bs) False @ bs = c # t" "0xC4 \<le> c" "c \<le> 0xC6"
      "\<And>r. msgpack_binary c (t @ r) = Some (Inr (JBinary bs None, r) :: (json_error, 'f json \<times> nat list) result)" by auto
    then have "msgpack_number fc c r = None" for r by (auto simp: msgpack_number_def)
    with None h leaf show ?thesis by (auto intro!: msgpack_readsI)
  next
    case (Some n)
    have e: "msgpack_ext k (n mod 256 # bs @ r) =
        (Inr (JBinary bs (Some (n mod 256)), r) :: (json_error, 'f json \<times> nat list) result)"
      if "length bs = k" for k r
      using msgpack_ext_reads [of "n mod 256" bs r] that by simp
    have "\<exists>c t. msgpack_binary_head (length bs) True @ be_bytes 1 n @ bs = c # t \<and>
        (0xC7 \<le> c \<and> c \<le> 0xC9 \<or> 0xD4 \<le> c \<and> c \<le> 0xD8) \<and>
        (\<forall>r. msgpack_binary c (t @ r) =
          Some (Inr (JBinary bs (Some (n mod 256)), r) :: (json_error, 'f json \<times> nat list) result))"
      using assms num e by (simp add: msgpack_binary_head_def msgpack_binary_def Let_def fixext_def)
    then obtain c t where h: "msgpack_binary_head (length bs) True @ be_bytes 1 n @ bs = c # t"
        "0xC7 \<le> c \<and> c \<le> 0xC9 \<or> 0xD4 \<le> c \<and> c \<le> 0xD8"
      "\<And>r. msgpack_binary c (t @ r) =
        Some (Inr (JBinary bs (Some (n mod 256)), r) :: (json_error, 'f json \<times> nat list) result)" by auto
    then have "msgpack_number fc c r = None" for r by (auto simp: msgpack_number_def)
    with Some h leaf show ?thesis by (auto intro!: msgpack_readsI)
  qed
qed

section \<open>Whole values\<close>

text \<open>What comes back: signed numbers that are not negative become unsigned, subtypes lose their high bits.\<close>

fun msgpack_form :: "'f json \<Rightarrow> 'f json" where
  "msgpack_form (JInteger i) = (if 0 \<le> i then JUnsigned (nat i) else JInteger i)"
| "msgpack_form (JBinary bs st) = JBinary bs (map_option (\<lambda>n. n mod 256) st)"
| "msgpack_form (JArray vs) = JArray (map msgpack_form vs)"
| "msgpack_form (JObject m) = JObject (map (\<lambda>(k, v). (k, msgpack_form v)) m)"
| "msgpack_form v = v"

fun msgpack_ok :: "'f float_codec \<Rightarrow> limits \<Rightarrow> 'f json \<Rightarrow> bool" where
  "msgpack_ok fc lim (JInteger i) \<longleftrightarrow> - (2 ^ 63) \<le> i \<and> i < 2 ^ 63"
| "msgpack_ok fc lim (JUnsigned n) \<longleftrightarrow> n < 2 ^ 64"
| "msgpack_ok fc lim (JFloat f) \<longleftrightarrow> codec_ok fc f"
| "msgpack_ok fc lim (JString s) \<longleftrightarrow> length s < 2 ^ 32"
| "msgpack_ok fc lim (JBinary bs st) \<longleftrightarrow> length bs < 2 ^ 32"
| "msgpack_ok fc lim (JArray vs) \<longleftrightarrow>
     length vs < 2 ^ 32 \<and> length vs \<le> max_array lim \<and> (\<forall>v \<in> set vs. msgpack_ok fc lim v)"
| "msgpack_ok fc lim (JObject m) \<longleftrightarrow>
     map_ok m \<and> length m < 2 ^ 32 \<and> length m \<le> max_object lim \<and>
     (\<forall>(k, v) \<in> set m. length k < 2 ^ 32 \<and> msgpack_ok fc lim v)"
| "msgpack_ok fc lim JDiscarded \<longleftrightarrow> False"
| "msgpack_ok fc lim _ \<longleftrightarrow> True"

lemma msgpack_reads_items:
  assumes "\<forall>v \<in> set vs. msgpack_reads fc lim (write_msgpack fc v) (g v)"
  shows "msgpack_items fc lim (length vs) (write_msgpack_elements fc vs @ r) = Inr (map g vs, r)"
  using assms
proof (induction vs)
  case (Cons v vs)
  then obtain c t where "write_msgpack fc v = c # t" "\<forall>r. msgpack_value fc lim (Some c) (t @ r) = Inr (g v, r)"
    by (auto simp: msgpack_reads_def)
  with Cons show ?case by (simp add: msgpack_items.simps [of fc lim "Suc (length vs)"])
qed (simp add: msgpack_items.simps)

lemma msgpack_reads_members:
  assumes "\<forall>(k, v) \<in> set m. length k < 2 ^ 32 \<and> msgpack_reads fc lim (write_msgpack fc v) (g v)"
    and "map_ok (m0 @ m)"
  shows "msgpack_members fc lim (length m) (map (\<lambda>(k, v). (k, g v)) m0) (write_msgpack_members fc m @ r) =
    Inr (map (\<lambda>(k, v). (k, g v)) (m0 @ m), r)"
  using assms
proof (induction m arbitrary: m0)
  case (Cons p m)
  obtain k v where p: "p = (k, v)" by (cases p)
  from Cons(2) p obtain c t where v: "write_msgpack fc v = c # t"
    "\<And>r. msgpack_value fc lim (Some c) (t @ r) = Inr (g v, r)"
    by (auto simp: msgpack_reads_def)
  from Cons(2) p obtain c' t' where k: "msgpack_text k = c' # t'"
    "\<And>r. msgpack_string (Some c') (t' @ r) = Inr (map byte k, r)"
    using msgpack_text_bytes [of k] by auto
  have "map_put k (g v) (map (\<lambda>(k, v). (k, g v)) m0) = map (\<lambda>(k, v). (k, g v)) (m0 @ [(k, v)])"
    using Cons(3) p by (simp add: map_put_last sorted_wrt_append comp_def case_prod_beta)
  with Cons.IH [of "m0 @ [(k, v)]"] Cons(2,3) p v k show ?case
    by (simp add: msgpack_members.simps [of fc lim "Suc (length m)"] comp_def)
qed (simp add: msgpack_members.simps)

lemma msgpack_size_count:
  assumes "n < 2 ^ 32"
  shows "\<exists>c t. msgpack_size f w n = c # t \<and> (f \<le> c \<and> c \<le> f + 15 \<or> c = w \<or> c = w + 1) \<and>
    (w < f \<or> f + 15 < w \<longrightarrow> w + 1 < f \<or> f + 15 < w + 1 \<longrightarrow> (\<forall>r. msgpack_count f w c (t @ r) = Some (Inr (n, r))))"
  using assms get_number_be [of n 2] get_number_be [of n 4]
  by (auto simp: msgpack_size_def msgpack_count_def)

lemma msgpack_array_reads:
  assumes "length vs < 2 ^ 32" and "length vs \<le> max_array lim"
    and "\<forall>v \<in> set vs. msgpack_reads fc lim (write_msgpack fc v) (g v)"
  shows "msgpack_reads fc lim (msgpack_size 0x90 0xDC (length vs) @ write_msgpack_elements fc vs) (JArray (map g vs))"
proof -
  from msgpack_size_count [OF assms(1), of "0x90" "0xDC"] obtain c t where
    h: "msgpack_size 0x90 0xDC (length vs) = c # t" "0x90 \<le> c \<and> c \<le> 0x9F \<or> c = 0xDC \<or> c = 0xDD"
    and n: "\<And>r. msgpack_count 0x90 0xDC c (t @ r) = Some (Inr (length vs, r))" by auto
  have "msgpack_count 0x80 0xDE c r = None" for r using h(2) by (intro msgpack_count_None) auto
  with h n assms msgpack_reads_items [OF assms(3)] show ?thesis
    by (auto simp: msgpack_value.simps intro!: msgpack_readsI)
qed

lemma msgpack_object_reads:
  assumes "length m < 2 ^ 32" and "length m \<le> max_object lim" and "map_ok m"
    and "\<forall>(k, v) \<in> set m. length k < 2 ^ 32 \<and> msgpack_reads fc lim (write_msgpack fc v) (g v)"
  shows "msgpack_reads fc lim (msgpack_size 0x80 0xDE (length m) @ write_msgpack_members fc m)
    (JObject (map (\<lambda>(k, v). (k, g v)) m))"
proof -
  from msgpack_size_count [OF assms(1), of "0x80" "0xDE"] obtain c t where
    h: "msgpack_size 0x80 0xDE (length m) = c # t"
    and n: "\<And>r. msgpack_count 0x80 0xDE c (t @ r) = Some (Inr (length m, r))" by auto
  with assms msgpack_reads_members [OF assms(4), of "[]"] show ?thesis
    by (auto simp: msgpack_value.simps intro!: msgpack_readsI)
qed

lemma msgpack_word_reads:
  "msgpack_reads fc lim [0xC0] JNull" "msgpack_reads fc lim [0xC3] (JBoolean True)"
  "msgpack_reads fc lim [0xC2] (JBoolean False)"
  by (auto simp: msgpack_number_simps msgpack_binary_def intro!: msgpack_readsI)

lemma write_msgpack_reads:
  "msgpack_ok fc lim j \<Longrightarrow> msgpack_reads fc lim (write_msgpack fc j) (msgpack_form j)"
proof (induction j)
  case (JInteger i)
  then show ?case using msgpack_unsigned_reads [of "nat i" fc lim] msgpack_negative_reads [of i fc lim] by auto
next
  case (JObject m)
  then have "\<forall>(k, v) \<in> set m. length k < 2 ^ 32 \<and> msgpack_reads fc lim (write_msgpack fc v) (msgpack_form v)"
    by fastforce
  with JObject(2) show ?case using msgpack_object_reads by fastforce
next
  case (JArray vs)
  then have "\<forall>v \<in> set vs. msgpack_reads fc lim (write_msgpack fc v) (msgpack_form v)" by simp
  with JArray(2) show ?case using msgpack_array_reads by fastforce
next
  case (JBinary bs st)
  then show ?case using msgpack_binary_reads [of bs fc lim st] by simp
qed (use msgpack_unsigned_reads msgpack_text_reads msgpack_word_reads msgpack_float_reads in auto)

lemma from_msgpack_write:
  assumes "msgpack_ok fc lim j"
  shows "from_msgpack fc lim strict (write_msgpack fc j) = Inr (msgpack_form j)"
proof -
  from write_msgpack_reads [OF assms] obtain c t where w: "write_msgpack fc j = c # t"
    "\<And>r. msgpack_value fc lim (Some c) (t @ r) = Inr (msgpack_form j, r)" by (auto simp: msgpack_reads_def)
  from w(2) [of "[]"] show ?thesis by (simp add: from_msgpack_def sax_parse_def w(1))
qed

section \<open>Longer and shorter input\<close>

lemma msgpack_count_extends:
  "rel_option (extends x) (msgpack_count f w c rest) (msgpack_count f w c (rest @ x))"
  by (simp add: msgpack_count_def extends_get_number extends_Inr)

lemma msgpack_string_extends: "extends x (msgpack_string cur rest) (msgpack_string cur (rest @ x))"
proof (cases cur)
  case (Some c)
  show ?thesis
    unfolding msgpack_string_def Some option.case
    by (intro extends_if extends_bind extends_get_bytes extends_get_number extends_Inl)
      (auto simp: extends_get_bytes)
qed (simp add: msgpack_string_def)

lemma msgpack_string_None [simp]: "msgpack_string None rest = Inl (Parse_error 110)"
  by (simp add: msgpack_string_def)

lemma msgpack_ext_extends: "extends x (msgpack_ext n rest) (msgpack_ext n (rest @ x))"
  unfolding msgpack_ext_def
  by (intro extends_bind extends_get_number) (auto intro!: extends_bind extends_get_bytes simp: extends_Inr)

lemma msgpack_binary_extends: "rel_option (extends x) (msgpack_binary c rest) (msgpack_binary c (rest @ x))"
  by (auto simp: msgpack_binary_def Let_def extends_Inr
      intro!: extends_bind extends_get_number extends_get_bytes msgpack_ext_extends)

lemma msgpack_number_extends:
  "rel_option (extends x) (msgpack_number fc c rest) (msgpack_number fc c (rest @ x))"
  by (auto simp: msgpack_number_def get_signed_def Let_def extends_Inr intro!: extends_bind extends_get_number)

lemma msgpack_leaf_extends: "extends x (msgpack_leaf fc c rest) (msgpack_leaf fc c (rest @ x))"
  unfolding msgpack_leaf_def
  by (intro extends_option msgpack_number_extends msgpack_binary_extends extends_if extends_bind
      msgpack_string_extends extends_Inr extends_Inl)
    (auto simp: extends_Inr)

lemma msgpack_value_None [simp]: "msgpack_value fc lim None rest = Inl (Parse_error 110)"
  by (simp add: msgpack_value.simps)

lemma msgpack_value_extends:
  fixes fc fc' fc'' :: "'f float_codec"
  shows "extends x (msgpack_value fc lim cur rest) (msgpack_value fc lim cur (rest @ x))"
  "extends x (msgpack_items fc' lim' n' rest') (msgpack_items fc' lim' n' (rest' @ x))"
  "extends x (msgpack_members fc'' lim'' n'' m rest'') (msgpack_members fc'' lim'' n'' m (rest'' @ x))"
proof (induction fc lim cur rest and fc' lim' n' rest' and fc'' lim'' n'' m rest''
    rule: msgpack_value_msgpack_items_msgpack_members.induct)
  case (1 fc lim cur rest)
  show ?case
  proof (cases cur)
    case (Some c)
    note items = 1(1) [OF Some _ _ refl refl] and members = 1(2) [OF Some _ refl refl]
    show ?thesis
      unfolding Some msgpack_value.simps [of fc lim "Some c"] option.case
      by (intro extends_option msgpack_count_extends msgpack_leaf_extends extends_bind)
        (auto intro!: extends_bind extends_Inl extends_Inr extends_if items members)
  qed simp
next
  case (2 fc lim n rest)
  show ?case
    unfolding msgpack_items.simps [of fc lim n]
    using 2 by (intro extends_if extends_bind extends_Inr extends_next) (auto intro!: extends_bind simp: extends_Inr)
next
  case (3 fc lim n m rest)
  show ?case
    unfolding msgpack_members.simps [of fc lim n]
    using 3
    by (intro extends_if extends_bind extends_Inr extends_next)
      (auto intro!: extends_bind extends_next msgpack_string_extends simp: extends_Inr)
qed

interpretation msgpack: binary_format "msgpack_value fc lim"
  by unfold_locales (simp_all add: msgpack_value_extends)

end
