(* ===== verification/Json_Bson.thy ===== *)
theory Json_Bson
  imports Binary_Numbers
begin

text \<open>
  BSON: the size functions and writers of \<open>binary_writer\<close> and the BSON part of \<open>binary_reader\<close>. Numbers
  are little-endian here. Writing may throw, after part of the output is written; that output is
  lost with the exception. A reader stops in two ways: it throws, or it returns false without
  having reported anything.
\<close>

section \<open>Little-endian numbers\<close>

definition le_number :: "nat \<Rightarrow> nat \<Rightarrow> nat list" where
  "le_number k v = rev (be_bytes k v)"

definition get_le_number :: "nat \<Rightarrow> nat list \<Rightarrow> (json_error, nat \<times> nat list) result" where
  "get_le_number k rest =
     bind_result (get_bytes k rest) (\<lambda>(bs, r). bind_result (get_number k (rev bs)) (\<lambda>(v, _). Inr (v, r)))"

text \<open>The cast of a size to \<open>int32_t\<close>, as it is written.\<close>

definition int32_bytes :: "int \<Rightarrow> nat list" where
  "int32_bytes i = le_number 4 (nat (i mod 2 ^ 32))"

section \<open>Sizes\<close>

text \<open>Sizes are numbers of type \<open>size_t\<close>, computed without a bound here.\<close>

definition calc_bson_entry_header_size :: "string \<Rightarrow> (json_error, nat) result" where
  "calc_bson_entry_header_size name =
     (if chr 0 \<in> set name then Inl (Out_of_range 409) else Inr (1 + length name + 1))"

definition calc_bson_string_size :: "string \<Rightarrow> nat" where
  "calc_bson_string_size s = 4 + length s + 1"

definition calc_bson_integer_size :: "int \<Rightarrow> nat" where
  "calc_bson_integer_size i = (if - 2147483648 \<le> i \<and> i \<le> 2147483647 then 4 else 8)"

definition calc_bson_unsigned_size :: "nat \<Rightarrow> nat" where
  "calc_bson_unsigned_size n = (if n \<le> 2147483647 then 4 else 8)"

definition calc_bson_binary_size :: "nat list \<Rightarrow> nat" where
  "calc_bson_binary_size bs = 4 + length bs + 1"

text \<open>The elements of an array have the decimal text of their index as name.\<close>

fun calc_bson_element_size :: "string \<Rightarrow> 'f json \<Rightarrow> (json_error, nat) result"
and calc_bson_object_size :: "(string \<times> 'f json) list \<Rightarrow> (json_error, nat) result"
and calc_bson_array_size :: "nat \<Rightarrow> 'f json list \<Rightarrow> (json_error, nat) result" where
  "calc_bson_element_size name v =
     bind_result (calc_bson_entry_header_size name) (\<lambda>h.
       case v of
         JObject m \<Rightarrow> bind_result (calc_bson_object_size m) (\<lambda>n. Inr (h + (4 + n + 1)))
       | JArray vs \<Rightarrow> bind_result (calc_bson_array_size 0 vs) (\<lambda>n. Inr (h + (4 + n + 1)))
       | JBinary bs st \<Rightarrow> Inr (h + calc_bson_binary_size bs)
       | JBoolean b \<Rightarrow> Inr (h + 1)
       | JFloat f \<Rightarrow> Inr (h + 8)
       | JInteger i \<Rightarrow> Inr (h + calc_bson_integer_size i)
       | JUnsigned n \<Rightarrow> Inr (h + calc_bson_unsigned_size n)
       | JString s \<Rightarrow> Inr (h + calc_bson_string_size s)
       | JNull \<Rightarrow> Inr (h + 0)
       | JDiscarded \<Rightarrow> Inl Assertion_failed)"
| "calc_bson_object_size [] = Inr 0"
| "calc_bson_object_size ((k, v) # m) =
     bind_result (calc_bson_element_size k v) (\<lambda>a.
     bind_result (calc_bson_object_size m) (\<lambda>b. Inr (a + b)))"
| "calc_bson_array_size i [] = Inr 0"
| "calc_bson_array_size i (v # vs) =
     bind_result (calc_bson_element_size (nat_digits i) v) (\<lambda>a.
     bind_result (calc_bson_array_size (i + 1) vs) (\<lambda>b. Inr (a + b)))"

section \<open>Writing\<close>

definition write_bson_entry_header :: "string \<Rightarrow> nat \<Rightarrow> nat list" where
  "write_bson_entry_header name element_type = element_type # map byte name @ [0]"

definition write_bson_integer :: "string \<Rightarrow> int \<Rightarrow> nat list" where
  "write_bson_integer name i =
     (if - 2147483648 \<le> i \<and> i \<le> 2147483647 then write_bson_entry_header name 0x10 @ int32_bytes i
      else write_bson_entry_header name 0x12 @ le_number 8 (nat (i mod 2 ^ 64)))"

definition write_bson_unsigned :: "string \<Rightarrow> nat \<Rightarrow> (json_error, nat list) result" where
  "write_bson_unsigned name n =
     (if n \<le> 2147483647 then Inr (write_bson_entry_header name 0x10 @ le_number 4 n)
      else if n \<le> 9223372036854775807 then Inr (write_bson_entry_header name 0x12 @ le_number 8 n)
      else Inl (Out_of_range 407))"

definition write_bson_string :: "string \<Rightarrow> string \<Rightarrow> nat list" where
  "write_bson_string name s =
     write_bson_entry_header name 0x02 @ int32_bytes (int (length s + 1)) @ map byte s @ [0]"

definition write_bson_binary :: "string \<Rightarrow> nat list \<Rightarrow> nat option \<Rightarrow> nat list" where
  "write_bson_binary name bs st =
     write_bson_entry_header name 0x05 @ int32_bytes (int (length bs)) @
     [case st of Some n \<Rightarrow> n mod 256 | None \<Rightarrow> 0] @ bs"

text \<open>A document is its size, its elements and a zero; the size is computed first.\<close>

fun write_bson_element :: "'f float_codec \<Rightarrow> string \<Rightarrow> 'f json \<Rightarrow> (json_error, nat list) result"
and write_bson_members :: "'f float_codec \<Rightarrow> (string \<times> 'f json) list \<Rightarrow> (json_error, nat list) result"
and write_bson_items :: "'f float_codec \<Rightarrow> nat \<Rightarrow> 'f json list \<Rightarrow> (json_error, nat list) result" where
  "write_bson_element fc name v =
     (case v of
        JObject m \<Rightarrow>
          bind_result (calc_bson_object_size m) (\<lambda>n.
          bind_result (write_bson_members fc m) (\<lambda>ws.
            Inr (write_bson_entry_header name 0x03 @ int32_bytes (int (4 + n + 1)) @ ws @ [0])))
      | JArray vs \<Rightarrow>
          bind_result (calc_bson_array_size 0 vs) (\<lambda>n.
          bind_result (write_bson_items fc 0 vs) (\<lambda>ws.
            Inr (write_bson_entry_header name 0x04 @ int32_bytes (int (4 + n + 1)) @ ws @ [0])))
      | JBinary bs st \<Rightarrow> Inr (write_bson_binary name bs st)
      | JBoolean b \<Rightarrow> Inr (write_bson_entry_header name 0x08 @ [if b then 0x01 else 0x00])
      | JFloat f \<Rightarrow> Inr (write_bson_entry_header name 0x01 @ le_number 8 (double_bits fc f))
      | JInteger i \<Rightarrow> Inr (write_bson_integer name i)
      | JUnsigned n \<Rightarrow> write_bson_unsigned name n
      | JString s \<Rightarrow> Inr (write_bson_string name s)
      | JNull \<Rightarrow> Inr (write_bson_entry_header name 0x0A)
      | JDiscarded \<Rightarrow> Inl Assertion_failed)"
| "write_bson_members fc [] = Inr []"
| "write_bson_members fc ((k, v) # m) =
     bind_result (write_bson_element fc k v) (\<lambda>ws.
     bind_result (write_bson_members fc m) (\<lambda>us. Inr (ws @ us)))"
| "write_bson_items fc i [] = Inr []"
| "write_bson_items fc i (v # vs) =
     bind_result (write_bson_element fc (nat_digits i) v) (\<lambda>ws.
     bind_result (write_bson_items fc (i + 1) vs) (\<lambda>us. Inr (ws @ us)))"

definition write_bson :: "'f float_codec \<Rightarrow> 'f json \<Rightarrow> (json_error, nat list) result" where
  "write_bson fc j =
     (case j of
        JObject m \<Rightarrow>
          bind_result (calc_bson_object_size m) (\<lambda>n.
          bind_result (write_bson_members fc m) (\<lambda>ws. Inr (int32_bytes (int (4 + n + 1)) @ ws @ [0])))
      | _ \<Rightarrow> Inl (Type_error 317))"

section \<open>Reading\<close>

datatype bson_stop = Thrown json_error | Returned_false

definition lift_stop :: "(json_error, 'a) result \<Rightarrow> (bson_stop, 'a) result" where
  "lift_stop r = (case r of Inl e \<Rightarrow> Inl (Thrown e) | Inr a \<Rightarrow> Inr a)"

fun get_bson_cstr :: "nat list \<Rightarrow> (bson_stop, string \<times> nat list) result" where
  "get_bson_cstr [] = Inl (Thrown (Parse_error 110))"
| "get_bson_cstr (c # rest) =
     (if c = 0 then Inr ([], rest)
      else bind_result (get_bson_cstr rest) (\<lambda>(s, r). Inr (chr c # s, r)))"

definition get_bson_int32 :: "nat list \<Rightarrow> (bson_stop, int \<times> nat list) result" where
  "get_bson_int32 rest = bind_result (lift_stop (get_le_number 4 rest)) (\<lambda>(n, r). Inr (wrap_signed 32 (int n), r))"

text \<open>The byte after the characters is read but not compared with zero.\<close>

definition get_bson_string :: "int \<Rightarrow> nat list \<Rightarrow> (bson_stop, string \<times> nat list) result" where
  "get_bson_string len rest =
     (if len < 1 then Inl (Thrown (Parse_error 112))
      else
        bind_result (lift_stop (get_bytes (nat (len - 1)) rest)) (\<lambda>(bs, r).
          if fst (get_byte r) = None then Inl Returned_false else Inr (map chr bs, snd (get_byte r))))"

definition get_bson_binary :: "int \<Rightarrow> nat list \<Rightarrow> (bson_stop, 'f json \<times> nat list) result" where
  "get_bson_binary len rest =
     (if len < 0 then Inl (Thrown (Parse_error 112))
      else
        bind_result (lift_stop (get_number 1 rest)) (\<lambda>(st, r).
        bind_result (lift_stop (get_bytes (nat len) r)) (\<lambda>(bs, r2). Inr (JBinary bs (Some st), r2))))"

text \<open>
  Elements and lists of elements. The size of a document is read and ignored, and so are the names
  of the elements of an array. A byte missing after a name of type boolean counts as true.
\<close>

definition bson_object :: "(string \<times> 'f json) list \<Rightarrow> 'f json" where
  "bson_object ps = JObject (fold (\<lambda>(k, v) m. map_put k v m) ps [])"

definition bson_leaf :: "'f float_codec \<Rightarrow> nat \<Rightarrow> nat list \<Rightarrow> (bson_stop, 'f json \<times> nat list) result" where
  "bson_leaf fc ty rest =
     (if ty = 0x01 then
        bind_result (lift_stop (get_le_number 8 rest)) (\<lambda>(b, r). Inr (JFloat (of_double_bits fc b), r))
      else if ty = 0x02 then
        bind_result (get_bson_int32 rest) (\<lambda>(len, r).
        bind_result (get_bson_string len r) (\<lambda>(s, r2). Inr (JString s, r2)))
      else if ty = 0x05 then bind_result (get_bson_int32 rest) (\<lambda>(len, r). get_bson_binary len r)
      else if ty = 0x08 then Inr (JBoolean (fst (get_byte rest) \<noteq> Some 0), snd (get_byte rest))
      else if ty = 0x0A then Inr (JNull, rest)
      else if ty = 0x10 then bind_result (get_bson_int32 rest) (\<lambda>(i, r). Inr (JInteger i, r))
      else if ty = 0x12 then
        bind_result (lift_stop (get_le_number 8 rest)) (\<lambda>(n, r). Inr (JInteger (wrap_signed 64 (int n)), r))
      else Inl (Thrown (Parse_error 114)))"

function bson_element ::
  "'f float_codec \<Rightarrow> nat \<Rightarrow> nat list \<Rightarrow> (bson_stop, 'f json \<times> nat list) result"
and bson_list ::
  "'f float_codec \<Rightarrow> nat list \<Rightarrow> (bson_stop, (string \<times> 'f json) list \<times> nat list) result"
where
  "bson_element fc ty rest =
     (if ty = 0x03 then
        bind_result (lift_stop (get_le_number 4 rest)) (\<lambda>(_, r).
        bind_result (bson_list fc r) (\<lambda>(ps, r2). Inr (bson_object ps, r2)))
      else if ty = 0x04 then
        bind_result (lift_stop (get_le_number 4 rest)) (\<lambda>(_, r).
        bind_result (bson_list fc r) (\<lambda>(ps, r2). Inr (JArray (map snd ps), r2)))
      else bson_leaf fc ty rest)"
| "bson_list fc rest =
     (case rest of
        [] \<Rightarrow> Inl (Thrown (Parse_error 110))
      | ty # r \<Rightarrow>
          if ty = 0 then Inr ([], r)
          else
            bind_result (get_bson_cstr r) (\<lambda>(key, r1).
            bind_result (bson_element fc ty r1) (\<lambda>(v, r2).
            bind_result (bson_list fc r2) (\<lambda>(ps, r3). Inr ((key, v) # ps, r3)))))"
  by pat_completeness auto

lemma lift_stop_Inr [simp]: "lift_stop r = Inr a \<longleftrightarrow> r = Inr a"
  by (auto simp: lift_stop_def split: sum.split)

lemma get_le_number_length: "get_le_number k rest = Inr (v, r) \<Longrightarrow> length rest = k + length r"
  by (auto simp: get_le_number_def bind_result_Inr_iff dest: get_bytes_length)

lemma get_bson_cstr_length: "get_bson_cstr rest = Inr (s, r) \<Longrightarrow> length r < length rest"
  by (induction rest arbitrary: s) (auto simp: bind_result_Inr_iff split: if_splits intro: less_SucI)

lemma get_bson_string_length: "get_bson_string len rest = Inr (s, r) \<Longrightarrow> length r \<le> length rest"
  by (auto simp: get_bson_string_def bind_result_Inr_iff split: if_splits
      dest!: get_bytes_length intro: order.trans [OF get_byte_le])

lemma get_bson_binary_length: "get_bson_binary len rest = Inr (v, r) \<Longrightarrow> length r \<le> length rest"
  by (auto simp: get_bson_binary_def bind_result_Inr_iff split: if_splits
      dest!: get_bytes_length get_number_length)

lemma get_bson_int32_length: "get_bson_int32 rest = Inr (i, r) \<Longrightarrow> length r \<le> length rest"
  by (auto simp: get_bson_int32_def bind_result_Inr_iff dest: get_le_number_length)

lemma bson_leaf_length:
  assumes "bson_leaf fc ty rest = Inr (v, r)"
  shows "length r \<le> length rest"
  using assms get_byte_le [of rest]
  by (auto simp: bson_leaf_def bind_result_Inr_iff split: if_splits
      dest!: get_le_number_length get_bson_int32_length get_bson_string_length get_bson_binary_length)

lemma bson_partial:
  fixes fc fc' :: "'f float_codec"
  shows "bson_element_bson_list_dom (Inl (fc, ty, rest)) \<Longrightarrow>
    bson_element fc ty rest = Inr (v, r) \<Longrightarrow> length r \<le> length rest"
  "bson_element_bson_list_dom (Inr (fc', rest')) \<Longrightarrow>
    bson_list fc' rest' = Inr (ps, r') \<Longrightarrow> length r' \<le> length rest'"
proof (induction fc ty rest and fc' rest' arbitrary: v r and ps r' rule: bson_element_bson_list.pinduct)
  case (1 fc ty rest)
  consider "ty = 3" | "ty \<noteq> 3" "ty = 4" | "ty \<noteq> 3" "ty \<noteq> 4" by blast
  then show ?case
  proof cases
    case 1
    with "1.prems" obtain n r1 ps where n: "get_le_number 4 rest = Inr (n, r1)" and ps: "bson_list fc r1 = Inr (ps, r)"
      unfolding bson_element.psimps [OF "1.hyps"] by (auto simp: bind_result_Inr_iff)
    from "1.IH"(1) [OF 1 _ refl ps] n get_le_number_length [OF n] show ?thesis by simp
  next
    case 2
    with "1.prems" obtain n r1 ps where n: "get_le_number 4 rest = Inr (n, r1)" and ps: "bson_list fc r1 = Inr (ps, r)"
      unfolding bson_element.psimps [OF "1.hyps"] by (auto simp: bind_result_Inr_iff)
    from "1.IH"(2) [OF 2 _ refl ps] n get_le_number_length [OF n] show ?thesis by simp
  next
    case 3
    with "1.prems" show ?thesis
      unfolding bson_element.psimps [OF "1.hyps"] by (auto dest: bson_leaf_length)
  qed
next
  case (2 fc rest)
  note run = "2.prems" [unfolded bson_list.psimps [OF "2.hyps"]]
  then obtain ty t where r: "rest = ty # t" by (cases rest) simp_all
  note run = run [unfolded r list.case]
  show ?case
  proof (cases "ty = 0")
    case True
    with run r show ?thesis by simp
  next
    case False
    with run obtain key r1 v r2 qs where k: "get_bson_cstr t = Inr (key, r1)"
      and v: "bson_element fc ty r1 = Inr (v, r2)" and l: "bson_list fc r2 = Inr (qs, r')"
      by (auto simp: bind_result_Inr_iff)
    from "2.IH"(1) [OF r False k refl v] "2.IH"(2) [OF r False k refl v refl l] get_bson_cstr_length [OF k] r
    show ?thesis by simp
  qed
qed

termination bson_element
proof (relation "measure (\<lambda>x. case x of
      Inl (fc, ty, rest) \<Rightarrow> 2 * length rest + 2
    | Inr (fc, rest) \<Rightarrow> 2 * length rest + 1)", goal_cases)
  case (2 fc ty rest a n r)
  then have "get_le_number 4 rest = Inr (n, r)" by simp
  from get_le_number_length [OF this] show ?case by simp
next
  case (3 fc ty rest a n r)
  then have "get_le_number 4 rest = Inr (n, r)" by simp
  from get_le_number_length [OF this] show ?case by simp
next
  case (4 fc rest ty t a key r1)
  then have "get_bson_cstr t = Inr (key, r1)" by simp
  from get_bson_cstr_length [OF this] 4(1) show ?case by simp
next
  case (5 fc rest ty t a key r1 b v r2)
  then have k: "get_bson_cstr t = Inr (key, r1)" and v: "bson_element fc ty r1 = Inr (v, r2)" by simp_all
  from get_bson_cstr_length [OF k] bson_partial(1) [OF 5(7) v] 5(1) show ?case by simp
qed simp

declare bson_element.simps [simp del] bson_list.simps [simp del]

text \<open>A document; a reader that returned false yields a discarded value.\<close>

definition from_bson :: "'f float_codec \<Rightarrow> bool \<Rightarrow> nat list \<Rightarrow> (json_error, 'f json) result" where
  "from_bson fc strict input =
     (case bson_element fc 0x03 input of
        Inl (Thrown e) \<Rightarrow> Inl e
      | Inl Returned_false \<Rightarrow> Inr JDiscarded
      | Inr (v, r) \<Rightarrow> if strict \<and> r \<noteq> [] then Inl (Parse_error 110) else Inr v)"

end
