(* ===== verification/Bson_Roundtrip.thy ===== *)
theory Bson_Roundtrip
  imports Json_Bson
begin

text \<open>What BSON writing produces, when it throws, and what the reader makes of it.\<close>

section \<open>Numbers\<close>

lemma get_le_number_le [simp]: "v < 256 ^ k \<Longrightarrow> get_le_number k (le_number k v @ r) = Inr (v, r)"
  using get_bytes_append [of "le_number k v" r] get_number_be [of v k "[]"]
  by (simp add: get_le_number_def le_number_def)

lemma length_le_number [simp]: "length (le_number k v) = k"
  by (simp add: le_number_def)

lemma length_int32_bytes [simp]: "length (int32_bytes i) = 4"
  by (simp add: int32_bytes_def)

lemma get_int32_bytes:
  assumes "- (2 ^ 31) \<le> i" and "i < 2 ^ 31"
  shows "get_bson_int32 (int32_bytes i @ r) = Inr (i, r)"
proof -
  have "nat (i mod 2 ^ 32) < 256 ^ 4" by (simp add: nat_less_iff)
  then show ?thesis
    using assms wrap_signed_mod [of 32 i]
    by (simp add: get_bson_int32_def int32_bytes_def lift_stop_def)
qed

section \<open>Sizes\<close>

lemma write_bson_length:
  fixes fc fc' fc'' :: "'f float_codec"
  shows "calc_bson_element_size name v = Inr n \<Longrightarrow> write_bson_element fc name v = Inr ws \<Longrightarrow> length ws = n"
  "calc_bson_object_size m = Inr n' \<Longrightarrow> write_bson_members fc' m = Inr ws' \<Longrightarrow> length ws' = n'"
  "calc_bson_array_size i vs = Inr n'' \<Longrightarrow> write_bson_items fc'' i vs = Inr ws'' \<Longrightarrow> length ws'' = n''"
proof (induction fc name v and fc' m and fc'' i vs arbitrary: n ws and n' ws' and n'' ws''
    rule: write_bson_element_write_bson_members_write_bson_items.induct)
  case (1 fc name v)
  have h: "length (write_bson_entry_header name ty) = h" if "calc_bson_entry_header_size name = Inr h" for ty h
    using that by (auto simp: write_bson_entry_header_def calc_bson_entry_header_size_def split: if_splits)
  show ?case
    using 1(3,4)
    by (cases v)
      (auto simp: bind_result_Inr_iff h 1(1,2) write_bson_binary_def calc_bson_binary_size_def
        write_bson_integer_def calc_bson_integer_size_def write_bson_unsigned_def calc_bson_unsigned_size_def
        write_bson_string_def calc_bson_string_size_def split: if_split_asm)
qed (auto simp: bind_result_Inr_iff)

section \<open>Errors\<close>

fun bson_printable :: "'f json \<Rightarrow> bool" where
  "bson_printable (JObject m) \<longleftrightarrow> (\<forall>(k, v) \<in> set m. chr 0 \<notin> set k \<and> bson_printable v)"
| "bson_printable (JArray vs) \<longleftrightarrow> (\<forall>v \<in> set vs. bson_printable v)"
| "bson_printable (JUnsigned n) \<longleftrightarrow> n < 2 ^ 63"
| "bson_printable JDiscarded \<longleftrightarrow> False"
| "bson_printable _ \<longleftrightarrow> True"

fun keys_ok :: "'f json \<Rightarrow> bool" where
  "keys_ok (JObject m) \<longleftrightarrow> (\<forall>(k, v) \<in> set m. chr 0 \<notin> set k \<and> keys_ok v)"
| "keys_ok (JArray vs) \<longleftrightarrow> (\<forall>v \<in> set vs. keys_ok v)"
| "keys_ok JDiscarded \<longleftrightarrow> False"
| "keys_ok _ \<longleftrightarrow> True"

lemma digits_no_nul: "chr 0 \<notin> set (nat_digits i)"
proof -
  have "\<not> is_digit (chr 0)" by (simp add: is_digit_def)
  then show ?thesis using nat_digits_all [of i] by (auto simp: list_all_iff)
qed

lemma bind_ex: "(\<exists>b. bind_result r f = Inr b) \<longleftrightarrow> (\<exists>a. r = Inr a \<and> (\<exists>b. f a = Inr b))"
  by (cases r) auto

lemma calc_size_iff:
  fixes v :: "'f json" and m :: "(string \<times> 'f json) list" and vs :: "'f json list"
  shows "(\<exists>n. calc_bson_element_size name v = Inr n) \<longleftrightarrow> chr 0 \<notin> set name \<and> keys_ok v"
  "(\<exists>n. calc_bson_object_size m = Inr n) \<longleftrightarrow> (\<forall>(k, v) \<in> set m. chr 0 \<notin> set k \<and> keys_ok v)"
  "(\<exists>n. calc_bson_array_size i vs = Inr n) \<longleftrightarrow> (\<forall>v \<in> set vs. keys_ok v)"
proof (induction name v and m and i vs
    rule: calc_bson_element_size_calc_bson_object_size_calc_bson_array_size.induct)
  case (1 name v)
  show ?case
  proof (cases "chr 0 \<in> set name")
    case True
    then show ?thesis by (simp add: calc_bson_entry_header_size_def)
  next
    case False
    then have h: "calc_bson_entry_header_size name = Inr (1 + length name + 1)"
      by (simp add: calc_bson_entry_header_size_def)
    with False 1(1) [OF h] 1(2) [OF h] show ?thesis by (cases v) (simp_all add: bind_ex)
  qed
next
  case (3 k v m)
  show ?case using 3(1) 3(2) by (auto simp: bind_ex)
next
  case (5 i v vs)
  show ?case using 5(1) 5(2) digits_no_nul by (auto simp: bind_ex)
qed simp_all

lemma write_bson_iff:
  fixes fc fc' fc'' :: "'f float_codec"
  shows "keys_ok v \<Longrightarrow> (\<exists>ws. write_bson_element fc name v = Inr ws) \<longleftrightarrow> bson_printable v"
  "\<forall>(k, v) \<in> set m. keys_ok v \<and> chr 0 \<notin> set k \<Longrightarrow>
    (\<exists>ws. write_bson_members fc' m = Inr ws) \<longleftrightarrow> (\<forall>(k, v) \<in> set m. bson_printable v)"
  "\<forall>v \<in> set vs. keys_ok v \<Longrightarrow> (\<exists>ws. write_bson_items fc'' i vs = Inr ws) \<longleftrightarrow> (\<forall>v \<in> set vs. bson_printable v)"
proof (induction fc name v and fc' m and fc'' i vs
    rule: write_bson_element_write_bson_members_write_bson_items.induct)
  case (1 fc name v)
  show ?case
  proof (cases v)
    case (JObject m)
    with 1(3) have k: "\<forall>(k, v) \<in> set m. keys_ok v \<and> chr 0 \<notin> set k" by auto
    then obtain n where n: "calc_bson_object_size m = Inr n" using calc_size_iff(2) [of m] by auto
    from 1(1) [OF JObject n k] n JObject k show ?thesis by (auto simp: bind_ex)
  next
    case (JArray vs)
    with 1(3) have k: "\<forall>v \<in> set vs. keys_ok v" by auto
    then obtain n where n: "calc_bson_array_size 0 vs = Inr n" using calc_size_iff(3) [of 0 vs] by auto
    from 1(2) [OF JArray n k] n JArray show ?thesis by (auto simp: bind_ex)
  qed (use 1(3) in \<open>auto simp: write_bson_unsigned_def\<close>)
next
  case (3 fc k v m)
  then show ?case by (auto simp: bind_ex)
next
  case (5 fc i v vs)
  then show ?case by (auto simp: bind_ex)
qed simp_all

section \<open>Reading what was written\<close>

text \<open>Unsigned numbers come back signed, data always has a subtype of one byte.\<close>

fun bson_form :: "'f json \<Rightarrow> 'f json" where
  "bson_form (JUnsigned n) = JInteger (int n)"
| "bson_form (JBinary bs st) = JBinary bs (Some (case st of Some n \<Rightarrow> n mod 256 | None \<Rightarrow> 0))"
| "bson_form (JArray vs) = JArray (map bson_form vs)"
| "bson_form (JObject m) = JObject (map (\<lambda>(k, v). (k, bson_form v)) m)"
| "bson_form v = v"

fun bson_ok :: "'f float_codec \<Rightarrow> 'f json \<Rightarrow> bool" where
  "bson_ok fc (JInteger i) \<longleftrightarrow> - (2 ^ 63) \<le> i \<and> i < 2 ^ 63"
| "bson_ok fc (JFloat f) \<longleftrightarrow> double_bits fc f < 2 ^ 64 \<and> of_double_bits fc (double_bits fc f) = f"
| "bson_ok fc (JString s) \<longleftrightarrow> length s + 1 < 2 ^ 31"
| "bson_ok fc (JBinary bs st) \<longleftrightarrow> length bs < 2 ^ 31"
| "bson_ok fc (JArray vs) \<longleftrightarrow> (\<forall>v \<in> set vs. bson_ok fc v)"
| "bson_ok fc (JObject m) \<longleftrightarrow> map_ok m \<and> (\<forall>(k, v) \<in> set m. bson_ok fc v)"
| "bson_ok fc _ \<longleftrightarrow> True"

text \<open>An element as it stands in a list: its type, its name, a zero and the value.\<close>

definition bson_reads :: "'f float_codec \<Rightarrow> string \<Rightarrow> nat list \<Rightarrow> 'f json \<Rightarrow> bool" where
  "bson_reads fc name ws v \<longleftrightarrow>
     (\<exists>ty t. ws = write_bson_entry_header name ty @ t \<and> ty \<noteq> 0 \<and>
       (\<forall>r. bson_element fc ty (t @ r) = Inr (v, r)))"

lemma bson_readsI:
  "ty \<noteq> 0 \<Longrightarrow> (\<And>r. bson_element fc ty (t @ r) = Inr (v, r)) \<Longrightarrow>
    bson_reads fc name (write_bson_entry_header name ty @ t) v"
  by (auto simp: bson_reads_def)

lemma get_bson_cstr_name: "chr 0 \<notin> set name \<Longrightarrow> get_bson_cstr (map byte name @ 0 # r) = Inr (name, r)"
proof (induction name)
  case (Cons c name)
  then have "byte c \<noteq> 0" by (metis chr_byte list.set_intros(1))
  with Cons show ?case by simp
qed simp

lemma bson_list_Nil: "bson_list fc (0 # r) = Inr ([], r)"
  by (simp add: bson_list.simps)

lemma bson_list_Cons:
  assumes "bson_reads fc name ws v" and "chr 0 \<notin> set name" and "bson_list fc r = Inr (ps, r')"
  shows "bson_list fc (ws @ r) = Inr ((name, v) # ps, r')"
proof -
  from assms(1) obtain ty t where w: "ws = write_bson_entry_header name ty @ t" "ty \<noteq> 0"
    "\<And>r. bson_element fc ty (t @ r) = Inr (v, r)" by (auto simp: bson_reads_def)
  have "bson_list fc (ty # map byte name @ 0 # t @ r) = Inr ((name, v) # ps, r')"
    using get_bson_cstr_name [OF assms(2), of "t @ r"] w(2,3) assms(3)
    by (simp add: bson_list.simps [of fc "ty # map byte name @ 0 # t @ r"])
  then show ?thesis by (simp add: w(1) write_bson_entry_header_def)
qed

lemma get_document_size: "\<exists>k. get_le_number 4 (int32_bytes n @ x) = Inr (k, x)"
  using get_le_number_le [of "nat (n mod 2 ^ 32)" 4 x] by (simp add: int32_bytes_def nat_less_iff)

lemma bson_object_document:
  assumes "bson_list fc (ws @ 0 # r) = Inr (ps, r)"
  shows "bson_element fc 0x03 (int32_bytes n @ ws @ [0] @ r) = Inr (bson_object ps, r)"
  using get_document_size [of n "ws @ [0] @ r"] assms by (auto simp: bson_element.simps lift_stop_def)

lemma bson_array_document:
  assumes "bson_list fc (ws @ 0 # r) = Inr (ps, r)"
  shows "bson_element fc 0x04 (int32_bytes n @ ws @ [0] @ r) = Inr (JArray (map snd ps), r)"
  using get_document_size [of n "ws @ [0] @ r"] assms by (auto simp: bson_element.simps lift_stop_def)

lemma bson_object_ordered:
  assumes "map_ok m"
  shows "bson_object m = JObject m"
proof -
  have "map_ok (m0 @ m) \<Longrightarrow> fold (\<lambda>(k, v) m. map_put k v m) m m0 = m0 @ m" for m0
    by (induction m arbitrary: m0) (auto simp: map_put_snoc)
  from this [of "[]"] assms show ?thesis by (simp add: bson_object_def)
qed

lemmas bson_leaf_reads = bson_element.simps bson_leaf_def lift_stop_def

lemma bson_integer_reads:
  assumes "- (2 ^ 63) \<le> i" and "i < 2 ^ 63"
  shows "bson_reads fc name (write_bson_integer name i) (JInteger i)"
proof -
  have "nat (i mod 2 ^ 64) < 256 ^ 8" by (simp add: nat_less_iff)
  moreover have "wrap_signed 64 (i mod 2 ^ 64) = i" using assms by (intro wrap_signed_mod) auto
  ultimately show ?thesis
    using get_int32_bytes [of i]
    by (auto simp: write_bson_integer_def bson_leaf_reads intro!: bson_readsI)
qed

lemma bson_unsigned_reads:
  assumes "write_bson_unsigned name n = Inr ws"
  shows "bson_reads fc name ws (JInteger (int n))"
proof -
  have "write_bson_integer name (int n) = ws" "n < 2 ^ 63"
    using assms
    by (auto simp: write_bson_unsigned_def write_bson_integer_def int32_bytes_def nat_mod_distrib split: if_split_asm)
  with bson_integer_reads [of "int n"] show ?thesis by auto
qed

lemma bson_string_reads:
  assumes "length s + 1 < 2 ^ 31"
  shows "bson_reads fc name (write_bson_string name s) (JString s)"
proof -
  have "get_bytes (length s) (map byte s @ 0 # r) = Inr (map byte s, 0 # r)" for r
    using get_bytes_append [of "map byte s" "0 # r"] by simp
  then have "get_bson_string (int (length s + 1)) (map byte s @ [0] @ r) = Inr (s, r)" for r
    by (simp add: get_bson_string_def lift_stop_def comp_def)
  then show ?thesis
    unfolding write_bson_string_def
    by (intro bson_readsI) (use assms get_int32_bytes [of "int (length s + 1)"] in
      \<open>simp_all add: bson_leaf_reads del: of_nat_Suc of_nat_add\<close>)
qed

lemma bson_binary_reads:
  assumes "length bs < 2 ^ 31"
  shows "bson_reads fc name (write_bson_binary name bs st)
    (JBinary bs (Some (case st of Some n \<Rightarrow> n mod 256 | None \<Rightarrow> 0)))"
proof -
  have "get_bson_binary (int (length bs)) (x # bs @ r) = Inr (JBinary bs (Some x), r)" for x r
    by (simp add: get_bson_binary_def lift_stop_def)
  then show ?thesis
    unfolding write_bson_binary_def
    by (intro bson_readsI) (use assms get_int32_bytes [of "int (length bs)"] in \<open>simp_all add: bson_leaf_reads\<close>)
qed

lemma bson_value_reads:
  fixes fc fc' fc'' :: "'f float_codec"
  shows "write_bson_element fc name v = Inr ws \<Longrightarrow> bson_ok fc v \<Longrightarrow> bson_reads fc name ws (bson_form v)"
  "write_bson_members fc' m = Inr ws' \<Longrightarrow> \<forall>(k, v) \<in> set m. chr 0 \<notin> set k \<and> bson_ok fc' v \<Longrightarrow>
    bson_list fc' (ws' @ 0 # r') = Inr (map (\<lambda>(k, v). (k, bson_form v)) m, r')"
  "write_bson_items fc'' i vs = Inr ws'' \<Longrightarrow> \<forall>v \<in> set vs. bson_ok fc'' v \<Longrightarrow>
    \<exists>ps. bson_list fc'' (ws'' @ 0 # r'') = Inr (ps, r'') \<and> map snd ps = map bson_form vs"
proof (induction fc name v and fc' m and fc'' i vs arbitrary: ws and ws' r' and ws'' r''
    rule: write_bson_element_write_bson_members_write_bson_items.induct)
  case (1 fc name v)
  show ?case
  proof (cases v)
    case (JObject m)
    with 1(3) obtain n us where n: "calc_bson_object_size m = Inr n" and us: "write_bson_members fc m = Inr us"
      and w: "ws = write_bson_entry_header name 0x03 @ int32_bytes (int (4 + n + 1)) @ us @ [0]"
      by (auto simp: bind_result_Inr_iff)
    let ?ps = "map (\<lambda>(k, v). (k, bson_form v)) m"
    have "\<forall>(k, v) \<in> set m. chr 0 \<notin> set k \<and> bson_ok fc v"
      using calc_size_iff(2) [of m] n 1(4) JObject by auto
    with 1(1) [OF JObject n us] have "bson_list fc (us @ 0 # r) = Inr (?ps, r)" for r .
    from bson_object_document [OF this] have
      "bson_element fc 0x03 (int32_bytes i @ us @ [0] @ r) = Inr (bson_object ?ps, r)" for i r .
    moreover have "bson_object ?ps = JObject ?ps"
      using 1(4) JObject by (intro bson_object_ordered) (simp add: comp_def case_prod_beta)
    ultimately show ?thesis using JObject w by (auto intro!: bson_readsI)
  next
    case (JArray vs)
    with 1(3) obtain n us where n: "calc_bson_array_size 0 vs = Inr n" and us: "write_bson_items fc 0 vs = Inr us"
      and w: "ws = write_bson_entry_header name 0x04 @ int32_bytes (int (4 + n + 1)) @ us @ [0]"
      by (auto simp: bind_result_Inr_iff)
    from 1(4) JArray have "\<forall>v \<in> set vs. bson_ok fc v" by simp
    from 1(2) [OF JArray n us this] have
      "\<exists>ps. bson_list fc (us @ 0 # r) = Inr (ps, r) \<and> map snd ps = map bson_form vs" for r .
    then obtain ps where "\<And>r. bson_list fc (us @ 0 # r) = Inr (ps r, r)" "\<And>r. map snd (ps r) = map bson_form vs"
      by metis
    then have "bson_element fc 0x04 (int32_bytes i @ us @ [0] @ r) = Inr (JArray (map bson_form vs), r)" for i r
      using bson_array_document [of fc us r "ps r"] by simp
    then show ?thesis using JArray w by (auto intro!: bson_readsI)
  next
    case JNull
    have "bson_reads fc name (write_bson_entry_header name 0x0A @ []) JNull"
      by (rule bson_readsI) (simp_all add: bson_leaf_reads)
    with JNull 1(3) show ?thesis by simp
  next
    case (JFloat f)
    with 1(3,4) show ?thesis
      by (auto simp: bson_leaf_reads intro!: bson_readsI)
  qed (use 1(3,4) bson_integer_reads bson_unsigned_reads bson_string_reads bson_binary_reads in
    \<open>auto simp: bson_leaf_reads intro!: bson_readsI\<close>)
next
  case (2 fc)
  then show ?case by (auto simp: bson_list_Nil)
next
  case (3 fc k v m)
  then obtain w us where w: "write_bson_element fc k v = Inr w" and us: "write_bson_members fc m = Inr us"
    and e: "ws' = w @ us"
    by (auto simp: bind_result_Inr_iff)
  have "bson_list fc (us @ 0 # r') = Inr (map (\<lambda>(k, v). (k, bson_form v)) m, r')"
    by (rule 3(2) [OF w us]) (use 3(4) in auto)
  with bson_list_Cons [OF 3(1) [OF w]] 3(4) e show ?case by auto
next
  case (4 fc i)
  then show ?case by (auto simp: bson_list_Nil)
next
  case (5 fc i v vs)
  then obtain w us where w: "write_bson_element fc (nat_digits i) v = Inr w" "write_bson_items fc (i + 1) vs = Inr us"
    "ws'' = w @ us"
    by (auto simp: bind_result_Inr_iff)
  from 5(2) [OF w(1,2)] 5(4) obtain ps where "bson_list fc (us @ 0 # r'') = Inr (ps, r'')" "map snd ps = map bson_form vs"
    by auto
  with bson_list_Cons [OF 5(1) [OF w(1)] digits_no_nul] 5(4) w(3) show ?case by fastforce
qed

lemma from_bson_write:
  assumes "write_bson fc j = Inr ws" and "bson_ok fc j"
  shows "from_bson fc strict ws = Inr (bson_form j)"
proof -
  from assms(1) obtain m n us where j: "j = JObject m" and n: "calc_bson_object_size m = Inr n"
    and us: "write_bson_members fc m = Inr us" and w: "ws = int32_bytes (int (4 + n + 1)) @ us @ [0]"
    by (auto simp: write_bson_def bind_result_Inr_iff split: json.split_asm)
  let ?ps = "map (\<lambda>(k, v). (k, bson_form v)) m"
  have "\<forall>(k, v) \<in> set m. chr 0 \<notin> set k \<and> bson_ok fc v"
    using calc_size_iff(2) [of m] n assms(2) j by auto
  from bson_value_reads(2) [OF us this, of "[]"] have "bson_list fc (us @ [0]) = Inr (?ps, [])" .
  then have "bson_element fc 0x03 (int32_bytes (int (4 + n + 1)) @ us @ [0] @ []) = Inr (bson_object ?ps, [])"
    by (intro bson_object_document) simp
  moreover have "bson_object ?ps = JObject ?ps"
    using assms(2) j by (intro bson_object_ordered) (simp add: comp_def case_prod_beta)
  ultimately show ?thesis by (simp add: from_bson_def w j)
qed

end
