(* ===== verification/Binary_Claims.thy ===== *)
theory Binary_Claims
  imports Cbor_Roundtrip Msgpack_Roundtrip Bson_Roundtrip
begin

text \<open>The properties of the binary formats.\<close>

text \<open>A concrete representation of \<open>double\<close> by its bit pattern, and sample settings and values.\<close>

definition bit_codec :: "nat float_codec" where
  "bit_codec =
     \<lparr>is_nan = \<lambda>f. f mod 2 ^ 63 > 0x7FF * 2 ^ 52, is_inf = \<lambda>f. f mod 2 ^ 63 = 0x7FF * 2 ^ 52,
      is_positive = \<lambda>f. f < 2 ^ 63, single_bits = \<lambda>_. None, double_bits = \<lambda>f. f,
      of_single_bits = \<lambda>_. 0, of_double_bits = \<lambda>b. b, ldexp = \<lambda>_ _. 0,
      infinity = 0x7FF * 2 ^ 52, quiet_nan = 0x7FF8 * 2 ^ 48, negated = \<lambda>f. f + 2 ^ 63\<rparr>"

definition sample_env :: "nat cbor_env" where
  "sample_env =
     \<lparr>codec = bit_codec, limit = \<lparr>max_array = 2 ^ 60, max_object = 2 ^ 60\<rparr>, tags = Tag_store\<rparr>"

definition sample_value :: "nat json" where
  "sample_value =
     JObject [(''a'', JArray [JInteger 300, JInteger (- 5), JFloat (0x3FF8 * 2 ^ 48), JBinary [1, 2] (Some 7)]),
       (''b'', JString ''x''), (''c'', JFloat (0xFFF * 2 ^ 52))]"

lemma sample_value_ok: "cbor_ok sample_env sample_value"
  by (simp add: sample_value_def sample_env_def bit_codec_def codec_ok_def size_max_def)

text \<open>
  C19: Whatever value is written as CBOR is read back, however long its parts: control bytes with the
  number inside and in 1, 2, 4 and 8 bytes after it, binary data with subtypes as tags, infinities in
  half precision. A signed number that is not negative comes back unsigned. The hypothesis bounds
  numbers and lengths by their types, asks for the conversions of \<open>double\<close> that its documentation
  promises, and for the tag handler \<open>store\<close> where there are subtypes.
\<close>

theorem cbor_roundtrip:
  assumes "cbor_ok env j"
  shows "from_cbor env True (write_cbor (codec env) j) = Inr (unsigned_form j)"
  using assms by (rule from_cbor_write)

theorem cbor_roundtrip_witness:
  "from_cbor sample_env True (write_cbor (codec sample_env) sample_value) = Inr (unsigned_form sample_value)"
  by (rule cbor_roundtrip) (rule sample_value_ok)

text \<open>
  C24: Input has no choice of where to end: if the reader accepts some bytes, it fails with the error of
  an unexpected end on every proper prefix of them, and with the error of surplus input (which has
  the same number) on every proper extension. This holds for all input, with tags and parts of indefinite length.
\<close>

theorem cbor_self_delimiting:
  assumes "from_cbor env True (p @ q) = Inr v" and "q \<noteq> []" and "x \<noteq> []"
  shows "from_cbor env True p = Inl (Parse_error 110) \<and> from_cbor env True (p @ q @ x) = Inl (Parse_error 110)"
  using cbor.self_delimiting [OF assms(1) [unfolded from_cbor_def]] assms(2,3) by (simp add: from_cbor_def)

theorem cbor_self_delimiting_witness:
  "from_cbor sample_env True [0x82, 0x01] = Inl (Parse_error 110) \<and>
    from_cbor sample_env True ([0x82, 0x01] @ [0xF6] @ [0x00]) = Inl (Parse_error 110)"
proof (rule cbor_self_delimiting)
  show "from_cbor sample_env True ([0x82, 0x01] @ [0xF6]) = Inr (JArray [JUnsigned 1, JNull])"
    using from_cbor_write [of sample_env "JArray [JUnsigned 1, JNull]" True]
    by (simp add: size_max_def sample_env_def cbor_head_def)
qed simp_all

text \<open>
  A negative number of eight bytes that is below the range of \<open>int64_t\<close> is read, without an error, as a
  number that is not negative; the lowest, minus 2^64, is read as zero.
\<close>

theorem cbor_negative_wraps:
  assumes "2 ^ 63 \<le> n" and "n < 2 ^ 64"
  shows "from_cbor env True (0x3B # be_bytes 8 n) = Inr (JInteger (2 ^ 64 - 1 - int n)) \<and>
    0 \<le> (2 ^ 64 - 1 - int n)"
proof -
  have "wrap_signed 64 (int n) = int n - 2 ^ 64"
  proof -
    have "(int n + 2 ^ 63) mod 2 ^ 64 = (int n + 2 ^ 63 - 2 ^ 64) mod 2 ^ 64" by (simp only: minus_mod_self2)
    also have "\<dots> = int n + 2 ^ 63 - 2 ^ 64" by (rule mod_pos_pos_trivial) (use assms in auto)
    finally show ?thesis by (simp add: wrap_signed_def)
  qed
  moreover have "get_number 8 (be_bytes 8 n) = Inr (n, [])"
    using get_number_be [of n 8 "[]"] assms(2) by simp
  ultimately show ?thesis
    using assms by (simp add: from_cbor_def sax_parse_def cbor_value_leaf is_tag_def cbor_leaf_defs cbor_number_def)
qed

theorem cbor_negative_wraps_witness:
  "from_cbor sample_env True (0x3B # be_bytes 8 (2 ^ 64 - 1)) = Inr (JInteger (2 ^ 64 - 1 - int (2 ^ 64 - 1))) \<and>
    0 \<le> (2 ^ 64 - 1 - int (2 ^ 64 - 1))"
  by (rule cbor_negative_wraps) simp_all

text \<open>
  An array or object that declares 2^64-1 entries is taken for one of indefinite length, because
  that number is also the mark for it: the check of the length is skipped and a break ends it.
\<close>

theorem cbor_count_is_mark:
  "cbor_value env (Some 0x9B) (be_bytes 8 (2 ^ 64 - 1) @ r) = cbor_value env (Some 0x9F) r \<and>
    cbor_value env (Some 0xBB) (be_bytes 8 (2 ^ 64 - 1) @ r) = cbor_value env (Some 0xBF) r"
  using get_number_be [of "2 ^ 64 - 1" 8 r]
  by (simp add: cbor_value.simps cbor_count_def cbor_number_def size_max_def)

text \<open>
  With the default tag handler every tag is an error, so binary data with a subtype that the library
  writes itself cannot be read without asking for \<open>store\<close>; with \<open>ignore\<close> the subtype is lost.
\<close>

theorem cbor_subtype_default:
  assumes "tags env = Tag_error"
  shows "from_cbor env True (write_cbor (codec env) (JBinary bs (Some n))) = Inl (Parse_error 112)"
proof -
  have "\<exists>c t. cbor_subtype (Some n) = c # t \<and> 0xD8 \<le> c \<and> c \<le> 0xDB" by (simp add: cbor_subtype_def)
  then show ?thesis
    using assms
    by (auto simp: from_cbor_def sax_parse_def cbor_value_leaf is_tag_def cbor_leaf_defs cbor_number_None)
qed

theorem cbor_subtype_default_witness:
  "from_cbor (sample_env\<lparr>tags := Tag_error\<rparr>) True
     (write_cbor (codec (sample_env\<lparr>tags := Tag_error\<rparr>)) (JBinary [1] (Some 7))) = Inl (Parse_error 112)"
  by (rule cbor_subtype_default) simp

section \<open>MessagePack\<close>

definition sample_limits :: limits where
  "sample_limits = \<lparr>max_array = 2 ^ 60, max_object = 2 ^ 60\<rparr>"

text \<open>
  C20: The same for MessagePack, for strings, data, arrays and objects shorter than 2^32: every value that
  is written is read back, in each of the fixed and wide forms. Two things change: signed numbers
  that are not negative come back unsigned, and of a subtype only the low eight bits remain.
\<close>

theorem msgpack_roundtrip:
  assumes "msgpack_ok fc lim j"
  shows "from_msgpack fc lim True (write_msgpack fc j) = Inr (msgpack_form j)"
  using assms by (rule from_msgpack_write)

theorem msgpack_roundtrip_witness:
  "from_msgpack bit_codec sample_limits True (write_msgpack bit_codec sample_value) = Inr (msgpack_form sample_value)"
  by (rule msgpack_roundtrip)
    (simp add: sample_value_def sample_limits_def bit_codec_def codec_ok_def)

text \<open>MessagePack documents delimit themselves as CBOR documents do.\<close>

theorem msgpack_self_delimiting:
  assumes "from_msgpack fc lim True (p @ q) = Inr v" and "q \<noteq> []" and "x \<noteq> []"
  shows "from_msgpack fc lim True p = Inl (Parse_error 110) \<and>
    from_msgpack fc lim True (p @ q @ x) = Inl (Parse_error 110)"
  using msgpack.self_delimiting [OF assms(1) [unfolded from_msgpack_def]] assms(2,3)
  by (simp add: from_msgpack_def)

theorem msgpack_self_delimiting_witness:
  "from_msgpack bit_codec sample_limits True [0x92, 0x01] = Inl (Parse_error 110) \<and>
    from_msgpack bit_codec sample_limits True ([0x92, 0x01] @ [0xC0] @ [0x00]) = Inl (Parse_error 110)"
proof (rule msgpack_self_delimiting)
  show "from_msgpack bit_codec sample_limits True ([0x92, 0x01] @ [0xC0]) = Inr (JArray [JUnsigned 1, JNull])"
    using from_msgpack_write [of bit_codec sample_limits "JArray [JUnsigned 1, JNull]" True]
    by (simp add: sample_limits_def msgpack_size_def msgpack_unsigned_def)
qed simp_all

text \<open>
  A string of 2^32 characters or more is written without any header: the bytes are those of its
  characters, and a reader takes the first one for the value.
\<close>

theorem msgpack_long_string:
  assumes "2 ^ 32 \<le> length s" and "byte (hd s) < 128"
  shows "write_msgpack fc (JString s) = map byte s \<and>
    from_msgpack fc lim False (write_msgpack fc (JString s)) = Inr (JUnsigned (byte (hd s)))"
proof -
  have w: "write_msgpack fc (JString s) = map byte s"
    using assms(1) by (simp add: msgpack_text_def Let_def)
  obtain c t where "s = c # t" using assms(1) by (cases s) auto
  with assms(2) w show ?thesis
    by (simp add: from_msgpack_def sax_parse_def msgpack_value_leaf msgpack_leaf_def msgpack_number_def)
qed

theorem msgpack_long_string_witness:
  "write_msgpack bit_codec (JString (replicate (2 ^ 32) CHR ''a'')) = map byte (replicate (2 ^ 32) CHR ''a'') \<and>
    from_msgpack bit_codec sample_limits False (write_msgpack bit_codec (JString (replicate (2 ^ 32) CHR ''a''))) =
      Inr (JUnsigned (byte (hd (replicate (2 ^ 32) CHR ''a''))))"
proof (rule msgpack_long_string)
  have "hd (replicate (2 ^ 32) CHR ''a'') = CHR ''a''" by (rule hd_replicate) simp
  then show "byte (hd (replicate (2 ^ 32) CHR ''a'')) < 128" by (simp only:) (simp add: byte_def)
qed (simp only: length_replicate order_refl)

text \<open>
  The two formats carry the same values: what MessagePack gives back, written as CBOR, is read as
  the same value, when both can hold it.
\<close>

lemma forms_commute: "unsigned_form (msgpack_form j) = msgpack_form j"
  by (induction j) (auto simp: comp_def)

theorem formats_agree:
  assumes "msgpack_ok (codec env) (limit env) j" and "cbor_ok env (msgpack_form j)"
  shows "bind_result (from_msgpack (codec env) (limit env) True (write_msgpack (codec env) j))
      (\<lambda>v. from_cbor env True (write_cbor (codec env) v)) =
    from_msgpack (codec env) (limit env) True (write_msgpack (codec env) j)"
  using assms by (simp add: from_msgpack_write from_cbor_write forms_commute)

section \<open>BSON\<close>

text \<open>
  C21: What is written as BSON is read back: unsigned numbers as signed ones, data with a subtype of one
  byte. Names with a zero, numbers beyond \<open>int64_t\<close> and values that are no object are refused when
  writing, so the hypothesis that writing succeeds covers them; strings and data are shorter than 2^31.
\<close>

theorem bson_roundtrip:
  assumes "write_bson fc j = Inr ws" and "bson_ok fc j"
  shows "from_bson fc True ws = Inr (bson_form j)"
  using assms by (rule from_bson_write)

definition bson_sample :: "nat json" where
  "bson_sample = JObject [(''a'', JArray [JUnsigned 5, JNull]), (''b'', JString ''x'')]"

definition bson_sample_bytes :: "nat list" where
  "bson_sample_bytes =
     [32, 0, 0, 0, 4, 97, 0, 15, 0, 0, 0, 16, 48, 0, 5, 0, 0, 0, 10, 49, 0, 0, 2, 98, 0, 2, 0, 0, 0, 120, 0, 0]"

lemma no_nul_literals: "chr 0 \<noteq> CHR ''a''" "chr 0 \<noteq> CHR ''b''" "chr 0 \<noteq> CHR ''0''" "chr 0 \<noteq> CHR ''1''"
  using byte_chr [of 0] by (auto simp: byte_def)

lemma bson_sample_written: "write_bson bit_codec bson_sample = Inr bson_sample_bytes"
proof -
  have d: "nat_digits 0 = ''0''" "nat_digits (Suc 0) = ''1''" by (simp_all add: nat_digits.simps digit_char_numerals)
  have b2: "be_bytes 2 v = [v div 256 mod 256, v mod 256]" for v by (simp add: numeral_2_eq_2)
  have b: "be_bytes 4 v = [v div 16777216 mod 256, v div 65536 mod 256, v div 256 mod 256, v mod 256]" for v
    using be_bytes.simps(2) [of 3 v] be_bytes.simps(2) [of 2 v] by (simp add: b2)
  show ?thesis
    by (simp add: bson_sample_def bson_sample_bytes_def write_bson_def calc_bson_entry_header_size_def
        no_nul_literals d b write_bson_unsigned_def write_bson_entry_header_def int32_bytes_def
        le_number_def write_bson_string_def calc_bson_unsigned_size_def calc_bson_string_size_def byte_def)
qed

theorem bson_roundtrip_witness:
  "from_bson bit_codec True bson_sample_bytes = Inr (bson_form bson_sample)"
  by (rule bson_roundtrip [OF bson_sample_written]) (simp add: bson_sample_def)

text \<open>
  Writing succeeds for objects only, exactly if no name at any depth contains a zero, no unsigned
  number exceeds \<open>int64_t\<close> and nothing is discarded; otherwise it throws (or fails an assertion).
\<close>

theorem bson_written_iff:
  fixes fc :: "'f float_codec"
  shows "(\<exists>ws. write_bson fc j = Inr ws) \<longleftrightarrow> type_of j = Object_t \<and> bson_printable j"
proof (cases j)
  case (JObject m)
  have k: "keys_ok v" if "bson_printable v" for v :: "'f json"
    using that by (induction v rule: bson_printable.induct) auto
  show ?thesis
  proof (cases "\<forall>(k, v) \<in> set m. chr 0 \<notin> set k \<and> keys_ok v")
    case True
    then obtain n where "calc_bson_object_size m = Inr n" using calc_size_iff(2) [of m] by auto
    moreover have "\<forall>(k, v) \<in> set m. keys_ok v \<and> chr 0 \<notin> set k" using True by auto
    from write_bson_iff(2) [OF this, of fc] have
      "(\<exists>ws. write_bson_members fc m = Inr ws) \<longleftrightarrow> (\<forall>(k, v) \<in> set m. bson_printable v)" .
    ultimately show ?thesis using True JObject by (auto simp: write_bson_def bind_ex)
  next
    case False
    then have "\<not> (\<exists>n. calc_bson_object_size m = Inr n)" using calc_size_iff(2) [of m] by auto
    moreover have "\<not> (\<forall>(k, v) \<in> set m. chr 0 \<notin> set k \<and> bson_printable v)" using False k by fast
    ultimately show ?thesis using JObject by (auto simp: write_bson_def bind_ex)
  qed
qed (auto simp: write_bson_def)

text \<open>
  C23: The size at the front of a document is the number of its bytes: the size functions and the writers,
  which are separate code, agree on every value.
\<close>

theorem bson_size_exact:
  assumes "write_bson fc j = Inr ws"
  shows "take 4 ws = int32_bytes (int (length ws))"
proof -
  from assms obtain m n us where "calc_bson_object_size m = Inr n" "write_bson_members fc m = Inr us"
    "ws = int32_bytes (int (4 + n + 1)) @ us @ [0]"
    by (auto simp: write_bson_def bind_result_Inr_iff split: json.split_asm)
  with write_bson_length(2) [of m n fc us] show ?thesis by simp
qed

theorem bson_size_exact_witness: "take 4 bson_sample_bytes = int32_bytes (int (length bson_sample_bytes))"
  by (rule bson_size_exact [OF bson_sample_written])

text \<open>
  A document that ends where the zero after a string should stand is not refused with an exception:
  the reader returns false without reporting anything, and the caller gets a discarded value although
  exceptions are enabled. A wrong byte in that place is not noticed at all.
\<close>

theorem bson_truncated_string:
  assumes "chr 0 \<notin> set k" and "length s + 1 < 2 ^ 31"
  shows "from_bson fc strict (int32_bytes n @ 0x02 # map byte k @ 0 # int32_bytes (int (length s + 1)) @ map byte s) =
      Inr JDiscarded \<and>
    from_bson fc strict
      (int32_bytes n @ 0x02 # map byte k @ 0 # int32_bytes (int (length s + 1)) @ map byte s @ [x, 0]) =
      Inr (JObject [(k, JString s)])"
proof -
  let ?len = "int32_bytes (int (length s + 1))"
  have len: "get_bson_int32 (?len @ r) = Inr (int (length s + 1), r)" for r
    using assms(2) by (intro get_int32_bytes) auto
  have name: "get_bson_cstr (map byte k @ 0 # r) = Inr (k, r)" for r
    by (rule get_bson_cstr_name [OF assms(1)])
  have s: "get_bytes (length s) (map byte s @ r) = Inr (map byte s, r)" for r
    using get_bytes_append [of "map byte s" r] by simp
  have "bson_list fc (0x02 # map byte k @ 0 # ?len @ map byte s) = Inl Returned_false"
    using len [of "map byte s"] name [of "?len @ map byte s"] s [of "[]"]
    by (simp add: bson_list.simps bson_element.simps bson_leaf_def get_bson_string_def lift_stop_def)
  moreover have "bson_list fc (0x02 # map byte k @ 0 # ?len @ map byte s @ [x, 0]) = Inr ([(k, JString s)], [])"
    using len [of "map byte s @ [x, 0]"] name [of "?len @ map byte s @ [x, 0]"] s [of "[x, 0]"]
    by (simp add: bson_list.simps bson_element.simps bson_leaf_def get_bson_string_def lift_stop_def comp_def)
  ultimately show ?thesis
    using get_document_size [of n "0x02 # map byte k @ 0 # ?len @ map byte s"]
      get_document_size [of n "0x02 # map byte k @ 0 # ?len @ map byte s @ [x, 0]"]
    by (auto simp: from_bson_def bson_element.simps [of fc 3] lift_stop_def bson_object_def)
qed

theorem bson_truncated_string_witness:
  "from_bson bit_codec True (int32_bytes 14 @ 0x02 # map byte ''a'' @ 0 # int32_bytes (int (length ''b'' + 1)) @ map byte ''b'') =
      Inr JDiscarded \<and>
    from_bson bit_codec True
      (int32_bytes 14 @ 0x02 # map byte ''a'' @ 0 # int32_bytes (int (length ''b'' + 1)) @ map byte ''b'' @ [7, 0]) =
      Inr (JObject [(''a'', JString ''b'')])"
  by (rule bson_truncated_string) (simp_all add: no_nul_literals)

end
