(* ===== verification/Json_Ubjson.thy ===== *)
theory Json_Ubjson
  imports Cbor_Roundtrip Msgpack_Roundtrip
begin

text \<open>
  UBJSON: \<open>binary_writer::write_ubjson\<close> and the UBJSON part of \<open>binary_reader\<close>, with the conventions of
  the CBOR theory. A container may announce its size and the type of its elements; the size
  2^64-1 (\<open>npos\<close>) and the type 0 stand for their absence. The member \<open>current\<close> of the reader is passed
  on where it is looked at again. The option \<open>use_type\<close> of the writer is only asserted to come with
  \<open>use_count\<close>; the model writes as the code does without assertions.
\<close>

section \<open>Writing\<close>

definition ubjson_unsigned_prefix :: "nat \<Rightarrow> nat" where
  "ubjson_unsigned_prefix n =
     (if n \<le> 127 then 0x69
      else if n \<le> 255 then 0x55
      else if n \<le> 32767 then 0x49
      else if n \<le> 2147483647 then 0x6C
      else if n \<le> 9223372036854775807 then 0x4C
      else 0x48)"

definition ubjson_signed_prefix :: "int \<Rightarrow> nat" where
  "ubjson_signed_prefix i =
     (if - 128 \<le> i \<and> i \<le> 127 then 0x69
      else if 0 \<le> i \<and> i \<le> 255 then 0x55
      else if - 32768 \<le> i \<and> i \<le> 32767 then 0x49
      else if - 2147483648 \<le> i \<and> i \<le> 2147483647 then 0x6C
      else if - 9223372036854775808 \<le> i \<and> i \<le> 9223372036854775807 then 0x4C
      else 0x48)"

fun ubjson_prefix :: "'f json \<Rightarrow> nat" where
  "ubjson_prefix JNull = 0x5A"
| "ubjson_prefix (JBoolean b) = (if b then 0x54 else 0x46)"
| "ubjson_prefix (JInteger i) = ubjson_signed_prefix i"
| "ubjson_prefix (JUnsigned n) = ubjson_unsigned_prefix n"
| "ubjson_prefix (JFloat f) = 0x44"
| "ubjson_prefix (JString s) = 0x53"
| "ubjson_prefix (JArray vs) = 0x5B"
| "ubjson_prefix (JBinary bs st) = 0x5B"
| "ubjson_prefix (JObject m) = 0x7B"
| "ubjson_prefix JDiscarded = 0x4E"

text \<open>
  \<open>write_number_with_ubjson_prefix\<close> of unsigned and of signed numbers; the second clause of a
  high-precision number writes the length of its text.
\<close>

definition ubjson_small_unsigned :: "nat \<Rightarrow> nat list" where
  "ubjson_small_unsigned n =
     (if n \<le> 255 then be_bytes 1 n
      else if n \<le> 32767 then be_bytes 2 n
      else if n \<le> 2147483647 then be_bytes 4 n
      else be_bytes 8 n)"

definition ubjson_unsigned :: "nat \<Rightarrow> bool \<Rightarrow> nat list" where
  "ubjson_unsigned n add_prefix =
     (if add_prefix then [ubjson_unsigned_prefix n] else []) @
     (if n \<le> 9223372036854775807 then ubjson_small_unsigned n
      else
        (let number = nat_digits n; len = length number in
         ubjson_unsigned_prefix len # ubjson_small_unsigned len @ map byte number))"

definition ubjson_signed :: "int \<Rightarrow> bool \<Rightarrow> nat list" where
  "ubjson_signed i add_prefix =
     (if add_prefix then [ubjson_signed_prefix i] else []) @
     (if - 128 \<le> i \<and> i \<le> 127 then signed_bytes 1 i
      else if 0 \<le> i \<and> i \<le> 255 then be_bytes 1 (nat i)
      else if - 32768 \<le> i \<and> i \<le> 32767 then signed_bytes 2 i
      else if - 2147483648 \<le> i \<and> i \<le> 2147483647 then signed_bytes 4 i
      else if - 9223372036854775808 \<le> i \<and> i \<le> 9223372036854775807 then signed_bytes 8 i
      else
        (let number = std_to_string i in ubjson_unsigned (length number) True @ map byte number))"

text \<open>The type that \<open>same_prefix\<close> finds, and the announcement of type and size.\<close>

fun same_prefix :: "bool \<Rightarrow> nat list \<Rightarrow> nat option" where
  "same_prefix use_type [] = None"
| "same_prefix use_type (p # ps) = (if use_type \<and> list_all (\<lambda>q. q = p) ps then Some p else None)"

definition ubjson_size_head :: "bool \<Rightarrow> nat option \<Rightarrow> nat \<Rightarrow> nat list" where
  "ubjson_size_head use_count t n =
     (case t of None \<Rightarrow> [] | Some p \<Rightarrow> [0x24, p]) @
     (if use_count then 0x23 # ubjson_unsigned n True else [])"

fun write_ubjson :: "'f float_codec \<Rightarrow> bool \<Rightarrow> bool \<Rightarrow> bool \<Rightarrow> 'f json \<Rightarrow> nat list"
and write_ubjson_members ::
  "'f float_codec \<Rightarrow> bool \<Rightarrow> bool \<Rightarrow> bool \<Rightarrow> (string \<times> 'f json) list \<Rightarrow> nat list"
and write_ubjson_elements :: "'f float_codec \<Rightarrow> bool \<Rightarrow> bool \<Rightarrow> bool \<Rightarrow> 'f json list \<Rightarrow> nat list"
where
  "write_ubjson fc uc ut ap JNull = (if ap then [0x5A] else [])"
| "write_ubjson fc uc ut ap (JBoolean b) = (if ap then [if b then 0x54 else 0x46] else [])"
| "write_ubjson fc uc ut ap (JInteger i) = ubjson_signed i ap"
| "write_ubjson fc uc ut ap (JUnsigned n) = ubjson_unsigned n ap"
| "write_ubjson fc uc ut ap (JFloat f) = (if ap then [0x44] else []) @ be_bytes 8 (double_bits fc f)"
| "write_ubjson fc uc ut ap (JString s) =
     (if ap then [0x53] else []) @ ubjson_unsigned (length s) True @ map byte s"
| "write_ubjson fc uc ut ap (JArray vs) =
     (let t = same_prefix ut (map ubjson_prefix vs) in
      (if ap then [0x5B] else []) @ ubjson_size_head uc t (length vs) @
      write_ubjson_elements fc uc ut (t = None) vs @
      (if uc then [] else [0x5D]))"
| "write_ubjson fc uc ut ap (JBinary bs st) =
     (if ap then [0x5B] else []) @
     ubjson_size_head uc (if ut \<and> bs \<noteq> [] then Some 0x55 else None) (length bs) @
     (if ut then bs else concat (map (\<lambda>b. [0x55, b]) bs)) @
     (if uc then [] else [0x5D])"
| "write_ubjson fc uc ut ap (JObject m) =
     (let t = same_prefix ut (map (\<lambda>(k, v). ubjson_prefix v) m) in
      (if ap then [0x7B] else []) @ ubjson_size_head uc t (length m) @
      write_ubjson_members fc uc ut (t = None) m @
      (if uc then [] else [0x7D]))"
| "write_ubjson fc uc ut ap JDiscarded = []"
| "write_ubjson_members fc uc ut ap [] = []"
| "write_ubjson_members fc uc ut ap ((k, v) # m) =
     ubjson_unsigned (length k) True @ map byte k @ write_ubjson fc uc ut ap v @
     write_ubjson_members fc uc ut ap m"
| "write_ubjson_elements fc uc ut ap [] = []"
| "write_ubjson_elements fc uc ut ap (v # vs) =
     write_ubjson fc uc ut ap v @ write_ubjson_elements fc uc ut ap vs"

section \<open>Reading\<close>

record 'f ubjson_env =
  ub_codec :: "'f float_codec"
  ub_limit :: limits
  strtod :: "string \<Rightarrow> 'f option"

definition get_ignore_noop :: "nat list \<Rightarrow> nat option \<times> nat list" where
  "get_ignore_noop rest = get_byte (dropWhile (\<lambda>b. b = 0x4E) rest)"

text \<open>The number after one of the type letters U, i, I, l and L.\<close>

definition ubjson_int :: "nat \<Rightarrow> nat list \<Rightarrow> (json_error, int \<times> nat list) result option" where
  "ubjson_int c rest =
     (if c = 0x55 then Some (bind_result (get_number 1 rest) (\<lambda>(n, r). Inr (int n, r)))
      else if c = 0x69 then Some (get_signed 1 rest)
      else if c = 0x49 then Some (get_signed 2 rest)
      else if c = 0x6C then Some (get_signed 4 rest)
      else if c = 0x4C then Some (get_signed 8 rest)
      else None)"

text \<open>A string of a negative length is empty.\<close>

definition get_ubjson_string :: "nat option \<Rightarrow> nat list \<Rightarrow> (json_error, string \<times> nat list) result" where
  "get_ubjson_string cur rest =
     (case cur of
        None \<Rightarrow> Inl (Parse_error 110)
      | Some c \<Rightarrow>
          (case ubjson_int c rest of
             None \<Rightarrow> Inl (Parse_error 113)
           | Some q \<Rightarrow>
               bind_result q (\<lambda>(len, r).
               bind_result (get_bytes (nat len) r) (\<lambda>(bs, r2). Inr (map chr bs, r2)))))"

text \<open>A size, its bytes converted to \<open>size_t\<close>, and the last byte read.\<close>

definition get_ubjson_size_value ::
  "nat list \<Rightarrow> (json_error, nat \<times> nat option \<times> nat list) result" where
  "get_ubjson_size_value rest =
     (case get_ignore_noop rest of
        (None, r) \<Rightarrow> Inl (Parse_error 113)
      | (Some c, r) \<Rightarrow>
          (case ubjson_int c r of
             None \<Rightarrow> Inl (Parse_error 113)
           | Some q \<Rightarrow>
               bind_result q (\<lambda>(i, r2).
                 Inr (nat (i mod 2 ^ 64), Some (r ! (length r - length r2 - 1)), r2))))"

text \<open>Size, type and last byte read.\<close>

definition get_ubjson_size_type ::
  "nat list \<Rightarrow> (json_error, nat \<times> nat \<times> nat option \<times> nat list) result" where
  "get_ubjson_size_type rest =
     (case get_ignore_noop rest of (cur, r) \<Rightarrow>
        if cur = Some 0x24 then
          (case get_byte r of
             (None, r1) \<Rightarrow> Inl (Parse_error 110)
           | (Some t, r1) \<Rightarrow>
               (case get_ignore_noop r1 of (c, r2) \<Rightarrow>
                  if c \<noteq> Some 0x23 then Inl (Parse_error (if c = None then 110 else 112))
                  else bind_result (get_ubjson_size_value r2) (\<lambda>(n, c', r3). Inr (n, t, c', r3))))
        else if cur = Some 0x23 then
          bind_result (get_ubjson_size_value r) (\<lambda>(n, c', r1). Inr (n, 0, c', r1))
        else Inr (size_max, 0, cur, r))"

text \<open>
  A high-precision number is given to a lexer of its own. Unlike the JSON parser the reader does not
  check that the value is finite: what \<open>strtod\<close> cannot represent becomes an infinity.
\<close>

definition overflow_value :: "'f float_codec \<Rightarrow> string \<Rightarrow> 'f" where
  "overflow_value fc s =
     (case skip_bom s of
        None \<Rightarrow> infinity fc
      | Some s1 \<Rightarrow>
          (case skip_whitespace s1 of
             [] \<Rightarrow> infinity fc
           | c # _ \<Rightarrow> if c = CHR ''-'' then negated fc (infinity fc) else infinity fc))"

definition ubjson_number_text :: "'f ubjson_env \<Rightarrow> string \<Rightarrow> (json_error, 'f json) result" where
  "ubjson_number_text env s =
     (case scan_first (strtod env) s of (t1, s1) \<Rightarrow>
      (case scan (strtod env) s1 of (t2, s2) \<Rightarrow>
        if t2 \<noteq> Tok_end_of_input then Inl (Parse_error 115)
        else
          (case t1 of
             Tok_integer i \<Rightarrow> Inr (JInteger i)
           | Tok_unsigned n \<Rightarrow> Inr (JUnsigned n)
           | Tok_float (Some f) \<Rightarrow> Inr (JFloat f)
           | Tok_float None \<Rightarrow> Inr (JFloat (overflow_value (ub_codec env) s))
           | _ \<Rightarrow> Inl (Parse_error 115))))"

definition get_ubjson_high_precision_number ::
  "'f ubjson_env \<Rightarrow> nat list \<Rightarrow> (json_error, 'f json \<times> nat list) result" where
  "get_ubjson_high_precision_number env rest =
     bind_result (get_ubjson_size_value rest) (\<lambda>(n, _, r).
     bind_result (get_bytes n r) (\<lambda>(bs, r2).
     bind_result (ubjson_number_text env (map chr bs)) (\<lambda>v. Inr (v, r2))))"

text \<open>The cases of \<open>get_ubjson_value\<close> that are no containers.\<close>

definition ubjson_leaf :: "'f ubjson_env \<Rightarrow> nat \<Rightarrow> nat list \<Rightarrow> (json_error, 'f json \<times> nat list) result" where
  "ubjson_leaf env c rest =
     (if c = 0x54 then Inr (JBoolean True, rest)
      else if c = 0x46 then Inr (JBoolean False, rest)
      else if c = 0x5A then Inr (JNull, rest)
      else if c = 0x64 then
        bind_result (get_number 4 rest) (\<lambda>(b, r). Inr (JFloat (of_single_bits (ub_codec env) b), r))
      else if c = 0x44 then
        bind_result (get_number 8 rest) (\<lambda>(b, r). Inr (JFloat (of_double_bits (ub_codec env) b), r))
      else if c = 0x48 then get_ubjson_high_precision_number env rest
      else if c = 0x43 then
        bind_result (get_number 1 rest) (\<lambda>(b, r).
          if 127 < b then Inl (Parse_error 113) else Inr (JString [chr b], r))
      else if c = 0x53 then
        bind_result (get_ubjson_string (fst (get_byte rest)) (snd (get_byte rest))) (\<lambda>(s, r). Inr (JString s, r))
      else
        (case ubjson_int c rest of
           Some q \<Rightarrow>
             bind_result q (\<lambda>(i, r). Inr (if c = 0x55 then JUnsigned (nat i) else JInteger i, r))
         | None \<Rightarrow> Inl (Parse_error 112)))"

text \<open>The prefix of the next value: the announced type, or the next byte that is no \<open>N\<close>.\<close>

definition ubjson_start :: "nat \<Rightarrow> nat list \<Rightarrow> nat option \<times> nat list" where
  "ubjson_start t rest = (if t = 0 then get_ignore_noop rest else (Some t, rest))"

function ubjson_value ::
  "'f ubjson_env \<Rightarrow> nat option \<Rightarrow> nat list \<Rightarrow> (json_error, 'f json \<times> nat list) result"
and ubjson_items ::
  "'f ubjson_env \<Rightarrow> nat \<Rightarrow> nat \<Rightarrow> nat list \<Rightarrow> (json_error, 'f json list \<times> nat list) result"
and ubjson_open_items ::
  "'f ubjson_env \<Rightarrow> nat option \<Rightarrow> nat list \<Rightarrow> (json_error, 'f json list \<times> nat list) result"
and ubjson_members ::
  "'f ubjson_env \<Rightarrow> nat \<Rightarrow> nat \<Rightarrow> (string \<times> 'f json) list \<Rightarrow> nat list \<Rightarrow>
   (json_error, (string \<times> 'f json) list \<times> nat list) result"
and ubjson_open_members ::
  "'f ubjson_env \<Rightarrow> nat option \<Rightarrow> (string \<times> 'f json) list \<Rightarrow> nat list \<Rightarrow>
   (json_error, (string \<times> 'f json) list \<times> nat list) result"
where
  "ubjson_value env prefix rest =
     (case prefix of
        None \<Rightarrow> Inl (Parse_error 110)
      | Some c \<Rightarrow>
          if c = 0x5B then
            bind_result (get_ubjson_size_type rest) (\<lambda>(n, t, cur, r).
              if n = size_max then
                bind_result (ubjson_open_items env cur r) (\<lambda>(vs, r2). Inr (JArray vs, r2))
              else if max_array (ub_limit env) < n then Inl (Out_of_range 408)
              else if t = 0x4E then Inr (JArray [], r)
              else bind_result (ubjson_items env t n r) (\<lambda>(vs, r2). Inr (JArray vs, r2)))
          else if c = 0x7B then
            bind_result (get_ubjson_size_type rest) (\<lambda>(n, t, cur, r).
              if n = size_max then
                bind_result (ubjson_open_members env cur [] r) (\<lambda>(m, r2). Inr (JObject m, r2))
              else if max_object (ub_limit env) < n then Inl (Out_of_range 408)
              else bind_result (ubjson_members env t n [] r) (\<lambda>(m, r2). Inr (JObject m, r2)))
          else ubjson_leaf env c rest)"
| "ubjson_items env t n rest =
     (if n = 0 then Inr ([], rest)
      else
        bind_result (ubjson_value env (fst (ubjson_start t rest)) (snd (ubjson_start t rest))) (\<lambda>(v, r).
        bind_result (ubjson_items env t (n - 1) r) (\<lambda>(vs, r2). Inr (v # vs, r2))))"
| "ubjson_open_items env cur rest =
     (if cur = Some 0x5D then Inr ([], rest)
      else
        bind_result (ubjson_value env cur rest) (\<lambda>(v, r).
        bind_result (ubjson_open_items env (fst (get_ignore_noop r)) (snd (get_ignore_noop r))) (\<lambda>(vs, r2).
          Inr (v # vs, r2))))"
| "ubjson_members env t n m rest =
     (if n = 0 then Inr (m, rest)
      else
        bind_result (get_ubjson_string (fst (get_byte rest)) (snd (get_byte rest))) (\<lambda>(k, r).
        bind_result (ubjson_value env (fst (ubjson_start t r)) (snd (ubjson_start t r))) (\<lambda>(v, r2).
          ubjson_members env t (n - 1) (map_put k v m) r2)))"
| "ubjson_open_members env cur m rest =
     (if cur = Some 0x7D then Inr (m, rest)
      else
        bind_result (get_ubjson_string cur rest) (\<lambda>(k, r).
        bind_result (ubjson_value env (fst (get_ignore_noop r)) (snd (get_ignore_noop r))) (\<lambda>(v, r2).
          ubjson_open_members env (fst (get_ignore_noop r2)) (map_put k v m) (snd (get_ignore_noop r2)))))"
  by pat_completeness auto

subsection \<open>Termination\<close>

text \<open>
  Elements of an announced type may take no input at all (\<open>Z\<close>, \<open>T\<close>, \<open>F\<close>), so the number of elements
  counts as well as the input.
\<close>

lemma get_ignore_noop_length:
  "length (snd (get_ignore_noop r)) + (if fst (get_ignore_noop r) = None then 0 else 1) \<le> length r"
proof -
  have "length (dropWhile (\<lambda>b. b = 0x4E) r) \<le> length r" by (rule length_dropWhile_le)
  then show ?thesis
    using get_byte_length [of "dropWhile (\<lambda>b. b = 0x4E) r"]
    by (cases "get_byte (dropWhile (\<lambda>b. b = 0x4E) r)") (auto simp: get_ignore_noop_def split: option.splits)
qed

lemma get_ignore_noop_eq:
  "get_ignore_noop r = (c, r1) \<Longrightarrow> length r1 + (if c = None then 0 else 1) \<le> length r"
  using get_ignore_noop_length [of r] by simp

lemma get_ignore_noop_end: "fst (get_ignore_noop r) = None \<Longrightarrow> snd (get_ignore_noop r) = []"
  by (cases "dropWhile (\<lambda>b. b = 0x4E) r") (simp_all add: get_ignore_noop_def del: dropWhile_eq_Nil_conv)

lemma ubjson_int_length: "ubjson_int c rest = Some (Inr (i, r)) \<Longrightarrow> length r < length rest"
  by (auto simp: ubjson_int_def get_signed_def bind_result_Inr_iff split: if_splits dest!: get_number_length)

lemma get_ubjson_string_length: "get_ubjson_string cur rest = Inr (k, r) \<Longrightarrow> length r < length rest"
  by (auto simp: get_ubjson_string_def bind_result_Inr_iff split: option.splits
      dest!: ubjson_int_length get_bytes_length)

lemma get_ubjson_size_value_length:
  "get_ubjson_size_value rest = Inr (n, c, r) \<Longrightarrow> length r < length rest \<and> c \<noteq> None"
  by (auto simp: get_ubjson_size_value_def bind_result_Inr_iff split: option.splits prod.splits
      dest!: ubjson_int_length get_ignore_noop_eq)

lemma get_ubjson_size_type_length:
  assumes "get_ubjson_size_type rest = Inr (n, t, c, r)"
  shows "length r + (if c = None then 0 else 1) \<le> length rest \<and> (n \<noteq> size_max \<longrightarrow> length r < length rest)"
  using assms
  by (fastforce simp: get_ubjson_size_type_def bind_result_Inr_iff split: prod.splits option.splits if_splits
      dest!: get_ubjson_size_value_length get_ignore_noop_eq get_byte_length)

lemma ubjson_leaf_length: "ubjson_leaf env c rest = Inr (v, r) \<Longrightarrow> length r \<le> length rest"
  by (fastforce simp: ubjson_leaf_def get_ubjson_high_precision_number_def bind_result_Inr_iff
      split: option.splits if_splits
      dest!: ubjson_int_length get_number_length get_bytes_length get_ubjson_size_value_length
        get_ubjson_string_length intro: order_trans [OF _ get_byte_le])

lemma ubjson_start_length:
  "length (snd (ubjson_start t r)) \<le> length r \<and>
   (fst (ubjson_start t r) = None \<longrightarrow> snd (ubjson_start t r) = [])"
  using get_ignore_noop_length [of r] get_ignore_noop_end [of r] by (auto simp: ubjson_start_def split: if_splits)

definition shrinks :: "nat \<Rightarrow> (json_error, 'a \<times> nat list) result \<Rightarrow> bool" where
  "shrinks n res \<longleftrightarrow> (\<forall>v r. res = Inr (v, r) \<longrightarrow> length r \<le> n)"

lemma shrinks_simps [simp]: "shrinks n (Inl e)" "shrinks n (Inr (v, r)) \<longleftrightarrow> length r \<le> n"
  by (simp_all add: shrinks_def)

lemma shrinksD: "shrinks n res \<Longrightarrow> res = Inr (v, r) \<Longrightarrow> length r \<le> n"
  by (simp add: shrinks_def)

lemma shrinks_bind:
  "(\<And>v r. res = Inr (v, r) \<Longrightarrow> shrinks n (f (v, r))) \<Longrightarrow> shrinks n (bind_result res f)"
  by (cases res) auto

lemma shrinks_mono: "shrinks n res \<Longrightarrow> n \<le> n' \<Longrightarrow> shrinks n' res"
  by (auto simp: shrinks_def)

lemma ubjson_value_partial:
  fixes env env2 env3 env4 env5 :: "'f ubjson_env"
  shows "ubjson_value_ubjson_items_ubjson_open_items_ubjson_members_ubjson_open_members_dom (Inl (Inl (env, cur, rest))) \<Longrightarrow>
    shrinks (length rest) (ubjson_value env cur rest)"
  "ubjson_value_ubjson_items_ubjson_open_items_ubjson_members_ubjson_open_members_dom (Inl (Inr (env2, t2, n2, rest2))) \<Longrightarrow>
    shrinks (length rest2) (ubjson_items env2 t2 n2 rest2)"
  "ubjson_value_ubjson_items_ubjson_open_items_ubjson_members_ubjson_open_members_dom (Inr (Inl (env3, cur3, rest3))) \<Longrightarrow>
    shrinks (length rest3) (ubjson_open_items env3 cur3 rest3)"
  "ubjson_value_ubjson_items_ubjson_open_items_ubjson_members_ubjson_open_members_dom (Inr (Inr (Inl (env4, t4, n4, m4, rest4)))) \<Longrightarrow>
    shrinks (length rest4) (ubjson_members env4 t4 n4 m4 rest4)"
  "ubjson_value_ubjson_items_ubjson_open_items_ubjson_members_ubjson_open_members_dom (Inr (Inr (Inr (env5, cur5, m5, rest5)))) \<Longrightarrow>
    shrinks (length rest5) (ubjson_open_members env5 cur5 m5 rest5)"
proof (induction rule: ubjson_value_ubjson_items_ubjson_open_items_ubjson_members_ubjson_open_members.pinduct)
  case (1 env prefix rest)
  show ?case
  proof (cases prefix)
    case (Some c)
    have size: "length r \<le> length rest" if "get_ubjson_size_type rest = Inr (n, t, cur, r)" for n t cur r
      using get_ubjson_size_type_length [OF that] by simp
    have leaf: "shrinks (length rest) (ubjson_leaf env c rest)"
      by (auto simp: shrinks_def dest: ubjson_leaf_length)
    show ?thesis
      unfolding Some ubjson_value.psimps [OF 1(1) [unfolded Some]] option.case
      using 1(2) [OF Some _ _ refl refl refl] 1(3) [OF Some _ _ refl refl refl]
        1(4) [OF Some _ _ _ refl refl refl] 1(5) [OF Some _ _ _ refl refl refl] size leaf
      by (auto intro!: shrinks_bind dest: shrinksD intro: order_trans)
  next
    case None
    show ?thesis unfolding None ubjson_value.psimps [OF 1(1) [unfolded None]] by simp
  qed
next
  case (2 env t n rest)
  have "length r2 \<le> length rest"
    if "n \<noteq> 0" and v: "ubjson_value env (fst (ubjson_start t rest)) (snd (ubjson_start t rest)) = Inr (v, r)"
      and "ubjson_items env t (n - 1) r = Inr (vs, r2)" for v r vs r2
    using shrinksD [OF 2(2) [OF that(1)] v] shrinksD [OF 2(3) [OF that(1) v refl] that(3)]
      ubjson_start_length [of t rest] by linarith
  then show ?case unfolding ubjson_items.psimps [OF 2(1)] by (auto intro!: shrinks_bind)
next
  case (3 env cur rest)
  have "length r2 \<le> length rest"
    if "cur \<noteq> Some 0x5D" and v: "ubjson_value env cur rest = Inr (v, r)"
      and "ubjson_open_items env (fst (get_ignore_noop r)) (snd (get_ignore_noop r)) = Inr (vs, r2)" for v r vs r2
    using shrinksD [OF 3(2) [OF that(1)] v] shrinksD [OF 3(3) [OF that(1) v refl] that(3)]
      get_ignore_noop_length [of r] by linarith
  then show ?case unfolding ubjson_open_items.psimps [OF 3(1)] by (auto intro!: shrinks_bind)
next
  case (4 env t n m rest)
  have "length r3 \<le> length rest"
    if "n \<noteq> 0" and k: "get_ubjson_string (fst (get_byte rest)) (snd (get_byte rest)) = Inr (k, r)"
      and v: "ubjson_value env (fst (ubjson_start t r)) (snd (ubjson_start t r)) = Inr (v, r2)"
      and "ubjson_members env t (n - 1) (map_put k v m) r2 = Inr (m2, r3)" for k r v r2 m2 r3
    using shrinksD [OF 4(2) [OF that(1) k refl] v] shrinksD [OF 4(3) [OF that(1) k refl v refl] that(4)]
      get_ubjson_string_length [OF k] get_byte_le [of rest] ubjson_start_length [of t r] by linarith
  then show ?case unfolding ubjson_members.psimps [OF 4(1)] by (auto simp: shrinks_def bind_result_Inr_iff)
next
  case (5 env cur m rest)
  have "length r3 \<le> length rest"
    if "cur \<noteq> Some 0x7D" and k: "get_ubjson_string cur rest = Inr (k, r)"
      and v: "ubjson_value env (fst (get_ignore_noop r)) (snd (get_ignore_noop r)) = Inr (v, r2)"
      and "ubjson_open_members env (fst (get_ignore_noop r2)) (map_put k v m) (snd (get_ignore_noop r2)) = Inr (m2, r3)"
    for k r v r2 m2 r3
    using shrinksD [OF 5(2) [OF that(1) k refl] v] shrinksD [OF 5(3) [OF that(1) k refl v refl] that(4)]
      get_ubjson_string_length [OF k] get_ignore_noop_length [of r] get_ignore_noop_length [of r2] by linarith
  then show ?case unfolding ubjson_open_members.psimps [OF 5(1)] by (auto simp: shrinks_def bind_result_Inr_iff)
qed

definition ubjson_rank ::
  "('f ubjson_env \<times> nat option \<times> nat list + 'f ubjson_env \<times> nat \<times> nat \<times> nat list) +
   ('f ubjson_env \<times> nat option \<times> nat list +
    'f ubjson_env \<times> nat \<times> nat \<times> (string \<times> 'f json) list \<times> nat list +
    'f ubjson_env \<times> nat option \<times> (string \<times> 'f json) list \<times> nat list) \<Rightarrow> nat \<times> nat \<times> nat"
where
  "ubjson_rank x =
     (case x of
        Inl (Inl (env, cur, rest)) \<Rightarrow> (length rest, if cur = None then 0 else 2, 0)
      | Inl (Inr (env, t, n, rest)) \<Rightarrow> (length rest, 3, n)
      | Inr (Inl (env, cur, rest)) \<Rightarrow> (length rest, if cur = None then 1 else 3, 0)
      | Inr (Inr (Inl (env, t, n, m, rest))) \<Rightarrow> (length rest, 3, n)
      | Inr (Inr (Inr (env, cur, m, rest))) \<Rightarrow> (length rest, if cur = None then 1 else 3, 0))"

lemma ubjson_value_None_partial:
  "ubjson_value_ubjson_items_ubjson_open_items_ubjson_members_ubjson_open_members_dom (Inl (Inl (env, None, rest))) \<Longrightarrow>
    ubjson_value env None rest = Inl (Parse_error 110)"
  by (simp add: ubjson_value.psimps)

termination ubjson_value
proof (relation "measures [\<lambda>x. fst (ubjson_rank x), \<lambda>x. fst (snd (ubjson_rank x)), \<lambda>x. snd (snd (ubjson_rank x))]",
    goal_cases)
  case (2 env prefix rest c a n y t ya cur r)
  then have "get_ubjson_size_type rest = Inr (n, t, cur, r)" by simp
  from get_ubjson_size_type_length [OF this] 2(1) show ?case by (auto simp: ubjson_rank_def case_prod_beta)
next
  case (3 env prefix rest c a n y t ya cur r)
  then have "get_ubjson_size_type rest = Inr (n, t, cur, r)" by simp
  from get_ubjson_size_type_length [OF this] 3 show ?case by (auto simp: ubjson_rank_def case_prod_beta)
next
  case (4 env prefix rest c a n y t ya cur r)
  then have "get_ubjson_size_type rest = Inr (n, t, cur, r)" by simp
  from get_ubjson_size_type_length [OF this] 4(1) show ?case by (auto simp: ubjson_rank_def case_prod_beta)
next
  case (5 env prefix rest c a n y t ya cur r)
  then have "get_ubjson_size_type rest = Inr (n, t, cur, r)" by simp
  from get_ubjson_size_type_length [OF this] 5 show ?case by (auto simp: ubjson_rank_def case_prod_beta)
next
  case (6 env t n rest)
  show ?case using ubjson_start_length [of t rest] by (auto simp: ubjson_rank_def case_prod_beta)
next
  case (7 env t n rest a v r)
  from ubjson_value_partial(1) [OF 7(4)] 7(2,3) have "length r \<le> length (snd (ubjson_start t rest))"
    by (auto dest: shrinksD)
  with ubjson_start_length [of t rest] 7(1) show ?case by (auto simp: ubjson_rank_def case_prod_beta)
next
  case (8 env cur rest)
  show ?case by (simp add: ubjson_rank_def)
next
  case (9 env cur rest a v r)
  then have cur: "cur \<noteq> None" using ubjson_value_None_partial [of env rest] by (cases cur) auto
  from ubjson_value_partial(1) [OF 9(4)] 9(2,3) have "length r \<le> length rest" by (auto dest: shrinksD)
  with get_ignore_noop_length [of r] cur show ?case by (auto simp: ubjson_rank_def case_prod_beta)
next
  case (10 env t n m rest a k r)
  then have "get_ubjson_string (fst (get_byte rest)) (snd (get_byte rest)) = Inr (k, r)" by simp
  from get_ubjson_string_length [OF this] ubjson_start_length [of t r] get_byte_le [of rest]
  show ?case by (auto simp: ubjson_rank_def case_prod_beta)
next
  case (11 env t n m rest a k r b v r2)
  then have "get_ubjson_string (fst (get_byte rest)) (snd (get_byte rest)) = Inr (k, r)" by simp
  from get_ubjson_string_length [OF this] have "length r < length rest" using get_byte_le [of rest] by simp
  moreover from ubjson_value_partial(1) [OF 11(6)] 11(4,5) have "length r2 \<le> length (snd (ubjson_start t r))"
    by (auto dest: shrinksD)
  ultimately show ?case using ubjson_start_length [of t r] by (auto simp: ubjson_rank_def case_prod_beta)
next
  case (12 env cur m rest a k r)
  then have "get_ubjson_string cur rest = Inr (k, r)" by simp
  from get_ubjson_string_length [OF this] get_ignore_noop_length [of r] show ?case by (auto simp: ubjson_rank_def case_prod_beta)
next
  case (13 env cur m rest a k r b v r2)
  then have "get_ubjson_string cur rest = Inr (k, r)" by simp
  from get_ubjson_string_length [OF this] have "length r < length rest" .
  moreover from ubjson_value_partial(1) [OF 13(6)] 13(4,5) have "length r2 \<le> length (snd (get_ignore_noop r))"
    by (auto dest: shrinksD)
  ultimately show ?case using get_ignore_noop_length [of r] get_ignore_noop_length [of r2]
    by (auto simp: ubjson_rank_def case_prod_beta)
qed simp

declare ubjson_value.simps [simp del] ubjson_items.simps [simp del] ubjson_open_items.simps [simp del]
  ubjson_members.simps [simp del] ubjson_open_members.simps [simp del]

text \<open>In strict mode only bytes \<open>N\<close> may follow the value.\<close>

definition from_ubjson :: "'f ubjson_env \<Rightarrow> bool \<Rightarrow> nat list \<Rightarrow> (json_error, 'f json) result" where
  "from_ubjson env strict input =
     bind_result (ubjson_value env (fst (get_ignore_noop input)) (snd (get_ignore_noop input))) (\<lambda>(v, r).
       if strict \<and> fst (get_ignore_noop r) \<noteq> None then Inl (Parse_error 110) else Inr v)"

definition to_ubjson :: "'f float_codec \<Rightarrow> bool \<Rightarrow> bool \<Rightarrow> 'f json \<Rightarrow> nat list" where
  "to_ubjson fc use_size use_type j = write_ubjson fc use_size use_type True j"
end
