(* ===== verification/Ubjson_Roundtrip.thy ===== *)
theory Ubjson_Roundtrip
  imports Json_Ubjson Json_Roundtrip
begin

text \<open>
  What the UBJSON reader makes of written text. Elements are described by triples: the type letter,
  the bytes after it and the value they stand for; the same lemmas then serve arrays and binary data.
\<close>

section \<open>Numbers and strings\<close>

lemma get_signed_be:
  assumes "n < 2 ^ (8 * k - 1)" and "0 < k"
  shows "get_signed k (be_bytes k n @ r) = Inr (int n, r)"
proof -
  have "(2 :: nat) ^ (8 * k - 1) \<le> 2 ^ (8 * k)" by (rule power_increasing) auto
  then have "n < 2 ^ (8 * k)" using assms by linarith
  then have "n < 256 ^ k" by (simp add: power_mult)
  moreover have "wrap_signed (8 * k) (int n) = int n"
  proof (rule wrap_signed_id)
    show "int n < 2 ^ (8 * k - 1)" using assms by (metis of_nat_less_iff of_nat_numeral of_nat_power)
  qed (use assms in \<open>auto intro: order_trans [of _ 0]\<close>)
  ultimately show ?thesis by (simp add: get_signed_def)
qed

lemma ubjson_int_unsigned:
  assumes "n < 2 ^ 63"
  shows "ubjson_int (ubjson_unsigned_prefix n) (ubjson_small_unsigned n @ r) = Some (Inr (int n, r))"
  using assms get_signed_be [of n 1] get_signed_be [of n 2] get_signed_be [of n 4] get_signed_be [of n 8]
    get_number_be [of n 1 r]
  by (auto simp: ubjson_int_def ubjson_unsigned_prefix_def ubjson_small_unsigned_def)

lemma ubjson_unsigned_True:
  "n < 2 ^ 63 \<Longrightarrow> ubjson_unsigned n True = ubjson_unsigned_prefix n # ubjson_small_unsigned n"
  by (simp add: ubjson_unsigned_def)

lemma ubjson_unsigned_prefix_range:
  "ubjson_unsigned_prefix n \<in> {0x69, 0x55, 0x49, 0x6C, 0x4C, 0x48}"
  by (simp add: ubjson_unsigned_prefix_def)

lemma get_ignore_noop_other: "c \<noteq> 0x4E \<Longrightarrow> get_ignore_noop (c # r) = (Some c, r)"
  by (simp add: get_ignore_noop_def)

lemma get_ubjson_size_value_written:
  assumes "n < 2 ^ 63"
  shows "\<exists>c. get_ubjson_size_value (ubjson_unsigned n True @ r) = Inr (n, c, r)"
proof -
  have "nat (int n mod 2 ^ 64) = n" using assms by (simp add: nat_mod_as_int flip: of_nat_mod)
  moreover have "ubjson_unsigned_prefix n \<noteq> 0x4E" using ubjson_unsigned_prefix_range [of n] by auto
  ultimately show ?thesis
    using assms by (simp add: get_ubjson_size_value_def ubjson_unsigned_True get_ignore_noop_other ubjson_int_unsigned)
qed

lemma get_ubjson_string_written:
  assumes "length s < 2 ^ 63"
  shows "get_ubjson_string (fst (get_byte (ubjson_unsigned (length s) True @ map byte s @ r)))
      (snd (get_byte (ubjson_unsigned (length s) True @ map byte s @ r))) = Inr (s, r)"
  using assms get_bytes_append [of "map byte s" r]
  by (simp add: ubjson_unsigned_True get_ubjson_string_def ubjson_int_unsigned comp_def)

section \<open>Sizes and types\<close>

lemma get_ubjson_size_type_written:
  assumes "n < 2 ^ 63" and "t \<noteq> Some 0"
  shows "\<exists>c. get_ubjson_size_type (ubjson_size_head True t n @ r) =
    Inr (n, case t of None \<Rightarrow> 0 | Some p \<Rightarrow> p, c, r)"
proof -
  obtain c where "get_ubjson_size_value (ubjson_unsigned n True @ r) = Inr (n, c, r)"
    using get_ubjson_size_value_written [OF assms(1)] by blast
  then show ?thesis
    by (cases t) (simp_all add: get_ubjson_size_type_def ubjson_size_head_def get_ignore_noop_other)
qed

lemma get_ubjson_size_type_open:
  assumes "c \<noteq> 0x23" and "c \<noteq> 0x24" and "c \<noteq> 0x4E"
  shows "get_ubjson_size_type (c # r) = Inr (size_max, 0, Some c, r)"
  using assms by (simp add: get_ubjson_size_type_def get_ignore_noop_other)

section \<open>Containers\<close>

definition ubjson_reads :: "'f ubjson_env \<Rightarrow> nat \<times> nat list \<times> 'f json \<Rightarrow> bool" where
  "ubjson_reads env x \<longleftrightarrow>
     (case x of (p, w, v) \<Rightarrow>
        p \<notin> {0, 0x23, 0x24, 0x4E, 0x5D, 0x7D} \<and>
        (\<forall>r. ubjson_value env (Some p) (w @ r) = Inr (v, r)))"

abbreviation (input) letter :: "nat \<times> nat list \<times> 'f json \<Rightarrow> nat" where "letter x \<equiv> fst x"
abbreviation (input) body :: "nat \<times> nat list \<times> 'f json \<Rightarrow> nat list" where "body x \<equiv> fst (snd x)"
abbreviation (input) meaning :: "nat \<times> nat list \<times> 'f json \<Rightarrow> 'f json" where "meaning x \<equiv> snd (snd x)"

definition element_bytes :: "nat option \<Rightarrow> nat \<times> nat list \<times> 'f json \<Rightarrow> nat list" where
  "element_bytes t x = (case t of None \<Rightarrow> letter x # body x | Some p \<Rightarrow> body x)"

lemma ubjson_reads_start:
  assumes "ubjson_reads env x" and "t = None \<or> t = Some (letter x)"
  shows "ubjson_value env (fst (ubjson_start (case t of None \<Rightarrow> 0 | Some p \<Rightarrow> p) (element_bytes t x @ r)))
      (snd (ubjson_start (case t of None \<Rightarrow> 0 | Some p \<Rightarrow> p) (element_bytes t x @ r))) = Inr (meaning x, r)"
  using assms by (auto simp: ubjson_reads_def element_bytes_def ubjson_start_def get_ignore_noop_other)

lemma ubjson_reads_items:
  assumes "\<forall>x \<in> set xs. ubjson_reads env x \<and> (t = None \<or> t = Some (letter x))"
  shows "ubjson_items env (case t of None \<Rightarrow> 0 | Some p \<Rightarrow> p) (length xs) (concat (map (element_bytes t) xs) @ r) =
    Inr (map meaning xs, r)"
  using assms
proof (induction xs)
  case (Cons x xs)
  then show ?case using ubjson_reads_start [of env x t] by (simp add: ubjson_items.simps [of _ _ "Suc _"])
qed (simp add: ubjson_items.simps)

lemma ubjson_reads_open:
  assumes "\<forall>x \<in> set xs. ubjson_reads env x"
  shows "ubjson_open_items env (fst (get_ignore_noop (concat (map (element_bytes None) xs) @ 0x5D # r)))
      (snd (get_ignore_noop (concat (map (element_bytes None) xs) @ 0x5D # r))) = Inr (map meaning xs, r)"
  using assms
proof (induction xs)
  case (Cons x xs)
  obtain p w v where x: "x = (p, w, v)" by (cases x)
  with Cons show ?case
    by (simp add: ubjson_open_items.simps [of _ "Some p"] element_bytes_def ubjson_reads_def get_ignore_noop_other)
qed (simp add: ubjson_open_items.simps get_ignore_noop_other)

lemma ubjson_reads_array:
  assumes "\<forall>x \<in> set xs. ubjson_reads env x \<and> (t = None \<or> t = Some (letter x))"
    and "t \<noteq> None \<longrightarrow> xs \<noteq> [] \<and> uc" and "length xs < 2 ^ 63" and "length xs \<le> max_array (ub_limit env)"
  shows "ubjson_reads env (0x5B,
    ubjson_size_head uc t (length xs) @ concat (map (element_bytes t) xs) @ (if uc then [] else [0x5D]),
    JArray (map meaning xs))"
proof (cases uc)
  case True
  have t: "t \<noteq> Some 0" "t \<noteq> Some 0x4E" using assms(1,2) by (auto simp: ubjson_reads_def neq_Nil_conv)
  have "length xs \<noteq> size_max" using assms(3) by (simp add: size_max_def)
  moreover have "(case t of None \<Rightarrow> 0 | Some p \<Rightarrow> p) \<noteq> (0x4E :: nat)" using t by (cases t) auto
  ultimately have "ubjson_value env (Some 0x5B)
      (ubjson_size_head True t (length xs) @ concat (map (element_bytes t) xs) @ r) = Inr (JArray (map meaning xs), r)" for r
    using get_ubjson_size_type_written [OF assms(3) t(1), of "concat (map (element_bytes t) xs) @ r"]
      ubjson_reads_items [OF assms(1), of r] assms(4)
    by (auto simp: ubjson_value.simps [of _ "Some 0x5B"])
  with True show ?thesis by (simp add: ubjson_reads_def)
next
  case False
  with assms have t: "t = None" by auto
  have "\<exists>c w. concat (map (element_bytes None) xs) @ 0x5D # r = c # w \<and> c \<noteq> 0x23 \<and> c \<noteq> 0x24 \<and> c \<noteq> 0x4E" for r
    using assms(1) by (cases xs) (auto simp: element_bytes_def ubjson_reads_def)
  then have "get_ubjson_size_type (concat (map (element_bytes None) xs) @ 0x5D # r) =
      Inr (size_max, 0, fst (get_ignore_noop (concat (map (element_bytes None) xs) @ 0x5D # r)),
        snd (get_ignore_noop (concat (map (element_bytes None) xs) @ 0x5D # r)))" for r
    using get_ubjson_size_type_open get_ignore_noop_other by (metis fst_conv snd_conv)
  with t False ubjson_reads_open [of xs env] assms(1) show ?thesis
    by (simp add: ubjson_reads_def ubjson_value.simps [of _ "Some 0x5B"] ubjson_size_head_def case_prod_beta)
qed

text \<open>The same for objects: an entry is a key and the triple of its value.\<close>

definition member_bytes :: "nat option \<Rightarrow> string \<times> nat \<times> nat list \<times> 'f json \<Rightarrow> nat list" where
  "member_bytes t x = ubjson_unsigned (length (fst x)) True @ map byte (fst x) @ element_bytes t (snd x)"

definition member :: "string \<times> nat \<times> nat list \<times> 'f json \<Rightarrow> string \<times> 'f json" where
  "member x = (fst x, meaning (snd x))"

lemma member_put:
  assumes "map_ok (map member (m0 @ x # xs))"
  shows "map_put (fst x) (meaning (snd x)) (map member m0) = map member (m0 @ [x])"
  using assms by (simp add: map_put_last sorted_wrt_append member_def comp_def)

lemma ubjson_reads_members:
  assumes "\<forall>x \<in> set xs. length (fst x) < 2 ^ 63 \<and> ubjson_reads env (snd x) \<and> (t = None \<or> t = Some (letter (snd x)))"
    and "map_ok (map member (m0 @ xs))"
  shows "ubjson_members env (case t of None \<Rightarrow> 0 | Some p \<Rightarrow> p) (length xs) (map member m0)
      (concat (map (member_bytes t) xs) @ r) = Inr (map member (m0 @ xs), r)"
  using assms
proof (induction xs arbitrary: m0)
  case (Cons x xs)
  have "get_ubjson_string (fst (get_byte (member_bytes t x @ q))) (snd (get_byte (member_bytes t x @ q))) =
      Inr (fst x, element_bytes t (snd x) @ q)" for q
    using Cons(2) get_ubjson_string_written [of "fst x" "element_bytes t (snd x) @ q"] by (simp add: member_bytes_def)
  moreover have "map_put (fst x) (meaning (snd x)) (map member m0) = map member (m0 @ [x])"
    using Cons(3) by (rule member_put)
  ultimately show ?case
    using Cons.IH [of "m0 @ [x]"] Cons(2,3) ubjson_reads_start [of env "snd x" t]
    by (simp add: ubjson_members.simps [of _ _ "Suc _"])
qed (simp add: ubjson_members.simps)

lemma ubjson_open_entry:
  assumes "length k < 2 ^ 63"
  obtains c w where "\<And>q. ubjson_unsigned (length k) True @ map byte k @ q = c # w @ map byte k @ q"
    and "c \<notin> {0x23, 0x24, 0x4E, 0x7D}"
    and "\<And>q. get_ubjson_string (Some c) (w @ map byte k @ q) = Inr (k, q)"
proof
  show "ubjson_unsigned (length k) True @ map byte k @ q =
      ubjson_unsigned_prefix (length k) # ubjson_small_unsigned (length k) @ map byte k @ q" for q
    using assms by (simp add: ubjson_unsigned_True)
  show "ubjson_unsigned_prefix (length k) \<notin> {0x23, 0x24, 0x4E, 0x7D}"
    using ubjson_unsigned_prefix_range [of "length k"] by auto
  show "get_ubjson_string (Some (ubjson_unsigned_prefix (length k)))
      (ubjson_small_unsigned (length k) @ map byte k @ q) = Inr (k, q)" for q
    using get_ubjson_string_written [OF assms, of q] assms by (simp add: ubjson_unsigned_True)
qed

lemma ubjson_reads_open_members:
  assumes "\<forall>x \<in> set xs. length (fst x) < 2 ^ 63 \<and> ubjson_reads env (snd x)"
    and "map_ok (map member (m0 @ xs))"
  shows "ubjson_open_members env (fst (get_ignore_noop (concat (map (member_bytes None) xs) @ 0x7D # r)))
      (map member m0) (snd (get_ignore_noop (concat (map (member_bytes None) xs) @ 0x7D # r))) =
    Inr (map member (m0 @ xs), r)"
  using assms
proof (induction xs arbitrary: m0)
  case (Cons x xs)
  obtain k p w v where x: "x = (k, p, w, v)" by (cases x)
  from Cons(2) x have "length k < 2 ^ 63" by simp
  then obtain c u where c: "\<And>q. ubjson_unsigned (length k) True @ map byte k @ q = c # u @ map byte k @ q"
    "c \<notin> {0x23, 0x24, 0x4E, 0x7D}" "\<And>q. get_ubjson_string (Some c) (u @ map byte k @ q) = Inr (k, q)"
    by (rule ubjson_open_entry) metis
  have "map_put k v (map member m0) = map member (m0 @ [x])"
    using member_put [OF Cons(3)] x by simp
  with Cons.IH [of "m0 @ [x]"] Cons(2,3) c x show ?case
    by (simp add: ubjson_open_members.simps [of _ "Some c"] member_bytes_def element_bytes_def ubjson_reads_def
        get_ignore_noop_other)
qed (simp add: ubjson_open_members.simps get_ignore_noop_other)

lemma ubjson_reads_object:
  assumes "\<forall>x \<in> set xs. length (fst x) < 2 ^ 63 \<and> ubjson_reads env (snd x) \<and> (t = None \<or> t = Some (letter (snd x)))"
    and "t \<noteq> None \<longrightarrow> xs \<noteq> [] \<and> uc" and "length xs < 2 ^ 63" and "length xs \<le> max_object (ub_limit env)"
    and "map_ok (map member xs)"
  shows "ubjson_reads env (0x7B,
    ubjson_size_head uc t (length xs) @ concat (map (member_bytes t) xs) @ (if uc then [] else [0x7D]),
    JObject (map member xs))"
proof (cases uc)
  case True
  have t: "t \<noteq> Some 0" using assms(1,2) by (auto simp: ubjson_reads_def neq_Nil_conv)
  have "length xs \<noteq> size_max" using assms(3) by (simp add: size_max_def)
  then have "ubjson_value env (Some 0x7B)
      (ubjson_size_head True t (length xs) @ concat (map (member_bytes t) xs) @ r) = Inr (JObject (map member xs), r)" for r
    using get_ubjson_size_type_written [OF assms(3) t(1), of "concat (map (member_bytes t) xs) @ r"]
      ubjson_reads_members [OF assms(1), of "[]" r] assms(4,5)
    by (auto simp: ubjson_value.simps [of _ "Some 0x7B"])
  with True show ?thesis by (simp add: ubjson_reads_def)
next
  case False
  with assms have t: "t = None" by auto
  have "\<exists>c w. concat (map (member_bytes None) xs) @ 0x7D # r = c # w \<and> c \<noteq> 0x23 \<and> c \<noteq> 0x24 \<and> c \<noteq> 0x4E" for r
  proof (cases xs)
    case (Cons x ys)
    then have "length (fst x) < 2 ^ 63" using assms(1) by simp
    then show ?thesis using ubjson_unsigned_prefix_range [of "length (fst x)"] Cons
      by (auto simp: member_bytes_def ubjson_unsigned_True)
  qed simp
  then have "get_ubjson_size_type (concat (map (member_bytes None) xs) @ 0x7D # r) =
      Inr (size_max, 0, fst (get_ignore_noop (concat (map (member_bytes None) xs) @ 0x7D # r)),
        snd (get_ignore_noop (concat (map (member_bytes None) xs) @ 0x7D # r)))" for r
    using get_ubjson_size_type_open get_ignore_noop_other by (metis fst_conv snd_conv)
  with t False ubjson_reads_open_members [of xs env "[]"] assms(1,5) show ?thesis
    by (simp add: ubjson_reads_def ubjson_value.simps [of _ "Some 0x7B"] ubjson_size_head_def case_prod_beta)
qed

section \<open>Whole values\<close>

text \<open>
  What comes back: a number takes the type of the letter it is written with, and binary data become
  an array of numbers, because the format has no binary type.
\<close>

fun ubjson_form :: "'f json \<Rightarrow> 'f json" where
  "ubjson_form (JInteger i) = (if 128 \<le> i \<and> i \<le> 255 then JUnsigned (nat i) else JInteger i)"
| "ubjson_form (JUnsigned n) =
     (if 128 \<le> n \<and> n \<le> 255 \<or> 9223372036854775807 < n then JUnsigned n else JInteger (int n))"
| "ubjson_form (JBinary bs st) = JArray (map JUnsigned bs)"
| "ubjson_form (JArray vs) = JArray (map ubjson_form vs)"
| "ubjson_form (JObject m) = JObject (map (\<lambda>(k, v). (k, ubjson_form v)) m)"
| "ubjson_form v = v"

fun ubjson_ok :: "'f float_codec \<Rightarrow> limits \<Rightarrow> 'f json \<Rightarrow> bool" where
  "ubjson_ok fc lim (JInteger i) \<longleftrightarrow> - (2 ^ 63) \<le> i \<and> i < 2 ^ 63"
| "ubjson_ok fc lim (JUnsigned n) \<longleftrightarrow> n < 2 ^ 64"
| "ubjson_ok fc lim (JFloat f) \<longleftrightarrow> codec_ok fc f"
| "ubjson_ok fc lim (JString s) \<longleftrightarrow> length s < 2 ^ 63"
| "ubjson_ok fc lim (JBinary bs st) \<longleftrightarrow>
     (\<forall>b \<in> set bs. b < 256) \<and> length bs < 2 ^ 63 \<and> length bs \<le> max_array lim"
| "ubjson_ok fc lim (JArray vs) \<longleftrightarrow>
     length vs < 2 ^ 63 \<and> length vs \<le> max_array lim \<and> (\<forall>v \<in> set vs. ubjson_ok fc lim v)"
| "ubjson_ok fc lim (JObject m) \<longleftrightarrow>
     map_ok m \<and> length m < 2 ^ 63 \<and> length m \<le> max_object lim \<and>
     (\<forall>(k, v) \<in> set m. length k < 2 ^ 63 \<and> ubjson_ok fc lim v)"
| "ubjson_ok fc lim JDiscarded \<longleftrightarrow> False"
| "ubjson_ok fc lim _ \<longleftrightarrow> True"

text \<open>The prefix is separate from the rest: \<open>add_prefix\<close> only adds \<open>ubjson_prefix\<close> in front.\<close>

lemma write_ubjson_prefix:
  "ubjson_ok fc lim j \<Longrightarrow> write_ubjson fc uc ut True j = ubjson_prefix j # write_ubjson fc uc ut False j"
  by (cases j) (simp_all add: Let_def ubjson_unsigned_def ubjson_signed_def)

lemma ubjson_reads_leaf:
  assumes "p \<notin> {0, 0x23, 0x24, 0x4E, 0x5D, 0x7D, 0x5B, 0x7B}" and "\<And>r. ubjson_leaf env p (w @ r) = Inr (v, r)"
  shows "ubjson_reads env (p, w, v)"
  using assms by (simp add: ubjson_reads_def ubjson_value.simps)

lemma ubjson_leaf_int:
  assumes "ubjson_int p w = Some (Inr (i, r))"
  shows "ubjson_leaf env p w = Inr (if p = 0x55 then JUnsigned (nat i) else JInteger i, r)"
  using assms by (auto simp: ubjson_leaf_def ubjson_int_def split: if_splits)

lemma ubjson_int_signed:
  assumes "- (2 ^ 63) \<le> i" and "i < 2 ^ 63"
  shows "ubjson_int (ubjson_signed_prefix i) (ubjson_signed i False @ r) = Some (Inr (i, r))"
  using assms get_number_be [of "nat i" 1 r] get_signed_bytes [of 1 i r] get_signed_bytes [of 2 i r]
    get_signed_bytes [of 4 i r] get_signed_bytes [of 8 i r]
  by (auto simp: ubjson_int_def ubjson_signed_prefix_def ubjson_signed_def)

lemma ubjson_signed_prefix_range:
  "- (2 ^ 63) \<le> i \<Longrightarrow> i < 2 ^ 63 \<Longrightarrow>
    ubjson_signed_prefix i \<in> {0x69, 0x55, 0x49, 0x6C, 0x4C} \<and>
    (ubjson_signed_prefix i = 0x55 \<longleftrightarrow> 128 \<le> i \<and> i \<le> 255)"
  by (auto simp: ubjson_signed_prefix_def)

lemma ubjson_integer_reads:
  assumes "- (2 ^ 63) \<le> i" and "i < 2 ^ 63"
  shows "ubjson_reads env (ubjson_signed_prefix i, ubjson_signed i False, ubjson_form (JInteger i))"
proof (rule ubjson_reads_leaf)
  show "ubjson_leaf env (ubjson_signed_prefix i) (ubjson_signed i False @ r) = Inr (ubjson_form (JInteger i), r)" for r
    using ubjson_leaf_int [OF ubjson_int_signed [OF assms]] ubjson_signed_prefix_range [OF assms] by auto
qed (use ubjson_signed_prefix_range [OF assms] in auto)

lemma ubjson_number_text_digits:
  assumes "n < 2 ^ 64" shows "ubjson_number_text env (nat_digits n) = Inr (JUnsigned n)"
proof -
  have "scan_first (strtod env) (nat_digits n) = (Tok_unsigned n, [])"
  proof -
    have "byte (hd (nat_digits n)) < 128" by (rule nat_digits_hd)
    then have "skip_bom (nat_digits n) = Some (nat_digits n)"
      by (cases "nat_digits n") (simp_all add: skip_bom_def)
    moreover have "delim []" by (simp add: delim_def)
    ultimately show ?thesis using scan_unsigned [of "[]" n "strtod env"] assms by (simp add: scan_first_def)
  qed
  then show ?thesis by (simp add: ubjson_number_text_def scan_def skip_whitespace_def)
qed

lemma nat_digits_length: "0 < k \<Longrightarrow> n < 10 ^ k \<Longrightarrow> length (nat_digits n) \<le> k"
proof (induction n arbitrary: k rule: nat_digits.induct)
  case (1 n)
  show ?case
  proof (cases "n < 10")
    case True
    with 1(2) show ?thesis by (simp add: nat_digits.simps [of n])
  next
    case False
    from 1(2) obtain l where "k = Suc l" by (cases k) auto
    with 1(3) False have k: "k = Suc l" "0 < l" by (cases l; simp)+
    have "n div 10 < 10 ^ l" using 1(3) k by (simp add: less_mult_imp_div_less)
    from 1(1) [OF False k(2) this] show ?thesis using False k by (simp add: nat_digits.simps [of n])
  qed
qed

lemma ubjson_unsigned_reads:
  assumes "n < 2 ^ 64"
  shows "ubjson_reads env (ubjson_unsigned_prefix n, ubjson_unsigned n False, ubjson_form (JUnsigned n))"
proof (cases "n < 2 ^ 63")
  case True
  show ?thesis
  proof (rule ubjson_reads_leaf)
    show "ubjson_leaf env (ubjson_unsigned_prefix n) (ubjson_unsigned n False @ r) = Inr (ubjson_form (JUnsigned n), r)" for r
      using ubjson_leaf_int [OF ubjson_int_unsigned [OF True]] True
      by (auto simp: ubjson_unsigned_def ubjson_unsigned_prefix_def split: if_splits)
  qed (use ubjson_unsigned_prefix_range [of n] in auto)
next
  case False
  let ?d = "nat_digits n"
  have "length ?d \<le> 20" by (rule nat_digits_length) (use assms in simp_all)
  then have l: "length ?d < 2 ^ 63" by simp
  have p: "ubjson_unsigned_prefix n = 0x48" using False by (simp add: ubjson_unsigned_prefix_def)
  have "get_ubjson_high_precision_number env (ubjson_unsigned n False @ r) = Inr (JUnsigned n, r)" for r
  proof -
    obtain c where "get_ubjson_size_value (ubjson_unsigned (length ?d) True @ map byte ?d @ r) =
        Inr (length ?d, c, map byte ?d @ r)"
      using get_ubjson_size_value_written [OF l] by blast
    moreover have "get_bytes (length ?d) (map byte ?d @ r) = Inr (map byte ?d, r)"
      using get_bytes_append [of "map byte ?d" r] by simp
    ultimately show ?thesis
      using False assms ubjson_unsigned_True [OF l]
      by (simp add: ubjson_unsigned_def Let_def get_ubjson_high_precision_number_def comp_def ubjson_number_text_digits)
  qed
  then show ?thesis using False p by (intro ubjson_reads_leaf) (simp_all add: ubjson_leaf_def)
qed

lemma ubjson_float_reads:
  "codec_ok (ub_codec env) f \<Longrightarrow> ubjson_reads env (0x44, be_bytes 8 (double_bits (ub_codec env) f), JFloat f)"
  using get_number_be [of "double_bits (ub_codec env) f" 8]
  by (intro ubjson_reads_leaf) (simp_all add: ubjson_leaf_def codec_ok_def)

lemma ubjson_string_reads:
  "length s < 2 ^ 63 \<Longrightarrow> ubjson_reads env (0x53, ubjson_unsigned (length s) True @ map byte s, JString s)"
  using get_ubjson_string_written [of s] by (intro ubjson_reads_leaf) (simp_all add: ubjson_leaf_def)

lemma ubjson_word_reads:
  "ubjson_reads env (0x5A, [], JNull)" "ubjson_reads env (0x54, [], JBoolean True)"
  "ubjson_reads env (0x46, [], JBoolean False)"
  by (auto intro!: ubjson_reads_leaf simp: ubjson_leaf_def)

lemma ubjson_byte_reads: "b < 256 \<Longrightarrow> ubjson_reads env (0x55, [b], JUnsigned b)"
  by (intro ubjson_reads_leaf) (simp_all add: ubjson_leaf_def ubjson_int_def)

text \<open>The triple of a value, and what the writer makes of elements and members.\<close>

definition ubjson_triple :: "'f float_codec \<Rightarrow> bool \<Rightarrow> bool \<Rightarrow> 'f json \<Rightarrow> nat \<times> nat list \<times> 'f json" where
  "ubjson_triple fc uc ut v = (ubjson_prefix v, write_ubjson fc uc ut False v, ubjson_form v)"

lemma write_elements_triples:
  assumes "\<forall>v \<in> set vs. ubjson_ok fc lim v"
  shows "write_ubjson_elements fc uc ut (t = None) vs =
    concat (map (element_bytes t) (map (ubjson_triple fc uc ut) vs))"
  using assms
  by (induction vs) (auto simp: element_bytes_def ubjson_triple_def write_ubjson_prefix split: option.splits)

lemma write_members_triples:
  assumes "\<forall>(k, v) \<in> set m. ubjson_ok fc lim v"
  shows "write_ubjson_members fc uc ut (t = None) m =
    concat (map (member_bytes t) (map (\<lambda>(k, v). (k, ubjson_triple fc uc ut v)) m))"
  using assms
  by (induction m) (auto simp: member_bytes_def element_bytes_def ubjson_triple_def write_ubjson_prefix
      split: option.splits)

lemma same_prefix_all: "same_prefix ut ps = Some p \<Longrightarrow> ut \<and> ps \<noteq> [] \<and> (\<forall>q \<in> set ps. q = p)"
  by (cases ps) (auto simp: list_all_iff split: if_splits)

lemma write_ubjson_reads:
  assumes "ut \<longrightarrow> uc"
  shows "ubjson_ok (ub_codec env) (ub_limit env) j \<Longrightarrow>
    ubjson_reads env (ubjson_triple (ub_codec env) uc ut j)"
proof (induction j)
  case (JInteger i)
  then show ?case using ubjson_integer_reads [of i env] by (simp add: ubjson_triple_def del: ubjson_form.simps)
next
  case (JUnsigned n)
  then show ?case using ubjson_unsigned_reads [of n env] by (simp add: ubjson_triple_def del: ubjson_form.simps)
next
  case (JObject m)
  let ?fc = "ub_codec env"
  let ?xs = "map (\<lambda>(k, v). (k, ubjson_triple ?fc uc ut v)) m"
  let ?t = "same_prefix ut (map (\<lambda>(k, v). ubjson_prefix v) m)"
  have "\<forall>x \<in> set ?xs. length (fst x) < 2 ^ 63 \<and> ubjson_reads env (snd x) \<and> (?t = None \<or> ?t = Some (letter (snd x)))"
  proof
    fix x
    assume "x \<in> set ?xs"
    then obtain k v where x: "x = (k, ubjson_triple ?fc uc ut v)" and kv: "(k, v) \<in> set m" by auto
    have "ubjson_reads env (snd x)" and "length k < 2 ^ 63"
      using JObject.IH [of "(k, v)" v] JObject(2) kv x by fastforce+
    moreover have "?t = None \<or> ?t = Some (ubjson_prefix v)"
      using same_prefix_all [of ut "map (\<lambda>(k, v). ubjson_prefix v) m"] kv by (cases ?t) force+
    ultimately show "length (fst x) < 2 ^ 63 \<and> ubjson_reads env (snd x) \<and> (?t = None \<or> ?t = Some (letter (snd x)))"
      using x by (simp add: ubjson_triple_def)
  qed
  moreover have "?t \<noteq> None \<longrightarrow> ?xs \<noteq> [] \<and> uc" using same_prefix_all assms by fastforce
  moreover have "length ?xs < 2 ^ 63" "length ?xs \<le> max_object (ub_limit env)" using JObject(2) by simp_all
  moreover have form: "map member ?xs = map (\<lambda>(k, v). (k, ubjson_form v)) m"
    by (auto simp: member_def ubjson_triple_def)
  moreover have "map_ok (map member ?xs)" using JObject(2) unfolding form by (simp add: comp_def case_prod_beta)
  ultimately have "ubjson_reads env (0x7B,
      ubjson_size_head uc ?t (length ?xs) @ concat (map (member_bytes ?t) ?xs) @ (if uc then [] else [0x7D]),
      JObject (map member ?xs))"
    by (intro ubjson_reads_object)
  moreover have "write_ubjson_members ?fc uc ut (?t = None) m = concat (map (member_bytes ?t) ?xs)"
    by (rule write_members_triples) (use JObject(2) in fastforce)
  ultimately show ?case
    unfolding form
    by (simp add: ubjson_triple_def [of _ _ _ "JObject m"] Let_def del: map_map split del: if_split)
next
  case (JArray vs)
  let ?fc = "ub_codec env"
  let ?xs = "map (ubjson_triple ?fc uc ut) vs"
  let ?t = "same_prefix ut (map ubjson_prefix vs)"
  have "\<forall>x \<in> set ?xs. ubjson_reads env x \<and> (?t = None \<or> ?t = Some (letter x))"
    using JArray same_prefix_all [of ut "map ubjson_prefix vs"] by (cases ?t) (auto simp: ubjson_triple_def)
  moreover have "?t \<noteq> None \<longrightarrow> ?xs \<noteq> [] \<and> uc" using same_prefix_all assms by fastforce
  moreover have "length ?xs < 2 ^ 63" "length ?xs \<le> max_array (ub_limit env)" using JArray(2) by simp_all
  ultimately have "ubjson_reads env (0x5B,
      ubjson_size_head uc ?t (length ?xs) @ concat (map (element_bytes ?t) ?xs) @ (if uc then [] else [0x5D]),
      JArray (map meaning ?xs))"
    by (rule ubjson_reads_array)
  moreover have "map meaning ?xs = map ubjson_form vs" by (simp add: ubjson_triple_def)
  moreover have "write_ubjson_elements ?fc uc ut (?t = None) vs = concat (map (element_bytes ?t) ?xs)"
    by (rule write_elements_triples) (use JArray(2) in auto)
  ultimately show ?case
    by (simp add: ubjson_triple_def [of _ _ _ "JArray vs"] Let_def del: map_map split del: if_split)
next
  case (JBinary bs st)
  let ?xs = "map (\<lambda>b. (0x55 :: nat, [b], JUnsigned b :: 'a json)) bs"
  let ?t = "if ut \<and> bs \<noteq> [] then Some (0x55 :: nat) else None"
  have "\<forall>x \<in> set ?xs. ubjson_reads env x \<and> (?t = None \<or> ?t = Some (letter x))"
    using JBinary ubjson_byte_reads [of _ env] by auto
  moreover have "?t \<noteq> None \<longrightarrow> ?xs \<noteq> [] \<and> uc" using assms by auto
  moreover have "length ?xs < 2 ^ 63" "length ?xs \<le> max_array (ub_limit env)" using JBinary by simp_all
  ultimately have "ubjson_reads env (0x5B,
      ubjson_size_head uc ?t (length ?xs) @ concat (map (element_bytes ?t) ?xs) @ (if uc then [] else [0x5D]),
      JArray (map meaning ?xs))"
    by (rule ubjson_reads_array)
  moreover have "concat (map (element_bytes ?t) ?xs) = (if ut then bs else concat (map (\<lambda>b. [0x55, b]) bs))"
    by (cases ut) (auto simp: element_bytes_def comp_def)
  ultimately show ?case by (simp add: ubjson_triple_def comp_def)
qed (auto simp: ubjson_triple_def intro: ubjson_float_reads ubjson_string_reads ubjson_word_reads)

lemma from_ubjson_write:
  assumes "ubjson_ok (ub_codec env) (ub_limit env) j" and "ut \<longrightarrow> uc"
  shows "from_ubjson env strict (replicate k 0x4E @ to_ubjson (ub_codec env) uc ut j @ replicate l 0x4E) =
    Inr (ubjson_form j)"
proof -
  let ?p = "ubjson_prefix j" and ?w = "write_ubjson (ub_codec env) uc ut False j"
  have r: "ubjson_reads env (?p, ?w, ubjson_form j)"
    using write_ubjson_reads [OF assms(2,1)] by (simp add: ubjson_triple_def)
  have noop: "dropWhile (\<lambda>b. b = 0x4E) (replicate n 0x4E @ xs) = dropWhile (\<lambda>b. b = 0x4E) xs" for n and xs :: "nat list"
    by (induction n) simp_all
  have "get_ignore_noop (replicate k 0x4E @ ?p # ?w @ replicate l 0x4E) = (Some ?p, ?w @ replicate l 0x4E)"
    using r by (simp add: get_ignore_noop_def noop ubjson_reads_def)
  moreover have "fst (get_ignore_noop (replicate l 0x4E)) = None"
    using noop [of l "[]"] by (simp add: get_ignore_noop_def)
  ultimately show ?thesis
    using r assms(1) by (simp add: from_ubjson_def to_ubjson_def write_ubjson_prefix ubjson_reads_def)
qed

end
