(* ===== verification/Ubjson_Claims.thy ===== *)
theory Ubjson_Claims
  imports Ubjson_Roundtrip Binary_Claims
begin

text \<open>The properties of the UBJSON reader and writer.\<close>

definition ubjson_sample_env :: "nat ubjson_env" where
  "ubjson_sample_env = \<lparr>ub_codec = bit_codec, ub_limit = sample_limits, strtod = \<lambda>_. None\<rparr>"

definition ubjson_sample :: "nat json" where
  "ubjson_sample =
     JObject [(''a'', JArray [JUnsigned 7, JInteger 7]), (''b'', JBinary [1, 200] None),
       (''c'', JUnsigned (2 ^ 64 - 1))]"

text \<open>
  C22: Whatever value is written as UBJSON is read back, with and without announced sizes and types, also
  when no-op bytes stand before and after it. Numbers take the type of the letter they were written
  with (a number from 128 to 255 and one beyond \<open>int64_t\<close> becomes unsigned, every other one signed),
  and binary data come back as an array of numbers. The hypotheses bound numbers and sizes by
  their types, and ask for \<open>use_size\<close> when there is \<open>use_type\<close>, as the documentation does.
\<close>

theorem ubjson_roundtrip:
  assumes "ubjson_ok (ub_codec env) (ub_limit env) j" and "use_type \<longrightarrow> use_size"
  shows "from_ubjson env strict
      (replicate k 0x4E @ to_ubjson (ub_codec env) use_size use_type j @ replicate l 0x4E) = Inr (ubjson_form j)"
  using assms by (rule from_ubjson_write)

theorem ubjson_roundtrip_witness:
  "from_ubjson ubjson_sample_env True
      (replicate 1 0x4E @ to_ubjson (ub_codec ubjson_sample_env) True True ubjson_sample @ replicate 2 0x4E) =
    Inr (ubjson_form ubjson_sample)"
  by (rule ubjson_roundtrip) (simp_all add: ubjson_sample_def ubjson_sample_env_def sample_limits_def)

text \<open>
  C40: Announced types make the size of the value independent of the size of the input: nine bytes are
  an array of any number of nulls up to 2^31-1 (and with eight bytes for the number, up to the limit of
  a vector).
\<close>

theorem ubjson_amplification:
  assumes "n < 2 ^ 31" and "n \<le> max_array (ub_limit env)"
  shows "from_ubjson env strict ([0x5B, 0x24, 0x5A, 0x23, 0x6C] @ be_bytes 4 n) = Inr (JArray (replicate n JNull))"
proof -
  have items: "ubjson_items env 0x5A k [] = Inr (replicate k JNull, [])" for k
    by (induction k) (simp_all add: ubjson_items.simps [of _ _ "Suc _"] ubjson_items.simps [of _ _ 0]
        ubjson_start_def ubjson_value.simps ubjson_leaf_def)
  have "ubjson_int 0x6C (be_bytes 4 n) = Some (Inr (int n, []))"
    using get_signed_be [of n 4 "[]"] assms(1) by (simp add: ubjson_int_def)
  moreover have "nat (int n mod 2 ^ 64) = n" using assms by (simp add: nat_mod_as_int flip: of_nat_mod)
  moreover have "n \<noteq> size_max" using assms by (simp add: size_max_def)
  ultimately show ?thesis
    using assms items
    by (simp add: from_ubjson_def get_ignore_noop_def ubjson_value.simps [of _ "Some 0x5B"]
        get_ubjson_size_type_def get_ubjson_size_value_def)
qed

theorem ubjson_amplification_witness:
  "from_ubjson ubjson_sample_env True ([0x5B, 0x24, 0x5A, 0x23, 0x6C] @ be_bytes 4 1000000) =
    Inr (JArray (replicate 1000000 JNull))"
  by (rule ubjson_amplification) (simp_all add: ubjson_sample_env_def sample_limits_def)

text \<open>
  Sizes below zero are not refused as such. The size -1 counts as no size at all, and as the reader then takes
  the last byte of the number for the first byte of an element, an array ends in the error of an
  invalid byte and an object in that of a missing key, whatever follows; any other negative size is a
  huge one. A string of a negative length is empty.
\<close>

theorem ubjson_negative_size:
  assumes "max_array (ub_limit env) < 2 ^ 64 - 128" and "128 \<le> b" and "b < 256"
  shows "from_ubjson env strict ([0x5B, 0x23, 0x69, b] @ rest) =
      Inl (if b = 255 then Parse_error 112 else Out_of_range 408) \<and>
    from_ubjson env strict ([0x7B, 0x23, 0x69, 0xFF] @ rest) = Inl (Parse_error 113) \<and>
    from_ubjson env False ([0x53, 0x69, b] @ rest) = Inr (JString [])"
proof -
  have w: "wrap_signed 8 (int b) = int b - 256"
  proof -
    have "(int b + 128) mod 256 = (int b + 128 - 256) mod 256" by (simp only: minus_mod_self2)
    also have "\<dots> = int b - 128" using assms by simp
    finally show ?thesis by (simp add: wrap_signed_def)
  qed
  have m: "(int b - 256) mod 2 ^ 64 = int b - 256 + 2 ^ 64"
  proof -
    have "(int b - 256) mod 2 ^ 64 = (int b - 256 + 2 ^ 64) mod 2 ^ 64" by (simp only: mod_add_self2)
    also have "\<dots> = int b - 256 + 2 ^ 64" using assms by (intro mod_pos_pos_trivial) auto
    finally show ?thesis .
  qed
  have i: "ubjson_int 0x69 (b # rest) = Some (Inr (int b - 256, rest))"
    by (simp add: ubjson_int_def get_signed_def w)
  have v: "get_ubjson_size_value (0x69 # b # rest) = Inr (nat (int b - 256 + 2 ^ 64), Some b, rest)"
    using m by (simp add: get_ubjson_size_value_def get_ignore_noop_other i)
  then have t: "get_ubjson_size_type (0x23 # 0x69 # b # rest) = Inr (nat (int b - 256 + 2 ^ 64), 0, Some b, rest)"
    by (simp add: get_ubjson_size_type_def get_ignore_noop_other)
  have "from_ubjson env strict ([0x5B, 0x23, 0x69, b] @ rest) =
      Inl (if b = 255 then Parse_error 112 else Out_of_range 408)"
    using t assms
    by (auto simp: from_ubjson_def get_ignore_noop_other ubjson_value.simps size_max_def
        ubjson_open_items.simps ubjson_leaf_def ubjson_int_def)
  moreover have "from_ubjson env False ([0x53, 0x69, b] @ rest) = Inr (JString [])"
    using i assms(3)
    by (simp add: from_ubjson_def get_ignore_noop_other ubjson_value.simps ubjson_leaf_def get_ubjson_string_def)
  moreover have "from_ubjson env strict ([0x7B, 0x23, 0x69, 0xFF] @ rest) = Inl (Parse_error 113)"
  proof -
    have "ubjson_int 0x69 (0xFF # rest) = Some (Inr (- 1, rest))"
      by (simp add: ubjson_int_def get_signed_def wrap_signed_def)
    then have "get_ubjson_size_value (0x69 # 0xFF # rest) = Inr (size_max, Some 0xFF, rest)"
      by (simp add: get_ubjson_size_value_def get_ignore_noop_other size_max_def)
    then have "get_ubjson_size_type (0x23 # 0x69 # 0xFF # rest) = Inr (size_max, 0, Some 0xFF, rest)"
      by (simp add: get_ubjson_size_type_def get_ignore_noop_other)
    then show ?thesis
      by (simp add: from_ubjson_def get_ignore_noop_other ubjson_value.simps ubjson_open_members.simps
          get_ubjson_string_def ubjson_int_def)
  qed
  ultimately show ?thesis by simp
qed

theorem ubjson_negative_size_witness:
  "from_ubjson ubjson_sample_env True ([0x5B, 0x23, 0x69, 0x80] @ []) =
      Inl (if (0x80 :: nat) = 255 then Parse_error 112 else Out_of_range 408) \<and>
    from_ubjson ubjson_sample_env True ([0x7B, 0x23, 0x69, 0xFF] @ []) = Inl (Parse_error 113) \<and>
    from_ubjson ubjson_sample_env False ([0x53, 0x69, 0x80] @ []) = Inr (JString [])"
  by (rule ubjson_negative_size) (simp_all add: ubjson_sample_env_def sample_limits_def)

text \<open>
  A high-precision number that is too large for a \<open>double\<close> is accepted as an infinity, where the
  JSON parser throws, and text after a zero byte is not looked at.
\<close>

theorem ubjson_number_overflow:
  assumes "strtod env ''1e999'' = None"
  shows "ubjson_number_text env ''1e999'' = Inr (JFloat (infinity (ub_codec env))) \<and>
    json_parse (strtod env) ''1e999'' = Inl (Out_of_range 406) \<and>
    ubjson_number_text env (''7'' @ chr 0 # s) = Inr (JUnsigned 7)"
proof -
  have "scan_first (strtod env) ''1e999'' = (Tok_float None, [])"
    using assms
    by (simp add: scan_first_def skip_bom_def scan_def skip_whitespace_def scan_number_def byte_def is_digit_def
        is_exp_def number_done_def)
  moreover have "scan_first (strtod env) (''7'' @ chr 0 # s) = (Tok_unsigned 7, chr 0 # s)"
  proof -
    have "number_next N_any1 (chr 0) = Done"
      using byte_chr [of 0] by (auto simp: is_digit_def is_exp_def byte_def)
    then show ?thesis
      by (simp add: scan_first_def skip_bom_def scan_def skip_whitespace_def scan_number_def byte_def is_digit_def
          number_done_def digits_nat_def char_digit_def Let_def del: number_next.simps)
  qed
  moreover have "scan (strtod env) (chr 0 # s) = (Tok_end_of_input, s)"
    using byte_chr [of 0] by (auto simp: scan_def skip_whitespace_def byte_def is_digit_def)
  moreover have "scan (strtod env) [] = (Tok_end_of_input, [])" by (simp add: scan_def skip_whitespace_def)
  ultimately show ?thesis
    by (simp add: ubjson_number_text_def overflow_value_def skip_bom_def skip_whitespace_def byte_def json_parse_def)
qed

theorem ubjson_number_overflow_witness:
  "ubjson_number_text ubjson_sample_env ''1e999'' = Inr (JFloat (infinity (ub_codec ubjson_sample_env))) \<and>
    json_parse (strtod ubjson_sample_env) ''1e999'' = Inl (Out_of_range 406) \<and>
    ubjson_number_text ubjson_sample_env (''7'' @ chr 0 # ''x'') = Inr (JUnsigned 7)"
  by (rule ubjson_number_overflow) (simp add: ubjson_sample_env_def)

end
