(* ===== verification/Dtoa.thy ===== *)
theory Dtoa
  imports Prelude "HOL-Library.Signed_Division"
begin

text \<open>
  \<open>namespace dtoa_impl\<close> of \<open>json.hpp\<close>: the Grisu2 algorithm that prints a \<open>double\<close> with few digits. A \<open>double\<close> is the
  word of its bits. Significands are 64-bit words as in the code, the high half of \<open>p1\<close> a 32-bit word;
  exponents are small, so they are integers. A loop without a bound is a partial function, whose
  value \<open>None\<close> would be a loop that does not end. The buffer is the string of the characters
  written so far.
\<close>

unbundle bit_operations_syntax

type_synonym double = "64 word"

record diyfp =
  dsig :: "64 word"
  dexp :: int

definition diyfp_sub :: "diyfp \<Rightarrow> diyfp \<Rightarrow> diyfp" where
  "diyfp_sub x y = \<lparr>dsig = dsig x - dsig y, dexp = dexp x\<rparr>"

definition diyfp_mul :: "diyfp \<Rightarrow> diyfp \<Rightarrow> diyfp" where
  "diyfp_mul x y =
     (let u_lo = dsig x AND 0xFFFFFFFF; u_hi = drop_bit 32 (dsig x);
          v_lo = dsig y AND 0xFFFFFFFF; v_hi = drop_bit 32 (dsig y);
          p0 = u_lo * v_lo; p1 = u_lo * v_hi; p2 = u_hi * v_lo; p3 = u_hi * v_hi;
          p0_hi = drop_bit 32 p0;
          p1_lo = p1 AND 0xFFFFFFFF; p1_hi = drop_bit 32 p1;
          p2_lo = p2 AND 0xFFFFFFFF; p2_hi = drop_bit 32 p2;
          Q = p0_hi + p1_lo + p2_lo;
          Q' = Q + push_bit 31 1;
          h = p3 + p2_hi + p1_hi + drop_bit 32 Q' in
      \<lparr>dsig = h, dexp = dexp x + dexp y + 64\<rparr>)"

partial_function (option) diyfp_normalize :: "diyfp \<Rightarrow> diyfp option" where
  "diyfp_normalize x =
     (if drop_bit 63 (dsig x) = 0
      then diyfp_normalize \<lparr>dsig = push_bit 1 (dsig x), dexp = dexp x - 1\<rparr>
      else Some x)"

definition diyfp_normalize_to :: "diyfp \<Rightarrow> int \<Rightarrow> diyfp" where
  "diyfp_normalize_to x target_exponent =
     \<lparr>dsig = push_bit (nat (dexp x - target_exponent)) (dsig x), dexp = target_exponent\<rparr>"

record boundaries =
  bw :: diyfp
  bminus :: diyfp
  bplus :: diyfp

text \<open>The instance for \<open>double\<close>: \<open>kPrecision\<close> is 53, \<open>max_exponent\<close> 1024.\<close>

definition kBias :: int where "kBias = 1024 - 1 + (53 - 1)"

definition kHiddenBit :: "64 word" where "kHiddenBit = push_bit (53 - 1) 1"

definition compute_boundaries :: "double \<Rightarrow> boundaries option" where
  "compute_boundaries bits =
     (let E = drop_bit (53 - 1) bits;
          F = bits AND (kHiddenBit - 1);
          v = (if E = 0 then \<lparr>dsig = F, dexp = 1 - kBias\<rparr>
               else \<lparr>dsig = F + kHiddenBit, dexp = uint E - kBias\<rparr>);
          lower_boundary_is_closer = (F = 0 \<and> 1 < E);
          m_plus = \<lparr>dsig = 2 * dsig v + 1, dexp = dexp v - 1\<rparr>;
          m_minus = (if lower_boundary_is_closer
                     then \<lparr>dsig = 4 * dsig v - 1, dexp = dexp v - 2\<rparr>
                     else \<lparr>dsig = 2 * dsig v - 1, dexp = dexp v - 1\<rparr>) in
      (case diyfp_normalize m_plus of
         None \<Rightarrow> None
       | Some w_plus \<Rightarrow>
           (case diyfp_normalize v of
              None \<Rightarrow> None
            | Some w \<Rightarrow> Some \<lparr>bw = w, bminus = diyfp_normalize_to m_minus (dexp w_plus), bplus = w_plus\<rparr>)))"

section \<open>Cached powers\<close>

record cached_power =
  cp_f :: "64 word"
  cp_e :: int
  cp_k :: int

definition kCachedPowers :: "(64 word \<times> int \<times> int) list" where
  "kCachedPowers =
    [(0xAB70FE17C79AC6CA, - 1060, - 300), (0xFF77B1FCBEBCDC4F, - 1034, - 292),
     (0xBE5691EF416BD60C, - 1007, - 284), (0x8DD01FAD907FFC3C, - 980, - 276),
     (0xD3515C2831559A83, - 954, - 268), (0x9D71AC8FADA6C9B5, - 927, - 260),
     (0xEA9C227723EE8BCB, - 901, - 252), (0xAECC49914078536D, - 874, - 244),
     (0x823C12795DB6CE57, - 847, - 236), (0xC21094364DFB5637, - 821, - 228),
     (0x9096EA6F3848984F, - 794, - 220), (0xD77485CB25823AC7, - 768, - 212),
     (0xA086CFCD97BF97F4, - 741, - 204), (0xEF340A98172AACE5, - 715, - 196),
     (0xB23867FB2A35B28E, - 688, - 188), (0x84C8D4DFD2C63F3B, - 661, - 180),
     (0xC5DD44271AD3CDBA, - 635, - 172), (0x936B9FCEBB25C996, - 608, - 164),
     (0xDBAC6C247D62A584, - 582, - 156), (0xA3AB66580D5FDAF6, - 555, - 148),
     (0xF3E2F893DEC3F126, - 529, - 140), (0xB5B5ADA8AAFF80B8, - 502, - 132),
     (0x87625F056C7C4A8B, - 475, - 124), (0xC9BCFF6034C13053, - 449, - 116),
     (0x964E858C91BA2655, - 422, - 108), (0xDFF9772470297EBD, - 396, - 100),
     (0xA6DFBD9FB8E5B88F, - 369, - 92), (0xF8A95FCF88747D94, - 343, - 84),
     (0xB94470938FA89BCF, - 316, - 76), (0x8A08F0F8BF0F156B, - 289, - 68),
     (0xCDB02555653131B6, - 263, - 60), (0x993FE2C6D07B7FAC, - 236, - 52),
     (0xE45C10C42A2B3B06, - 210, - 44), (0xAA242499697392D3, - 183, - 36),
     (0xFD87B5F28300CA0E, - 157, - 28), (0xBCE5086492111AEB, - 130, - 20),
     (0x8CBCCC096F5088CC, - 103, - 12), (0xD1B71758E219652C, - 77, - 4),
     (0x9C40000000000000, - 50, 4), (0xE8D4A51000000000, - 24, 12),
     (0xAD78EBC5AC620000, 3, 20), (0x813F3978F8940984, 30, 28),
     (0xC097CE7BC90715B3, 56, 36), (0x8F7E32CE7BEA5C70, 83, 44),
     (0xD5D238A4ABE98068, 109, 52), (0x9F4F2726179A2245, 136, 60),
     (0xED63A231D4C4FB27, 162, 68), (0xB0DE65388CC8ADA8, 189, 76),
     (0x83C7088E1AAB65DB, 216, 84), (0xC45D1DF942711D9A, 242, 92),
     (0x924D692CA61BE758, 269, 100), (0xDA01EE641A708DEA, 295, 108),
     (0xA26DA3999AEF774A, 322, 116), (0xF209787BB47D6B85, 348, 124),
     (0xB454E4A179DD1877, 375, 132), (0x865B86925B9BC5C2, 402, 140),
     (0xC83553C5C8965D3D, 428, 148), (0x952AB45CFA97A0B3, 455, 156),
     (0xDE469FBD99A05FE3, 481, 164), (0xA59BC234DB398C25, 508, 172),
     (0xF6C69A72A3989F5C, 534, 180), (0xB7DCBF5354E9BECE, 561, 188),
     (0x88FCF317F22241E2, 588, 196), (0xCC20CE9BD35C78A5, 614, 204),
     (0x98165AF37B2153DF, 641, 212), (0xE2A0B5DC971F303A, 667, 220),
     (0xA8D9D1535CE3B396, 694, 228), (0xFB9B7CD9A4A7443C, 720, 236),
     (0xBB764C4CA7A44410, 747, 244), (0x8BAB8EEFB6409C1A, 774, 252),
     (0xD01FEF10A657842C, 800, 260), (0x9B10A4E5E9913129, 827, 268),
     (0xE7109BFBA19C0C9D, 853, 276), (0xAC2820D9623BF429, 880, 284),
     (0x80444B5E7AA7CF85, 907, 292), (0xBF21E44003ACDD2D, 933, 300),
     (0x8E679C2F5E44FF8F, 960, 308), (0xD433179D9C8CB841, 986, 316),
     (0x9E19DB92B4E31BA9, 1013, 324)]"

text \<open>The division of \<open>int\<close> truncates.\<close>

definition cached_index :: "int \<Rightarrow> int" where
  "cached_index e =
     (let f = - 60 - e - 1;
          k = (f * 78913) sdiv (2 ^ 18) + (if f > 0 then 1 else 0) in
      (300 + k + (8 - 1)) sdiv 8)"

definition get_cached_power_for_binary_exponent :: "int \<Rightarrow> cached_power" where
  "get_cached_power_for_binary_exponent e =
     (case kCachedPowers ! nat (cached_index e) of (f, ce, k) \<Rightarrow> \<lparr>cp_f = f, cp_e = ce, cp_k = k\<rparr>)"

section \<open>Digits\<close>

definition find_largest_pow10 :: "32 word \<Rightarrow> nat \<times> 32 word" where
  "find_largest_pow10 n =
     (if 1000000000 \<le> n then (10, 1000000000)
      else if 100000000 \<le> n then (9, 100000000)
      else if 10000000 \<le> n then (8, 10000000)
      else if 1000000 \<le> n then (7, 1000000)
      else if 100000 \<le> n then (6, 100000)
      else if 10000 \<le> n then (5, 10000)
      else if 1000 \<le> n then (4, 1000)
      else if 100 \<le> n then (3, 100)
      else if 10 \<le> n then (2, 10)
      else (1, 1))"

text \<open>\<open>buf[len - 1]--\<close>; \<open>static_cast<char>('0' + d)\<close> is \<open>digit_char d\<close>.\<close>

definition decrement_last :: "string \<Rightarrow> string" where
  "decrement_last buf = butlast buf @ [char_of (of_char (last buf) + 255 :: nat)]"

partial_function (option) grisu2_round ::
  "string \<Rightarrow> 64 word \<Rightarrow> 64 word \<Rightarrow> 64 word \<Rightarrow> 64 word \<Rightarrow> string option" where
  "grisu2_round buf dist delta rest ten_k =
     (if rest < dist \<and> ten_k \<le> delta - rest \<and> (rest + ten_k < dist \<or> rest + ten_k - dist < dist - rest)
      then grisu2_round (decrement_last buf) dist delta (rest + ten_k) ten_k
      else Some buf)"

text \<open>
  The digits of the integral part: \<open>n\<close> digits are left. \<open>Inl\<close> is the buffer and its exponent at an early
  return, \<open>Inr\<close> the buffer when all of them have been written.
\<close>

fun integral_digits ::
  "nat \<Rightarrow> string \<Rightarrow> 32 word \<Rightarrow> 32 word \<Rightarrow> nat \<Rightarrow> 64 word \<Rightarrow> 64 word \<Rightarrow> 64 word \<Rightarrow> (string \<times> int + string) option"
where
  "integral_digits 0 buffer p1 pow10 s p2 delta dist = Some (Inr buffer)"
| "integral_digits (Suc n) buffer p1 pow10 s p2 delta dist =
     (let d = p1 div pow10; r = p1 mod pow10;
          buffer' = buffer @ [digit_char (unat d)];
          rest = push_bit s (ucast r) + p2 in
      if rest \<le> delta
      then map_option (\<lambda>b. Inl (b, int n)) (grisu2_round buffer' dist delta rest (push_bit s (ucast pow10)))
      else integral_digits n buffer' r (pow10 div 10) s p2 delta dist)"

partial_function (option) fraction_digits ::
  "string \<Rightarrow> nat \<Rightarrow> nat \<Rightarrow> 64 word \<Rightarrow> 64 word \<Rightarrow> 64 word \<Rightarrow> (string \<times> nat) option" where
  "fraction_digits buffer m s p2 delta dist =
     (let p2' = p2 * 10; d = drop_bit s p2'; r = p2' AND (push_bit s 1 - 1);
          buffer' = buffer @ [digit_char (unat d)];
          delta' = delta * 10; dist' = dist * 10 in
      if r \<le> delta' then map_option (\<lambda>b. (b, m + 1)) (grisu2_round buffer' dist' delta' r (push_bit s 1))
      else fraction_digits buffer' (m + 1) s r delta' dist')"

definition grisu2_digit_gen :: "int \<Rightarrow> diyfp \<Rightarrow> diyfp \<Rightarrow> diyfp \<Rightarrow> (string \<times> int) option" where
  "grisu2_digit_gen decimal_exponent M_minus w M_plus =
     (let delta = dsig (diyfp_sub M_plus M_minus);
          dist = dsig (diyfp_sub M_plus w);
          s = nat (- dexp M_plus);
          one = push_bit s 1 :: 64 word;
          p1 = ucast (drop_bit s (dsig M_plus)) :: 32 word;
          p2 = dsig M_plus AND (one - 1) in
      case find_largest_pow10 p1 of (k, pow10) \<Rightarrow>
        (case integral_digits k [] p1 pow10 s p2 delta dist of
           None \<Rightarrow> None
         | Some (Inl (buffer, n)) \<Rightarrow> Some (buffer, decimal_exponent + n)
         | Some (Inr buffer) \<Rightarrow>
             map_option (\<lambda>(b, m). (b, decimal_exponent - int m)) (fraction_digits buffer 0 s p2 delta dist)))"

definition grisu2_scaled :: "diyfp \<Rightarrow> diyfp \<Rightarrow> diyfp \<Rightarrow> (string \<times> int) option" where
  "grisu2_scaled m_minus v m_plus =
     (let cached = get_cached_power_for_binary_exponent (dexp m_plus);
          c_minus_k = \<lparr>dsig = cp_f cached, dexp = cp_e cached\<rparr>;
          w = diyfp_mul v c_minus_k;
          w_minus = diyfp_mul m_minus c_minus_k;
          w_plus = diyfp_mul m_plus c_minus_k;
          M_minus = \<lparr>dsig = dsig w_minus + 1, dexp = dexp w_minus\<rparr>;
          M_plus = \<lparr>dsig = dsig w_plus - 1, dexp = dexp w_plus\<rparr> in
      grisu2_digit_gen (- cp_k cached) M_minus w M_plus)"

definition grisu2 :: "double \<Rightarrow> (string \<times> int) option" where
  "grisu2 bits =
     (case compute_boundaries bits of
        None \<Rightarrow> None
      | Some b \<Rightarrow> grisu2_scaled (bminus b) (bw b) (bplus b))"

declare diyfp_normalize.simps [code] grisu2_round.simps [code] fraction_digits.simps [code]

section \<open>Text\<close>

definition append_exponent :: "int \<Rightarrow> string" where
  "append_exponent e =
     (let k = nat \<bar>e\<bar> in
      (if e < 0 then ''-'' else ''+'') @
      (if k < 10 then [CHR ''0'', digit_char k]
       else if k < 100 then [digit_char (k div 10), digit_char (k mod 10)]
       else [digit_char (k div 100), digit_char (k mod 100 div 10), digit_char (k mod 100 mod 10)]))"

text \<open>The characters from the start of the buffer to the returned pointer.\<close>

definition format_buffer :: "string \<Rightarrow> int \<Rightarrow> int \<Rightarrow> int \<Rightarrow> string" where
  "format_buffer buf decimal_exponent min_exp max_exp =
     (let k = int (length buf); n = k + decimal_exponent in
      if k \<le> n \<and> n \<le> max_exp then buf @ replicate (nat (n - k)) (CHR ''0'') @ ''.0''
      else if 0 < n \<and> n \<le> max_exp then take (nat n) buf @ ''.'' @ drop (nat n) buf
      else if min_exp < n \<and> n \<le> 0 then ''0.'' @ replicate (nat (- n)) (CHR ''0'') @ buf
      else (if k = 1 then buf else take 1 buf @ ''.'' @ drop 1 buf) @ ''e'' @ append_exponent (n - 1))"

text \<open>The sign bit, and the value without it.\<close>

definition signbit :: "double \<Rightarrow> bool" where
  "signbit x \<longleftrightarrow> bit x 63"

definition magnitude :: "double \<Rightarrow> double" where
  "magnitude x = x AND (push_bit 63 1 - 1)"

definition to_chars :: "double \<Rightarrow> string option" where
  "to_chars value =
     map_option (\<lambda>t. (if signbit value then ''-'' else []) @ t)
       (if magnitude value = 0 then Some ''0.0''
        else
          (case grisu2 (magnitude value) of
             None \<Rightarrow> None
           | Some (buf, decimal_exponent) \<Rightarrow> Some (format_buffer buf decimal_exponent (- 4) 15)))"

definition isfinite :: "double \<Rightarrow> bool" where
  "isfinite x \<longleftrightarrow> magnitude x < push_bit 52 0x7FF"

definition dump_float :: "double \<Rightarrow> string option" where
  "dump_float x = (if \<not> isfinite x then Some ''null'' else to_chars x)"

end
