(* ===== verification/Dtoa_Words.thy ===== *)
theory Dtoa_Words
  imports Complex_Main Dtoa
begin

text \<open>
  The machine arithmetic of Grisu2 as arithmetic of natural numbers: where nothing overflows, and what the
  product, the normalization and the boundaries of a \<open>double\<close> are.
\<close>

section \<open>Words\<close>

lemma unat_bound: "unat (x :: 'a :: len word) < 2 ^ LENGTH('a)"
  by (rule unsigned_less)

lemma unat_ucast_small: "unat x < 2 ^ LENGTH('b) \<Longrightarrow> unat (ucast (x :: 'a :: len word) :: 'b :: len word) = unat x"
  unfolding unsigned_ucast_eq by (simp only: take_bit_nat_eq_self)

lemma unat_add_small: "unat x + unat y < 2 ^ LENGTH('a) \<Longrightarrow> unat (x + y :: 'a :: len word) = unat x + unat y"
  by (simp add: unat_word_ariths)

lemma unat_mult_small: "unat x * unat y < 2 ^ LENGTH('a) \<Longrightarrow> unat (x * y :: 'a :: len word) = unat x * unat y"
  by (simp add: unat_word_ariths)

lemma unat_diff: "y \<le> x \<Longrightarrow> unat (x - y :: 'a :: len word) = unat x - unat y"
  by (simp add: unat_sub_if' word_le_nat_alt)

lemma unat_push_bit_small:
  "unat x * 2 ^ n < 2 ^ LENGTH('a) \<Longrightarrow> unat (push_bit n x :: 'a :: len word) = unat x * 2 ^ n"
  unfolding unsigned_push_bit_eq by (simp only: take_bit_eq_mod push_bit_eq_mult mod_less)

lemma unat_drop_bit: "unat (drop_bit n x :: 'a :: len word) = unat x div 2 ^ n"
  unfolding unat_drop_bit_eq by (simp only: drop_bit_eq_div)

lemma unat_take_bit: "unat (take_bit n x :: 'a :: len word) = unat x mod 2 ^ n"
  unfolding unsigned_take_bit_eq by (simp only: take_bit_eq_mod)

lemma and_low_mask: "x AND (push_bit n 1 - 1) = take_bit n (x :: 'a :: len word)"
  by (simp add: push_bit_of_1 take_bit_eq_mask mask_eq_exp_minus_1)

lemma and_low_32: "x AND 0xFFFFFFFF = take_bit 32 (x :: 'a :: len word)"
  by (simp add: take_bit_eq_mask mask_eq_exp_minus_1)

section \<open>Multiplication\<close>

lemma mul_nat:
  fixes a b c d K H :: nat
  assumes "0 < K"
  shows "((b * K + a) * (d * K + c) + H * K) div (K * K) =
    b * d + (b * c) div K + (a * d) div K + ((a * c) div K + (a * d) mod K + (b * c) mod K + H) div K"
proof -
  define R where "R = (a * c) div K + (a * d) mod K + (b * c) mod K + H"
  define P L A A' B B' where "P = (a * c) div K" and "L = (a * c) mod K" and "A = (a * d) div K"
    and "A' = (a * d) mod K" and "B = (b * c) div K" and "B' = (b * c) mod K"
  have e: "a * c = P * K + L" "a * d = A * K + A'" "b * c = B * K + B'"
    by (simp_all add: P_def L_def A_def A'_def B_def B'_def)
  have R: "R = P + A' + B' + H" by (simp add: R_def P_def A'_def B'_def)
  have "(b * K + a) * (d * K + c) + H * K = b * d * (K * K) + (a * d + b * c) * K + a * c + H * K"
    by (simp add: algebra_simps)
  also have "\<dots> = b * d * (K * K) + ((A * K + A') + (B * K + B')) * K + (P * K + L) + H * K" by (simp only: e)
  also have "\<dots> = (b * d + B + A) * (K * K) + (R * K + L)" by (simp add: R algebra_simps)
  also have "\<dots> = (b * d + (b * c) div K + (a * d) div K) * (K * K) + (R * K + (a * c) mod K)"
    by (simp add: A_def B_def L_def)
  finally have "((b * K + a) * (d * K + c) + H * K) div (K * K) =
      b * d + (b * c) div K + (a * d) div K + (R * K + (a * c) mod K) div (K * K)"
    using assms by simp
  also have "(R * K + (a * c) mod K) div (K * K) = ((R * K + (a * c) mod K) div K) div K"
    by (simp add: div_mult2_eq)
  also have "(R * K + (a * c) mod K) div K = R" using assms by simp
  finally show ?thesis by (simp add: R_def)
qed

lemma diyfp_mul_exp [simp]: "dexp (diyfp_mul x y) = dexp x + dexp y + 64"
  by (simp add: diyfp_mul_def Let_def)

text \<open>The product rounded to its upper 64 bits.\<close>

lemma diyfp_mul_sig: "unat (dsig (diyfp_mul x y)) = (unat (dsig x) * unat (dsig y) + 2 ^ 63) div 2 ^ 64"
proof -
  define u v where "u = unat (dsig x)" and "v = unat (dsig y)"
  have uv: "u < 2 ^ 64" "v < 2 ^ 64" using unat_bound [of "dsig x"] unat_bound [of "dsig y"] by (simp_all add: u_def v_def)
  define a b c d where "a = u mod 2 ^ 32" and "b = u div 2 ^ 32" and "c = v mod 2 ^ 32" and "d = v div 2 ^ 32"
  have lt: "a < 2 ^ 32" "b < 2 ^ 32" "c < 2 ^ 32" "d < 2 ^ 32"
    using uv by (simp_all add: a_def b_def c_def d_def)
  have w: "unat (take_bit 32 (dsig x)) = a" "unat (drop_bit 32 (dsig x)) = b"
    "unat (take_bit 32 (dsig y)) = c" "unat (drop_bit 32 (dsig y)) = d"
    by (simp_all add: unat_take_bit unat_drop_bit a_def b_def c_def d_def u_def v_def)
  have prod: "m * n < 2 ^ 64" if "m < 2 ^ 32" "n < 2 ^ 32" for m n :: nat
    using mult_strict_mono [OF that] by simp
  have p: "unat (take_bit 32 (dsig x) * take_bit 32 (dsig y)) = a * c"
    "unat (take_bit 32 (dsig x) * drop_bit 32 (dsig y)) = a * d"
    "unat (drop_bit 32 (dsig x) * take_bit 32 (dsig y)) = b * c"
    "unat (drop_bit 32 (dsig x) * drop_bit 32 (dsig y)) = b * d"
    using prod lt by (simp_all add: unat_mult_small w)
  define Q where "Q = (a * c) div 2 ^ 32 + (a * d) mod 2 ^ 32 + (b * c) mod 2 ^ 32 + 2 ^ 31"
  have ql: "(a * c) div 2 ^ 32 < 2 ^ 32" using prod [OF lt(1,3)] by (simp add: less_mult_imp_div_less)
  have h: "(u * v + 2 ^ 63) div 2 ^ 64 = b * d + (b * c) div 2 ^ 32 + (a * d) div 2 ^ 32 + Q div 2 ^ 32"
    using mul_nat [of "2 ^ 32" b a d c "2 ^ 31"] by (simp add: a_def b_def c_def d_def Q_def)
  have "(2 ^ 64 - 1) * (2 ^ 64 - 1) + 2 ^ 63 < (2 ^ 64 * 2 ^ 64 :: nat)" by simp
  moreover have "u * v \<le> (2 ^ 64 - 1) * (2 ^ 64 - 1)" using uv by (intro mult_le_mono) simp_all
  ultimately have hl: "(u * v + 2 ^ 63) div 2 ^ 64 < 2 ^ 64" by (intro less_mult_imp_div_less) linarith
  have ml: "(a * d) mod 2 ^ 32 < 2 ^ 32" "(b * c) mod 2 ^ 32 < 2 ^ 32" by simp_all
  let ?p0 = "take_bit 32 (dsig x) * take_bit 32 (dsig y)" and ?p1 = "take_bit 32 (dsig x) * drop_bit 32 (dsig y)"
    and ?p2 = "drop_bit 32 (dsig x) * take_bit 32 (dsig y)" and ?p3 = "drop_bit 32 (dsig x) * drop_bit 32 (dsig y)"
  have parts: "unat (drop_bit 32 ?p0) = (a * c) div 2 ^ 32" "unat (take_bit 32 ?p1) = (a * d) mod 2 ^ 32"
    "unat (take_bit 32 ?p2) = (b * c) mod 2 ^ 32" "unat (drop_bit 32 ?p1) = (a * d) div 2 ^ 32"
    "unat (drop_bit 32 ?p2) = (b * c) div 2 ^ 32" "unat (2147483648 :: 64 word) = 2 ^ 31"
    by (simp_all only: unat_take_bit unat_drop_bit p) simp
  have q1: "unat (drop_bit 32 ?p0 + take_bit 32 ?p1) = (a * c) div 2 ^ 32 + (a * d) mod 2 ^ 32"
    using ql ml by (subst unat_add_small) (simp_all add: parts)
  have q2: "unat (drop_bit 32 ?p0 + take_bit 32 ?p1 + take_bit 32 ?p2) =
      (a * c) div 2 ^ 32 + (a * d) mod 2 ^ 32 + (b * c) mod 2 ^ 32"
    using ql ml by (subst unat_add_small) (simp_all add: q1 parts)
  have q: "unat (drop_bit 32 ?p0 + take_bit 32 ?p1 + take_bit 32 ?p2 + 2147483648) = Q"
    using ql ml by (subst unat_add_small) (simp_all add: q2 parts Q_def)
  have h1: "unat (?p3 + drop_bit 32 ?p2) = b * d + (b * c) div 2 ^ 32"
    using h hl by (subst unat_add_small) (simp_all add: p parts)
  have h2: "unat (?p3 + drop_bit 32 ?p2 + drop_bit 32 ?p1) = b * d + (b * c) div 2 ^ 32 + (a * d) div 2 ^ 32"
    using h hl by (subst unat_add_small) (simp_all add: h1 parts)
  have "unat (?p3 + drop_bit 32 ?p2 + drop_bit 32 ?p1 +
      drop_bit 32 (drop_bit 32 ?p0 + take_bit 32 ?p1 + take_bit 32 ?p2 + 2147483648)) = (u * v + 2 ^ 63) div 2 ^ 64"
    using h hl by (subst unat_add_small) (simp_all add: h2 q unat_drop_bit)
  then show ?thesis by (simp add: diyfp_mul_def Let_def and_low_32 u_def v_def)
qed

section \<open>Normalization\<close>

lemma normalize_eq:
  "2 ^ 63 \<le> unat f * 2 ^ j \<Longrightarrow> unat f * 2 ^ j < 2 ^ 64 \<Longrightarrow>
    diyfp_normalize \<lparr>dsig = f, dexp = e\<rparr> = Some \<lparr>dsig = push_bit j f, dexp = e - int j\<rparr>"
proof (induction j arbitrary: f e)
  case 0
  then have "unat (drop_bit 63 f) \<noteq> 0" by (simp add: unat_drop_bit)
  then have "drop_bit 63 f \<noteq> 0" by (metis unat_0)
  then show ?case by (subst diyfp_normalize.simps) simp
next
  case (Suc j)
  have "unat f * 2 * 2 ^ j < 2 ^ 64" using Suc.prems(2) by (simp add: mult_ac)
  moreover have "unat f * 2 * 1 \<le> unat f * 2 * 2 ^ j" by (intro mult_le_mono) simp_all
  ultimately have "unat f * 2 < 2 ^ 64" by linarith
  then have d: "unat (push_bit 1 f) = unat f * 2" "unat (drop_bit 63 f) = 0"
    by (simp_all add: unat_push_bit_small [of f 1, simplified] unat_drop_bit)
  then have "drop_bit 63 f = 0" by (simp only: unat_eq_0)
  moreover have "diyfp_normalize \<lparr>dsig = push_bit 1 f, dexp = e - 1\<rparr> =
      Some \<lparr>dsig = push_bit j (push_bit 1 f), dexp = e - 1 - int j\<rparr>"
    using Suc.prems by (intro Suc.IH) (simp_all only: d(1) power_Suc mult_ac)
  ultimately show ?case by (subst diyfp_normalize.simps) (simp add: push_bit_push_bit)
qed

lemma normalizing_shift:
  assumes "0 < (f :: nat)" and "f < 2 ^ 64"
  obtains j where "2 ^ 63 \<le> f * 2 ^ j" and "f * 2 ^ j < 2 ^ 64" and "j < 64"
proof -
  have "\<exists>j. 2 ^ 63 \<le> f * 2 ^ j" using assms(1) by (intro exI [of _ 63]) simp
  then obtain j where j: "2 ^ 63 \<le> f * 2 ^ j" "\<And>i. i < j \<Longrightarrow> \<not> 2 ^ 63 \<le> f * 2 ^ i"
    using exists_least_iff [of "\<lambda>j. 2 ^ 63 \<le> f * 2 ^ j"] by auto
  have "f * 2 ^ j < 2 ^ 64"
  proof (cases j)
    case 0
    then show ?thesis using assms(2) by simp
  next
    case (Suc i)
    then have "f * 2 ^ i < 2 ^ 63" using j(2) [of i] by simp
    then show ?thesis using Suc by simp
  qed
  moreover have "j < 64"
  proof (rule ccontr)
    assume "\<not> j < 64"
    then have "(2 :: nat) ^ 63 \<le> f * 2 ^ 63" "63 < j" using assms(1) by auto
    with j(2) [of 63] show False by simp
  qed
  ultimately show thesis using that j(1) by blast
qed

section \<open>Doubles\<close>

text \<open>
  The value of a \<open>double\<close> by IEEE 754, for the bits without the sign. The numbers next to it have the next bits. The
  formula also gives \<open>2 ^ 1024\<close> for the bits of infinity, which is the bound to which numbers are rounded.
\<close>

definition sig_of :: "nat \<Rightarrow> nat" where
  "sig_of b = (if b div 2 ^ 52 = 0 then b mod 2 ^ 52 else b mod 2 ^ 52 + 2 ^ 52)"

definition exp_of :: "nat \<Rightarrow> int" where
  "exp_of b = int (max 1 (b div 2 ^ 52)) - 1075"

definition double_value :: "nat \<Rightarrow> rat" where
  "double_value b = of_nat (sig_of b) * 2 powi exp_of b"

text \<open>Halfway to the neighbors: every number strictly between these bounds is rounded to the double.\<close>

definition lower_bound :: "nat \<Rightarrow> rat" where
  "lower_bound b = (double_value (b - 1) + double_value b) / 2"

definition upper_bound :: "nat \<Rightarrow> rat" where
  "upper_bound b = (double_value b + double_value (b + 1)) / 2"

definition infinity_bits :: nat where "infinity_bits = 0x7FF * 2 ^ 52"

lemma next_block:
  fixes b M :: nat
  assumes "0 < M" and "b mod M = M - 1"
  shows "(b + 1) div M = b div M + 1 \<and> (b + 1) mod M = 0"
proof -
  have "b + 1 = (b div M + 1) * M"
    using div_mult_mod_eq [of b M] assms by (simp add: algebra_simps)
  with assms(1) show ?thesis by (metis mod_mult_self2_is_0 nonzero_mult_div_cancel_right not_less_zero)
qed

lemma same_block:
  fixes b M :: nat
  assumes "0 < M" and "b mod M \<noteq> M - 1"
  shows "(b + 1) div M = b div M \<and> (b + 1) mod M = b mod M + 1"
proof -
  have "b mod M + 1 < M" using assms mod_less_divisor [of M b] by linarith
  moreover have "b + 1 = b div M * M + (b mod M + 1)" using div_mult_mod_eq [of b M] by linarith
  ultimately show ?thesis by (metis assms(1) div_less div_mult_self3 add.right_neutral mod_less mod_mult_self3 not_less_zero)
qed

lemma previous_block:
  fixes b M :: nat
  assumes "b mod M = 0" and "0 < b" and "0 < M"
  shows "(b - 1) div M = b div M - 1 \<and> (b - 1) mod M = M - 1"
proof -
  obtain q where q: "b = Suc q * M"
    using assms by (metis dvd_def dvd_imp_mod_0 mod_0_imp_dvd mult.commute not0_implies_Suc mult_0_right not_less_zero)
  then have p: "b - 1 = (M - 1) + q * M" using assms(3) by simp
  have "(M - 1 + q * M) div M = q" "(M - 1 + q * M) mod M = M - 1"
    using assms(3) by (simp_all only: div_mult_self1 mod_mult_self1 div_less mod_less diff_less zero_less_one)
  moreover have "b div M = Suc q" using q assms(3) by simp
  ultimately show ?thesis by (simp only: p diff_Suc_1)
qed

lemma double_value_next: "double_value (b + 1) = of_nat (sig_of b + 1) * 2 powi exp_of b"
proof (cases "b mod 2 ^ 52 = 2 ^ 52 - 1")
  case True
  then have n: "(b + 1) div 2 ^ 52 = b div 2 ^ 52 + 1 \<and> (b + 1) mod 2 ^ 52 = 0" by (intro next_block) simp_all
  define q where "q = b div 2 ^ 52"
  have p: "(2 :: rat) powi (int q + 1 - 1075) = 2 * 2 powi (int q - 1075)"
    using power_int_add_1 [of "2 :: rat" "int q - 1075"] by (simp add: algebra_simps)
  show ?thesis
  proof (cases "q = 0")
    case True
    then have "b div 2 ^ 52 = 0" by (simp only: q_def)
    with n \<open>b mod 2 ^ 52 = 2 ^ 52 - 1\<close> show ?thesis
      unfolding double_value_def sig_of_def exp_of_def by (simp del: power_numeral div_eq_0_iff)
  next
    case False
    then have "max 1 q = q" "max 1 (q + 1) = q + 1" by simp_all
    with n \<open>b mod 2 ^ 52 = 2 ^ 52 - 1\<close> False p show ?thesis
      unfolding double_value_def sig_of_def exp_of_def by (simp only: q_def [symmetric]) simp
  qed
next
  case False
  then have "(b + 1) div 2 ^ 52 = b div 2 ^ 52 \<and> (b + 1) mod 2 ^ 52 = b mod 2 ^ 52 + 1" by (intro same_block) simp_all
  then show ?thesis unfolding double_value_def sig_of_def exp_of_def by (simp del: power_numeral)
qed

lemma double_value_previous:
  assumes "0 < b"
  shows "double_value (b - 1) =
    (if b mod 2 ^ 52 = 0 \<and> 1 < b div 2 ^ 52 then of_nat (2 * sig_of b - 1) * 2 powi (exp_of b - 1)
     else of_nat (sig_of b - 1) * 2 powi exp_of b)"
proof -
  have n: "double_value b = of_nat (sig_of (b - 1) + 1) * 2 powi exp_of (b - 1)"
    using double_value_next [of "b - 1"] assms by simp
  show ?thesis
  proof (cases "b mod 2 ^ 52 = 0 \<and> 1 < b div 2 ^ 52")
    case True
    then have "(b - 1) div 2 ^ 52 = b div 2 ^ 52 - 1 \<and> (b - 1) mod 2 ^ 52 = 2 ^ 52 - 1"
      using assms by (intro previous_block) simp_all
    with True show ?thesis by (auto simp: double_value_def sig_of_def exp_of_def max_def of_nat_diff)
  next
    case False
    have "exp_of (b - 1) = exp_of b \<and> sig_of (b - 1) = sig_of b - 1"
    proof (cases "b mod 2 ^ 52 = 0")
      case True
      with False have "b div 2 ^ 52 = 1" using assms by (metis One_nat_def Suc_lessI div_mod_decomp add.right_neutral mult_zero_left not_gr0)
      moreover have "(b - 1) div 2 ^ 52 = b div 2 ^ 52 - 1 \<and> (b - 1) mod 2 ^ 52 = 2 ^ 52 - 1"
        using assms True by (intro previous_block) simp_all
      ultimately show ?thesis using True by (simp add: exp_of_def sig_of_def)
    next
      case mod: False
      have "(b - 1) mod 2 ^ 52 \<noteq> 2 ^ 52 - 1"
        using next_block [of "2 ^ 52" "b - 1"] mod assms by auto
      then have "(b - 1 + 1) div 2 ^ 52 = (b - 1) div 2 ^ 52 \<and> (b - 1 + 1) mod 2 ^ 52 = (b - 1) mod 2 ^ 52 + 1"
        by (intro same_block) simp_all
      with assms show ?thesis unfolding exp_of_def sig_of_def by (simp del: power_numeral)
    qed
    with False show ?thesis by (auto simp: double_value_def)
  qed
qed

section \<open>Boundaries\<close>

lemma sig_of_less: "sig_of b < 2 ^ 53"
proof -
  have "b mod 2 ^ 52 < 2 ^ 52" by (rule mod_less_divisor) simp
  moreover have "x < 2 ^ 52 \<Longrightarrow> (if c then x else x + 2 ^ 52) < 2 ^ 53" for x :: nat and c by simp
  ultimately show ?thesis unfolding sig_of_def by blast
qed

lemma sig_of_pos: "0 < b \<Longrightarrow> 0 < sig_of b"
  using div_mult_mod_eq [of b "2 ^ 52"] by (auto simp: sig_of_def)

lemma double_value_closer:
  "b mod 2 ^ 52 = 0 \<and> 1 < b div 2 ^ 52 \<Longrightarrow> sig_of b = 2 ^ 52"
  by (auto simp: sig_of_def)

text \<open>What the boundaries are as significands with a common exponent, \<open>j\<close> being the shift of the upper one.\<close>

definition plus_sig :: "nat \<Rightarrow> nat \<Rightarrow> nat" where "plus_sig b j = (2 * sig_of b + 1) * 2 ^ j"

definition minus_sig :: "nat \<Rightarrow> nat \<Rightarrow> nat" where
  "minus_sig b j =
     (if b mod 2 ^ 52 = 0 \<and> 1 < b div 2 ^ 52 then (4 * sig_of b - 1) * 2 ^ (j - 1) else (2 * sig_of b - 1) * 2 ^ j)"

lemma bounds_as_sigs:
  assumes "0 < b" and "0 < j"
  shows "upper_bound b = of_nat (plus_sig b j) * 2 powi (exp_of b - 1 - int j)"
    and "double_value b = of_nat (sig_of b * 2 ^ (j + 1)) * 2 powi (exp_of b - 1 - int j)"
    and "lower_bound b = of_nat (minus_sig b j) * 2 powi (exp_of b - 1 - int j)"
proof -
  have p: "(2 :: rat) powi exp_of b = 2 ^ (j + 1) * 2 powi (exp_of b - 1 - int j)"
    by (simp flip: power_int_of_nat power_int_add)
  obtain i where i: "j = Suc i" using assms(2) by (cases j) simp_all
  have p': "(2 :: rat) powi (exp_of b - 1) = 2 ^ j * 2 powi (exp_of b - 1 - int j)"
    by (simp flip: power_int_of_nat power_int_add)
  show "upper_bound b = of_nat (plus_sig b j) * 2 powi (exp_of b - 1 - int j)"
    unfolding upper_bound_def double_value_next by (simp add: double_value_def plus_sig_def p field_simps)
  show "double_value b = of_nat (sig_of b * 2 ^ (j + 1)) * 2 powi (exp_of b - 1 - int j)"
    by (simp add: double_value_def p)
  have "0 < sig_of b" using assms(1) by (rule sig_of_pos)
  then show "lower_bound b = of_nat (minus_sig b j) * 2 powi (exp_of b - 1 - int j)"
    unfolding lower_bound_def double_value_previous [OF assms(1)]
    by (simp add: double_value_def minus_sig_def p p' i of_nat_diff field_simps)
qed

text \<open>The distances, which decide how many digits there will be.\<close>

lemma sig_distances:
  assumes "0 < b" and "2 ^ 63 \<le> plus_sig b j" and "plus_sig b j < 2 ^ 64"
  shows "10 \<le> j" and "j < 63" and "sig_of b * 2 ^ (j + 1) + 2 ^ j = plus_sig b j"
    and "minus_sig b j + 2 ^ (j - 1) \<le> sig_of b * 2 ^ (j + 1)"
    and "plus_sig b j < 2 ^ 53 * (plus_sig b j - minus_sig b j)"
    and "2 ^ 63 \<le> sig_of b * 2 ^ (j + 1)"
proof -
  have f: "0 < sig_of b" "sig_of b < 2 ^ 53" using sig_of_pos assms(1) sig_of_less by auto
  have "\<not> j < 10"
  proof
    assume "j < 10"
    then have "(2 :: nat) ^ j \<le> 2 ^ 9" by (intro power_increasing) simp_all
    then have "plus_sig b j \<le> (2 * sig_of b + 1) * 2 ^ 9" unfolding plus_sig_def by (rule mult_le_mono2)
    with f(2) assms(2) show False by simp
  qed
  then show j: "10 \<le> j" by simp
  show "j < 63"
  proof (rule ccontr)
    assume "\<not> j < 63"
    then have "(2 :: nat) ^ 63 \<le> 2 ^ j" by (intro power_increasing) simp_all
    then have "3 * 2 ^ 63 \<le> plus_sig b j" unfolding plus_sig_def using f(1) by (intro mult_le_mono) simp_all
    with assms(3) show False by simp
  qed
  show s: "sig_of b * 2 ^ (j + 1) + 2 ^ j = plus_sig b j" by (simp add: plus_sig_def algebra_simps)
  obtain i where i: "j = Suc i" using j by (cases j) simp_all
  have m: "minus_sig b j + 2 ^ (if b mod 2 ^ 52 = 0 \<and> 1 < b div 2 ^ 52 then i else j) = sig_of b * 2 ^ (j + 1)"
    using f(1) by (auto simp: minus_sig_def i diff_mult_distrib)
  then show "minus_sig b j + 2 ^ (j - 1) \<le> sig_of b * 2 ^ (j + 1)" by (auto simp: i split: if_splits)
  show "plus_sig b j < 2 ^ 53 * (plus_sig b j - minus_sig b j)"
  proof (cases "b mod 2 ^ 52 = 0 \<and> 1 < b div 2 ^ 52")
    case True
    then have "sig_of b = 2 ^ 52" by (rule double_value_closer)
    moreover have "plus_sig b j - minus_sig b j = 3 * 2 ^ i" using s m True by (simp add: i)
    ultimately show ?thesis by (simp add: plus_sig_def i)
  next
    case False
    then have "minus_sig b j + 2 ^ j = sig_of b * 2 ^ (j + 1)" using m by (simp only: if_False)
    with s have "plus_sig b j - minus_sig b j = 2 * 2 ^ j" by simp
    moreover have "2 * sig_of b + 1 < 2 ^ 53 * 2" using f(2) by simp
    then have "(2 * sig_of b + 1) * 2 ^ j < 2 ^ 53 * 2 * 2 ^ j" by (rule mult_strict_right_mono) simp
    ultimately show ?thesis by (simp add: plus_sig_def)
  qed
  show "2 ^ 63 \<le> sig_of b * 2 ^ (j + 1)"
  proof -
    have e: "(2 :: nat) ^ 63 = 2 ^ (62 - j) * 2 ^ (j + 1)" using \<open>j < 63\<close> by (simp flip: power_add)
    have "2 ^ (62 - j) * 2 ^ (j + 1) \<le> (2 * sig_of b + 1) * 2 ^ j" using assms(2) unfolding plus_sig_def e .
    moreover have "2 ^ (62 - j) * 2 ^ (j + 1) = (2 * 2 ^ (62 - j)) * (2 :: nat) ^ j" by simp
    ultimately have "2 * 2 ^ (62 - j) \<le> 2 * sig_of b + 1" by (simp only: mult_le_cancel2) simp
    then have "2 ^ (62 - j) \<le> sig_of b" by presburger
    then show ?thesis unfolding e by (rule mult_le_mono1)
  qed
qed

lemma unat_double_ops:
  fixes f :: "64 word"
  assumes "unat f < 2 ^ 53" and "0 < unat f"
  shows "unat (2 * f + 1) = 2 * unat f + 1" "unat (2 * f - 1) = 2 * unat f - 1" "unat (4 * f - 1) = 4 * unat f - 1"
proof -
  have m: "unat (2 * f) = 2 * unat f" "unat (4 * f) = 4 * unat f"
    using assms(1) by (simp_all add: unat_mult_small)
  show "unat (2 * f + 1) = 2 * unat f + 1" using assms(1) by (simp add: unat_add_small m)
  have "1 \<le> 2 * f" "1 \<le> 4 * f" using assms(2) m by (simp_all add: word_le_nat_alt)
  then show "unat (2 * f - 1) = 2 * unat f - 1" "unat (4 * f - 1) = 4 * unat f - 1"
    by (simp_all add: unat_diff m)
qed

lemma plus_sig_shift:
  assumes "0 < b"
  obtains j where "2 ^ 63 \<le> plus_sig b j" and "plus_sig b j < 2 ^ 64"
proof -
  have "2 * sig_of b + 1 < 2 ^ 64" using sig_of_less [of b] by simp
  then show thesis using normalizing_shift [of "2 * sig_of b + 1"] that by (auto simp: plus_sig_def)
qed

lemma compute_boundaries_ok:
  assumes b: "0 < unat bits" and j: "2 ^ 63 \<le> plus_sig (unat bits) j" "plus_sig (unat bits) j < 2 ^ 64"
  obtains B where "compute_boundaries bits = Some B"
    and "unat (dsig (bplus B)) = plus_sig (unat bits) j"
    and "unat (dsig (bw B)) = sig_of (unat bits) * 2 ^ (j + 1)"
    and "unat (dsig (bminus B)) = minus_sig (unat bits) j"
    and "dexp (bplus B) = exp_of (unat bits) - 1 - int j" "dexp (bw B) = exp_of (unat bits) - 1 - int j"
    and "dexp (bminus B) = exp_of (unat bits) - 1 - int j"
proof -
  define n E F where "n = unat bits" and "E = drop_bit 52 bits" and "F = take_bit 52 bits"
  have EF: "unat E = n div 2 ^ 52" "unat F = n mod 2 ^ 52"
    by (simp_all only: E_def F_def n_def unat_drop_bit unat_take_bit)
  define f e where "f = (if E = 0 then F else F + kHiddenBit)" and "e = (if E = 0 then 1 - kBias else uint E - kBias)"
  have E0: "E = 0 \<longleftrightarrow> n div 2 ^ 52 = 0" by (metis EF(1) unat_eq_0)
  have hid: "unat kHiddenBit = 2 ^ 52" by (simp add: kHiddenBit_def)
  have "n mod 2 ^ 52 < 2 ^ 52" by (rule mod_less_divisor) simp
  then have Fh: "unat (F + kHiddenBit) = n mod 2 ^ 52 + 2 ^ 52" by (subst unat_add_small) (simp_all add: EF(2) hid)
  have f: "unat f = sig_of n"
    by (cases "n div 2 ^ 52 = 0") (simp_all only: f_def sig_of_def E0 if_True if_False EF(2) Fh simp_thms)
  have e: "e = exp_of n"
  proof (cases "n div 2 ^ 52 = 0")
    case True
    then show ?thesis by (simp only: e_def E0 exp_of_def kBias_def) simp
  next
    case False
    then have "max 1 (n div 2 ^ 52) = n div 2 ^ 52" by simp
    with False show ?thesis unfolding e_def E0 exp_of_def kBias_def using EF(1) by (simp only: if_False uint_nat)
  qed
  have close: "(F = 0 \<and> 1 < E) \<longleftrightarrow> (n mod 2 ^ 52 = 0 \<and> 1 < n div 2 ^ 52)"
    by (metis EF unat_eq_0 unat_1 word_less_nat_alt)
  have fs: "unat f < 2 ^ 53" "0 < unat f" using f sig_of_less [of n] sig_of_pos [of n] b by (simp_all add: n_def)
  note ops = unat_double_ops [OF fs]
  note d = sig_distances [OF b j, folded n_def]
  have j': "2 ^ 63 \<le> plus_sig n j" "plus_sig n j < 2 ^ 64" using j by (simp_all only: n_def)
  have plus: "diyfp_normalize \<lparr>dsig = 2 * f + 1, dexp = e - 1\<rparr> = Some \<lparr>dsig = push_bit j (2 * f + 1), dexp = e - 1 - int j\<rparr>"
    using j' by (intro normalize_eq) (simp_all add: ops(1) f plus_sig_def)
  have up: "unat (push_bit j (2 * f + 1)) = plus_sig n j"
    using j' by (subst unat_push_bit_small) (simp_all add: ops(1) f plus_sig_def)
  have wl: "sig_of n * 2 ^ (j + 1) < 2 ^ 64" using d(3) j'(2) by linarith
  have w: "diyfp_normalize \<lparr>dsig = f, dexp = e\<rparr> = Some \<lparr>dsig = push_bit (j + 1) f, dexp = e - int (j + 1)\<rparr>"
    using d(6) wl by (intro normalize_eq) (simp_all only: f)
  have uw: "unat (push_bit (j + 1) f) = sig_of n * 2 ^ (j + 1)"
    using wl by (subst unat_push_bit_small) (simp_all only: f, simp)
  have ml: "minus_sig n j < 2 ^ 64" using d(4) wl by linarith
  define m where "m = (if F = 0 \<and> 1 < E then \<lparr>dsig = 4 * f - 1, dexp = e - 2\<rparr> else \<lparr>dsig = 2 * f - 1, dexp = e - 1\<rparr>)"
  have um: "unat (dsig (diyfp_normalize_to m (e - 1 - int j))) = minus_sig n j"
  proof (cases "n mod 2 ^ 52 = 0 \<and> 1 < n div 2 ^ 52")
    case True
    have "nat (e - 2 - (e - 1 - int j)) = j - 1" using d(1) by simp
    with True ml show ?thesis
      unfolding diyfp_normalize_to_def m_def close minus_sig_def
      by (simp only: if_True diyfp.simps True simp_thms) (subst unat_push_bit_small, simp_all only: ops f, simp_all)
  next
    case False
    have "nat (e - 1 - (e - 1 - int j)) = j" by simp
    with False ml show ?thesis
      unfolding diyfp_normalize_to_def m_def close minus_sig_def
      by (simp only: if_False diyfp.simps) (subst unat_push_bit_small, simp_all only: ops f, simp_all)
  qed
  have "compute_boundaries bits = Some \<lparr>bw = \<lparr>dsig = push_bit (j + 1) f, dexp = e - int (j + 1)\<rparr>,
      bminus = diyfp_normalize_to m (e - 1 - int j), bplus = \<lparr>dsig = push_bit j (2 * f + 1), dexp = e - 1 - int j\<rparr>\<rparr>"
  proof -
    have v: "(if E = 0 then \<lparr>dsig = F, dexp = 1 - kBias\<rparr> else \<lparr>dsig = F + kHiddenBit, dexp = uint E - kBias\<rparr>) =
        \<lparr>dsig = f, dexp = e\<rparr>" by (simp add: f_def e_def)
    have F': "bits AND (kHiddenBit - 1) = F" unfolding kHiddenBit_def F_def and_low_mask by simp
    have E': "drop_bit (53 - 1) bits = E" by (simp add: E_def)
    show ?thesis
      unfolding compute_boundaries_def Let_def E' F' v
      by (simp only: diyfp.simps plus w option.simps m_def [symmetric])
  qed
  from that [OF this] show thesis
    using up uw um by (simp add: diyfp_normalize_to_def e n_def)
qed

lemma exp_range:
  assumes "0 < b" and "b < infinity_bits" and "2 ^ 63 \<le> plus_sig b j" and "plus_sig b j < 2 ^ 64"
  shows "- 1137 \<le> exp_of b - 1 - int j" and "exp_of b - 1 - int j \<le> 960"
proof -
  note d = sig_distances [OF assms(1,3,4)]
  have "b div 2 ^ 52 < 0x7FF" using assms(2) by (intro less_mult_imp_div_less) (simp add: infinity_bits_def)
  then have "exp_of b \<le> 971" by (simp add: exp_of_def)
  then show "exp_of b - 1 - int j \<le> 960" using d(1) by simp
  show "- 1137 \<le> exp_of b - 1 - int j" using d(2) by (simp add: exp_of_def)
qed

end
