(* ===== verification/Dtoa_Powers.thy ===== *)
theory Dtoa_Powers
  imports Dtoa_Words
begin

text \<open>
  The table of cached powers: every entry is its power of ten to half a unit of the last place, and for every
  exponent of a normalized \<open>double\<close> the entry chosen moves the product into the range for the digits.
\<close>

section \<open>Accuracy of the table\<close>

text \<open>
  With \<open>10 ^ k = 5 ^ k * 2 ^ k\<close> the powers of two on both sides cancel. The powers of five are carried along the
  table, upwards from its middle and downwards.
\<close>

fun check_up :: "(64 word \<times> int \<times> int) list \<Rightarrow> int \<Rightarrow> int \<Rightarrow> bool" where
  "check_up [] i A \<longleftrightarrow> True"
| "check_up ((w, e, k) # es) i A \<longleftrightarrow>
     k = i \<and> 2 ^ 63 \<le> uint w \<and>
     2 * \<bar>uint w * 2 ^ nat (e - k) - A * 2 ^ nat (k - e)\<bar> \<le> 2 ^ nat (e - k) \<and>
     check_up es (i + 8) (A * 390625)"

fun check_down :: "(64 word \<times> int \<times> int) list \<Rightarrow> int \<Rightarrow> int \<Rightarrow> bool" where
  "check_down [] i B \<longleftrightarrow> True"
| "check_down ((w, e, k) # es) i B \<longleftrightarrow>
     k = - i \<and> e \<le> k \<and> 2 ^ 63 \<le> uint w \<and>
     2 * \<bar>uint w * B - 2 ^ nat (k - e)\<bar> \<le> B \<and>
     check_down es (i + 8) (B * 390625)"

lemma upper_parts:
  "check_up (take 20 (drop 38 kCachedPowers)) 4 (5 ^ 4)"
  "check_up (drop 58 kCachedPowers) 164 (5 ^ 164)"
  by (simp_all add: kCachedPowers_def)

lemma lower_part_1: "check_down (rev (drop 19 (take 38 kCachedPowers))) 4 (5 ^ 4)"
  by (simp add: kCachedPowers_def)

lemma lower_part_2: "check_down (rev (take 10 (drop 9 kCachedPowers))) 156 (5 ^ 156)"
  by (simp add: kCachedPowers_def)

lemma lower_part_3: "check_down (rev (take 9 kCachedPowers)) 236 (5 ^ 236)"
  by (simp add: kCachedPowers_def)

definition close_power :: "64 word \<times> int \<times> int \<Rightarrow> bool" where
  "close_power = (\<lambda>(w, e, k). 2 ^ 63 \<le> unat w \<and> \<bar>of_nat (unat w) - 10 powi k * 2 powi (- e)\<bar> \<le> (1 / 2 :: rat))"

lemma ten_powi: "(10 :: rat) powi k = 5 powi k * 2 powi k"
  by (simp flip: power_int_mult_distrib)

lemma unat_large: "2 ^ 63 \<le> uint (w :: 64 word) \<Longrightarrow> 2 ^ 63 \<le> unat w"
  by (simp only: unat_eq_nat_uint le_nat_iff uint_ge_0 of_nat_power of_nat_numeral)

lemma ten_power: "(10 :: rat) ^ n = 5 ^ n * 2 ^ n"
  by (simp flip: power_mult_distrib)

lemma close_up:
  assumes "2 * \<bar>int f * 2 ^ nat x - 5 ^ n * 2 ^ nat (- x)\<bar> \<le> (2 ^ nat x :: int)"
  shows "\<bar>of_nat f - 5 ^ n * 2 powi (- x)\<bar> \<le> (1 / 2 :: rat)"
proof -
  define P where "P = (2 :: rat) ^ nat x"
  have P: "0 < P" by (simp add: P_def)
  have q: "(2 :: rat) ^ nat (- x) = 2 powi (- x) * P"
    by (cases "0 \<le> x") (simp_all add: P_def power_int_def field_simps)
  have "rat_of_int (2 * \<bar>int f * 2 ^ nat x - 5 ^ n * 2 ^ nat (- x)\<bar>) \<le> rat_of_int (2 ^ nat x)"
    using assms by (simp only: of_int_le_iff)
  then have "2 * \<bar>of_nat f * 2 ^ nat x - 5 ^ n * 2 ^ nat (- x)\<bar> \<le> (2 ^ nat x :: rat)" by simp
  then have "2 * \<bar>of_nat f * P - 5 ^ n * (2 powi (- x) * P)\<bar> \<le> P" by (simp only: q P_def)
  also have "of_nat f * P - 5 ^ n * (2 powi (- x) * P) = (of_nat f - 5 ^ n * 2 powi (- x)) * P"
    by (simp add: algebra_simps)
  finally have "(2 * \<bar>of_nat f - 5 ^ n * 2 powi (- x)\<bar>) * P \<le> 1 * P" using P by (simp add: abs_mult)
  then show ?thesis using P by (simp only: mult_le_cancel_right) simp
qed

lemma close_down:
  assumes "2 * \<bar>int f * 5 ^ n - 2 ^ m\<bar> \<le> (5 ^ n :: int)"
  shows "\<bar>of_nat f - 5 powi (- int n) * 2 ^ m\<bar> \<le> (1 / 2 :: rat)"
proof -
  have "rat_of_int (2 * \<bar>int f * 5 ^ n - 2 ^ m\<bar>) \<le> rat_of_int (5 ^ n)"
    using assms by (simp only: of_int_le_iff)
  then have "2 * \<bar>of_nat f * 5 ^ n - 2 ^ m\<bar> \<le> (5 ^ n :: rat)" by simp
  also have "of_nat f * 5 ^ n - 2 ^ m = (of_nat f - 5 powi (- int n) * 2 ^ m) * (5 ^ n :: rat)"
    by (simp add: power_int_minus field_simps)
  finally have "(2 * \<bar>of_nat f - 5 powi (- int n) * 2 ^ m\<bar>) * 5 ^ n \<le> 1 * (5 ^ n :: rat)" by (simp add: abs_mult)
  then show ?thesis by (simp only: mult_le_cancel_right) simp
qed

lemma check_up_close: "check_up es i A \<Longrightarrow> i = int n \<Longrightarrow> A = 5 ^ n \<Longrightarrow> \<forall>p \<in> set es. close_power p"
proof (induction es i A arbitrary: n rule: check_up.induct)
  case (2 w e k es i A)
  then have k: "k = int n" "2 ^ 63 \<le> uint w"
    and "2 * \<bar>int (unat w) * 2 ^ nat (e - k) - 5 ^ n * 2 ^ nat (- (e - k))\<bar> \<le> 2 ^ nat (e - k)"
    using 2(2-4) by simp_all
  from close_up [OF this(3)] have "\<bar>of_nat (unat w) - 5 ^ n * 2 powi (k - e)\<bar> \<le> (1 / 2 :: rat)" by simp
  moreover have "(10 :: rat) powi k * 2 powi (- e) = 5 ^ n * 2 powi (k - e)"
    by (simp add: ten_power k(1) power_int_diff power_int_minus field_simps)
  ultimately have "close_power (w, e, k)" using unat_large [OF k(2)] by (simp add: close_power_def)
  moreover have "\<forall>p \<in> set es. close_power p"
    using 2(2-4) by (intro 2(1) [of "n + 8"]) (simp_all add: power_add)
  ultimately show ?case by simp
qed simp

lemma check_down_close: "check_down es i A \<Longrightarrow> i = int n \<Longrightarrow> A = 5 ^ n \<Longrightarrow> \<forall>p \<in> set es. close_power p"
proof (induction es i A arbitrary: n rule: check_down.induct)
  case (2 w e k es i A)
  then have k: "k = - int n" "2 ^ 63 \<le> uint w" "e \<le> k"
    and "2 * \<bar>int (unat w) * 5 ^ n - 2 ^ nat (k - e)\<bar> \<le> 5 ^ n"
    using 2(2-4) by simp_all
  from close_down [OF this(4)] have "\<bar>of_nat (unat w) - 5 powi (- int n) * 2 ^ nat (k - e)\<bar> \<le> (1 / 2 :: rat)" .
  moreover have "(10 :: rat) powi k * 2 powi (- e) = 5 powi (- int n) * 2 ^ nat (k - e)"
  proof -
    have "(2 :: rat) ^ nat (k - e) = 2 powi (k - e)" using k(3) by (simp add: power_int_def)
    then show ?thesis by (simp add: ten_power k(1) power_int_diff power_int_minus field_simps)
  qed
  ultimately have "close_power (w, e, k)" using unat_large [OF k(2)] by (simp add: close_power_def)
  moreover have "\<forall>p \<in> set es. close_power p"
    using 2(2-4) by (intro 2(1) [of "n + 8"]) (simp_all add: power_add)
  ultimately show ?case by simp
qed simp

lemma table_close: "\<forall>p \<in> set kCachedPowers. close_power p"
proof -
  let ?a = "take 9 kCachedPowers" and ?b = "take 10 (drop 9 kCachedPowers)" and ?c = "drop 19 (take 38 kCachedPowers)"
    and ?d = "take 20 (drop 38 kCachedPowers)" and ?e = "drop 58 kCachedPowers"
  have p: "set (drop m xs) = set (take n (drop m xs)) \<union> set (drop (m + n) xs)" for m n and xs :: "(64 word \<times> int \<times> int) list"
    by (metis append_take_drop_id drop_drop add.commute set_append)
  have "?c = take 19 (drop 19 kCachedPowers)" by (simp add: drop_take)
  then have "set kCachedPowers = set ?a \<union> set ?b \<union> set ?c \<union> set ?d \<union> set ?e"
    using p [of 0 kCachedPowers 9] p [of 9 kCachedPowers 10] p [of 19 kCachedPowers 19] p [of 38 kCachedPowers 20] by auto
  moreover have "\<forall>p \<in> set ?d. close_power p" "\<forall>p \<in> set ?e. close_power p"
    using check_up_close [OF upper_parts(1), of 4] check_up_close [OF upper_parts(2), of 164] by simp_all
  moreover have "\<forall>p \<in> set ?a. close_power p" "\<forall>p \<in> set ?b. close_power p" "\<forall>p \<in> set ?c. close_power p"
    using check_down_close [OF lower_part_3, of 236] check_down_close [OF lower_part_2, of 156]
      check_down_close [OF lower_part_1, of 4] by simp_all
  ultimately show ?thesis by blast
qed

section \<open>The entry chosen\<close>

definition wanted_power :: "int \<Rightarrow> int" where
  "wanted_power f = (f * 78913) sdiv (2 ^ 18) + (if f > 0 then 1 else 0)"

text \<open>Each entry is right for an interval of exponents, and the intervals follow each other.\<close>

fun check_choice :: "(64 word \<times> int \<times> int) list \<Rightarrow> int \<Rightarrow> bool" where
  "check_choice [] i \<longleftrightarrow> True"
| "check_choice ((w, e, k) # es) i \<longleftrightarrow>
     k = 8 * i - 300 \<and> k < wanted_power (e + 64) \<and> wanted_power (e + 34) < k - 7 \<and> check_choice es (i + 1)"

lemma table_choice: "check_choice kCachedPowers 0"
  by (simp add: kCachedPowers_def wanted_power_def)

lemma table_length: "length kCachedPowers = 79"
  by (simp add: kCachedPowers_def)

lemma check_choice_nth:
  "check_choice es i \<Longrightarrow> n < length es \<Longrightarrow> es ! n = (w, e, k) \<Longrightarrow>
    k = 8 * (i + int n) - 300 \<and> k < wanted_power (e + 64) \<and> wanted_power (e + 34) < k - 7"
proof (induction es i arbitrary: n rule: check_choice.induct)
  case (2 w' e' k' es i)
  then show ?case by (cases n) auto
qed simp

lemma wanted_power_mono:
  assumes "f \<le> g" shows "wanted_power f \<le> wanted_power g"
proof -
  have neg: "(x * 78913) sdiv 262144 = - ((- (x * 78913)) div (262144 :: int))" if "x \<le> 0" for x
    using that by (cases "x = 0") (simp_all add: signed_divide_int_def sgn_if)
  have pos: "(x * 78913) sdiv 262144 = (x * 78913) div (262144 :: int)" if "0 \<le> x" for x
    using that by (cases "x = 0") (simp_all add: signed_divide_int_def sgn_if)
  consider "g \<le> 0" | "f \<le> 0" "0 < g" | "0 < f" using assms by linarith
  then show ?thesis
  proof cases
    case 1
    then have "(- g * 78913) div (2 ^ 18 :: int) \<le> (- f * 78913) div 2 ^ 18"
      using assms by (intro zdiv_mono1) simp_all
    with 1 assms show ?thesis by (simp add: wanted_power_def neg)
  next
    case 2
    then have "0 \<le> (- f * 78913) div (2 ^ 18 :: int)" "0 \<le> (g * 78913) div (2 ^ 18 :: int)" by simp_all
    with 2 show ?thesis by (simp add: wanted_power_def neg pos)
  next
    case 3
    then have "(f * 78913) div (2 ^ 18 :: int) \<le> (g * 78913) div 2 ^ 18"
      using assms by (intro zdiv_mono1) simp_all
    with 3 assms show ?thesis by (simp add: wanted_power_def pos)
  qed
qed

lemma cached_power_ok:
  assumes "- 1137 \<le> e" and "e \<le> 960"
  defines "c \<equiv> get_cached_power_for_binary_exponent e"
  shows "- 60 \<le> cp_e c + e + 64" and "cp_e c + e + 64 \<le> - 32" and "2 ^ 63 \<le> unat (cp_f c)"
    and "\<bar>of_nat (unat (cp_f c)) - 10 powi cp_k c * 2 powi (- cp_e c)\<bar> \<le> (1 / 2 :: rat)"
proof -
  let ?f = "- 60 - e - 1"
  define k where "k = wanted_power ?f"
  have "wanted_power (- 1021) \<le> k" "k \<le> wanted_power 1076"
    unfolding k_def using assms(1,2) by (intro wanted_power_mono; simp)+
  then have kb: "- 307 \<le> k" "k \<le> 324" by (simp_all add: wanted_power_def)
  have "cached_index e = (300 + k + (8 - 1)) sdiv 8" by (simp add: cached_index_def k_def wanted_power_def Let_def)
  also have "\<dots> = (307 + k) div 8" using kb by (simp add: signed_divide_int_def sgn_if)
  finally have ix: "cached_index e = (307 + k) div 8" .
  define n where "n = nat (cached_index e)"
  have n: "int n = (307 + k) div 8" "n < 79" using kb by (simp_all add: n_def ix)
  obtain w ce ck where t: "kCachedPowers ! n = (w, ce, ck)" by (cases "kCachedPowers ! n") simp
  have c: "cp_f c = w" "cp_e c = ce" "cp_k c = ck"
    by (simp_all add: c_def get_cached_power_for_binary_exponent_def t [unfolded n_def])
  have ch: "ck = 8 * int n - 300 \<and> ck < wanted_power (ce + 64) \<and> wanted_power (ce + 34) < ck - 7"
    using check_choice_nth [OF table_choice _ t] n(2) by (simp add: table_length)
  have b: "k \<le> ck" "ck - 7 \<le> k" using ch n(1) by presburger+
  have "\<not> ce + 64 \<le> ?f" using wanted_power_mono [of "ce + 64" ?f] ch b by (auto simp: k_def)
  moreover have "\<not> ?f \<le> ce + 34" using wanted_power_mono [of ?f "ce + 34"] ch b by (auto simp: k_def)
  ultimately show "- 60 \<le> cp_e c + e + 64" "cp_e c + e + 64 \<le> - 32" by (simp_all add: c)
  have "close_power (w, ce, ck)" using table_close n(2) t by (metis nth_mem table_length)
  then show "2 ^ 63 \<le> unat (cp_f c)"
    and "\<bar>of_nat (unat (cp_f c)) - 10 powi cp_k c * 2 powi (- cp_e c)\<bar> \<le> (1 / 2 :: rat)"
    by (simp_all add: close_power_def c)
qed

end
