(* ===== verification/Dtoa_Digits.thy ===== *)
theory Dtoa_Digits
  imports Dtoa_Words
begin

text \<open>
  The digits of Grisu2: each loop writes the number it is to write up to a rest within the interval, the last
  digit is never decremented to zero, nothing overflows, and all loops end.
\<close>

section \<open>Decimal digits\<close>

definition decimal :: "string \<Rightarrow> bool" where
  "decimal ds \<longleftrightarrow> (\<forall>c \<in> set ds. \<exists>d \<le> 9. c = digit_char d)"

lemma decimal_simps [simp]:
  "decimal []" "decimal (c # ds) \<longleftrightarrow> (\<exists>d \<le> 9. c = digit_char d) \<and> decimal ds"
  "decimal (xs @ ys) \<longleftrightarrow> decimal xs \<and> decimal ys"
  by (auto simp: decimal_def)

lemma digits_nat_cons: "digits_nat (c # ds) = char_digit c * 10 ^ length ds + digits_nat ds"
proof -
  have "foldl (\<lambda>a c. 10 * a + char_digit c) x ds = x * 10 ^ length ds + digits_nat ds" for x
  proof (induction ds arbitrary: x)
    case (Cons c ds)
    show ?case using Cons [of "10 * x + char_digit c"] Cons [of "char_digit c"]
      by (simp add: digits_nat_def distrib_right)
  qed (simp add: digits_nat_def)
  from this [of "char_digit c"] show ?thesis by (simp add: digits_nat_def [of "c # ds"])
qed

lemma digits_nat_app: "digits_nat (xs @ ys) = digits_nat xs * 10 ^ length ys + digits_nat ys"
proof (induction xs)
  case Nil
  then show ?case by (simp add: digits_nat_def)
next
  case (Cons c xs)
  then show ?case by (simp add: digits_nat_cons power_add distrib_right mult.assoc)
qed

lemma digits_nat_single: "d \<le> 9 \<Longrightarrow> digits_nat [digit_char d] = d"
  by (simp add: digits_nat_def)

lemma digit_char_zero:
  assumes "d \<le> 9"
  shows "digit_char d = CHR ''0'' \<longleftrightarrow> d = 0"
proof
  assume "digit_char d = CHR ''0''"
  with assms have "char_digit (CHR ''0'') = d" using char_digit_digit_char [of d] by simp
  then show "d = 0" by (simp add: char_digit_def)
qed simp

section \<open>Rounding\<close>

lemma decrement_digit: "0 < d \<Longrightarrow> d \<le> 9 \<Longrightarrow> decrement_last (b @ [digit_char d]) = b @ [digit_char (d - 1)]"
proof -
  assume d: "0 < d" "d \<le> 9"
  have "(of_char (digit_char d) :: nat) = 48 + d" using d(2) by (simp add: digit_char_def)
  moreover have "char_of (48 + d + 255) = (char_of (47 + d) :: char)"
    using char_of_mod_256 [of "48 + d + 255 :: nat"] char_of_mod_256 [of "47 + d"] mod_add_self2 [of "47 + d" 256]
    by (simp add: add.commute)
  ultimately show ?thesis using d by (simp add: decrement_last_def digit_char_def)
qed

lemma round_ok:
  "d \<le> 9 \<Longrightarrow> unat rest \<le> unat delta \<Longrightarrow> unat delta < unat rest + d * unat ten \<Longrightarrow>
    \<exists>j < d. grisu2_round (b @ [digit_char d]) dst delta rest ten = Some (b @ [digit_char (d - j)]) \<and>
      unat rest + j * unat ten \<le> unat delta"
proof (induction d arbitrary: rest)
  case 0
  then show ?case by simp
next
  case (Suc d)
  show ?case
  proof (cases "rest < dst \<and> ten \<le> delta - rest \<and> (rest + ten < dst \<or> rest + ten - dst < dst - rest)")
    case False
    then have "grisu2_round (b @ [digit_char (Suc d)]) dst delta rest ten = Some (b @ [digit_char (Suc d)])"
      by (subst grisu2_round.simps) (simp only: if_False)
    then show ?thesis using Suc.prems by (intro exI [of _ 0]) simp
  next
    case True
    then have "unat ten \<le> unat delta - unat rest"
      using Suc.prems(2) by (simp add: word_le_nat_alt unat_diff)
    then have le: "unat rest + unat ten \<le> unat delta" using Suc.prems(2) by simp
    then have u: "unat (rest + ten) = unat rest + unat ten"
      using unat_bound [of delta] by (intro unat_add_small) (rule le_less_trans)
    have "\<exists>j < d. grisu2_round (b @ [digit_char d]) dst delta (rest + ten) ten = Some (b @ [digit_char (d - j)]) \<and>
        unat (rest + ten) + j * unat ten \<le> unat delta"
      using Suc.prems le by (intro Suc.IH) (simp_all add: u)
    then obtain j where j: "j < d" "grisu2_round (b @ [digit_char d]) dst delta (rest + ten) ten = Some (b @ [digit_char (d - j)])"
      "unat rest + unat ten + j * unat ten \<le> unat delta" by (auto simp: u)
    moreover have "grisu2_round (b @ [digit_char (Suc d)]) dst delta rest ten =
        grisu2_round (b @ [digit_char d]) dst delta (rest + ten) ten"
      using True decrement_digit [of "Suc d" b] Suc.prems(1) by (subst grisu2_round.simps) simp
    ultimately show ?thesis by (intro exI [of _ "Suc j"]) simp
  qed
qed

section \<open>The integral part\<close>

text \<open>The digits \<open>ds\<close> are written so that \<open>remain\<close> is reached to within \<open>delta\<close>, in units of \<open>unit\<close>.\<close>

definition good_digits :: "string \<Rightarrow> bool" where
  "good_digits ds \<longleftrightarrow> ds \<noteq> [] \<and> decimal ds \<and> last ds \<noteq> CHR ''0''"

lemma good_digits_cons: "good_digits ds \<Longrightarrow> d \<le> 9 \<Longrightarrow> good_digits (digit_char d # ds)"
  by (auto simp: good_digits_def)

lemma good_digits_single: "0 < d \<Longrightarrow> d \<le> 9 \<Longrightarrow> good_digits [digit_char d]"
  by (auto simp: good_digits_def digit_char_zero)

definition reaches :: "string \<Rightarrow> nat \<Rightarrow> nat \<Rightarrow> nat \<Rightarrow> bool" where
  "reaches ds unit remain delta \<longleftrightarrow>
     (\<exists>rest \<le> delta. digits_nat ds * unit + rest = remain) \<and> delta < 10 * unit"

lemma reaches_single:
  assumes "j < d" and "d \<le> 9" and "rest + j * unit \<le> delta" and "d * unit + rest = remain" and "delta < 10 * unit"
  shows "reaches [digit_char (d - j)] unit remain delta"
proof -
  have "(d - j) * unit + (rest + j * unit) = remain"
    using assms(1,4) by (simp add: diff_mult_distrib)
  with assms show ?thesis unfolding reaches_def by (intro conjI exI [of _ "rest + j * unit"]) (simp_all add: digits_nat_single)
qed

lemma reaches_cons:
  assumes "reaches ds unit r delta" and "d \<le> 9" and "remain = d * 10 ^ length ds * unit + r"
  shows "reaches (digit_char d # ds) unit remain delta"
  using assms by (auto simp: reaches_def digits_nat_cons algebra_simps)

lemma integral_ok:
  assumes "unat p1 < 10 ^ n" and "0 < n \<Longrightarrow> unat pow10 = 10 ^ (n - 1)" and "0 < n \<Longrightarrow> 10 ^ (n - 1) * 2 ^ s < (2 :: nat) ^ 64"
    and "unat p2 < 2 ^ s" and "unat p1 * 2 ^ s + unat p2 < 2 ^ 64" and "unat delta < unat p1 * 2 ^ s + unat p2"
  shows "(\<exists>ds m. integral_digits n buffer p1 pow10 s p2 delta dst = Some (Inl (buffer @ ds, int m)) \<and>
        length ds + m = n \<and> good_digits ds \<and> (10 ^ (n - 1) \<le> unat p1 \<longrightarrow> hd ds \<noteq> CHR ''0'') \<and>
        reaches ds (10 ^ m * 2 ^ s) (unat p1 * 2 ^ s + unat p2) (unat delta)) \<or>
    (\<exists>ds. integral_digits n buffer p1 pow10 s p2 delta dst = Some (Inr (buffer @ ds)) \<and>
        length ds = n \<and> decimal ds \<and> (10 ^ (n - 1) \<le> unat p1 \<longrightarrow> 0 < n \<longrightarrow> hd ds \<noteq> CHR ''0'') \<and>
        digits_nat ds = unat p1 \<and> unat delta < unat p2)"
    (is "?L n p1 buffer pow10 \<or> ?R n p1 buffer pow10")
  using assms
proof (induction n arbitrary: buffer p1 pow10)
  case 0
  then show ?case by (intro disjI2 exI [of _ "[]"]) (simp add: digits_nat_def)
next
  case (Suc n)
  have p10: "unat pow10 = 10 ^ n" using Suc.prems(2) by simp
  define d r where "d = unat p1 div 10 ^ n" and "r = unat p1 mod 10 ^ n"
  have u: "unat (p1 div pow10) = d" "unat (p1 mod pow10) = r"
    by (simp_all add: unat_div_distrib unat_mod_distrib p10 d_def r_def)
  have d9: "d \<le> 9" using Suc.prems(1) by (simp add: d_def less_mult_imp_div_less le_less_trans flip: less_Suc_eq_le)
  have p1: "unat p1 = d * 10 ^ n + r" "r < 10 ^ n"
    unfolding d_def r_def by (rule div_mult_mod_eq [symmetric], rule mod_less_divisor) simp
  have rs: "r * 2 ^ s + unat p2 < 2 ^ 64" using Suc.prems(5) by (simp add: p1(1) distrib_right)
  have "r < 2 ^ 32" using unat_bound [of p1] p1(1) by simp
  then have uc: "unat (ucast (p1 mod pow10) :: 64 word) = r" by (subst unat_ucast_small) (simp_all add: u(2))
  have "unat (push_bit s (ucast (p1 mod pow10) :: 64 word)) = r * 2 ^ s"
    using rs by (subst unat_push_bit_small) (simp_all add: uc)
  then have rest: "unat (push_bit s (ucast (p1 mod pow10)) + p2) = r * 2 ^ s + unat p2"
    using rs by (subst unat_add_small) simp_all
  let ?rest = "push_bit s (ucast (p1 mod pow10)) + p2"
  have hd: "10 ^ (Suc n - 1) \<le> unat p1 \<longrightarrow> 0 < d" by (auto simp: d_def div_greater_zero_iff)
  have tot: "unat p1 * 2 ^ s + unat p2 = d * (10 ^ n * 2 ^ s) + (r * 2 ^ s + unat p2)"
    by (simp add: p1(1) algebra_simps)
  show ?case
  proof (cases "?rest \<le> delta")
    case True
    have t: "unat (push_bit s (ucast pow10 :: 64 word)) = 10 ^ n * 2 ^ s"
    proof -
      have "unat pow10 < 2 ^ 32" using unat_bound [of pow10] by simp
      then have "unat (ucast pow10 :: 64 word) = 10 ^ n" using p10 by (subst unat_ucast_small) simp_all
      then show ?thesis using Suc.prems(3) by (subst unat_push_bit_small) simp_all
    qed
    have le: "r * 2 ^ s + unat p2 \<le> unat delta" using True by (simp add: word_le_nat_alt rest)
    obtain j where j: "j < d" "grisu2_round (buffer @ [digit_char d]) dst delta ?rest (push_bit s (ucast pow10)) =
        Some (buffer @ [digit_char (d - j)])" "r * 2 ^ s + unat p2 + j * (10 ^ n * 2 ^ s) \<le> unat delta"
      using round_ok [OF d9, of ?rest delta "push_bit s (ucast pow10)" buffer dst] le Suc.prems(6)
      unfolding rest t tot by (auto simp: add.commute)
    have "unat delta < 10 * (10 ^ n * 2 ^ s)"
    proof -
      have "d * (10 ^ n * 2 ^ s) + (r * 2 ^ s + unat p2) < 10 * (10 ^ n * 2 ^ s)"
      proof -
        have "unat p1 + 1 \<le> 10 ^ Suc n" using Suc.prems(1) by simp
        then have "(unat p1 + 1) * 2 ^ s \<le> 10 ^ Suc n * 2 ^ s" by (rule mult_le_mono1)
        with Suc.prems(4) tot show ?thesis by simp
      qed
      then show ?thesis using Suc.prems(6) tot by simp
    qed
    then have "reaches [digit_char (d - j)] (10 ^ n * 2 ^ s) (unat p1 * 2 ^ s + unat p2) (unat delta)"
      using j d9 tot by (intro reaches_single) simp_all
    moreover have "good_digits [digit_char (d - j)]" using j(1) d9 by (intro good_digits_single) simp_all
    moreover have "integral_digits (Suc n) buffer p1 pow10 s p2 delta dst =
        Some (Inl (buffer @ [digit_char (d - j)], int n))"
      using True j(2) by (simp add: Let_def u)
    ultimately show ?thesis using j(1) d9
      by (intro disjI1 exI [of _ "[digit_char (d - j)]"] exI [of _ n]) (simp add: digit_char_zero)
  next
    case False
    then have gt: "unat delta < r * 2 ^ s + unat p2" by (simp add: word_le_nat_alt rest)
    have step: "integral_digits (Suc n) buffer p1 pow10 s p2 delta dst =
        integral_digits n (buffer @ [digit_char d]) (p1 mod pow10) (pow10 div 10) s p2 delta dst"
      using False by (simp add: Let_def u)
    have "?L n (p1 mod pow10) (buffer @ [digit_char d]) (pow10 div 10) \<or> ?R n (p1 mod pow10) (buffer @ [digit_char d]) (pow10 div 10)"
    proof (rule Suc.IH)
      show "unat (pow10 div 10) = 10 ^ (n - 1)" if "0 < n"
        using that by (cases n) (simp_all add: unat_div_distrib p10)
      show "10 ^ (n - 1) * 2 ^ s < (2 :: nat) ^ 64" if "0 < n"
      proof -
        have "10 ^ (n - 1) * 2 ^ s \<le> 10 ^ n * (2 :: nat) ^ s" by (intro mult_le_mono1 power_increasing) simp_all
        also have "\<dots> < 2 ^ 64" using Suc.prems(3) by (simp only: diff_Suc_1 zero_less_Suc)
        finally show ?thesis .
      qed
    qed (use p1(2) Suc.prems(4) rs gt in \<open>simp_all add: u\<close>)
    then show ?thesis
    proof (elim disjE exE conjE)
      fix ds m
      assume a: "integral_digits n (buffer @ [digit_char d]) (p1 mod pow10) (pow10 div 10) s p2 delta dst =
          Some (Inl ((buffer @ [digit_char d]) @ ds, int m))" "length ds + m = n" "good_digits ds"
        "reaches ds (10 ^ m * 2 ^ s) (unat (p1 mod pow10) * 2 ^ s + unat p2) (unat delta)"
      have "d * 10 ^ length ds * (10 ^ m * 2 ^ s) = d * (10 ^ n * 2 ^ s)" by (simp add: a(2) [symmetric] power_add)
      then have "unat p1 * 2 ^ s + unat p2 =
          d * 10 ^ length ds * (10 ^ m * 2 ^ s) + (unat (p1 mod pow10) * 2 ^ s + unat p2)"
        by (simp only: tot u)
      then have "reaches (digit_char d # ds) (10 ^ m * 2 ^ s) (unat p1 * 2 ^ s + unat p2) (unat delta)"
        by (rule reaches_cons [OF a(4) d9])
      with a hd d9 show ?thesis
        by (intro disjI1 exI [of _ "digit_char d # ds"] exI [of _ m])
          (simp add: step good_digits_cons digit_char_zero del: integral_digits.simps)
    next
      fix ds
      assume a: "integral_digits n (buffer @ [digit_char d]) (p1 mod pow10) (pow10 div 10) s p2 delta dst =
          Some (Inr ((buffer @ [digit_char d]) @ ds))" "length ds = n" "decimal ds"
        "digits_nat ds = unat (p1 mod pow10)" "unat delta < unat p2"
      with hd d9 show ?thesis
        by (intro disjI2 exI [of _ "digit_char d # ds"]) (auto simp: step digits_nat_cons u p1(1) digit_char_zero simp del: integral_digits.simps)
    qed
  qed
qed

section \<open>The fractional part\<close>

lemma fraction_ok:
  assumes "s \<le> 60" and "unat p2 < 2 ^ s" and "unat delta < unat p2" and "0 < unat delta"
  shows "\<exists>ds. fraction_digits buffer m s p2 delta dst = Some (buffer @ ds, m + length ds) \<and> good_digits ds \<and>
    (\<exists>rest \<le> unat delta * 10 ^ length ds. digits_nat ds * 2 ^ s + rest = unat p2 * 10 ^ length ds) \<and>
    unat delta * 10 ^ length ds < 10 * 2 ^ s"
  using assms
proof (induction "2 ^ s - unat delta" arbitrary: buffer m p2 delta dst rule: less_induct)
  case less
  have s60: "(2 :: nat) ^ s \<le> 2 ^ 60" using less.prems(1) by (intro power_increasing) simp_all
  then have small: "unat p2 * 10 < 2 ^ 64" using less.prems(2) by simp
  have u10: "unat (p2 * 10) = unat p2 * 10" using small by (subst unat_mult_small) simp_all
  have ud: "unat (delta * 10) = unat delta * 10" using small less.prems(3) by (subst unat_mult_small) simp_all
  define d r where "d = unat p2 * 10 div 2 ^ s" and "r = unat p2 * 10 mod 2 ^ s"
  have u: "unat (drop_bit s (p2 * 10)) = d" "unat ((p2 * 10) AND (push_bit s 1 - 1)) = r"
    by (simp_all only: unat_drop_bit and_low_mask unat_take_bit u10 d_def r_def)
  have d9: "d \<le> 9"
    using less.prems(2) unfolding d_def by (simp add: less_mult_imp_div_less flip: less_Suc_eq_le)
  have dr: "d * 2 ^ s + r = unat p2 * 10" "r < 2 ^ s"
    unfolding d_def r_def by (rule div_mult_mod_eq, rule mod_less_divisor) simp
  let ?r = "(p2 * 10) AND (push_bit s 1 - 1)"
  show ?case
  proof (cases "?r \<le> delta * 10")
    case True
    have t: "unat (push_bit s 1 :: 64 word) = 2 ^ s" using s60 by (subst unat_push_bit_small) simp_all
    have le: "r \<le> unat delta * 10" using True by (simp only: word_le_nat_alt u ud)
    have lt: "unat delta * 10 < r + d * 2 ^ s" using dr(1) less.prems(3) by simp
    obtain j where j: "j < d" "grisu2_round (buffer @ [digit_char d]) (dst * 10) (delta * 10) ?r (push_bit s 1) =
        Some (buffer @ [digit_char (d - j)])" "r + j * 2 ^ s \<le> unat delta * 10"
      using round_ok [OF d9, of ?r "delta * 10" "push_bit s 1" buffer "dst * 10"] le lt
      unfolding u ud t by auto
    have "fraction_digits buffer m s p2 delta dst = Some (buffer @ [digit_char (d - j)], m + 1)"
      using True j(2) by (subst fraction_digits.simps) (simp only: Let_def u if_True option.map prod.case)
    moreover have "(d - j) * 2 ^ s + (r + j * 2 ^ s) = unat p2 * 10"
      using j(1) dr(1) by (simp add: diff_mult_distrib)
    moreover have "unat delta * 10 < 10 * 2 ^ s" using less.prems(2,3) by simp
    ultimately show ?thesis using j d9
      by (intro exI [of _ "[digit_char (d - j)]"])
        (auto simp: good_digits_single digits_nat_single intro!: exI [of _ "r + j * 2 ^ s"])
  next
    case False
    then have gt: "unat delta * 10 < r" by (simp only: word_le_nat_alt u ud not_le)
    have step: "fraction_digits buffer m s p2 delta dst =
        fraction_digits (buffer @ [digit_char d]) (m + 1) s ?r (delta * 10) (dst * 10)"
      using False by (subst fraction_digits.simps) (simp only: Let_def u if_False)
    have "\<exists>ds. fraction_digits (buffer @ [digit_char d]) (m + 1) s ?r (delta * 10) (dst * 10) =
          Some ((buffer @ [digit_char d]) @ ds, m + 1 + length ds) \<and> good_digits ds \<and>
        (\<exists>rest \<le> unat (delta * 10) * 10 ^ length ds. digits_nat ds * 2 ^ s + rest = unat ?r * 10 ^ length ds) \<and>
        unat (delta * 10) * 10 ^ length ds < 10 * 2 ^ s"
    proof (rule less.hyps)
      show "2 ^ s - unat (delta * 10) < 2 ^ s - unat delta"
        unfolding ud using less.prems by (intro diff_less_mono2) simp_all
      show "s \<le> 60" by (rule less.prems(1))
      show "unat ?r < 2 ^ s" unfolding u by (rule dr(2))
      show "unat (delta * 10) < unat ?r" unfolding u ud by (rule gt)
      show "0 < unat (delta * 10)" unfolding ud using less.prems(4) by simp
    qed
    then obtain ds rest where ds: "fraction_digits (buffer @ [digit_char d]) (m + 1) s ?r (delta * 10) (dst * 10) =
          Some ((buffer @ [digit_char d]) @ ds, m + 1 + length ds)" "good_digits ds"
        "rest \<le> unat delta * 10 * 10 ^ length ds" "digits_nat ds * 2 ^ s + rest = r * 10 ^ length ds"
        "unat delta * 10 * 10 ^ length ds < 10 * 2 ^ s"
      by (auto simp only: u ud)
    have "digits_nat (digit_char d # ds) * 2 ^ s + rest = (d * 2 ^ s + r) * 10 ^ length ds"
      using ds(4) d9 by (simp add: digits_nat_cons algebra_simps)
    also have "\<dots> = unat p2 * 10 ^ length (digit_char d # ds)" by (simp add: dr(1))
    finally have "digits_nat (digit_char d # ds) * 2 ^ s + rest = unat p2 * 10 ^ length (digit_char d # ds)" .
    with ds step d9 show ?thesis
      by (intro exI [of _ "digit_char d # ds"]) (auto simp: good_digits_cons mult.assoc)
  qed
qed

end
