(* ===== verification/Dtoa_Grisu.thy ===== *)
theory Dtoa_Grisu
  imports Dtoa_Powers Dtoa_Digits
begin

text \<open>
  Grisu2 as a whole: for every positive finite \<open>double\<close> it ends with at most 17 digits of a number that lies
  strictly between the halves to the neighbors.
\<close>

lemma find_largest_pow10_ok:
  assumes "find_largest_pow10 n = (k, p)" and "0 < unat n"
  shows "1 \<le> k" "unat p = 10 ^ (k - 1)" "10 ^ (k - 1) \<le> unat n" "unat n < 10 ^ k"
  using assms unat_bound [of n]
  by (auto simp: find_largest_pow10_def word_le_nat_alt split: if_splits)

section \<open>Digit generation\<close>

lemma digit_gen_ok:
  assumes e: "- 60 \<le> dexp P" "dexp P \<le> - 32"
    and m: "0 < unat (dsig M)" "unat (dsig M) < unat (dsig P)" "2 ^ 60 \<le> unat (dsig P)"
  defines "s \<equiv> nat (- dexp P)"
  shows "\<exists>buf x. grisu2_digit_gen K M w P = Some (buf, K + x) \<and> good_digits buf \<and> hd buf \<noteq> CHR ''0'' \<and>
    of_nat (unat (dsig M)) \<le> of_nat (digits_nat buf) * 10 powi x * (2 :: rat) ^ s \<and>
    of_nat (digits_nat buf) * 10 powi x * (2 :: rat) ^ s \<le> of_nat (unat (dsig P)) \<and>
    (unat (dsig P) - unat (dsig M)) * 10 ^ length buf < 100 * unat (dsig P)"
proof -
  define a b where "a = unat (dsig P)" and "b = unat (dsig M)"
  have s: "32 \<le> s" "s \<le> 60" using e by (simp_all add: s_def)
  have a64: "a < 2 ^ 64" using unat_bound [of "dsig P"] by (simp add: a_def)
  define delta dst where "delta = dsig P - dsig M" and "dst = dsig (diyfp_sub P w)"
  have ud: "unat delta = a - b" using m(2) by (simp add: delta_def a_def b_def unat_diff word_le_nat_alt)
  have d: "0 < unat delta" "unat delta < a" using m by (simp_all add: ud a_def b_def)
  define p1 :: "32 word" where "p1 = ucast (drop_bit s (dsig P))"
  define p2 where "p2 = dsig P AND (push_bit s 1 - 1)"
  have up2: "unat p2 = a mod 2 ^ s" by (simp only: p2_def and_low_mask unat_take_bit a_def)
  have "a div 2 ^ s < 2 ^ 32"
  proof -
    have "(2 :: nat) ^ 64 \<le> 2 ^ 32 * 2 ^ s" using power_increasing [of 64 "32 + s" "2 :: nat"] s(1) by (simp add: power_add)
    with a64 show ?thesis by (intro less_mult_imp_div_less) linarith
  qed
  then have up1: "unat p1 = a div 2 ^ s"
    unfolding p1_def by (subst unat_ucast_small) (simp_all only: unat_drop_bit a_def, simp)
  have tot: "unat p1 * 2 ^ s + unat p2 = a" by (simp only: up1 up2 div_mult_mod_eq)
  have "(2 :: nat) ^ s \<le> 2 ^ 60" using s(2) by (intro power_increasing) simp_all
  then have "2 ^ s \<le> a" using m(3) a_def by linarith
  then have p1: "0 < unat p1" by (simp add: up1 div_greater_zero_iff)
  obtain k pow10 where fp: "find_largest_pow10 p1 = (k, pow10)" by (cases "find_largest_pow10 p1")
  note k = find_largest_pow10_ok [OF fp p1]
  have k2: "10 ^ (k - 1) * 2 ^ s \<le> a"
  proof -
    have "10 ^ (k - 1) * 2 ^ s \<le> unat p1 * 2 ^ s" using k(3) by (rule mult_le_mono1)
    with tot show ?thesis by linarith
  qed
  have p2s: "unat p2 < 2 ^ s" unfolding up2 by (rule mod_less_divisor) simp
  have gen: "grisu2_digit_gen K M w P = (case integral_digits k [] p1 pow10 s p2 delta dst of
           None \<Rightarrow> None
         | Some (Inl (buffer, n)) \<Rightarrow> Some (buffer, K + n)
         | Some (Inr buffer) \<Rightarrow> map_option (\<lambda>(b, m). (b, K - int m)) (fraction_digits buffer 0 s p2 delta dst))"
    by (simp only: grisu2_digit_gen_def Let_def s_def [symmetric] p1_def [symmetric] p2_def [symmetric] fp prod.case
        diyfp_sub_def [of P M] diyfp.simps delta_def [symmetric] dst_def [symmetric])
  have int: "(\<exists>ds m. integral_digits k [] p1 pow10 s p2 delta dst = Some (Inl ([] @ ds, int m)) \<and>
        length ds + m = k \<and> good_digits ds \<and> (10 ^ (k - 1) \<le> unat p1 \<longrightarrow> hd ds \<noteq> CHR ''0'') \<and>
        reaches ds (10 ^ m * 2 ^ s) (unat p1 * 2 ^ s + unat p2) (unat delta)) \<or>
    (\<exists>ds. integral_digits k [] p1 pow10 s p2 delta dst = Some (Inr ([] @ ds)) \<and>
        length ds = k \<and> decimal ds \<and> (10 ^ (k - 1) \<le> unat p1 \<longrightarrow> 0 < k \<longrightarrow> hd ds \<noteq> CHR ''0'') \<and>
        digits_nat ds = unat p1 \<and> unat delta < unat p2)"
  proof (rule integral_ok)
    show "10 ^ (k - 1) * 2 ^ s < (2 :: nat) ^ 64" using k2 a64 by linarith
    show "unat p1 * 2 ^ s + unat p2 < 2 ^ 64" unfolding tot by (rule a64)
    show "unat delta < unat p1 * 2 ^ s + unat p2" unfolding tot by (rule d(2))
  qed (rule k p2s)+
  then show ?thesis
  proof (elim disjE exE conjE)
    fix ds m
    assume i: "integral_digits k [] p1 pow10 s p2 delta dst = Some (Inl ([] @ ds, int m))" "length ds + m = k"
      "good_digits ds" "10 ^ (k - 1) \<le> unat p1 \<longrightarrow> hd ds \<noteq> CHR ''0''"
      "reaches ds (10 ^ m * 2 ^ s) (unat p1 * 2 ^ s + unat p2) (unat delta)"
    obtain rest where r: "rest \<le> a - b" "digits_nat ds * (10 ^ m * 2 ^ s) + rest = a" "a - b < 10 * (10 ^ m * 2 ^ s)"
      using i(5) unfolding tot ud reaches_def by auto
    have lo: "b \<le> digits_nat ds * 10 ^ m * 2 ^ s" and hi: "digits_nat ds * 10 ^ m * 2 ^ s \<le> a"
      using r(1,2) m(2) by (simp_all add: a_def b_def mult.assoc)
    have "(a - b) * 10 ^ length ds < 10 * (10 ^ m * 2 ^ s) * 10 ^ length ds"
      using r(3) by (intro mult_strict_right_mono) simp_all
    also have "\<dots> = 10 * (10 ^ (length ds + m) * 2 ^ s)" by (simp add: power_add mult_ac)
    also have "\<dots> = 100 * (10 ^ (k - 1) * 2 ^ s)" unfolding i(2) using k(1) by (cases k) simp_all
    also have "\<dots> \<le> 100 * a" using k2 by simp
    finally have len: "(a - b) * 10 ^ length ds < 100 * a" .
    have "grisu2_digit_gen K M w P = Some (ds, K + int m)" unfolding gen i(1) by simp
    moreover have "of_nat b \<le> of_nat (digits_nat ds) * 10 powi int m * (2 :: rat) ^ s"
      using lo [THEN of_nat_mono [where 'a = rat]] by simp
    moreover have "of_nat (digits_nat ds) * 10 powi int m * (2 :: rat) ^ s \<le> of_nat a"
      using hi [THEN of_nat_mono [where 'a = rat]] by simp
    ultimately show ?thesis using i(3,4) k(3) len by (intro exI [of _ ds] exI [of _ "int m"]) (simp add: a_def b_def)
  next
    fix ds
    assume i: "integral_digits k [] p1 pow10 s p2 delta dst = Some (Inr ([] @ ds))" "length ds = k" "decimal ds"
      "10 ^ (k - 1) \<le> unat p1 \<longrightarrow> 0 < k \<longrightarrow> hd ds \<noteq> CHR ''0''" "digits_nat ds = unat p1" "unat delta < unat p2"
    obtain es rest where f: "fraction_digits ds 0 s p2 delta dst = Some (ds @ es, 0 + length es)" "good_digits es"
      "rest \<le> unat delta * 10 ^ length es" "digits_nat es * 2 ^ s + rest = unat p2 * 10 ^ length es"
      "unat delta * 10 ^ length es < 10 * 2 ^ s"
      using fraction_ok [OF s(2) p2s i(6) d(1)] by blast
    let ?n = "length es"
    have v: "digits_nat (ds @ es) * 2 ^ s + rest = a * 10 ^ ?n"
      using f(4) i(5) by (simp add: digits_nat_app algebra_simps flip: tot)
    have lo: "b * 10 ^ ?n \<le> digits_nat (ds @ es) * 2 ^ s"
    proof -
      have "a * 10 ^ ?n \<le> digits_nat (ds @ es) * 2 ^ s + (a - b) * 10 ^ ?n" using v f(3) [unfolded ud] by linarith
      moreover have "a * 10 ^ ?n = (a - b) * 10 ^ ?n + b * 10 ^ ?n"
        using m(2) by (simp add: a_def b_def flip: add_mult_distrib)
      ultimately show ?thesis by linarith
    qed
    have hi: "digits_nat (ds @ es) * 2 ^ s \<le> a * 10 ^ ?n" using v by linarith
    have "(a - b) * 10 ^ length (ds @ es) = unat delta * 10 ^ ?n * 10 ^ k" by (simp add: ud i(2) power_add mult_ac)
    also have "\<dots> < 10 * 2 ^ s * 10 ^ k" using f(5) by (intro mult_strict_right_mono) simp_all
    also have "\<dots> = 100 * (10 ^ (k - 1) * 2 ^ s)" using k(1) by (cases k) simp_all
    also have "\<dots> \<le> 100 * a" using k2 by simp
    finally have len: "(a - b) * 10 ^ length (ds @ es) < 100 * a" .
    have "grisu2_digit_gen K M w P = Some (ds @ es, K + - int ?n)" unfolding gen i(1) by (simp add: f(1))
    moreover have "good_digits (ds @ es)" using f(2) i(3) by (auto simp: good_digits_def)
    moreover have "hd (ds @ es) \<noteq> CHR ''0''" using i(2,4) k by (cases ds) simp_all
    moreover have "of_nat b \<le> of_nat (digits_nat (ds @ es)) * 10 powi (- int ?n) * (2 :: rat) ^ s"
    proof -
      have "rat_of_nat (b * 10 ^ ?n) \<le> of_nat (digits_nat (ds @ es) * 2 ^ s)" using lo by (simp only: of_nat_le_iff)
      then show ?thesis by (simp add: power_int_minus field_simps)
    qed
    moreover have "of_nat (digits_nat (ds @ es)) * 10 powi (- int ?n) * (2 :: rat) ^ s \<le> of_nat a"
    proof -
      have "rat_of_nat (digits_nat (ds @ es) * 2 ^ s) \<le> of_nat (a * 10 ^ ?n)" using hi by (simp only: of_nat_le_iff)
      then show ?thesis by (simp add: power_int_minus field_simps)
    qed
    ultimately show ?thesis using len by (intro exI [of _ "ds @ es"] exI [of _ "- int ?n"]) (simp add: a_def b_def)
  qed
qed

section \<open>The scaled boundaries\<close>

text \<open>
  The product of a significand with a cached power is the scaled number to less than one unit: half a unit from the
  rounding of the product, less than half a unit from that of the power.
\<close>

lemma scaled_close:
  fixes f C :: nat and t c :: rat
  assumes "f < 2 ^ 64" and "\<bar>of_nat C - c\<bar> \<le> 1 / 2"
  shows "\<bar>of_nat ((f * C + 2 ^ 63) div 2 ^ 64) - of_nat f * c / 2 ^ 64\<bar> < (1 :: rat)"
proof -
  define W where "W = (f * C + 2 ^ 63) div 2 ^ 64"
  have "W * 2 ^ 64 \<le> f * C + 2 ^ 63" "f * C + 2 ^ 63 < W * 2 ^ 64 + 2 ^ 64"
  proof -
    have "(f * C + 2 ^ 63) mod 2 ^ 64 < 2 ^ 64" by (rule mod_less_divisor) simp
    with div_mult_mod_eq [of "f * C + 2 ^ 63" "2 ^ 64"]
    show "W * 2 ^ 64 \<le> f * C + 2 ^ 63" "f * C + 2 ^ 63 < W * 2 ^ 64 + 2 ^ 64" unfolding W_def by linarith+
  qed
  then have "rat_of_nat (W * 2 ^ 64) \<le> of_nat (f * C + 2 ^ 63)" "rat_of_nat (f * C + 2 ^ 63) < of_nat (W * 2 ^ 64 + 2 ^ 64)"
    by (simp_all only: of_nat_le_iff of_nat_less_iff)
  then have r: "\<bar>of_nat W - of_nat f * of_nat C / 2 ^ 64\<bar> \<le> (1 / 2 :: rat)"
    by (simp add: abs_le_iff field_simps)
  have "\<bar>of_nat f * (of_nat C - c)\<bar> \<le> of_nat f * (1 / 2)"
    unfolding abs_mult abs_of_nat using assms(2) by (rule mult_left_mono) simp
  moreover have "rat_of_nat f < of_nat (2 ^ 64)" using assms(1) by (simp only: of_nat_less_iff)
  ultimately have "\<bar>of_nat f * (of_nat C - c)\<bar> < 2 ^ 63" by simp
  moreover have "of_nat f * of_nat C / 2 ^ 64 - of_nat f * c / 2 ^ 64 = of_nat f * (of_nat C - c) / 2 ^ 64"
    by (simp add: algebra_simps diff_divide_distrib)
  ultimately have "\<bar>of_nat f * of_nat C / 2 ^ 64 - of_nat f * c / 2 ^ 64\<bar> < 1 / 2"
    by (simp only: abs_divide) (simp add: field_simps)
  with r show ?thesis unfolding W_def [symmetric] by linarith
qed

lemma scaled_gap:
  fixes W1 W2 :: nat and t1 t2 :: rat
  assumes "\<bar>of_nat W1 - t1\<bar> < 1" and "\<bar>of_nat W2 - t2\<bar> < 1" and "2 ^ 9 \<le> t1 - t2" and "t1 < 2 ^ 53 * (t1 - t2)"
  shows "W2 + 1 < W1 - 1" and "W1 - 1 \<le> 10 ^ 16 * (W1 - 1 - (W2 + 1))"
proof -
  have lt: "of_nat W2 + 3 < (of_nat W1 :: rat)" using assms(1-3) by (simp add: abs_less_iff)
  then have "rat_of_nat (W2 + 3) < of_nat W1" by simp
  then have w: "W2 + 3 < W1" by (simp only: of_nat_less_iff)
  then show "W2 + 1 < W1 - 1" by simp
  have "rat_of_nat (W1 - 1) \<le> 10 ^ 16 * (of_nat W1 - of_nat W2 - 2)"
    using assms w by (simp add: abs_less_iff of_nat_diff)
  also have "\<dots> = of_nat (10 ^ 16 * (W1 - 1 - (W2 + 1)))" using w by (simp add: of_nat_diff)
  finally show "W1 - 1 \<le> 10 ^ 16 * (W1 - 1 - (W2 + 1))" by (simp only: of_nat_le_iff)
qed

section \<open>The whole algorithm\<close>

definition exact_digits :: "nat \<Rightarrow> string \<Rightarrow> int \<Rightarrow> bool" where
  "exact_digits b buf de \<longleftrightarrow>
     lower_bound b < of_nat (digits_nat buf) * 10 powi de \<and> of_nat (digits_nat buf) * 10 powi de < upper_bound b"

theorem grisu2_exact:
  assumes "0 < unat bits" and "unat bits < infinity_bits"
  shows "\<exists>buf de. grisu2 bits = Some (buf, de) \<and> good_digits buf \<and> hd buf \<noteq> CHR ''0'' \<and> length buf \<le> 17 \<and>
    exact_digits (unat bits) buf de"
proof -
  define b where "b = unat bits"
  obtain j where j: "2 ^ 63 \<le> plus_sig b j" "plus_sig b j < 2 ^ 64"
    using plus_sig_shift [OF assms(1)] unfolding b_def by blast
  define q where "q = exp_of b - 1 - int j"
  obtain B where B: "compute_boundaries bits = Some B" "unat (dsig (bplus B)) = plus_sig b j"
    "unat (dsig (bw B)) = sig_of b * 2 ^ (j + 1)" "unat (dsig (bminus B)) = minus_sig b j"
    "dexp (bplus B) = q" "dexp (bw B) = q" "dexp (bminus B) = q"
    using compute_boundaries_ok [OF assms(1) j [unfolded b_def]] unfolding b_def q_def by metis
  note dist = sig_distances [OF assms(1) [folded b_def] j]
  have q: "- 1137 \<le> q" "q \<le> 960" unfolding q_def using exp_range [OF assms [folded b_def] j] by auto
  define cp where "cp = get_cached_power_for_binary_exponent q"
  note cp = cached_power_ok [OF q, folded cp_def]
  define C c k where "C = unat (cp_f cp)" and "c = (10 :: rat) powi cp_k cp * 2 powi (- cp_e cp)" and "k = cp_k cp"
  have cc: "\<bar>of_nat C - c\<bar> \<le> (1 / 2 :: rat)" using cp(4) by (simp only: C_def c_def)
  define C' where "C' = \<lparr>dsig = cp_f cp, dexp = cp_e cp\<rparr>"
  define W1 W2 where "W1 = (plus_sig b j * C + 2 ^ 63) div 2 ^ 64" and "W2 = (minus_sig b j * C + 2 ^ 63) div 2 ^ 64"
  define t1 t2 where "t1 = of_nat (plus_sig b j) * c / 2 ^ 64" and "t2 = of_nat (minus_sig b j) * c / 2 ^ 64"
  have ml: "minus_sig b j < 2 ^ 64" using dist(3,4) j(2) by linarith
  have W: "\<bar>of_nat W1 - t1\<bar> < 1" "\<bar>of_nat W2 - t2\<bar> < 1"
    unfolding W1_def W2_def t1_def t2_def by (rule scaled_close [OF j(2) cc], rule scaled_close [OF ml cc])
  have c63: "2 ^ 64 * (3 / 8) \<le> c"
  proof -
    have "rat_of_nat (2 ^ 63) \<le> of_nat C" using cp(3) by (simp only: of_nat_le_iff C_def)
    then have "2 ^ 63 \<le> rat_of_nat C" by (simp only: of_nat_power of_nat_numeral)
    moreover have "rat_of_nat C - c \<le> 1 / 2" using cc by (simp only: abs_le_iff)
    ultimately have "2 ^ 63 - 1 / 2 \<le> c" by linarith
    moreover have "2 ^ 64 * (3 / 8) \<le> (2 ^ 63 - 1 / 2 :: rat)" by simp
    ultimately show ?thesis by (rule order_trans [rotated])
  qed
  have gap: "2 ^ 9 \<le> t1 - t2" "t1 < 2 ^ 53 * (t1 - t2)"
  proof -
    have le: "minus_sig b j \<le> plus_sig b j" using dist(3,4) by linarith
    have "(2 :: nat) ^ 10 \<le> 2 ^ j" "(2 :: nat) ^ 9 \<le> 2 ^ (j - 1)" using dist(1) by (intro power_increasing; simp)+
    with dist(3,4) have "1536 \<le> plus_sig b j - minus_sig b j" by simp
    then have g: "rat_of_nat 1536 \<le> of_nat (plus_sig b j - minus_sig b j)" by (simp only: of_nat_le_iff)
    have d: "t1 - t2 = of_nat (plus_sig b j - minus_sig b j) * (c / 2 ^ 64)"
      using le by (simp add: t1_def t2_def of_nat_diff algebra_simps diff_divide_distrib)
    have "1536 * (3 / 8) \<le> rat_of_nat (plus_sig b j - minus_sig b j) * (c / 2 ^ 64)"
      using g c63 by (intro mult_mono) simp_all
    then have "1536 * (3 / 8) \<le> t1 - t2" by (simp only: d)
    moreover have "2 ^ 9 \<le> (1536 * (3 / 8) :: rat)" by simp
    ultimately show "2 ^ 9 \<le> t1 - t2" by (rule order_trans [rotated])
    have "rat_of_nat (plus_sig b j) < of_nat (2 ^ 53 * (plus_sig b j - minus_sig b j))"
      using dist(5) by (simp only: of_nat_less_iff)
    then have "rat_of_nat (plus_sig b j) * (c / 2 ^ 64) < of_nat (2 ^ 53 * (plus_sig b j - minus_sig b j)) * (c / 2 ^ 64)"
      using c63 by (intro mult_strict_right_mono) simp_all
    then show "t1 < 2 ^ 53 * (t1 - t2)" unfolding d by (simp only: t1_def of_nat_mult of_nat_power of_nat_numeral times_divide_eq_right mult.assoc)
  qed
  note wide = scaled_gap [OF W gap]
  define M where "M = \<lparr>dsig = dsig (diyfp_mul (bminus B) C') + 1, dexp = dexp (diyfp_mul (bminus B) C')\<rparr>"
  define P where "P = \<lparr>dsig = dsig (diyfp_mul (bplus B) C') - 1, dexp = dexp (diyfp_mul (bplus B) C')\<rparr>"
  have m: "unat (dsig (diyfp_mul (bplus B) C')) = W1" "unat (dsig (diyfp_mul (bminus B) C')) = W2"
    by (simp_all only: diyfp_mul_sig B C'_def diyfp.simps W1_def W2_def C_def)
  have W64: "W1 < 2 ^ 64" using unat_bound [of "dsig (diyfp_mul (bplus B) C')"] by (simp add: m)
  have "unat (dsig (diyfp_mul (bminus B) C') + 1) = W2 + 1"
    using wide(1) W64 by (subst unat_add_small) (simp_all add: m)
  then have uM: "unat (dsig M) = W2 + 1" by (simp add: M_def)
  have "1 \<le> dsig (diyfp_mul (bplus B) C')" using wide(1) by (simp add: word_le_nat_alt m)
  then have uP: "unat (dsig P) = W1 - 1" by (simp add: P_def unat_diff m)
  have eP: "dexp P = cp_e cp + q + 64" by (simp add: P_def B C'_def)
  have P60: "2 ^ 60 \<le> W1 - 1"
  proof -
    have "2 ^ 63 * (3 / 8) \<le> rat_of_nat (plus_sig b j) * (c / 2 ^ 64)"
    proof (rule mult_mono)
      have "rat_of_nat (2 ^ 63) \<le> of_nat (plus_sig b j)" using j(1) by (simp only: of_nat_le_iff)
      then show "2 ^ 63 \<le> rat_of_nat (plus_sig b j)" by simp
    qed (use c63 in simp_all)
    then have "rat_of_nat (2 ^ 60 + 1) < of_nat W1" using W(1) by (simp add: t1_def abs_less_iff)
    then have "2 ^ 60 + 1 < W1" by (simp only: of_nat_less_iff)
    then show ?thesis by simp
  qed
  define s where "s = nat (- dexp P)"
  obtain buf x where d: "grisu2_digit_gen (- k) M (diyfp_mul (bw B) C') P = Some (buf, - k + x)" "good_digits buf"
      "hd buf \<noteq> CHR ''0''" "rat_of_nat (W2 + 1) \<le> of_nat (digits_nat buf) * 10 powi x * 2 ^ s"
      "of_nat (digits_nat buf) * 10 powi x * 2 ^ s \<le> rat_of_nat (W1 - 1)"
      "(W1 - 1 - (W2 + 1)) * 10 ^ length buf < 100 * (W1 - 1)"
  proof -
    have pos: "0 < W2 + 1" by simp
    have "- 60 \<le> dexp P" "dexp P \<le> - 32" using cp(1,2) by (simp_all add: eP)
    from digit_gen_ok [OF this, of M "- k" "diyfp_mul (bw B) C'", folded s_def, unfolded uM uP, OF pos wide(1) P60] that
    show thesis by blast
  qed
  have "grisu2 bits = Some (buf, - k + x)"
    using d(1) unfolding M_def P_def k_def
    by (simp only: grisu2_def B(1) option.case grisu2_scaled_def Let_def B(5) cp_def [symmetric] C'_def [symmetric])
  moreover have "length buf \<le> 17"
  proof (rule ccontr)
    assume "\<not> length buf \<le> 17"
    then have "(10 :: nat) ^ 18 \<le> 10 ^ length buf" by (intro power_increasing) simp_all
    then have "(W1 - 1 - (W2 + 1)) * 10 ^ 18 \<le> (W1 - 1 - (W2 + 1)) * 10 ^ length buf" by (rule mult_le_mono2)
    also note d(6)
    also have "100 * (W1 - 1) \<le> 100 * (10 ^ 16 * (W1 - 1 - (W2 + 1)))" using wide(2) by (rule mult_le_mono2)
    finally show False by simp
  qed
  moreover have "exact_digits b buf (- k + x)"
  proof -
    have s: "(2 :: rat) ^ s = 2 powi (- (cp_e cp + q + 64))" using cp(2) by (simp add: s_def eP power_int_def)
    define V where "V = rat_of_nat (digits_nat buf) * 10 powi x"
    have scale: "rat_of_nat f * c / 2 ^ 64 = of_nat f * 2 powi q * 10 powi k * 2 ^ s" for f
    proof -
      have "(2 :: rat) powi q * 2 ^ s = 2 powi (- cp_e cp - 64)" unfolding s by (simp flip: power_int_add)
      also have "\<dots> = 2 powi (- cp_e cp) / 2 ^ 64" by (simp add: power_int_diff)
      finally have "2 powi (- cp_e cp) / 2 ^ 64 = (2 :: rat) powi q * 2 ^ s" by (rule sym)
      then have "of_nat f * (10 powi k * (2 powi (- cp_e cp) / 2 ^ 64)) = rat_of_nat f * (10 powi k * (2 powi q * 2 ^ s))"
        by (rule arg_cong)
      then show ?thesis by (simp add: c_def k_def mult_ac)
    qed
    have "t2 < V * 2 ^ s" "V * 2 ^ s < t1"
      using W d(4,5) wide(1) by (simp_all add: V_def abs_less_iff of_nat_diff)
    then have "rat_of_nat (minus_sig b j) * 2 powi q * 10 powi k < V" "V < of_nat (plus_sig b j) * 2 powi q * 10 powi k"
      unfolding t1_def t2_def scale by (simp_all only: mult_less_cancel_right_pos zero_less_power zero_less_numeral)
    moreover have "lower_bound b = of_nat (minus_sig b j) * 2 powi q" "upper_bound b = of_nat (plus_sig b j) * 2 powi q"
      using bounds_as_sigs [of b j] assms(1) dist(1) by (simp_all add: b_def q_def)
    moreover have "rat_of_nat (digits_nat buf) * 10 powi (- k + x) = V / 10 powi k"
      by (simp add: V_def power_int_diff)
    moreover have "(0 :: rat) < 10 powi k" by simp
    ultimately show ?thesis
      unfolding exact_digits_def by (simp only: pos_less_divide_eq pos_divide_less_eq simp_thms)
  qed
  ultimately show ?thesis using d(2,3) by (intro exI [of _ buf] exI [of _ "- k + x"]) (simp add: b_def)
qed

end
