(* ===== verification/Dtoa_Format.thy ===== *)
theory Dtoa_Format
  imports Dtoa_Grisu Json_Roundtrip
begin

text \<open>
  The text of a \<open>double\<close>: it is a number of the JSON grammar with a fraction or an exponent, so the lexer hands all
  of it to \<open>strtod\<close>, and its value is that of the digits.
\<close>

section \<open>The value of a text\<close>

definition number_value :: "string \<Rightarrow> rat" where
  "number_value s =
     (let mantissa = takeWhile (\<lambda>c. \<not> is_exp c) s; ex = drop (length mantissa + 1) s;
          whole = takeWhile (\<lambda>c. c \<noteq> CHR ''.'') mantissa; frac = drop (length whole + 1) mantissa;
          e = (case ex of
                 [] \<Rightarrow> 0
               | c # ds \<Rightarrow>
                   if c = CHR ''-'' then - int (digits_nat ds)
                   else if c = CHR ''+'' then int (digits_nat ds) else int (digits_nat ex)) in
      of_nat (digits_nat (whole @ frac)) * 10 powi (e - int (length frac)))"

definition whole_ok :: "string \<Rightarrow> bool" where
  "whole_ok w \<longleftrightarrow> w = ''0'' \<or> w \<noteq> [] \<and> decimal w \<and> hd w \<noteq> CHR ''0''"

definition digits_ok :: "string \<Rightarrow> bool" where
  "digits_ok ds \<longleftrightarrow> ds \<noteq> [] \<and> decimal ds"

definition frac_text :: "string option \<Rightarrow> string" where
  "frac_text f = (case f of None \<Rightarrow> [] | Some ds \<Rightarrow> CHR ''.'' # ds)"

definition expo_text :: "(bool \<times> string) option \<Rightarrow> string" where
  "expo_text x = (case x of None \<Rightarrow> [] | Some (neg, ds) \<Rightarrow> CHR ''e'' # (if neg then CHR ''-'' else CHR ''+'') # ds)"

definition parts_ok :: "string \<Rightarrow> string option \<Rightarrow> (bool \<times> string) option \<Rightarrow> bool" where
  "parts_ok w f x \<longleftrightarrow> whole_ok w \<and> (\<forall>ds. f = Some ds \<longrightarrow> digits_ok ds) \<and> (\<forall>neg ds. x = Some (neg, ds) \<longrightarrow> digits_ok ds)"

definition expo_value :: "(bool \<times> string) option \<Rightarrow> int" where
  "expo_value x = (case x of None \<Rightarrow> 0 | Some (neg, ds) \<Rightarrow> if neg then - int (digits_nat ds) else int (digits_nat ds))"

definition frac_digits :: "string option \<Rightarrow> string" where
  "frac_digits f = (case f of None \<Rightarrow> [] | Some ds \<Rightarrow> ds)"

lemma decimal_digit: "decimal ds \<Longrightarrow> c \<in> set ds \<Longrightarrow> is_digit c"
  by (auto simp: decimal_def is_digit_def byte_def digit_char_def)

lemma digit_no_mark: "is_digit c \<Longrightarrow> \<not> is_exp c \<and> c \<noteq> CHR ''.''"
  by (auto simp: is_digit_def is_exp_def byte_def)

lemma whole_digits: "whole_ok w \<Longrightarrow> decimal w \<and> w \<noteq> []"
  using digit_char_numerals(1) by (force simp: whole_ok_def)

lemma takeWhile_all_stop:
  "\<forall>c \<in> set xs. P c \<Longrightarrow> \<not> P c \<Longrightarrow> takeWhile P (xs @ c # ys) = xs"
  by (induction xs) simp_all

lemma number_value_parts:
  assumes "parts_ok w f x"
  shows "number_value (w @ frac_text f @ expo_text x) =
    of_nat (digits_nat (w @ frac_digits f)) * 10 powi (expo_value x - int (length (frac_digits f)))"
proof -
  have w: "\<forall>c \<in> set w. \<not> is_exp c \<and> c \<noteq> CHR ''.''"
    using assms whole_digits decimal_digit digit_no_mark unfolding parts_ok_def by blast
  have f: "\<forall>c \<in> set (frac_digits f). \<not> is_exp c \<and> c \<noteq> CHR ''.''"
    using assms decimal_digit digit_no_mark unfolding parts_ok_def digits_ok_def frac_digits_def
    by (cases f) (fastforce)+
  have wf: "\<forall>c \<in> set (w @ frac_text f). \<not> is_exp c"
    using w f by (auto simp: frac_text_def frac_digits_def is_exp_def split: option.splits)
  have m: "takeWhile (\<lambda>c. \<not> is_exp c) (w @ frac_text f @ expo_text x) = w @ frac_text f"
  proof (cases x)
    case None
    then show ?thesis using wf by (simp add: expo_text_def takeWhile_eq_all_conv)
  next
    case (Some p)
    obtain neg ds where p: "p = (neg, ds)" by (cases p)
    have e: "\<not> \<not> is_exp (CHR ''e'')" by (simp add: is_exp_def)
    show ?thesis
      using takeWhile_all_stop [OF wf e] Some p by (simp add: expo_text_def)
  qed
  have u: "takeWhile (\<lambda>c. c \<noteq> CHR ''.'') (w @ frac_text f) = w"
  proof (cases f)
    case None
    then show ?thesis using w by (simp add: frac_text_def takeWhile_eq_all_conv)
  next
    case (Some ds)
    then show ?thesis using takeWhile_all_stop [of w "\<lambda>c. c \<noteq> CHR ''.''" "CHR ''.''" ds] w by (simp add: frac_text_def)
  qed
  have fr: "drop (length w + 1) (w @ frac_text f) = frac_digits f"
    by (simp add: frac_text_def frac_digits_def split: option.split)
  have ex: "drop (length (w @ frac_text f) + 1) (w @ frac_text f @ expo_text x) = drop 1 (expo_text x)"
    by simp
  show ?thesis
    unfolding number_value_def m u ex fr Let_def
    by (simp add: expo_text_def expo_value_def split: option.split prod.split)
qed

section \<open>The lexer\<close>

lemma loop_digits:
  "decimal ds \<Longrightarrow> st \<in> {N_any1, N_decimal2, N_any2} \<Longrightarrow>
    number_loop strtod st t buf (ds @ s) = number_loop strtod st t (buf @ ds) s"
proof (induction ds arbitrary: buf)
  case (Cons c ds)
  have "is_digit c" using Cons.prems(1) by (rule decimal_digit) simp
  moreover have "number_loop strtod st t (buf @ [c]) (ds @ s) = number_loop strtod st t ((buf @ [c]) @ ds) s"
    using Cons.prems by (intro Cons.IH) auto
  ultimately show ?case using Cons.prems(2) by auto
qed simp

lemma loop_end:
  "delim r \<Longrightarrow> st \<in> {N_decimal2, N_any2} \<Longrightarrow> number_loop strtod st t buf r = (number_done strtod t buf, r)"
  by (cases r) (auto simp: delim_def is_exp_def is_digit_def byte_def)


lemma loop_expo:
  assumes "\<And>neg ds. x = Some (neg, ds) \<Longrightarrow> digits_ok ds" and "delim r"
    and "st = N_decimal2 \<or> x \<noteq> None \<and> st \<in> {N_any1, N_zero}"
  shows "number_loop strtod st t buf (expo_text x @ r) =
    (number_done strtod (if x = None then t else Nt_float) (buf @ expo_text x), r)"
proof (cases x)
  case None
  then show ?thesis using assms(2,3) by (simp add: expo_text_def loop_end)
next
  case (Some p)
  then obtain neg c ds where x: "x = Some (neg, c # ds)" "decimal (c # ds)"
    using assms(1) by (cases p, cases "snd p") (auto simp: digits_ok_def)
  have c: "is_digit c" using x(2) by (rule decimal_digit) simp
  have e: "is_exp (CHR ''e'')" "\<not> is_digit (CHR ''e'')" "\<not> is_digit (CHR ''+'')" "\<not> is_digit (CHR ''-'')"
    by (simp_all add: is_exp_def is_digit_def byte_def)
  have "number_loop strtod N_any2 Nt_float (buf @ [CHR ''e'', m, c]) (ds @ r) =
      (number_done strtod Nt_float (buf @ CHR ''e'' # m # c # ds), r)" for m
    using x(2) assms(2) by (simp add: loop_digits loop_end)
  then show ?thesis using assms(3) c e by (cases neg) (auto simp: x expo_text_def)
qed

lemma loop_frac:
  assumes p: "\<And>ds. f = Some ds \<Longrightarrow> digits_ok ds" "\<And>neg ds. x = Some (neg, ds) \<Longrightarrow> digits_ok ds" and "delim r"
    and "f \<noteq> None \<or> x \<noteq> None" and "st \<in> {N_any1, N_zero}"
  shows "number_loop strtod st t buf (frac_text f @ expo_text x @ r) =
    (number_done strtod Nt_float (buf @ frac_text f @ expo_text x), r)"
proof (cases f)
  case None
  then show ?thesis using loop_expo [OF p(2) assms(3), where t = t and st = st and strtod = strtod and buf = buf] assms(4,5) by (auto simp: frac_text_def)
next
  case (Some ds')
  then obtain c ds where f: "f = Some (c # ds)" "decimal (c # ds)"
    using p(1) by (cases ds') (auto simp: digits_ok_def)
  have c: "is_digit c" using f(2) by (rule decimal_digit) simp
  have d: "\<not> is_exp (CHR ''.'')" "\<not> is_digit (CHR ''.'')" by (simp_all add: is_exp_def is_digit_def byte_def)
  have "number_loop strtod N_decimal2 Nt_float (buf @ [CHR ''.'', c]) (ds @ expo_text x @ r) =
      (number_done strtod Nt_float (buf @ CHR ''.'' # c # ds @ expo_text x), r)"
    using f(2) loop_expo [OF p(2) assms(3), where t = Nt_float and st = N_decimal2 and strtod = strtod
        and buf = "buf @ CHR ''.'' # c # ds"]
    by (simp add: loop_digits)
  then show ?thesis using assms(5) c d by (auto simp: f frac_text_def)
qed

lemma loop_float:
  assumes p: "parts_ok (c # w) f x" and r: "delim r" and n: "f \<noteq> None \<or> x \<noteq> None"
  shows "number_loop strtod (if c = CHR ''0'' then N_zero else N_any1) t (buf @ [c]) (w @ frac_text f @ expo_text x @ r) =
    (number_done strtod Nt_float (buf @ c # w @ frac_text f @ expo_text x), r)"
proof -
  have q: "\<And>ds. f = Some ds \<Longrightarrow> digits_ok ds" "\<And>neg ds. x = Some (neg, ds) \<Longrightarrow> digits_ok ds"
    using p by (auto simp: parts_ok_def)
  have "w = [] \<and> c = CHR ''0'' \<or> decimal w \<and> c \<noteq> CHR ''0''"
    using p by (auto simp: parts_ok_def whole_ok_def)
  then show ?thesis
    using loop_frac [OF q r n, where st = N_zero and strtod = strtod and t = t and buf = "buf @ [c]"]
      loop_frac [OF q r n, where st = N_any1 and strtod = strtod and t = t and buf = "(buf @ [c]) @ w"]
      loop_digits [of w N_any1 strtod t "buf @ [c]" "frac_text f @ expo_text x @ r"]
    by auto
qed

text \<open>The whole text reaches \<open>strtod\<close>, with or without a sign.\<close>

lemma scan_float:
  assumes p: "parts_ok w f x" and r: "delim r" and n: "f \<noteq> None \<or> x \<noteq> None"
  defines "t \<equiv> w @ frac_text f @ expo_text x"
  shows "scan strtod (t @ r) = (Tok_float (strtod t), r)"
    and "scan strtod (CHR ''-'' # t @ r) = (Tok_float (strtod (CHR ''-'' # t)), r)"
proof -
  obtain c v where w: "w = c # v" using p whole_digits [of w] by (cases w) (auto simp: parts_ok_def)
  have c: "is_digit c"
    using p whole_digits [of w] decimal_digit [of w c] by (auto simp: parts_ok_def w)
  then have b: "48 \<le> byte c" "byte c \<le> 57" by (simp_all add: is_digit_def)
  have et: "enter_type (if c = CHR ''0'' then N_zero else N_any1) Nt_unsigned = Nt_unsigned" by simp
  note l = loop_float [OF p [unfolded w] r n, where strtod = strtod]
  show "scan strtod (t @ r) = (Tok_float (strtod t), r)"
    using l [where t = Nt_unsigned and buf = "[]"] c b digit_not_punct [OF c]
    by (simp add: scan_def skip_whitespace_def t_def w scan_number_def number_done_def et split del: if_split)
  show "scan strtod (CHR ''-'' # t @ r) = (Tok_float (strtod (CHR ''-'' # t)), r)"
    using l [where t = Nt_integer and buf = "''-''"] c digit_not_punct [OF c]
    by (cases "c = CHR ''0''")
      (simp_all add: scan_def skip_whitespace_def t_def w scan_number_def number_done_def is_digit_def byte_def)
qed

section \<open>Formatting\<close>

lemma append_exponent_ok:
  assumes "\<bar>e\<bar> < 1000"
  shows "\<exists>neg ds. CHR ''e'' # append_exponent e = expo_text (Some (neg, ds)) \<and> digits_ok ds \<and>
    expo_value (Some (neg, ds)) = e \<and> length ds \<le> 3"
proof -
  define k where "k = nat \<bar>e\<bar>"
  have k: "k < 1000" "e = (if e < 0 then - int k else int k)" using assms by (auto simp: k_def)
  define ds where "ds = (if k < 10 then [CHR ''0'', digit_char k]
       else if k < 100 then [digit_char (k div 10), digit_char (k mod 10)]
       else [digit_char (k div 100), digit_char (k mod 100 div 10), digit_char (k mod 100 mod 10)])"
  have d: "\<exists>d \<le> 9. CHR ''0'' = digit_char d" using digit_char_numerals(1) by (metis zero_le)
  have small: "k div 10 \<le> 9" if "k < 100" using that by simp
  have small': "k div 100 \<le> 9" "k mod 100 div 10 \<le> 9" using k(1) by simp_all
  have c: "decimal (digit_char d # xs) \<longleftrightarrow> decimal xs" if "d \<le> 9" for d xs using that by auto
  have z: "decimal (CHR ''0'' # xs) \<longleftrightarrow> decimal xs" for xs using d by simp
  have "decimal ds" unfolding ds_def using small small' by (simp add: c z del: decimal_simps(2))
  then have "digits_ok ds" by (simp add: digits_ok_def ds_def)
  moreover have "digits_nat ds = k"
  proof -
    have "k = k div 100 * 100 + k mod 100 div 10 * 10 + k mod 100 mod 10" "k = k div 10 * 10 + k mod 10" by presburger+
    then show ?thesis using small small' by (auto simp: ds_def digits_nat_def char_digit_def [of "CHR ''0''"])
  qed
  moreover have "length ds \<le> 3" by (simp add: ds_def)
  moreover have "CHR ''e'' # append_exponent e = expo_text (Some (e < 0, ds))"
    by (simp add: append_exponent_def Let_def k_def [symmetric] ds_def expo_text_def)
  ultimately show ?thesis using k(2)
    by (intro exI [of _ "e < 0"] exI [of _ ds]) (simp add: expo_value_def split: if_splits)
qed

lemma digits_zeros: "digits_nat (replicate n (CHR ''0'')) = 0"
  by (induction n) (simp_all add: digits_nat_cons char_digit_def, simp add: digits_nat_def)

lemma decimal_zeros: "decimal (replicate n (CHR ''0''))"
  using digit_char_numerals(1) by (force simp: decimal_def)

lemma format_buffer_ok:
  assumes buf: "good_digits buf" "hd buf \<noteq> CHR ''0''" "length buf \<le> 17"
    and de: "\<bar>int (length buf) + de - 1\<bar> < 1000"
  shows "\<exists>w f x. format_buffer buf de (- 4) 15 = w @ frac_text f @ expo_text x \<and> parts_ok w f x \<and>
    (f \<noteq> None \<or> x \<noteq> None) \<and> length (w @ frac_text f @ expo_text x) \<le> 23 \<and>
    of_nat (digits_nat (w @ frac_digits f)) * 10 powi (expo_value x - int (length (frac_digits f))) =
      of_nat (digits_nat buf) * (10 :: rat) powi de"
proof -
  define k n where "k = int (length buf)" and "n = k + de"
  have b: "buf \<noteq> []" "decimal buf" using buf(1) by (auto simp: good_digits_def)
  then have k0: "0 < k" by (simp add: k_def)
  consider "k \<le> n \<and> n \<le> 15" | "\<not> (k \<le> n \<and> n \<le> 15)" "0 < n \<and> n \<le> 15"
    | "\<not> (0 < n \<and> n \<le> 15)" "- 4 < n \<and> n \<le> 0" | "\<not> (0 < n \<and> n \<le> 15)" "\<not> (- 4 < n \<and> n \<le> 0)" by blast
  then show ?thesis
  proof cases
    case 1
    let ?z = "replicate (nat (n - k)) (CHR ''0'')"
    have "format_buffer buf de (- 4) 15 = (buf @ ?z) @ frac_text (Some ''0'') @ expo_text None"
      using 1 by (simp add: format_buffer_def Let_def k_def n_def frac_text_def expo_text_def)
    moreover have "parts_ok (buf @ ?z) (Some ''0'') None"
      using b buf(2) decimal_zeros [of 1]
      by (simp add: parts_ok_def whole_ok_def digits_ok_def decimal_zeros)
    moreover have "rat_of_nat (digits_nat ((buf @ ?z) @ ''0'')) * 10 powi (- 1) = of_nat (digits_nat buf) * 10 powi de"
    proof -
      have "digits_nat ((buf @ ?z) @ ''0'') = digits_nat buf * 10 ^ nat (n - k) * 10"
        using digits_zeros [of 1] by (simp add: digits_nat_app digits_zeros)
      moreover have "(10 :: rat) ^ nat (n - k) = 10 powi de" using 1 by (simp add: n_def power_int_def)
      ultimately show ?thesis by (simp add: power_int_minus)
    qed
    moreover have "length ((buf @ ?z) @ frac_text (Some ''0'') @ expo_text None) \<le> 23"
      using 1 by (simp add: frac_text_def expo_text_def k_def) arith
    ultimately show ?thesis
      by (intro exI [of _ "buf @ ?z"] exI [of _ "Some ''0''"] exI [of _ None])
        (simp add: frac_digits_def expo_value_def)
  next
    case 2
    let ?w = "take (nat n) buf" and ?f = "drop (nat n) buf"
    have ne: "?w \<noteq> []" "?f \<noteq> []" using 2 by (auto simp: k_def b)
    have "format_buffer buf de (- 4) 15 = ?w @ frac_text (Some ?f) @ expo_text None"
      using 2 by (simp add: format_buffer_def Let_def k_def n_def frac_text_def expo_text_def)
    moreover have "decimal (?w @ ?f)" using b(2) by simp
    then have "parts_ok ?w (Some ?f) None"
      using ne buf(2) by (auto simp: parts_ok_def whole_ok_def digits_ok_def simp del: append_take_drop_id)
    moreover have "- int (length ?f) = de" using 2 by (simp add: n_def k_def)
    moreover have "length (?w @ frac_text (Some ?f) @ expo_text None) \<le> 23"
      using buf(3) by (simp add: frac_text_def expo_text_def)
    ultimately show ?thesis
      by (intro exI [of _ ?w] exI [of _ "Some ?f"] exI [of _ None]) (simp add: frac_digits_def expo_value_def)
  next
    case 3
    let ?f = "replicate (nat (- n)) (CHR ''0'') @ buf"
    have "de < 0" using 3 k0 by (simp add: n_def)
    then have "format_buffer buf de (- 4) 15 = ''0'' @ frac_text (Some ?f) @ expo_text None"
      using 3 k0 by (simp add: format_buffer_def Let_def k_def n_def frac_text_def expo_text_def)
    moreover have "parts_ok ''0'' (Some ?f) None"
      using b by (simp add: parts_ok_def whole_ok_def digits_ok_def decimal_zeros)
    moreover have "- int (length ?f) = de" using 3 by (simp add: n_def k_def)
    moreover have "digits_nat (''0'' @ ?f) = digits_nat buf"
      by (simp add: digits_nat_cons digits_nat_app digits_zeros char_digit_def)
    moreover have "length (''0'' @ frac_text (Some ?f) @ expo_text None) \<le> 23"
      using buf(3) 3 by (simp add: frac_text_def expo_text_def) arith
    ultimately show ?thesis
      by (intro exI [of _ "''0''"] exI [of _ "Some ?f"] exI [of _ None]) (simp add: frac_digits_def expo_value_def)
  next
    case 4
    obtain neg ds where e: "CHR ''e'' # append_exponent (n - 1) = expo_text (Some (neg, ds))" "digits_ok ds"
      "expo_value (Some (neg, ds)) = n - 1" "length ds \<le> 3"
      using append_exponent_ok [of "n - 1"] de by (auto simp: n_def k_def)
    define f where "f = (if k = 1 then None else Some (drop 1 buf))"
    have f: "(if k = 1 then buf else take 1 buf @ ''.'' @ drop 1 buf) = take 1 buf @ frac_text f"
      using b(1) by (cases buf) (auto simp: f_def frac_text_def k_def)
    have "format_buffer buf de (- 4) 15 = (if k = 1 then buf else take 1 buf @ ''.'' @ drop 1 buf) @ ''e'' @ append_exponent (n - 1)"
    proof -
      have "\<not> (k \<le> n \<and> n \<le> 15)" using 4 k0 by linarith
      with 4 show ?thesis by (simp only: format_buffer_def Let_def k_def [symmetric] n_def [symmetric] if_False)
    qed
    then have t: "format_buffer buf de (- 4) 15 = take 1 buf @ frac_text f @ expo_text (Some (neg, ds))"
      unfolding f by (simp add: e(1) [symmetric])
    moreover have "decimal (take 1 buf @ drop 1 buf)" using b(2) by simp
    then have "parts_ok (take 1 buf) f (Some (neg, ds))"
      using b buf(2) e(2) by (cases buf; auto simp: parts_ok_def whole_ok_def digits_ok_def f_def k_def)
    moreover have "take 1 buf @ frac_digits f = buf"
      using b(1) by (cases buf) (auto simp: f_def frac_digits_def k_def)
    moreover have "n - 1 - int (length (frac_digits f)) = de"
      using b(1) by (cases buf) (auto simp: f_def frac_digits_def n_def k_def)
    moreover have "length (take 1 buf @ frac_text f @ expo_text (Some (neg, ds))) \<le> 23"
      using buf(3) e(4) by (cases buf) (auto simp: f_def frac_text_def expo_text_def)
    ultimately show ?thesis
      by (intro exI [of _ "take 1 buf"] exI [of _ f] exI [of _ "Some (neg, ds)"]) (simp add: e(3))
  qed
qed

end
