(* ===== verification/Dtoa_Claims.thy ===== *)
theory Dtoa_Claims
  imports Dtoa_Format
begin

text \<open>
  What the text of a \<open>double\<close> is good for: rounding it to the nearest \<open>double\<close> gives the number back, and so whole
  JSON documents with floating-point numbers survive printing and parsing.
\<close>

section \<open>The size of the exponent\<close>

lemma digits_nat_less: "decimal ds \<Longrightarrow> digits_nat ds < 10 ^ length ds"
proof (induction ds)
  case (Cons c ds)
  then obtain d where d: "d \<le> 9" "c = digit_char d" "digits_nat ds < 10 ^ length ds" by auto
  then have "d * 10 ^ length ds + digits_nat ds < (d + 1) * 10 ^ length ds" by simp
  also have "\<dots> \<le> 10 * 10 ^ length ds" using d(1) by (intro mult_le_mono1) simp
  finally show ?case using d by (simp add: digits_nat_cons)
qed (simp add: digits_nat_def)

lemma digits_nat_ge: "good_digits ds \<Longrightarrow> hd ds \<noteq> CHR ''0'' \<Longrightarrow> 10 ^ (length ds - 1) \<le> digits_nat ds"
proof (cases ds)
  case (Cons c cs)
  assume "good_digits ds" and "hd ds \<noteq> CHR ''0''"
  then obtain d where d: "d \<le> 9" "c = digit_char d" "0 < d"
    using Cons by (auto simp: good_digits_def digit_char_zero)
  then have "1 * 10 ^ length cs \<le> char_digit c * 10 ^ length cs" by (intro mult_le_mono1) simp
  also have "\<dots> \<le> digits_nat ds" using Cons by (simp add: digits_nat_cons)
  finally show ?thesis using Cons by simp
qed (simp add: good_digits_def)

lemma double_value_range:
  assumes "0 < b" and "b < infinity_bits"
  shows "2 powi (- 1074) \<le> double_value b" and "double_value (b + 1) \<le> 2 powi 1024"
proof -
  have e: "- 1074 \<le> exp_of b" "exp_of b \<le> 971"
  proof -
    have "b div 2 ^ 52 < 0x7FF" using assms(2) by (intro less_mult_imp_div_less) (simp add: infinity_bits_def)
    then show "- 1074 \<le> exp_of b" "exp_of b \<le> 971" by (simp_all add: exp_of_def)
  qed
  have s: "1 \<le> rat_of_nat (sig_of b)" using sig_of_pos [OF assms(1)] by simp
  have "1 * 2 powi (- 1074) \<le> rat_of_nat (sig_of b) * 2 powi exp_of b"
    using s e(1) by (intro mult_mono power_int_increasing) simp_all
  then show "2 powi (- 1074) \<le> double_value b" by (simp add: double_value_def)
  have "sig_of b + 1 \<le> 2 ^ 53" using sig_of_less [of b] by simp
  then have "rat_of_nat (sig_of b + 1) \<le> of_nat (2 ^ 53)" by (simp only: of_nat_le_iff)
  then have "rat_of_nat (sig_of b + 1) * 2 powi exp_of b \<le> 2 powi 53 * 2 powi 971"
    using e(2) by (intro mult_mono power_int_increasing) simp_all
  also have "\<dots> = 2 powi 1024" by (simp flip: power_int_add)
  finally show "double_value (b + 1) \<le> 2 powi 1024" unfolding double_value_next .
qed

lemma eight_ten: "0 \<le> n \<Longrightarrow> (2 :: rat) powi (3 * n) \<le> 10 powi n" "n \<le> 0 \<Longrightarrow> 10 powi n \<le> (2 :: rat) powi (3 * n)"
proof -
  have e: "(2 :: rat) powi (3 * n) = 8 powi n" for n by (simp add: power_int_mult)
  show "0 \<le> n \<Longrightarrow> (2 :: rat) powi (3 * n) \<le> 10 powi n"
    unfolding e by (simp add: power_int_def power_mono)
  show "n \<le> 0 \<Longrightarrow> 10 powi n \<le> (2 :: rat) powi (3 * n)"
    unfolding e by (auto simp: power_int_def intro!: power_mono)
qed

lemma exponent_bound:
  assumes b: "0 < b" "b < infinity_bits" and d: "good_digits buf" "hd buf \<noteq> CHR ''0''" and x: "exact_digits b buf de"
  shows "\<bar>int (length buf) + de - 1\<bar> < 1000"
proof -
  define n where "n = int (length buf) + de"
  have ne: "buf \<noteq> []" "decimal buf" using d(1) by (auto simp: good_digits_def)
  define V where "V = rat_of_nat (digits_nat buf) * 10 powi de"
  have lo: "10 powi (n - 1) \<le> V"
  proof -
    have "rat_of_nat (10 ^ (length buf - 1)) \<le> of_nat (digits_nat buf)"
      using digits_nat_ge [OF d] by (simp only: of_nat_le_iff)
    then have "rat_of_nat (10 ^ (length buf - 1)) * 10 powi de \<le> V" unfolding V_def by (intro mult_right_mono) simp_all
    moreover have "rat_of_nat (10 ^ (length buf - 1)) = 10 powi (int (length buf) - 1)"
      using ne(1) by (cases buf) (simp_all add: power_int_def)
    ultimately show ?thesis by (simp add: n_def algebra_simps flip: power_int_add)
  qed
  have hi: "V < 10 powi n"
  proof -
    have "rat_of_nat (digits_nat buf) < of_nat (10 ^ length buf)" using digits_nat_less [OF ne(2)] by (simp only: of_nat_less_iff)
    then have "V < of_nat (10 ^ length buf) * 10 powi de" unfolding V_def by (intro mult_strict_right_mono) simp_all
    also have "\<dots> = 10 powi n"
      by (simp only: n_def power_int_add [of "10 :: rat", simplified] power_int_of_nat of_nat_power of_nat_numeral)
    finally show ?thesis .
  qed
  have nn: "0 \<le> double_value (b - 1)" by (simp add: double_value_def)
  have up: "V < 2 powi 1024"
  proof -
    have "double_value b < double_value (b + 1)" unfolding double_value_next by (simp add: double_value_def)
    then have "upper_bound b \<le> double_value (b + 1)" by (simp add: upper_bound_def)
    with x double_value_range(2) [OF b] show ?thesis by (simp add: exact_digits_def V_def)
  qed
  have low: "2 powi (- 1075) < V"
  proof -
    have "(2 :: rat) powi (- 1074) = 2 * 2 powi (- 1075)" by (simp flip: power_int_add_1)
    then have "2 powi (- 1075) \<le> lower_bound b" using double_value_range(1) [OF b] nn by (simp add: lower_bound_def)
    with x show ?thesis by (simp add: exact_digits_def V_def)
  qed
  have "n - 1 < 1000"
  proof (rule ccontr)
    assume a: "\<not> n - 1 < 1000"
    then have "(2 :: rat) powi 1024 \<le> 2 powi (3 * (n - 1))" by (intro power_int_increasing) simp_all
    also have "\<dots> \<le> 10 powi (n - 1)" using a by (intro eight_ten) simp
    finally show False using lo up by simp
  qed
  moreover have "- 1000 < n - 1"
  proof (rule ccontr)
    assume a: "\<not> - 1000 < n - 1"
    then have "10 powi n \<le> (2 :: rat) powi (3 * n)" by (intro eight_ten) simp
    also have "\<dots> \<le> 2 powi (- 1075)" using a by (intro power_int_increasing) simp_all
    finally show False using hi low by simp
  qed
  ultimately show ?thesis by (simp add: n_def)
qed

section \<open>The text of a double\<close>

text \<open>What is rounded to the nonnegative double with bits \<open>b\<close>, ties left open.\<close>

definition nearest :: "nat \<Rightarrow> rat \<Rightarrow> bool" where
  "nearest b q \<longleftrightarrow> (if b = 0 then 0 \<le> q else lower_bound b < q) \<and> q < upper_bound b"

definition text_of_parts :: "string \<Rightarrow> string option \<Rightarrow> (bool \<times> string) option \<Rightarrow> string" where
  "text_of_parts w f y = w @ frac_text f @ expo_text y"

definition float_text :: "nat \<Rightarrow> string \<Rightarrow> bool" where
  "float_text b t \<longleftrightarrow>
     (\<exists>w f y. t = text_of_parts w f y \<and> parts_ok w f y \<and> (f \<noteq> None \<or> y \<noteq> None)) \<and>
     length t \<le> 23 \<and> nearest b (number_value t)"

lemma zero_text: "float_text 0 ''0.0''"
proof -
  have p: "parts_ok ''0'' (Some ''0'') None"
    using digit_char_numerals(1) by (auto simp: parts_ok_def whole_ok_def digits_ok_def decimal_def intro!: exI [of _ 0])
  have t: "''0.0'' = text_of_parts ''0'' (Some ''0'') None"
    by (simp add: text_of_parts_def frac_text_def expo_text_def)
  have "number_value ''0.0'' = 0"
    unfolding t text_of_parts_def number_value_parts [OF p]
    by (simp add: digits_nat_def char_digit_def frac_digits_def)
  moreover have "0 < upper_bound 0"
    unfolding upper_bound_def using double_value_next [of 0] by (simp add: double_value_def add_nonneg_pos)
  ultimately have "nearest 0 (number_value ''0.0'')" by (simp add: nearest_def)
  moreover have "\<exists>w f y. ''0.0'' = text_of_parts w f y \<and> parts_ok w f y \<and> (f \<noteq> None \<or> y \<noteq> None)"
    using p t by (intro exI [of _ "''0''"] exI [of _ "Some ''0''"] exI [of _ None]) simp
  ultimately show ?thesis by (simp add: float_text_def)
qed

lemma grisu2_text:
  assumes "0 < unat bits" and "unat bits < infinity_bits"
  shows "\<exists>buf de. grisu2 bits = Some (buf, de) \<and> float_text (unat bits) (format_buffer buf de (- 4) 15)"
proof -
  from grisu2_exact [OF assms] obtain buf de where g: "grisu2 bits = Some (buf, de)" "good_digits buf"
    "hd buf \<noteq> CHR ''0''" "length buf \<le> 17" "exact_digits (unat bits) buf de" by blast
  from format_buffer_ok [OF g(2,3,4) exponent_bound [OF assms g(2,3,5)]] obtain w f y where
    f: "format_buffer buf de (- 4) 15 = text_of_parts w f y" "parts_ok w f y" "f \<noteq> None \<or> y \<noteq> None"
    "length (text_of_parts w f y) \<le> 23"
    "of_nat (digits_nat (w @ frac_digits f)) * 10 powi (expo_value y - int (length (frac_digits f))) =
      of_nat (digits_nat buf) * (10 :: rat) powi de" unfolding text_of_parts_def by blast
  have "number_value (text_of_parts w f y) = of_nat (digits_nat buf) * 10 powi de"
    unfolding text_of_parts_def number_value_parts [OF f(2)] by (rule f(5))
  with g(5) assms(1) have "nearest (unat bits) (number_value (text_of_parts w f y))"
    by (simp add: nearest_def exact_digits_def)
  with f g(1) show ?thesis unfolding float_text_def by fastforce
qed

lemma magnitude_bit: "bit (magnitude x) n \<longleftrightarrow> bit x n \<and> n < 63"
proof -
  have "(push_bit 63 1 - 1 :: 64 word) = mask 63" by (simp add: mask_eq_decr_exp push_bit_eq_mult)
  then have "magnitude x = x AND mask 63" by (simp only: magnitude_def)
  then show ?thesis by (auto simp only: bit_and_iff bit_mask_iff min_def dest: bit_imp_le_length) simp
qed

lemma unat_magnitude: "isfinite x \<longleftrightarrow> unat (magnitude x) < infinity_bits"
  by (simp add: isfinite_def word_less_nat_alt infinity_bits_def push_bit_eq_mult)

definition with_sign :: "double \<Rightarrow> double" where
  "with_sign b = b OR push_bit 63 1"

lemma sign_and_magnitude: "x = (if signbit x then with_sign (magnitude x) else magnitude x)"
proof (rule bit_word_eqI)
  fix n assume n: "n < LENGTH(64)"
  have "bit (push_bit 63 1 :: 64 word) n \<longleftrightarrow> n = 63" using n by (auto simp only: bit_push_bit_iff bit_1_iff) simp
  then have "bit (with_sign y) n \<longleftrightarrow> bit y n \<or> n = 63" for y by (simp only: with_sign_def bit_or_iff)
  moreover have "n \<noteq> 63 \<Longrightarrow> n < 63" using n by simp
  ultimately show "bit x n = bit (if signbit x then with_sign (magnitude x) else magnitude x) n"
    by (auto simp: magnitude_bit signbit_def)
qed

lemma dump_float_text:
  assumes "isfinite x"
  shows "\<exists>t. dump_float x = Some ((if signbit x then ''-'' else []) @ t) \<and> float_text (unat (magnitude x)) t"
proof (cases "magnitude x = 0")
  case True
  with assms show ?thesis using zero_text by (simp add: dump_float_def to_chars_def)
next
  case False
  then have "0 < unat (magnitude x)" by (simp add: unat_gt_0)
  from grisu2_text [OF this] assms False show ?thesis
    by (auto simp: unat_magnitude dump_float_def to_chars_def)
qed

section \<open>Parsing\<close>

text \<open>
  What \<open>std::strtod\<close> is documented to do with the texts of the JSON grammar: it returns the double
  that is nearest to the value of the text, with the sign in front of it.
\<close>

definition strtod_nearest :: "(string \<Rightarrow> double option) \<Rightarrow> bool" where
  "strtod_nearest strtod \<longleftrightarrow>
     (\<forall>w f y b. parts_ok w f y \<and> unat b < infinity_bits \<and> nearest (unat b) (number_value (text_of_parts w f y)) \<longrightarrow>
        strtod (text_of_parts w f y) = Some b \<and> strtod (CHR ''-'' # text_of_parts w f y) = Some (with_sign b))"

lemma dump_float_reads:
  assumes s: "strtod_nearest strtod" and x: "isfinite x"
  shows "value_reads strtod (JFloat x) (the (dump_float x))"
proof -
  obtain t where t: "dump_float x = Some ((if signbit x then ''-'' else []) @ t)"
    "float_text (unat (magnitude x)) t" using dump_float_text [OF x] by blast
  then obtain w f y where p: "t = text_of_parts w f y" "parts_ok w f y" "f \<noteq> None \<or> y \<noteq> None"
    "nearest (unat (magnitude x)) (number_value (text_of_parts w f y))"
    by (auto simp: float_text_def)
  have st: "strtod t = Some (magnitude x)" "strtod (CHR ''-'' # t) = Some (with_sign (magnitude x))"
    using s p x unfolding strtod_nearest_def unat_magnitude by blast+
  obtain c v where w: "w = c # v" using p(2) whole_digits [of w] by (cases w) (auto simp: parts_ok_def)
  have "is_digit c" using p(2) whole_digits [of w] decimal_digit [of w c] by (auto simp: parts_ok_def w)
  then have hd: "t \<noteq> []" "byte (hd t) < 128" by (simp_all add: p(1) text_of_parts_def w is_digit_def)
  note scan = scan_float [OF p(2) _ p(3), where strtod = strtod, folded text_of_parts_def, folded p(1)]
  show ?thesis
  proof (cases "signbit x")
    case True
    then have "with_sign (magnitude x) = x" using sign_and_magnitude [of x] by simp
    with True st(2) scan(2) hd t(1) show ?thesis
      by (intro value_readsI [where t = "Tok_float (Some x)"]) (simp_all add: byte_def)
  next
    case False
    then have "magnitude x = x" using sign_and_magnitude [of x] by simp
    with False st(1) scan(1) hd t(1) show ?thesis
      by (intro value_readsI [where t = "Tok_float (Some x)"]) simp_all
  qed
qed

section \<open>A correctly rounding \<open>strtod\<close>\<close>

text \<open>The largest double that is not above \<open>q\<close>, by its bits from the highest, and then the nearer one.\<close>

fun double_below :: "rat \<Rightarrow> nat \<Rightarrow> nat \<Rightarrow> nat" where
  "double_below q 0 b = b"
| "double_below q (Suc k) b = double_below q k (if double_value (b + 2 ^ k) \<le> q then b + 2 ^ k else b)"

definition round_to_double :: "rat \<Rightarrow> nat" where
  "round_to_double q = (let b = double_below q 63 0 in if q \<le> upper_bound b then b else b + 1)"

definition strtod_ref :: "string \<Rightarrow> double option" where
  "strtod_ref t =
     (let q = number_value (if hd t = CHR ''-'' then tl t else t); b = round_to_double q in
      if infinity_bits \<le> b then None
      else Some (if hd t = CHR ''-'' then with_sign (word_of_nat b) else word_of_nat b))"

lemma double_value_step: "double_value b < double_value (b + 1)"
  unfolding double_value_next by (simp add: double_value_def)

lemma double_value_strict: "a < b \<Longrightarrow> double_value a < double_value b"
proof (induction b)
  case (Suc b)
  then consider "a = b" | "a < b" by linarith
  then show ?case using Suc.IH double_value_step [of b] by cases simp_all
qed simp

lemma double_value_mono: "a \<le> b \<Longrightarrow> double_value a \<le> double_value b"
  using double_value_strict [of a b] by (cases "a = b") simp_all

lemma double_value_le_iff: "double_value a \<le> double_value b \<longleftrightarrow> a \<le> b"
  using double_value_strict [of b a] double_value_mono [of a b] by fastforce

lemma double_below_ok:
  "double_value b \<le> q \<Longrightarrow> q < double_value (b + 2 ^ k) \<Longrightarrow>
    double_value (double_below q k b) \<le> q \<and> q < double_value (double_below q k b + 1)"
proof (induction k arbitrary: b)
  case (Suc k)
  have "b + 2 ^ Suc k = b + 2 ^ k + 2 ^ k" by simp
  with Suc show ?case by (simp del: power_Suc)
qed simp

lemma below_unique:
  assumes "double_value a \<le> q" "q < double_value (a + 1)" "double_value b \<le> q" "q < double_value (b + 1)"
  shows "a = b"
proof -
  have "double_value a < double_value (b + 1)" "double_value b < double_value (a + 1)" using assms by linarith+
  then have "\<not> b + 1 \<le> a" "\<not> a + 1 \<le> b" using double_value_le_iff not_le by blast+
  then show ?thesis by simp
qed

lemma round_to_double_nearest:
  assumes n: "nearest b q" and b: "b < infinity_bits"
  shows "round_to_double q = b"
proof -
  have up: "upper_bound b < double_value (b + 1)" "double_value b < upper_bound b"
    using double_value_step [of b] by (simp_all add: upper_bound_def)
  have "b + 1 \<le> 0 + 2 ^ 63" using b by (simp add: infinity_bits_def)
  then have "double_value (b + 1) \<le> double_value (0 + 2 ^ 63)" by (rule double_value_mono)
  then have top: "q < double_value (0 + 2 ^ 63)" using n up(1) unfolding nearest_def by linarith
  show ?thesis
  proof (cases "double_value b \<le> q")
    case True
    have "0 \<le> double_value 0" by (simp add: double_value_def)
    then have "double_value 0 \<le> q" using True double_value_mono [of 0 b] by simp
    from double_below_ok [OF this top] True n up(1) have "double_below q 63 0 = b"
      unfolding nearest_def by (intro below_unique [of _ q]) linarith+
    with n show ?thesis by (simp add: round_to_double_def nearest_def)
  next
    case False
    have z: "double_value 0 = 0" by (simp add: double_value_def sig_of_def)
    then have b0: "b \<noteq> 0" using False n by (cases "b = 0") (simp_all add: nearest_def)
    then have low: "upper_bound (b - 1) < q"
      using n by (simp add: nearest_def lower_bound_def upper_bound_def)
    have e: "b - 1 + 1 = b" using b0 by simp
    have above: "double_value (b - 1) < upper_bound (b - 1)"
      using double_value_step [of "b - 1"] by (simp add: upper_bound_def)
    have "double_value 0 \<le> double_value (b - 1)" by (rule double_value_mono) simp
    then have "double_value 0 \<le> q" using above low by linarith
    from double_below_ok [OF this top] False above low have "double_below q 63 0 = b - 1"
      by (intro below_unique [of _ q]) (unfold e, linarith+)
    with low b0 show ?thesis by (simp add: round_to_double_def)
  qed
qed

lemma strtod_ref_nearest: "strtod_nearest strtod_ref"
proof -
  have "strtod_ref (text_of_parts w f y) = Some b \<and> strtod_ref (CHR ''-'' # text_of_parts w f y) = Some (with_sign b)"
    if p: "parts_ok w f y" and b: "unat b < infinity_bits"
      and n: "nearest (unat b) (number_value (text_of_parts w f y))" for w f y b
  proof -
    obtain c v where w: "w = c # v" using p whole_digits [of w] by (cases w) (auto simp: parts_ok_def)
    have "is_digit c" using p whole_digits [of w] decimal_digit [of w c] by (auto simp: parts_ok_def w)
    then have "hd (text_of_parts w f y) \<noteq> CHR ''-''" by (auto simp: text_of_parts_def w is_digit_def byte_def)
    with b round_to_double_nearest [OF n b] show ?thesis by (simp add: strtod_ref_def Let_def)
  qed
  then show ?thesis unfolding strtod_nearest_def by blast
qed

section \<open>Properties\<close>

text \<open>
  C15: Printing a double terminates for each of the 2^64 bit patterns, and for a finite one the text is a number
  of the JSON grammar with a fraction or an exponent, of at most 23 characters and a sign (the buffer
  has 64), whose value is so close to the double that rounding to the nearest double gives it back,
  whichever way ties are rounded. An infinity or a NaN is printed as null.
\<close>

theorem dump_float_nearest:
  "\<exists>t. dump_float x = Some t \<and>
    (if isfinite x
     then \<exists>w f y. t = (if signbit x then ''-'' else []) @ text_of_parts w f y \<and>
       parts_ok w f y \<and> (f \<noteq> None \<or> y \<noteq> None) \<and> length (text_of_parts w f y) \<le> 23 \<and>
       nearest (unat (magnitude x)) (number_value (text_of_parts w f y))
     else t = ''null'')"
proof (cases "isfinite x")
  case True
  from dump_float_text [OF True] obtain w f y where
    "dump_float x = Some ((if signbit x then ''-'' else []) @ text_of_parts w f y)"
    "parts_ok w f y" "f \<noteq> None \<or> y \<noteq> None" "length (text_of_parts w f y) \<le> 23"
    "nearest (unat (magnitude x)) (number_value (text_of_parts w f y))"
    unfolding float_text_def by blast
  with True show ?thesis by (intro exI conjI) (assumption, simp only: if_True, blast)
next
  case False
  then show ?thesis by (simp add: dump_float_def)
qed

lemma dump_float_nearest_witness:
  "\<exists>w f y. dump_float 0x3FB999999999999A = Some (text_of_parts w f y) \<and> parts_ok w f y \<and>
    length (text_of_parts w f y) \<le> 23 \<and>
    nearest 0x3FB999999999999A (number_value (text_of_parts w f y))"
proof -
  have "isfinite 0x3FB999999999999A" "\<not> signbit 0x3FB999999999999A"
    "magnitude 0x3FB999999999999A = 0x3FB999999999999A" by code_simp+
  with dump_float_nearest [of "0x3FB999999999999A"] show ?thesis by auto
qed

text \<open>
  C14: Documents with floating-point numbers survive: with the real number printer, whatever value is printed
  compactly is parsed back to itself, bit for bit, when its doubles are finite, its numbers fit
  their types and its objects have their keys in order, provided \<open>std::strtod\<close> rounds to the nearest.
\<close>

theorem json_roundtrip_doubles:
  assumes "strtod_nearest strtod" and "dump (\<lambda>x. the (dump_float x)) j = Inr s" and "storable_with isfinite j"
  shows "json_parse strtod s = Inr j"
  by (rule json_parse_dump_with [OF assms(2,3)])
    (use dump_float_reads [OF assms(1)] in \<open>simp add: floats_read_def\<close>)

lemma json_roundtrip_doubles_witness:
  "\<exists>s. dump (\<lambda>x. the (dump_float x)) (JArray [JFloat 0x3FB999999999999A, JFloat 0x8000000000000001]) = Inr s \<and>
    json_parse strtod_ref s = Inr (JArray [JFloat 0x3FB999999999999A, JFloat 0x8000000000000001])"
proof -
  let ?j = "JArray [JFloat 0x3FB999999999999A, JFloat 0x8000000000000001]"
  obtain s where s: "dump (\<lambda>x. the (dump_float x)) ?j = Inr s" by simp
  have "isfinite 0x3FB999999999999A" "isfinite 0x8000000000000001" by code_simp+
  with json_roundtrip_doubles [OF strtod_ref_nearest s] s show ?thesis by auto
qed

end
