(* ===== verification/Rtc_Buffer.thy ===== *)
theory Rtc_Buffer
  imports Prelude
begin

text \<open>
  \<open>BufferT\<close> of \<open>rtc_base/buffer.h\<close>: a heap block of \<open>capacity_\<close> elements of which the first \<open>size_\<close> are in
  use. A cell is \<open>None\<close> until something is written to it. The template argument \<open>ZeroOnFree\<close> is the
  argument \<open>zof\<close>: the element with all bytes zero if memory is cleared, otherwise \<open>None\<close>. The field
  \<open>freed\<close> is a record of the blocks given back to the allocator, as they were at that moment. Sizes are
  sizes of memory, so their sums do not wrap. Debug checks are preconditions of the lemmas; the one
  check that is always on (\<open>RTC_CHECK_LE\<close>) ends the program, which is \<open>None\<close>.
\<close>

type_synonym 'a block = "'a option list"

record 'a buffer =
  buf_size :: nat
  buf_capacity :: nat
  buf_data :: "'a block option"
  freed :: "'a block list"

definition block_of :: "'a buffer \<Rightarrow> 'a block" where
  "block_of b = (case buf_data b of None \<Rightarrow> [] | Some cells \<Rightarrow> cells)"

definition contents :: "'a buffer \<Rightarrow> 'a block" where
  "contents b = take (buf_size b) (block_of b)"

definition IsConsistent :: "'a buffer \<Rightarrow> bool" where
  "IsConsistent b \<longleftrightarrow> (buf_data b \<noteq> None \<or> buf_capacity b = 0) \<and> buf_size b \<le> buf_capacity b"

section \<open>Memory\<close>

text \<open>\<open>memcpy\<close> to a position of a block, and \<open>ExplicitZeroMemory\<close>.\<close>

definition mem_write :: "nat \<Rightarrow> 'a block \<Rightarrow> 'a block \<Rightarrow> 'a block" where
  "mem_write pos xs cells = take pos cells @ xs @ drop (pos + length xs) cells"

definition ZeroTrailingData :: "'a option \<Rightarrow> nat \<Rightarrow> 'a buffer \<Rightarrow> 'a buffer" where
  "ZeroTrailingData zof count b =
     (case (zof, buf_data b) of
        (Some z, Some cells) \<Rightarrow> b\<lparr>buf_data := Some (mem_write (buf_size b) (replicate count (Some z)) cells)\<rparr>
      | _ \<Rightarrow> b)"

definition MaybeZeroCompleteBuffer :: "'a option \<Rightarrow> 'a buffer \<Rightarrow> 'a buffer" where
  "MaybeZeroCompleteBuffer zof b =
     (case (zof, buf_data b) of
        (Some z, Some cells) \<Rightarrow>
          if 0 < buf_capacity b
          then b\<lparr>buf_data := Some (mem_write 0 (replicate (buf_capacity b) (Some z)) cells)\<rparr> else b
      | _ \<Rightarrow> b)"

text \<open>The old block is given back when \<open>data_\<close> is assigned.\<close>

definition release :: "'a buffer \<Rightarrow> 'a buffer" where
  "release b =
     (case buf_data b of None \<Rightarrow> b | Some cells \<Rightarrow> b\<lparr>buf_data := None, freed := freed b @ [cells]\<rparr>)"

section \<open>Construction\<close>

definition buffer_empty :: "'a buffer" where
  "buffer_empty = \<lparr>buf_size = 0, buf_capacity = 0, buf_data = None, freed = []\<rparr>"

definition buffer_sized :: "nat \<Rightarrow> nat \<Rightarrow> 'a buffer" where
  "buffer_sized n capacity =
     (let c = max n capacity in
      \<lparr>buf_size = n, buf_capacity = c,
       buf_data = (if 0 < c then Some (replicate c None) else None), freed = []\<rparr>)"

definition buffer_of :: "'a block \<Rightarrow> nat \<Rightarrow> 'a buffer" where
  "buffer_of data capacity =
     (let b = buffer_sized (length data) capacity in
      b\<lparr>buf_data := map_option (mem_write 0 data) (buf_data b)\<rparr>)"

definition buffer_destroy :: "'a option \<Rightarrow> 'a buffer \<Rightarrow> 'a buffer" where
  "buffer_destroy zof b = release (MaybeZeroCompleteBuffer zof b)"

text \<open>What remains of a moved-from buffer without debug checks.\<close>

definition OnMovedFrom :: "'a buffer \<Rightarrow> 'a buffer" where
  "OnMovedFrom b = b\<lparr>buf_size := 0, buf_capacity := 0\<rparr>"

definition buffer_move :: "'a buffer \<Rightarrow> 'a buffer \<times> 'a buffer" where
  "buffer_move buf =
     (\<lparr>buf_size = buf_size buf, buf_capacity = buf_capacity buf, buf_data = buf_data buf, freed = []\<rparr>,
      OnMovedFrom (buf\<lparr>buf_data := None\<rparr>))"

text \<open>Move assignment to another buffer: the pointers are swapped and the old block is given back.\<close>

definition buffer_move_assign :: "'a option \<Rightarrow> 'a buffer \<Rightarrow> 'a buffer \<Rightarrow> 'a buffer \<times> 'a buffer" where
  "buffer_move_assign zof b buf =
     (let b1 = MaybeZeroCompleteBuffer zof b in
      (b1\<lparr>buf_size := buf_size buf, buf_capacity := buf_capacity buf, buf_data := buf_data buf\<rparr>,
       OnMovedFrom (release (buf\<lparr>buf_data := buf_data b1\<rparr>))))"

definition buffer_swap :: "'a buffer \<Rightarrow> 'a buffer \<Rightarrow> 'a buffer \<times> 'a buffer" where
  "buffer_swap a b =
     (a\<lparr>buf_size := buf_size b, buf_capacity := buf_capacity b, buf_data := buf_data b\<rparr>,
      b\<lparr>buf_size := buf_size a, buf_capacity := buf_capacity a, buf_data := buf_data a\<rparr>)"

section \<open>Operations\<close>

definition EnsureCapacityWithHeadroom :: "'a option \<Rightarrow> nat \<Rightarrow> bool \<Rightarrow> 'a buffer \<Rightarrow> 'a buffer" where
  "EnsureCapacityWithHeadroom zof capacity extra_headroom b =
     (if capacity \<le> buf_capacity b then b
      else
        (let new_capacity =
               (if extra_headroom then max capacity (buf_capacity b + buf_capacity b div 2) else capacity);
             new_data = mem_write 0 (contents b) (replicate new_capacity None);
             b1 = release (MaybeZeroCompleteBuffer zof b) in
         b1\<lparr>buf_data := Some new_data, buf_capacity := new_capacity\<rparr>))"

definition EnsureCapacity :: "'a option \<Rightarrow> nat \<Rightarrow> 'a buffer \<Rightarrow> 'a buffer" where
  "EnsureCapacity zof capacity b = EnsureCapacityWithHeadroom zof capacity False b"

definition SetSize :: "'a option \<Rightarrow> nat \<Rightarrow> 'a buffer \<Rightarrow> 'a buffer" where
  "SetSize zof n b =
     (let b1 = (EnsureCapacityWithHeadroom zof n True b)\<lparr>buf_size := n\<rparr> in
      if n < buf_size b then ZeroTrailingData zof (buf_size b - n) b1 else b1)"

definition AppendData :: "'a option \<Rightarrow> 'a block \<Rightarrow> 'a buffer \<Rightarrow> 'a buffer" where
  "AppendData zof data b =
     (let new_size = buf_size b + length data;
          b1 = EnsureCapacityWithHeadroom zof new_size True b in
      b1\<lparr>buf_data := map_option (mem_write (buf_size b) data) (buf_data b1), buf_size := new_size\<rparr>)"

definition SetData :: "'a option \<Rightarrow> 'a block \<Rightarrow> 'a buffer \<Rightarrow> 'a buffer" where
  "SetData zof data b =
     (let b1 = AppendData zof data (b\<lparr>buf_size := 0\<rparr>) in
      if buf_size b1 < buf_size b then ZeroTrailingData zof (buf_size b - buf_size b1) b1 else b1)"

text \<open>
  With a function that writes: it gets the cells of its view and returns them changed, with the number of
  elements it has written.
\<close>

definition AppendData_with ::
  "'a option \<Rightarrow> nat \<Rightarrow> ('a block \<Rightarrow> 'a block \<times> nat) \<Rightarrow> 'a buffer \<Rightarrow> ('a buffer \<times> nat) option" where
  "AppendData_with zof max_elements setter b =
     (let b1 = SetSize zof (buf_size b + max_elements) b;
          view = take max_elements (drop (buf_size b) (block_of b1)) in
      (case setter view of (view', written) \<Rightarrow>
        if max_elements < written then None
        else
          Some (b1\<lparr>buf_data := map_option (mem_write (buf_size b) view') (buf_data b1),
                   buf_size := buf_size b + written\<rparr>, written)))"

definition SetData_with ::
  "'a option \<Rightarrow> nat \<Rightarrow> ('a block \<Rightarrow> 'a block \<times> nat) \<Rightarrow> 'a buffer \<Rightarrow> ('a buffer \<times> nat) option" where
  "SetData_with zof max_elements setter b =
     (case AppendData_with zof max_elements setter (b\<lparr>buf_size := 0\<rparr>) of
        None \<Rightarrow> None
      | Some (b1, written) \<Rightarrow>
          Some (if buf_size b1 < buf_size b then ZeroTrailingData zof (buf_size b - buf_size b1) b1 else b1, written))"

definition Clear :: "'a option \<Rightarrow> 'a buffer \<Rightarrow> 'a buffer" where
  "Clear zof b = (MaybeZeroCompleteBuffer zof b)\<lparr>buf_size := 0\<rparr>"

text \<open>\<open>operator==\<close>, and \<open>operator[]\<close> as an access to the block.\<close>

definition buffer_equal :: "'a buffer \<Rightarrow> 'a buffer \<Rightarrow> bool" where
  "buffer_equal a b \<longleftrightarrow>
     buf_size a = buf_size b \<and> take (buf_size a) (block_of a) = take (buf_size a) (block_of b)"

definition buffer_at :: "'a buffer \<Rightarrow> nat \<Rightarrow> 'a option" where
  "buffer_at b index = block_of b ! index"

definition buffer_write :: "nat \<Rightarrow> 'a \<Rightarrow> 'a buffer \<Rightarrow> 'a buffer" where
  "buffer_write index x b = b\<lparr>buf_data := map_option (\<lambda>cells. cells[index := Some x]) (buf_data b)\<rparr>"

section \<open>Invariant\<close>

definition buffer_ok :: "'a buffer \<Rightarrow> bool" where
  "buffer_ok b \<longleftrightarrow> length (block_of b) = buf_capacity b \<and> buf_size b \<le> buf_capacity b"

text \<open>What \<open>ZeroOnFree\<close> is for: nothing written is left in unused capacity or in memory given back.\<close>

definition clean :: "'a option \<Rightarrow> 'a block \<Rightarrow> bool" where
  "clean zof cells \<longleftrightarrow> (\<forall>z. zof = Some z \<longrightarrow> set cells \<subseteq> {None, Some z})"

definition no_traces :: "'a option \<Rightarrow> 'a buffer \<Rightarrow> bool" where
  "no_traces zof b \<longleftrightarrow>
     clean zof (drop (buf_size b) (block_of b)) \<and> (\<forall>cells \<in> set (freed b). clean zof cells)"

lemma buffer_ok_consistent: "buffer_ok b \<Longrightarrow> IsConsistent b"
  by (auto simp: buffer_ok_def IsConsistent_def block_of_def split: option.splits)

lemma clean_simps [simp]:
  "clean zof []" "clean None cells" "clean zof (replicate n None)" "clean (Some z) (replicate n (Some z))"
  "clean zof (xs @ ys) \<longleftrightarrow> clean zof xs \<and> clean zof ys"
  by (auto simp: clean_def)

lemma clean_subset: "clean zof cells \<Longrightarrow> set cells' \<subseteq> set cells \<Longrightarrow> clean zof cells'"
  by (auto simp: clean_def)

lemma clean_drop: "clean zof cells \<Longrightarrow> clean zof (drop n cells)" "clean zof cells \<Longrightarrow> clean zof (take n cells)"
  by (auto intro: clean_subset dest: in_set_dropD in_set_takeD)

lemma clean_drop_more:
  assumes "clean zof (drop m cells)" and "m \<le> n"
  shows "clean zof (drop n cells)" and "clean zof (take k (drop n cells))"
proof -
  have "drop n cells = drop (n - m) (drop m cells)" using assms(2) by simp
  then show "clean zof (drop n cells)" using clean_drop(1) [OF assms(1)] by metis
  then show "clean zof (take k (drop n cells))" by (rule clean_drop(2))
qed

lemma mem_write_length [simp]: "pos + length xs \<le> length cells \<Longrightarrow> length (mem_write pos xs cells) = length cells"
  by (simp add: mem_write_def)

lemma mem_write_0: "mem_write 0 xs cells = xs @ drop (length xs) cells"
  by (simp add: mem_write_def)

lemma block_of_simps [simp]:
  "block_of (b\<lparr>buf_size := n\<rparr>) = block_of b" "block_of (b\<lparr>buf_capacity := c\<rparr>) = block_of b"
  "block_of (b\<lparr>buf_data := Some cells\<rparr>) = cells" "block_of (b\<lparr>buf_data := None\<rparr>) = []"
  "block_of (b\<lparr>freed := f\<rparr>) = block_of b"
  by (simp_all add: block_of_def)

lemma block_of_map:
  "pos + length xs \<le> length (block_of b) \<Longrightarrow>
    block_of (b\<lparr>buf_data := map_option (mem_write pos xs) (buf_data b)\<rparr>) = mem_write pos xs (block_of b)"
  by (auto simp: block_of_def mem_write_def split: option.splits)

section \<open>Each operation\<close>

text \<open>
  \<open>good\<close>: the invariant with what \<open>ZeroOnFree\<close> promises. Every operation keeps it, and its effect on the
  contents is that on a list.
\<close>

definition good :: "'a option \<Rightarrow> 'a buffer \<Rightarrow> bool" where
  "good zof b \<longleftrightarrow> buffer_ok b \<and> no_traces zof b"

lemma contents_length: "buffer_ok b \<Longrightarrow> length (contents b) = buf_size b"
  by (simp add: buffer_ok_def contents_def)

lemma MaybeZero_fields [simp]:
  "buf_size (MaybeZeroCompleteBuffer zof b) = buf_size b"
  "buf_capacity (MaybeZeroCompleteBuffer zof b) = buf_capacity b"
  "freed (MaybeZeroCompleteBuffer zof b) = freed b"
  "buf_data (MaybeZeroCompleteBuffer zof b) = None \<longleftrightarrow> buf_data b = None"
  by (auto simp: MaybeZeroCompleteBuffer_def split: option.splits)

lemma MaybeZero_block:
  assumes "buffer_ok b"
  shows "length (block_of (MaybeZeroCompleteBuffer zof b)) = buf_capacity b"
    and "clean zof (block_of (MaybeZeroCompleteBuffer zof b))"
proof -
  have l: "length cells = buf_capacity b" if "buf_data b = Some cells" for cells
    using assms that by (simp add: buffer_ok_def block_of_def)
  show "length (block_of (MaybeZeroCompleteBuffer zof b)) = buf_capacity b"
    using assms l by (auto simp: MaybeZeroCompleteBuffer_def mem_write_0 buffer_ok_def split: option.splits)
  show "clean zof (block_of (MaybeZeroCompleteBuffer zof b))"
    using assms l
    by (auto simp: MaybeZeroCompleteBuffer_def mem_write_0 block_of_def clean_def split: option.splits)
qed

lemma release_fields [simp]:
  "buf_size (release b) = buf_size b" "buf_capacity (release b) = buf_capacity b"
  by (simp_all add: release_def split: option.split)

lemma release_freed:
  "\<forall>cells \<in> set (freed b). clean zof cells \<Longrightarrow> clean zof (block_of b) \<Longrightarrow>
    \<forall>cells \<in> set (freed (release b)). clean zof cells"
  by (auto simp: release_def block_of_def split: option.splits)

lemma EnsureCapacity_size [simp]: "buf_size (EnsureCapacityWithHeadroom zof c e b) = buf_size b"
  by (simp add: EnsureCapacityWithHeadroom_def Let_def)

lemma EnsureCapacity_good:
  assumes "good zof b"
  shows "good zof (EnsureCapacityWithHeadroom zof c e b)"
    and "contents (EnsureCapacityWithHeadroom zof c e b) = contents b"
    and "max c (buf_capacity b) \<le> buf_capacity (EnsureCapacityWithHeadroom zof c e b)"
proof -
  have ok: "buffer_ok b" and t: "no_traces zof b" using assms by (simp_all add: good_def)
  let ?c = "if e then max c (buf_capacity b + buf_capacity b div 2) else c"
  let ?b = "EnsureCapacityWithHeadroom zof c e b"
  have "good zof ?b \<and> contents ?b = contents b \<and> max c (buf_capacity b) \<le> buf_capacity ?b"
  proof (cases "c \<le> buf_capacity b")
    case True
    with assms show ?thesis by (simp add: EnsureCapacityWithHeadroom_def)
  next
    case False
    have l: "length (contents b) = buf_size b" using ok by (rule contents_length)
    have s: "buf_size b \<le> ?c" "buf_capacity b \<le> ?c" using ok False by (auto simp: buffer_ok_def)
    have blk: "block_of ?b = contents b @ replicate (?c - buf_size b) None"
      using False l by (simp add: EnsureCapacityWithHeadroom_def Let_def mem_write_0)
    have f: "\<forall>cells \<in> set (freed ?b). clean zof cells"
      using False t MaybeZero_block [OF ok, of zof] release_freed [of "MaybeZeroCompleteBuffer zof b" zof]
      by (auto simp: EnsureCapacityWithHeadroom_def Let_def no_traces_def)
    have "buf_capacity ?b = ?c" using False by (simp add: EnsureCapacityWithHeadroom_def Let_def)
    with blk f l s False show ?thesis
      by (auto simp: good_def buffer_ok_def no_traces_def contents_def)
  qed
  then show "good zof ?b" and "contents ?b = contents b" and "max c (buf_capacity b) \<le> buf_capacity ?b" by auto
qed

lemma ZeroTrailing_fields [simp]:
  "buf_size (ZeroTrailingData zof count b) = buf_size b" "buf_capacity (ZeroTrailingData zof count b) = buf_capacity b"
  "freed (ZeroTrailingData zof count b) = freed b"
  by (auto simp: ZeroTrailingData_def split: option.splits)

lemma ZeroTrailing_block:
  assumes "buf_data b \<noteq> None"
  shows "block_of (ZeroTrailingData zof count b) =
    (case zof of None \<Rightarrow> block_of b | Some z \<Rightarrow> mem_write (buf_size b) (replicate count (Some z)) (block_of b))"
  using assms by (auto simp: ZeroTrailingData_def block_of_def split: option.splits)

lemma ZeroTrailing_none [simp]: "buf_data b = None \<Longrightarrow> ZeroTrailingData zof count b = b"
  by (auto simp: ZeroTrailingData_def split: option.splits)

lemma ZeroTrailing_good:
  assumes ok: "buffer_ok b" and c: "buf_size b + count \<le> buf_capacity b"
    and rest: "clean zof (drop (buf_size b + count) (block_of b))" and f: "\<forall>cells \<in> set (freed b). clean zof cells"
  shows "good zof (ZeroTrailingData zof count b)" and "contents (ZeroTrailingData zof count b) = contents b"
proof -
  let ?b = "ZeroTrailingData zof count b"
  have l: "length (block_of b) = buf_capacity b" using ok by (simp add: buffer_ok_def)
  have "good zof ?b \<and> contents ?b = contents b"
  proof (cases "buf_data b")
    case None
    then have "block_of b = []" by (simp add: block_of_def)
    with None ok f show ?thesis by (simp add: good_def no_traces_def)
  next
    case (Some cells)
    show ?thesis
    proof (cases zof)
      case None
      then have "?b = b" by (simp add: ZeroTrailingData_def)
      with None ok f show ?thesis by (simp add: good_def no_traces_def)
    next
      case (Some z)
      with ZeroTrailing_block [of b zof count] \<open>buf_data b = Some cells\<close>
      have blk: "block_of ?b = take (buf_size b) (block_of b) @ replicate count (Some z) @ drop (buf_size b + count) (block_of b)"
        by (simp add: mem_write_def)
      with l c ok f rest Some show ?thesis
        by (simp add: good_def no_traces_def buffer_ok_def contents_def)
    qed
  qed
  then show "good zof ?b" and "contents ?b = contents b" by auto
qed

lemma block_split: "buffer_ok b \<Longrightarrow> block_of b = contents b @ drop (buf_size b) (block_of b)"
  by (simp add: contents_def)

lemma SetSize_good:
  assumes "good zof b"
  shows "good zof (SetSize zof n b)" and "buf_size (SetSize zof n b) = n"
    and "take (min n (buf_size b)) (contents (SetSize zof n b)) = take (min n (buf_size b)) (contents b)"
    and "clean zof (drop (buf_size b) (contents (SetSize zof n b)))"
proof -
  let ?e = "EnsureCapacityWithHeadroom zof n True b"
  note e = EnsureCapacity_good [OF assms, of n True]
  have ok: "buffer_ok ?e" and t: "no_traces zof ?e" using e(1) by (simp_all add: good_def)
  have l: "length (block_of ?e) = buf_capacity ?e" using ok by (simp add: buffer_ok_def)
  show size: "buf_size (SetSize zof n b) = n" by (simp add: SetSize_def Let_def)
  have "good zof (SetSize zof n b) \<and>
      take (min n (buf_size b)) (contents (SetSize zof n b)) = take (min n (buf_size b)) (contents b) \<and>
      clean zof (drop (buf_size b) (contents (SetSize zof n b)))"
  proof (cases "n < buf_size b")
    case True
    let ?s = "?e\<lparr>buf_size := n\<rparr>"
    have "buffer_ok ?s" "buf_size ?s + (buf_size b - n) \<le> buf_capacity ?s"
      using ok True by (auto simp: buffer_ok_def)
    moreover have "clean zof (drop (buf_size ?s + (buf_size b - n)) (block_of ?s))" "\<forall>cells \<in> set (freed ?s). clean zof cells"
      using t True by (simp_all add: no_traces_def)
    ultimately have "good zof (SetSize zof n b)" "contents (SetSize zof n b) = contents ?s"
      using ZeroTrailing_good [of ?s "buf_size b - n" zof] True by (simp_all add: SetSize_def Let_def)
    moreover have "contents ?s = take n (contents ?e)" using True by (simp add: contents_def min_def)
    then have "contents ?s = take n (contents b)" using e(2) by simp
    ultimately show ?thesis using True by (simp add: min_def)
  next
    case False
    let ?s = "?e\<lparr>buf_size := n\<rparr>"
    have s: "SetSize zof n b = ?s" using False by (simp add: SetSize_def Let_def)
    have sz: "n \<le> buf_capacity ?e" using e(3) by simp
    have blk: "block_of ?e = contents b @ drop (buf_size b) (block_of ?e)" using block_split [OF ok] e(2) by simp
    have cl: "clean zof (drop (buf_size b) (block_of ?e))" using t by (simp add: no_traces_def)
    have "drop n (block_of ?e) = drop (n - buf_size b) (drop (buf_size b) (block_of ?e))" using False by simp
    then have "good zof ?s"
      using ok t sz clean_drop(1) [OF cl, of "n - buf_size b"] by (simp add: good_def buffer_ok_def no_traces_def)
    moreover have "take (buf_size b) (contents ?s) = contents b"
      using e(2) False by (simp add: contents_def min_def)
    moreover have "drop (buf_size b) (contents ?s) = take (n - buf_size b) (drop (buf_size b) (block_of ?e))"
      by (simp add: contents_def drop_take)
    moreover have "take (buf_size b) (contents b) = contents b"
      using assms contents_length [of b] by (simp add: good_def)
    moreover have "min n (buf_size b) = buf_size b" using False by simp
    ultimately show ?thesis using s clean_drop(2) [OF cl] by simp
  qed
  then show "good zof (SetSize zof n b)"
    and "take (min n (buf_size b)) (contents (SetSize zof n b)) = take (min n (buf_size b)) (contents b)"
    and "clean zof (drop (buf_size b) (contents (SetSize zof n b)))" by auto
qed

text \<open>Writing after the contents, for both forms of \<open>AppendData\<close>.\<close>

lemma write_after:
  assumes ok: "buffer_ok b" and t: "no_traces zof b" and n: "buf_size b + length data \<le> buf_capacity b"
    and k: "k \<le> length data" and unused: "clean zof (drop k data)"
  shows "good zof (b\<lparr>buf_data := map_option (mem_write (buf_size b) data) (buf_data b), buf_size := buf_size b + k\<rparr>)"
    and "contents (b\<lparr>buf_data := map_option (mem_write (buf_size b) data) (buf_data b), buf_size := buf_size b + k\<rparr>) =
      contents b @ take k data"
proof -
  let ?b = "b\<lparr>buf_data := map_option (mem_write (buf_size b) data) (buf_data b), buf_size := buf_size b + k\<rparr>"
  have l: "length (block_of b) = buf_capacity b" using ok by (simp add: buffer_ok_def)
  have "block_of ?b = mem_write (buf_size b) data (block_of b)"
    using block_of_map [of "buf_size b" data b] n l by simp
  then have blk: "block_of ?b = contents b @ data @ drop (buf_size b + length data) (block_of b)"
    by (simp add: mem_write_def contents_def)
  have c: "length (contents b) = buf_size b" using ok by (rule contents_length)
  have "clean zof (drop (buf_size b + length data) (block_of b))"
    by (rule clean_drop_more [of _ "buf_size b"]) (use t in \<open>simp_all add: no_traces_def\<close>)
  then show "good zof ?b" and "contents ?b = contents b @ take k data"
    using blk c k n l unused t by (simp_all add: good_def buffer_ok_def no_traces_def contents_def)
qed

lemma AppendData_good:
  assumes "good zof b"
  shows "good zof (AppendData zof data b)" and "contents (AppendData zof data b) = contents b @ data"
proof -
  let ?e = "EnsureCapacityWithHeadroom zof (buf_size b + length data) True b"
  note e = EnsureCapacity_good [OF assms, of "buf_size b + length data" True]
  have "buffer_ok ?e" "no_traces zof ?e" "buf_size ?e + length data \<le> buf_capacity ?e"
    using e(1,3) by (simp_all add: good_def)
  from write_after [OF this, of "length data"] e(2)
  show "good zof (AppendData zof data b)" and "contents (AppendData zof data b) = contents b @ data"
    by (simp_all add: AppendData_def Let_def)
qed

text \<open>After \<open>size_ = 0\<close> the old contents are still in the block, up to the old size.\<close>

lemma EnsureCapacity_reset:
  assumes "good zof b" and e: "e = EnsureCapacityWithHeadroom zof n True (b\<lparr>buf_size := 0\<rparr>)"
  shows "buffer_ok e" and "n \<le> buf_capacity e" and "buf_size b \<le> buf_capacity e"
    and "clean zof (drop (buf_size b) (block_of e))" and "\<forall>cells \<in> set (freed e). clean zof cells" and "buf_size e = 0"
proof -
  let ?b = "b\<lparr>buf_size := 0\<rparr>"
  have ok: "buffer_ok ?b" "buf_size b \<le> buf_capacity b" and t: "no_traces zof b"
    using assms(1) by (simp_all add: good_def buffer_ok_def)
  show "buf_size e = 0" by (simp add: e)
  have "buffer_ok e \<and> n \<le> buf_capacity e \<and> buf_size b \<le> buf_capacity e \<and>
      clean zof (drop (buf_size b) (block_of e)) \<and> (\<forall>cells \<in> set (freed e). clean zof cells)"
  proof (cases "n \<le> buf_capacity b")
    case True
    then show ?thesis using ok t by (simp add: e EnsureCapacityWithHeadroom_def no_traces_def)
  next
    case False
    let ?c = "max n (buf_capacity b + buf_capacity b div 2)"
    have e': "e = (release (MaybeZeroCompleteBuffer zof ?b))\<lparr>buf_data := Some (replicate ?c None), buf_capacity := ?c\<rparr>"
      using False by (simp add: e EnsureCapacityWithHeadroom_def Let_def contents_def mem_write_0)
    have "\<forall>cells \<in> set (freed (release (MaybeZeroCompleteBuffer zof ?b))). clean zof cells"
      using t MaybeZero_block(2) [OF ok(1), of zof] by (intro release_freed) (simp_all add: no_traces_def)
    then show ?thesis using e' ok(2) False by (simp add: buffer_ok_def)
  qed
  then show "buffer_ok e" and "n \<le> buf_capacity e" and "buf_size b \<le> buf_capacity e"
    and "clean zof (drop (buf_size b) (block_of e))" and "\<forall>cells \<in> set (freed e). clean zof cells" by auto
qed

text \<open>
  Writing at the front after that: \<open>data\<close> replaces the first cells, of which \<open>k\<close> remain in use, and what is
  left of the old contents is cleared.
\<close>

lemma write_front:
  assumes b: "good zof b" and e: "e = EnsureCapacityWithHeadroom zof (length data) True (b\<lparr>buf_size := 0\<rparr>)"
    and k: "k \<le> length data" and unused: "clean zof (drop (max k (buf_size b)) data)"
  defines "w \<equiv> e\<lparr>buf_data := map_option (mem_write 0 data) (buf_data e), buf_size := k\<rparr>"
  shows "good zof (if k < buf_size b then ZeroTrailingData zof (buf_size b - k) w else w)"
    and "contents (if k < buf_size b then ZeroTrailingData zof (buf_size b - k) w else w) = take k data"
proof -
  note r = EnsureCapacity_reset [OF b e]
  have l: "length (block_of e) = buf_capacity e" using r(1) by (simp add: buffer_ok_def)
  have blk: "block_of w = data @ drop (length data) (block_of e)"
    using block_of_map [of 0 data e] l r(2) by (simp add: w_def mem_write_0)
  have w: "buf_size w = k" "buf_capacity w = buf_capacity e" "freed w = freed e" by (simp_all add: w_def)
  have ok: "buffer_ok w" using blk l r(2) k w by (simp add: buffer_ok_def)
  have cont: "contents w = take k data" using blk k w(1) by (simp add: contents_def)
  have "clean zof (drop (max k (buf_size b)) (block_of w))"
  proof -
    have "clean zof (drop (max (length data) (max k (buf_size b))) (block_of e))"
      by (rule clean_drop_more [OF r(4)]) simp
    moreover have "max k (buf_size b) - length data + length data = max (length data) (max k (buf_size b))" by simp
    ultimately show ?thesis using unused by (simp add: blk)
  qed
  then have rest: "clean zof (drop k (block_of w))" if "\<not> k < buf_size b"
    using that by (simp add: max_def split: if_splits)
  have rest': "clean zof (drop (buf_size b) (block_of w))" if "k < buf_size b"
    using that \<open>clean zof (drop (max k (buf_size b)) (block_of w))\<close> by (simp add: max_def)
  have "good zof (if k < buf_size b then ZeroTrailingData zof (buf_size b - k) w else w) \<and>
      contents (if k < buf_size b then ZeroTrailingData zof (buf_size b - k) w else w) = take k data"
    using ZeroTrailing_good [OF ok, of "buf_size b - k" zof] rest rest' r(3,5) w ok cont
    by (auto simp: good_def no_traces_def)
  then show "good zof (if k < buf_size b then ZeroTrailingData zof (buf_size b - k) w else w)"
    and "contents (if k < buf_size b then ZeroTrailingData zof (buf_size b - k) w else w) = take k data" by auto
qed

lemma SetData_good:
  assumes "good zof b"
  shows "good zof (SetData zof data b)" and "contents (SetData zof data b) = data"
  using write_front [OF assms refl, of "length data" data] by (auto simp: SetData_def AppendData_def Let_def)

text \<open>What a function that writes has to do.\<close>

definition setter_ok :: "nat \<Rightarrow> ('a block \<Rightarrow> 'a block \<times> nat) \<Rightarrow> bool" where
  "setter_ok max_elements setter \<longleftrightarrow>
     (\<forall>view. length view = max_elements \<longrightarrow>
        (case setter view of (view', written) \<Rightarrow>
           length view' = max_elements \<and> written \<le> max_elements \<and> drop written view' = drop written view))"

lemma AppendData_with_good:
  assumes b: "good zof b" and f: "setter_ok n f"
  shows "\<exists>b' view. AppendData_with zof n f b = Some (b', snd (f view)) \<and> length view = n \<and> good zof b' \<and>
    contents b' = contents b @ take (snd (f view)) (fst (f view))"
proof -
  let ?s = "SetSize zof (buf_size b + n) b"
  note s = SetSize_good [OF b, of "buf_size b + n"]
  have ok: "buffer_ok ?s" and t: "no_traces zof ?s" using s(1) by (simp_all add: good_def)
  have l: "length (block_of ?s) = buf_capacity ?s" "buf_size b + n \<le> buf_capacity ?s"
    using ok s(2) by (simp_all add: buffer_ok_def)
  define view where "view = take n (drop (buf_size b) (block_of ?s))"
  have cs: "contents ?s = take (buf_size b + n) (block_of ?s)" by (simp only: contents_def s(2))
  have v: "length view = n" "clean zof view" using l s(4) cs by (simp_all add: view_def drop_take)
  obtain view' k where fv: "f view = (view', k)" by (cases "f view")
  with f v(1) have k: "length view' = n" "k \<le> n" "drop k view' = drop k view" by (auto simp: setter_ok_def)
  let ?r = "?s\<lparr>buf_size := buf_size b\<rparr>"
  have split: "drop (buf_size b) (block_of ?s) = view @ drop (buf_size b + n) (block_of ?s)"
    by (simp add: view_def add.commute flip: drop_drop)
  have "buffer_ok ?r" using ok s(2) by (simp add: buffer_ok_def)
  moreover have "no_traces zof ?r" using t v(2) s(2) split by (simp add: no_traces_def)
  moreover have "contents ?r = contents b"
  proof -
    have "contents ?r = take (buf_size b) (contents ?s)" by (simp add: contents_def s(2) min_def)
    also have "\<dots> = take (min (buf_size b + n) (buf_size b)) (contents b)" using s(3) by simp
    also have "\<dots> = contents b" using contents_length [of b] b by (simp add: good_def)
    finally show ?thesis .
  qed
  ultimately have "good zof (?r\<lparr>buf_data := map_option (mem_write (buf_size ?r) view') (buf_data ?r), buf_size := buf_size ?r + k\<rparr>)"
    and "contents (?r\<lparr>buf_data := map_option (mem_write (buf_size ?r) view') (buf_data ?r), buf_size := buf_size ?r + k\<rparr>) =
      contents b @ take k view'"
    using write_after [of ?r zof view' k] k l(2) clean_drop(1) [OF v(2), of k] by simp_all
  moreover have "AppendData_with zof n f b =
      Some (?r\<lparr>buf_data := map_option (mem_write (buf_size ?r) view') (buf_data ?r), buf_size := buf_size ?r + k\<rparr>, k)"
    using fv k(2) by (simp add: AppendData_with_def Let_def view_def [symmetric])
  ultimately show ?thesis using fv v(1) by (intro exI [of _ view] exI) auto
qed

lemma SetData_with_good:
  assumes b: "good zof b" and f: "setter_ok n f"
  shows "\<exists>b' view. SetData_with zof n f b = Some (b', snd (f view)) \<and> length view = n \<and> good zof b' \<and>
    contents b' = take (snd (f view)) (fst (f view))"
proof -
  let ?e = "EnsureCapacityWithHeadroom zof n True (b\<lparr>buf_size := 0\<rparr>)"
  note r = EnsureCapacity_reset [OF b refl, of n]
  have l: "length (block_of ?e) = buf_capacity ?e" using r(1) by (simp add: buffer_ok_def)
  define view where "view = take n (block_of ?e)"
  have v: "length view = n" using l r(2) by (simp add: view_def)
  obtain view' k where fv: "f view = (view', k)" by (cases "f view")
  with f v have k: "length view' = n" "k \<le> n" "drop k view' = drop k view" by (auto simp: setter_ok_def)
  let ?w = "?e\<lparr>buf_data := map_option (mem_write 0 view') (buf_data ?e), buf_size := k\<rparr>"
  have "AppendData_with zof n f (b\<lparr>buf_size := 0\<rparr>) = Some (?w, k)"
    using fv k(2) by (simp add: AppendData_with_def SetSize_def Let_def view_def [symmetric])
  then have "SetData_with zof n f b = Some (if k < buf_size b then ZeroTrailingData zof (buf_size b - k) ?w else ?w, k)"
    by (simp add: SetData_with_def)
  moreover have "clean zof (drop (max k (buf_size b)) view')"
  proof -
    have "drop (max k (buf_size b)) view' = drop (max k (buf_size b) - k) (drop k view')" by simp
    also have "\<dots> = drop (max k (buf_size b) - buf_size b) (drop (buf_size b) view)" by (simp add: k(3))
    also have "\<dots> = take (n - max k (buf_size b)) (drop (max k (buf_size b)) (block_of ?e))"
      by (simp add: view_def drop_take)
    finally show ?thesis using clean_drop_more(2) [OF r(4), of "max k (buf_size b)"] by simp
  qed
  ultimately show ?thesis
    using write_front [OF b, of ?e view' k] k(1,2) fv v by (intro exI [of _ view] exI) auto
qed

lemma Clear_good:
  assumes "good zof b"
  shows "good zof (Clear zof b)" and "contents (Clear zof b) = []"
proof -
  have "buffer_ok b" "no_traces zof b" using assms by (simp_all add: good_def)
  then show "good zof (Clear zof b)" and "contents (Clear zof b) = []"
    using MaybeZero_block [of b zof] by (simp_all add: Clear_def good_def buffer_ok_def no_traces_def contents_def)
qed

section \<open>Sequences of operations\<close>

datatype 'a buffer_op =
    Op_SetData "'a block"
  | Op_SetData_with nat "'a block \<Rightarrow> 'a block \<times> nat"
  | Op_AppendData "'a block"
  | Op_AppendData_with nat "'a block \<Rightarrow> 'a block \<times> nat"
  | Op_SetSize nat
  | Op_EnsureCapacity nat
  | Op_Clear

fun exec_op :: "'a option \<Rightarrow> 'a buffer_op \<Rightarrow> 'a buffer \<Rightarrow> 'a buffer option" where
  "exec_op zof (Op_SetData data) b = Some (SetData zof data b)"
| "exec_op zof (Op_SetData_with n f) b = map_option fst (SetData_with zof n f b)"
| "exec_op zof (Op_AppendData data) b = Some (AppendData zof data b)"
| "exec_op zof (Op_AppendData_with n f) b = map_option fst (AppendData_with zof n f b)"
| "exec_op zof (Op_SetSize n) b = Some (SetSize zof n b)"
| "exec_op zof (Op_EnsureCapacity n) b = Some (EnsureCapacity zof n b)"
| "exec_op zof Op_Clear b = Some (Clear zof b)"

fun exec_ops :: "'a option \<Rightarrow> 'a buffer_op list \<Rightarrow> 'a buffer \<Rightarrow> 'a buffer option" where
  "exec_ops zof [] b = Some b"
| "exec_ops zof (c # cs) b = (case exec_op zof c b of None \<Rightarrow> None | Some b' \<Rightarrow> exec_ops zof cs b')"

fun op_ok :: "'a buffer_op \<Rightarrow> bool" where
  "op_ok (Op_SetData_with n f) = setter_ok n f"
| "op_ok (Op_AppendData_with n f) = setter_ok n f"
| "op_ok _ = True"

text \<open>
  The specification: what an operation does to a list. New space after \<open>SetSize\<close> is uninitialized, so anything may be there,
  as in the view a function gets.
\<close>

fun list_op :: "'a buffer_op \<Rightarrow> 'a block \<Rightarrow> 'a block \<Rightarrow> bool" where
  "list_op (Op_SetData data) xs ys \<longleftrightarrow> ys = data"
| "list_op (Op_SetData_with n f) xs ys \<longleftrightarrow> (\<exists>view. length view = n \<and> ys = take (snd (f view)) (fst (f view)))"
| "list_op (Op_AppendData data) xs ys \<longleftrightarrow> ys = xs @ data"
| "list_op (Op_AppendData_with n f) xs ys \<longleftrightarrow> (\<exists>view. length view = n \<and> ys = xs @ take (snd (f view)) (fst (f view)))"
| "list_op (Op_SetSize n) xs ys \<longleftrightarrow> length ys = n \<and> take (min n (length xs)) ys = take (min n (length xs)) xs"
| "list_op (Op_EnsureCapacity n) xs ys \<longleftrightarrow> ys = xs"
| "list_op Op_Clear xs ys \<longleftrightarrow> ys = []"

inductive list_ops :: "'a buffer_op list \<Rightarrow> 'a block \<Rightarrow> 'a block \<Rightarrow> bool" where
  Nil: "list_ops [] xs xs"
| Cons: "list_op c xs ys \<Longrightarrow> list_ops cs ys zs \<Longrightarrow> list_ops (c # cs) xs zs"

lemma exec_op_good:
  assumes "good zof b" and "op_ok c"
  shows "\<exists>b'. exec_op zof c b = Some b' \<and> good zof b' \<and> list_op c (contents b) (contents b')"
proof (cases c)
  case (Op_SetData_with n f)
  then show ?thesis using SetData_with_good [OF assms(1), of n f] assms(2) by force
next
  case (Op_AppendData_with n f)
  then show ?thesis using AppendData_with_good [OF assms(1), of n f] assms(2) by force
next
  case (Op_SetSize n)
  have "length (contents b) = buf_size b" "length (contents (SetSize zof n b)) = n"
    using assms(1) SetSize_good(1,2) [OF assms(1), of n] contents_length [of b] contents_length [of "SetSize zof n b"]
    by (simp_all add: good_def)
  then show ?thesis using Op_SetSize SetSize_good(1,3) [OF assms(1), of n] by simp
qed (simp_all add: SetData_good AppendData_good EnsureCapacity_good Clear_good EnsureCapacity_def assms(1))

lemma exec_ops_good:
  "good zof b \<Longrightarrow> list_all op_ok cs \<Longrightarrow>
    \<exists>b'. exec_ops zof cs b = Some b' \<and> good zof b' \<and> list_ops cs (contents b) (contents b')"
proof (induction cs arbitrary: b)
  case (Cons c cs)
  then obtain b1 where "exec_op zof c b = Some b1" "good zof b1" "list_op c (contents b) (contents b1)"
    using exec_op_good [of zof b c] by auto
  with Cons.IH [of b1] Cons(3) show ?case by (auto intro: list_ops.Cons)
qed (auto intro: list_ops.Nil)

lemma buffer_of_good:
  "good zof (buffer_of data capacity)" "contents (buffer_of data capacity) = data"
proof -
  have "block_of (buffer_of data capacity) = data @ replicate (max (length data) capacity - length data) None"
    by (auto simp: buffer_of_def buffer_sized_def Let_def block_of_def mem_write_0)
  moreover have "buf_size (buffer_of data capacity) = length data"
    "buf_capacity (buffer_of data capacity) = max (length data) capacity" "freed (buffer_of data capacity) = []"
    by (simp_all add: buffer_of_def buffer_sized_def Let_def)
  ultimately show "good zof (buffer_of data capacity)" "contents (buffer_of data capacity) = data"
    by (simp_all add: good_def buffer_ok_def no_traces_def contents_def)
qed

lemma destroy_clean:
  assumes "good zof b" shows "\<forall>cells \<in> set (freed (buffer_destroy zof b)). clean zof cells"
  using assms MaybeZero_block(2) [of b zof]
  unfolding buffer_destroy_def good_def no_traces_def by (intro release_freed) simp_all

section \<open>Properties\<close>

text \<open>
  C10: A buffer is a list, whatever is done to it: from any initial data and capacity, each sequence of operations runs
  to its end, the contents are those the specification on lists allows (appending appends, growing keeps
  what was there), the check of consistency holds, and with \<open>ZeroOnFree\<close> no block that was given back to
  the allocator on the way, nor the last one when the buffer is destroyed, holds an element other than zero.
  Functions that write have to keep to the contract stated at \<open>SetData\<close>.
\<close>

theorem buffer_is_list:
  assumes "list_all op_ok cs"
  shows "\<exists>b. exec_ops zof cs (buffer_of data capacity) = Some b \<and> list_ops cs data (contents b) \<and> IsConsistent b \<and>
    (\<forall>cells \<in> set (freed (buffer_destroy zof b)). clean zof cells)"
proof -
  from exec_ops_good [OF buffer_of_good(1) assms, of zof data capacity] buffer_of_good(2) [of data capacity]
  obtain b where b: "exec_ops zof cs (buffer_of data capacity) = Some b" "good zof b" "list_ops cs data (contents b)"
    by auto
  with destroy_clean [OF b(2)] show ?thesis by (auto simp: good_def intro: buffer_ok_consistent)
qed

definition two_bytes :: "nat block \<Rightarrow> nat block \<times> nat" where
  "two_bytes view = (view[0 := Some 7, 1 := Some 8], 2)"

lemma two_bytes_ok: "2 \<le> n \<Longrightarrow> setter_ok n two_bytes"
  by (simp add: setter_ok_def two_bytes_def drop_update_cancel)

theorem buffer_is_list_witness:
  "\<exists>b. exec_ops (Some 0) [Op_AppendData [Some 5], Op_SetData_with 3 two_bytes, Op_SetSize 1, Op_Clear]
        (buffer_of [Some (1 :: nat)] 1) = Some b \<and>
    list_ops [Op_AppendData [Some 5], Op_SetData_with 3 two_bytes, Op_SetSize 1, Op_Clear] [Some 1] (contents b) \<and>
    IsConsistent b \<and> (\<forall>cells \<in> set (freed (buffer_destroy (Some 0) b)). clean (Some 0) cells)"
  by (rule buffer_is_list) (simp add: two_bytes_ok)

text \<open>A block that has to grow grows by half at least, so appending is amortized.\<close>

lemma AppendData_growth:
  assumes "buf_capacity b < buf_size b + length data"
  shows "buf_capacity b + buf_capacity b div 2 \<le> buf_capacity (AppendData zof data b)"
  using assms by (simp add: AppendData_def EnsureCapacityWithHeadroom_def Let_def)

end
