(* ===== verification/Cow_Buffer.thy ===== *)
theory Cow_Buffer
  imports Rtc_Buffer
begin

text \<open>
  \<open>CopyOnWriteBuffer\<close> of \<open>rtc_base/copy_on_write_buffer.h\<close>: handles that share reference-counted buffers, each
  with the slice it stands for. The store keeps the buffers by address and all handles in a list; the
  reference count of a buffer is the number of handles that point to it. A new buffer takes the next
  address. \<open>UnshareAndEnsureCapacity\<close> is declared in the header but defined elsewhere: it is the argument
  \<open>unshare\<close>, and \<open>unshare_ok\<close> is what its comment says.
\<close>

type_synonym byte_cell = "8 word"

record cow =
  cow_buffer :: "nat option"
  cow_offset :: nat
  cow_size :: nat

record cow_store =
  buffers :: "nat \<Rightarrow> byte_cell buffer"
  next_address :: nat
  handles :: "cow list"

definition null_handle :: cow where
  "null_handle = \<lparr>cow_buffer = None, cow_offset = 0, cow_size = 0\<rparr>"

section \<open>Observation\<close>

definition cow_capacity :: "cow_store \<Rightarrow> cow \<Rightarrow> nat" where
  "cow_capacity s c = (case cow_buffer c of None \<Rightarrow> 0 | Some a \<Rightarrow> buf_capacity (buffers s a) - cow_offset c)"

definition cdata :: "cow_store \<Rightarrow> cow \<Rightarrow> byte_cell block" where
  "cdata s c = (case cow_buffer c of None \<Rightarrow> [] | Some a \<Rightarrow> drop (cow_offset c) (block_of (buffers s a)))"

text \<open>The bytes of a handle: \<open>size_\<close> bytes from \<open>cdata()\<close> on.\<close>

definition view :: "cow_store \<Rightarrow> cow \<Rightarrow> byte_cell block" where
  "view s c = take (cow_size c) (cdata s c)"

definition cow_consistent :: "cow_store \<Rightarrow> cow \<Rightarrow> bool" where
  "cow_consistent s c \<longleftrightarrow>
     (case cow_buffer c of
        Some a \<Rightarrow> 0 < buf_capacity (buffers s a) \<and> cow_offset c + cow_size c \<le> buf_size (buffers s a)
      | None \<Rightarrow> cow_size c = 0 \<and> cow_offset c = 0)"

definition references :: "cow_store \<Rightarrow> nat \<Rightarrow> nat" where
  "references s a = length (filter (\<lambda>c. cow_buffer c = Some a) (handles s))"

definition HasOneRef :: "cow_store \<Rightarrow> nat \<Rightarrow> bool" where
  "HasOneRef s a \<longleftrightarrow> references s a = 1"

definition set_handle :: "nat \<Rightarrow> cow \<Rightarrow> cow_store \<Rightarrow> cow_store" where
  "set_handle h c s = s\<lparr>handles := (handles s)[h := c]\<rparr>"

definition set_buffer :: "nat \<Rightarrow> byte_cell buffer \<Rightarrow> cow_store \<Rightarrow> cow_store" where
  "set_buffer a b s = s\<lparr>buffers := (buffers s)(a := b)\<rparr>"

text \<open>\<open>new RefCountedBuffer\<close>: the store with the buffer, and its address.\<close>

definition new_buffer :: "byte_cell buffer \<Rightarrow> cow_store \<Rightarrow> cow_store \<times> nat" where
  "new_buffer b s =
     (s\<lparr>buffers := (buffers s)(next_address s := b), next_address := next_address s + 1\<rparr>, next_address s)"

section \<open>Operations\<close>

text \<open>\<open>h\<close> and \<open>g\<close> are positions in the list of handles.\<close>

definition cow_new :: "cow \<Rightarrow> cow_store \<Rightarrow> cow_store" where
  "cow_new c s = s\<lparr>handles := handles s @ [c]\<rparr>"

definition cow_copy :: "nat \<Rightarrow> cow_store \<Rightarrow> cow_store" where
  "cow_copy g s = cow_new (handles s ! g) s"

definition cow_assign :: "nat \<Rightarrow> nat \<Rightarrow> cow_store \<Rightarrow> cow_store" where
  "cow_assign h g s = (if h = g then s else set_handle h (handles s ! g) s)"

definition cow_move_assign :: "nat \<Rightarrow> nat \<Rightarrow> cow_store \<Rightarrow> cow_store" where
  "cow_move_assign h g s =
     (let c = handles s ! g in
      set_handle g \<lparr>cow_buffer = (if h = g then cow_buffer c else None), cow_offset = 0, cow_size = 0\<rparr>
        (set_handle h c s))"

definition cow_swap :: "nat \<Rightarrow> nat \<Rightarrow> cow_store \<Rightarrow> cow_store" where
  "cow_swap h g s = set_handle g (handles s ! h) (set_handle h (handles s ! g) s)"

definition Slice :: "nat \<Rightarrow> nat \<Rightarrow> nat \<Rightarrow> cow_store \<Rightarrow> cow_store" where
  "Slice h off len s =
     (let c = handles s ! h in cow_new (c\<lparr>cow_offset := cow_offset c + off, cow_size := len\<rparr>) s)"

definition cow_SetData :: "nat \<Rightarrow> byte_cell block \<Rightarrow> cow_store \<Rightarrow> cow_store" where
  "cow_SetData h data s =
     (let c = handles s ! h in
      case cow_buffer c of
        None \<Rightarrow>
          if 0 < length data then
            (case new_buffer (buffer_of data (length data)) s of (s1, a) \<Rightarrow>
               set_handle h \<lparr>cow_buffer = Some a, cow_offset = 0, cow_size = length data\<rparr> s1)
          else set_handle h \<lparr>cow_buffer = None, cow_offset = 0, cow_size = length data\<rparr> s
      | Some a \<Rightarrow>
          if \<not> HasOneRef s a then
            (case new_buffer (buffer_of data (cow_capacity s c)) s of (s1, a') \<Rightarrow>
               set_handle h \<lparr>cow_buffer = Some a', cow_offset = 0, cow_size = length data\<rparr> s1)
          else
            set_handle h \<lparr>cow_buffer = Some a, cow_offset = 0, cow_size = length data\<rparr>
              (set_buffer a (SetData None data (buffers s a)) s))"

text \<open>The header's own parts of \<open>AppendData\<close> and \<open>MutableData\<close> after unsharing; a byte is written through the pointer.\<close>

definition cow_AppendData ::
  "(nat \<Rightarrow> nat \<Rightarrow> cow_store \<Rightarrow> cow_store) \<Rightarrow> nat \<Rightarrow> byte_cell block \<Rightarrow> cow_store \<Rightarrow> cow_store" where
  "cow_AppendData unshare h data s =
     (let c = handles s ! h in
      case cow_buffer c of
        None \<Rightarrow>
          (case new_buffer (buffer_of data (length data)) s of (s1, a) \<Rightarrow>
             set_handle h \<lparr>cow_buffer = Some a, cow_offset = 0, cow_size = length data\<rparr> s1)
      | Some _ \<Rightarrow>
          (let s1 = unshare h (max (cow_capacity s c) (cow_size c + length data)) s; c1 = handles s1 ! h in
           case cow_buffer c1 of
             None \<Rightarrow> s1
           | Some a \<Rightarrow>
               (let b = AppendData None data (SetSize None (cow_offset c1 + cow_size c1) (buffers s1 a)) in
                set_handle h (c1\<lparr>cow_size := cow_size c1 + length data\<rparr>) (set_buffer a b s1))))"

definition cow_write :: "(nat \<Rightarrow> nat \<Rightarrow> cow_store \<Rightarrow> cow_store) \<Rightarrow> nat \<Rightarrow> nat \<Rightarrow> byte_cell \<Rightarrow> cow_store \<Rightarrow> cow_store" where
  "cow_write unshare h index x s =
     (let c = handles s ! h in
      case cow_buffer c of
        None \<Rightarrow> s
      | Some _ \<Rightarrow>
          (let s1 = unshare h (cow_capacity s c) s; c1 = handles s1 ! h in
           case cow_buffer c1 of
             None \<Rightarrow> s1
           | Some a \<Rightarrow> set_buffer a (buffer_write (cow_offset c1 + index) x (buffers s1 a)) s1))"

section \<open>Invariant\<close>

text \<open>
  Every handle points to a buffer that exists and stands for a part of what is in use there. The header's own check
  \<open>IsConsistent\<close> asks in addition for a buffer of positive capacity.
\<close>

definition handle_ok :: "cow_store \<Rightarrow> cow \<Rightarrow> bool" where
  "handle_ok s c \<longleftrightarrow>
     (case cow_buffer c of
        None \<Rightarrow> cow_size c = 0 \<and> cow_offset c = 0
      | Some a \<Rightarrow> a < next_address s \<and> cow_offset c + cow_size c \<le> buf_size (buffers s a))"

definition store_ok :: "cow_store \<Rightarrow> bool" where
  "store_ok s \<longleftrightarrow> (\<forall>c \<in> set (handles s). handle_ok s c) \<and> (\<forall>a. good None (buffers s a))"

definition views :: "cow_store \<Rightarrow> byte_cell block list" where
  "views s = map (view s) (handles s)"

lemma views_length [simp]: "length (views s) = length (handles s)"
  by (simp add: views_def)

lemma views_nth: "h < length (handles s) \<Longrightarrow> views s ! h = view s (handles s ! h)"
  by (simp add: views_def)

lemma handles_only [simp]:
  "view (s\<lparr>handles := cs\<rparr>) = view s" "handle_ok (s\<lparr>handles := cs\<rparr>) c \<longleftrightarrow> handle_ok s c"
  by (simp_all add: fun_eq_iff view_def cdata_def handle_ok_def split: option.split)

lemma handle_ok_nth: "store_ok s \<Longrightarrow> h < length (handles s) \<Longrightarrow> handle_ok s (handles s ! h)"
  by (simp add: store_ok_def)

lemma view_contents:
  assumes "cow_buffer c = Some a" and "cow_offset c + cow_size c \<le> buf_size (buffers s a)"
  shows "view s c = take (cow_size c) (drop (cow_offset c) (contents (buffers s a)))"
  using assms by (simp add: view_def cdata_def contents_def drop_take)

lemma view_length:
  assumes "store_ok s" and "h < length (handles s)"
  shows "length (view s (handles s ! h)) = cow_size (handles s ! h)"
proof (cases "cow_buffer (handles s ! h)")
  case None
  with handle_ok_nth [OF assms] show ?thesis by (simp add: handle_ok_def view_def cdata_def)
next
  case (Some a)
  then have "cow_offset (handles s ! h) + cow_size (handles s ! h) \<le> buf_size (buffers s a)"
    using handle_ok_nth [OF assms] by (simp add: handle_ok_def)
  moreover have "length (contents (buffers s a)) = buf_size (buffers s a)"
    using assms(1) by (intro contents_length) (simp add: store_ok_def good_def)
  ultimately show ?thesis using Some by (simp add: view_contents)
qed

text \<open>A buffer with one reference belongs to one handle.\<close>

definition alone :: "cow_store \<Rightarrow> nat \<Rightarrow> nat \<Rightarrow> bool" where
  "alone s h a \<longleftrightarrow> (\<forall>g < length (handles s). g \<noteq> h \<longrightarrow> cow_buffer (handles s ! g) \<noteq> Some a)"

lemma HasOneRef_alone:
  assumes "HasOneRef s a" and "h < length (handles s)" and "cow_buffer (handles s ! h) = Some a"
  shows "alone s h a"
proof -
  have "card {i. i < length (handles s) \<and> cow_buffer (handles s ! i) = Some a} = 1"
    using assms(1) by (simp add: HasOneRef_def references_def length_filter_conv_card)
  then obtain k where k: "{i. i < length (handles s) \<and> cow_buffer (handles s ! i) = Some a} = {k}"
    by (rule card_1_singletonE)
  with assms(2,3) have "h = k" by blast
  with k show ?thesis by (auto simp: alone_def)
qed

lemma fresh_alone: "store_ok s \<Longrightarrow> alone s h (next_address s)"
  unfolding alone_def store_ok_def handle_ok_def by (fastforce dest: nth_mem)

text \<open>A handle and its buffer are replaced, which no other handle notices.\<close>

lemma replace_ok:
  assumes s: "store_ok s" and h: "h < length (handles s)" and a: "alone s h a" "a < n" "next_address s \<le> n"
    and b: "good None b" "off + len \<le> buf_size b"
  defines "t \<equiv> set_handle h \<lparr>cow_buffer = Some a, cow_offset = off, cow_size = len\<rparr>
      (s\<lparr>buffers := (buffers s)(a := b), next_address := n\<rparr>)"
  shows "store_ok t" and "views t = (views s)[h := take len (drop off (contents b))]"
proof -
  have other: "handle_ok t (handles s ! g)" "view t (handles s ! g) = view s (handles s ! g)"
    if "g < length (handles s)" "g \<noteq> h" for g
    using handle_ok_nth [OF s that(1)] a that
    by (auto simp: t_def set_handle_def alone_def handle_ok_def view_def cdata_def split: option.splits)
  have ht: "handles t = (handles s)[h := \<lparr>cow_buffer = Some a, cow_offset = off, cow_size = len\<rparr>]"
    by (simp add: t_def set_handle_def)
  have "handle_ok t (handles t ! g)" if "g < length (handles s)" for g
    using that other a(2) b(2) h by (cases "g = h") (simp_all add: ht, simp add: t_def set_handle_def handle_ok_def)
  then show "store_ok t"
    using s b(1) by (auto simp: store_ok_def all_set_conv_all_nth ht) (auto simp: t_def set_handle_def)
  have "views t ! g = (views s)[h := take len (drop off (contents b))] ! g" if "g < length (handles s)" for g
  proof (cases "g = h")
    case True
    then show ?thesis using h b(2)
      by (simp add: views_nth ht) (simp add: t_def set_handle_def view_def cdata_def contents_def drop_take)
  next
    case False
    then show ?thesis using that other by (simp add: views_nth ht)
  qed
  then show "views t = (views s)[h := take len (drop off (contents b))]"
    by (intro nth_equalityI) (simp_all add: ht)
qed

text \<open>A handle takes over a part of what another stands for; nothing else changes.\<close>

lemma retarget_ok:
  assumes s: "store_ok s" and h: "h < length (handles s)" and c: "handle_ok s c"
  shows "store_ok (set_handle h c s)" and "views (set_handle h c s) = (views s)[h := view s c]"
proof -
  have v: "view (set_handle h c s) d = view s d" "handle_ok (set_handle h c s) d = handle_ok s d" for d
    by (simp_all add: set_handle_def)
  show "store_ok (set_handle h c s)"
    using s c by (auto simp: store_ok_def v) (auto simp: set_handle_def dest!: set_update_subset_insert [THEN subsetD])
  show "views (set_handle h c s) = (views s)[h := view s c]"
    by (simp add: views_def set_handle_def map_update)
qed

lemma cow_new_ok:
  assumes s: "store_ok s" and c: "handle_ok s c"
  shows "store_ok (cow_new c s)" and "views (cow_new c s) = views s @ [view s c]"
  using s c by (auto simp: store_ok_def cow_new_def views_def)

section \<open>Each operation\<close>

text \<open>What the comment at \<open>UnshareAndEnsureCapacity\<close> says, for a handle that points to a buffer.\<close>

definition unshare_ok :: "(nat \<Rightarrow> nat \<Rightarrow> cow_store \<Rightarrow> cow_store) \<Rightarrow> bool" where
  "unshare_ok unshare \<longleftrightarrow>
     (\<forall>s h n. store_ok s \<and> h < length (handles s) \<and> cow_buffer (handles s ! h) \<noteq> None \<longrightarrow>
        store_ok (unshare h n s) \<and> views (unshare h n s) = views s \<and>
        (\<exists>a. cow_buffer (handles (unshare h n s) ! h) = Some a \<and> HasOneRef (unshare h n s) a \<and>
           n \<le> cow_capacity (unshare h n s) (handles (unshare h n s) ! h)))"

lemma unshareD:
  assumes u: "unshare_ok unshare" and s: "store_ok s" and h: "h < length (handles s)"
    and c: "cow_buffer (handles s ! h) = Some b"
  obtains a where "store_ok (unshare h n s)" "views (unshare h n s) = views s"
    "length (handles (unshare h n s)) = length (handles s)"
    "cow_buffer (handles (unshare h n s) ! h) = Some a" "alone (unshare h n s) h a"
    "a < next_address (unshare h n s)"
    "cow_offset (handles (unshare h n s) ! h) + cow_size (handles (unshare h n s) ! h) \<le> buf_size (buffers (unshare h n s) a)"
proof -
  from u s h c obtain a where a: "store_ok (unshare h n s)" "views (unshare h n s) = views s"
    "cow_buffer (handles (unshare h n s) ! h) = Some a" "HasOneRef (unshare h n s) a"
    unfolding unshare_ok_def by blast
  have l: "length (handles (unshare h n s)) = length (handles s)"
    using arg_cong [OF a(2), of length] by simp
  with h have "h < length (handles (unshare h n s))" by simp
  with that [OF a(1,2) l a(3)] HasOneRef_alone [OF a(4) _ a(3)] handle_ok_nth [OF a(1), of h] a(3) show thesis
    by (simp add: handle_ok_def)
qed

lemma set_handle_simps [simp]: "handles (set_handle h c s) = (handles s)[h := c]"
  by (simp add: set_handle_def)

lemma new_buffer_handle:
  assumes "store_ok s" and "h < length (handles s)"
  defines "t cap data \<equiv> (case new_buffer (buffer_of data cap) s of (s1, a) \<Rightarrow>
      set_handle h \<lparr>cow_buffer = Some a, cow_offset = 0, cow_size = length data\<rparr> s1)"
  shows "store_ok (t cap data)" and "views (t cap data) = (views s)[h := data]"
  using replace_ok [OF assms(1,2) fresh_alone [OF assms(1)], of "next_address s + 1" "buffer_of data cap" 0 "length data"]
    buffer_of_good(1) [of None data cap] buffer_of_good(2) [of data cap] contents_length [of "buffer_of data cap"]
  by (simp_all add: t_def new_buffer_def good_def [of None "buffer_of data cap"])

lemma SetData_ok:
  assumes s: "store_ok s" and h: "h < length (handles s)"
  shows "store_ok (cow_SetData h data s)" and "views (cow_SetData h data s) = (views s)[h := data]"
proof -
  note new = new_buffer_handle [OF s h]
  have "store_ok (cow_SetData h data s) \<and> views (cow_SetData h data s) = (views s)[h := data]"
  proof (cases "cow_buffer (handles s ! h)")
    case None
    have "store_ok (set_handle h null_handle s) \<and> views (set_handle h null_handle s) = (views s)[h := []]"
      using retarget_ok [OF s h, of null_handle] by (simp add: null_handle_def handle_ok_def view_def)
    with None new [where cap = "length data"] show ?thesis by (auto simp: cow_SetData_def null_handle_def Let_def)
  next
    case (Some a)
    show ?thesis
    proof (cases "HasOneRef s a")
      case True
      have "good None (buffers s a)" using s by (simp add: store_ok_def)
      note d = SetData_good [OF this, of data]
      have "buf_size (SetData None data (buffers s a)) = length data"
        using contents_length [of "SetData None data (buffers s a)"] d by (simp add: good_def)
      moreover have "a < next_address s" using handle_ok_nth [OF s h] Some by (simp add: handle_ok_def)
      ultimately show ?thesis
        using replace_ok [OF s h HasOneRef_alone [OF True h Some], of "next_address s" _ 0 "length data"] d Some True
        by (simp add: cow_SetData_def Let_def set_buffer_def)
    next
      case False
      with Some new show ?thesis by (simp add: cow_SetData_def Let_def)
    qed
  qed
  then show "store_ok (cow_SetData h data s)" and "views (cow_SetData h data s) = (views s)[h := data]" by auto
qed

lemma AppendData_ok:
  assumes u: "unshare_ok unshare" and s: "store_ok s" and h: "h < length (handles s)"
  shows "store_ok (cow_AppendData unshare h data s) \<and>
    views (cow_AppendData unshare h data s) = (views s)[h := views s ! h @ data]"
proof (cases "cow_buffer (handles s ! h)")
  case None
  then have "views s ! h = []" using h by (simp add: views_nth view_def cdata_def)
  with None new_buffer_handle [OF s h] show ?thesis by (simp add: cow_AppendData_def Let_def)
next
  case (Some b0)
  let ?n = "max (cow_capacity s (handles s ! h)) (cow_size (handles s ! h) + length data)"
  obtain a where t: "store_ok (unshare h ?n s)" "views (unshare h ?n s) = views s"
    "length (handles (unshare h ?n s)) = length (handles s)"
    and a: "cow_buffer (handles (unshare h ?n s) ! h) = Some a" "alone (unshare h ?n s) h a" "a < next_address (unshare h ?n s)"
    and le: "cow_offset (handles (unshare h ?n s) ! h) + cow_size (handles (unshare h ?n s) ! h) \<le> buf_size (buffers (unshare h ?n s) a)"
    by (rule unshareD [OF u s h Some])
  define t where "t = unshare h ?n s"
  define c where "c = handles t ! h"
  define b where "b = AppendData None data (SetSize None (cow_offset c + cow_size c) (buffers t a))"
  have h': "h < length (handles t)" using h t(3) by (simp add: t_def)
  have g: "good None (buffers t a)" using t(1) by (simp add: store_ok_def t_def)
  have sz: "cow_offset c + cow_size c \<le> buf_size (buffers t a)" using le by (simp add: c_def t_def)
  note r = SetSize_good [OF g, of "cow_offset c + cow_size c"]
  have cr: "contents (SetSize None (cow_offset c + cow_size c) (buffers t a)) =
      take (cow_offset c + cow_size c) (contents (buffers t a))"
    using r(1-3) sz contents_length [of "SetSize None (cow_offset c + cow_size c) (buffers t a)"]
    by (simp add: good_def min_absorb1)
  have cb: "contents b = take (cow_offset c + cow_size c) (contents (buffers t a)) @ data" and gb: "good None b"
    using AppendData_good [OF r(1), of data] cr by (simp_all add: b_def)
  have lc: "length (contents (buffers t a)) = buf_size (buffers t a)"
    using g by (intro contents_length) (simp add: good_def)
  have sb: "buf_size b = cow_offset c + cow_size c + length data"
    using contents_length [of b] gb cb lc sz by (simp add: good_def)
  have "cow_AppendData unshare h data s = set_handle h (c\<lparr>cow_size := cow_size c + length data\<rparr>) (set_buffer a b t)"
    using Some a(1) by (simp add: cow_AppendData_def Let_def b_def c_def t_def)
  moreover have "c\<lparr>cow_size := cow_size c + length data\<rparr> =
      \<lparr>cow_buffer = Some a, cow_offset = cow_offset c, cow_size = cow_size c + length data\<rparr>"
    using a(1) by (simp add: c_def t_def)
  moreover have "take (cow_size c + length data) (drop (cow_offset c) (contents b)) = views s ! h @ data"
  proof -
    have "views s ! h = view t c" using t(2) h' by (metis c_def t_def views_nth)
    also have "\<dots> = take (cow_size c) (drop (cow_offset c) (contents (buffers t a)))"
      using a(1) sz by (intro view_contents) (simp_all add: c_def t_def)
    finally show ?thesis using lc sz by (simp add: cb drop_take)
  qed
  ultimately show ?thesis
    using replace_ok [of t h a "next_address t" b "cow_offset c" "cow_size c + length data"] t a h' gb sb
    by (simp add: set_buffer_def t_def [symmetric])
qed

lemma set_handle_same: "set_handle h (handles s ! h) s = s"
  by (simp add: set_handle_def)

lemma buffer_write_good:
  assumes "good None b" and "i < buf_size b"
  shows "good None (buffer_write i x b)" and "buf_size (buffer_write i x b) = buf_size b"
    and "contents (buffer_write i x b) = (contents b)[i := Some x]"
proof -
  have blk: "block_of (buffer_write i x b) = (block_of b)[i := Some x]"
    by (simp add: buffer_write_def block_of_def split: option.split)
  have f: "buf_size (buffer_write i x b) = buf_size b" "buf_capacity (buffer_write i x b) = buf_capacity b"
    by (simp_all add: buffer_write_def)
  show "buf_size (buffer_write i x b) = buf_size b" by (rule f)
  show "good None (buffer_write i x b)" using assms(1) by (simp add: good_def buffer_ok_def no_traces_def blk f)
  show "contents (buffer_write i x b) = (contents b)[i := Some x]"
    by (simp add: contents_def blk f take_update_swap)
qed

lemma write_ok:
  assumes u: "unshare_ok unshare" and s: "store_ok s" and h: "h < length (handles s)"
    and i: "i < cow_size (handles s ! h)"
  shows "store_ok (cow_write unshare h i x s) \<and> views (cow_write unshare h i x s) = (views s)[h := (views s ! h)[i := Some x]]"
proof (cases "cow_buffer (handles s ! h)")
  case None
  then show ?thesis using handle_ok_nth [OF s h] i by (simp add: handle_ok_def)
next
  case (Some b0)
  let ?n = "cow_capacity s (handles s ! h)"
  obtain a where t: "store_ok (unshare h ?n s)" "views (unshare h ?n s) = views s"
    "length (handles (unshare h ?n s)) = length (handles s)"
    and a: "cow_buffer (handles (unshare h ?n s) ! h) = Some a" "alone (unshare h ?n s) h a" "a < next_address (unshare h ?n s)"
    and le: "cow_offset (handles (unshare h ?n s) ! h) + cow_size (handles (unshare h ?n s) ! h) \<le> buf_size (buffers (unshare h ?n s) a)"
    by (rule unshareD [OF u s h Some])
  define t where "t = unshare h ?n s"
  define c where "c = handles t ! h"
  have h': "h < length (handles t)" using h t(3) by (simp add: t_def)
  have g: "good None (buffers t a)" using t(1) by (simp add: store_ok_def t_def)
  have sz: "cow_offset c + cow_size c \<le> buf_size (buffers t a)" using le by (simp add: c_def t_def)
  have vs: "views s ! h = view t c" using t(2) h' by (metis c_def t_def views_nth)
  then have "cow_size c = cow_size (handles s ! h)"
    using view_length [OF s h] view_length [of t h] t(1) h' h by (simp add: c_def t_def views_nth)
  with i sz have i': "i < cow_size c" "cow_offset c + i < buf_size (buffers t a)" by simp_all
  note w = buffer_write_good [OF g i'(2), of x]
  have "cow_write unshare h i x s = set_buffer a (buffer_write (cow_offset c + i) x (buffers t a)) t"
    using Some a(1) by (simp add: cow_write_def Let_def c_def t_def)
  also have "\<dots> = set_handle h \<lparr>cow_buffer = Some a, cow_offset = cow_offset c, cow_size = cow_size c\<rparr>
      (set_buffer a (buffer_write (cow_offset c + i) x (buffers t a)) t)"
  proof -
    have "\<lparr>cow_buffer = Some a, cow_offset = cow_offset c, cow_size = cow_size c\<rparr> = handles (set_buffer a (buffer_write (cow_offset c + i) x (buffers t a)) t) ! h"
      using a(1) by (simp add: set_buffer_def c_def t_def)
    then show ?thesis by (simp only: set_handle_same)
  qed
  finally have r: "cow_write unshare h i x s = \<dots>" .
  have "view t c = take (cow_size c) (drop (cow_offset c) (contents (buffers t a)))"
    using a(1) sz by (intro view_contents) (simp_all add: c_def t_def)
  with i' have "take (cow_size c) (drop (cow_offset c) (contents (buffer_write (cow_offset c + i) x (buffers t a)))) =
      (views s ! h)[i := Some x]"
    by (simp add: w(3) vs drop_update_swap take_update_swap)
  with r replace_ok [of t h a "next_address t" "buffer_write (cow_offset c + i) x (buffers t a)" "cow_offset c" "cow_size c"]
    t a h' w(1,2) sz show ?thesis
    by (simp add: set_buffer_def t_def [symmetric])
qed

lemma other_ops_ok:
  assumes s: "store_ok s" and h: "h < length (handles s)" and g: "g < length (handles s)"
  shows "store_ok (cow_copy g s)" "views (cow_copy g s) = views s @ [views s ! g]"
    and "store_ok (cow_assign h g s)" "views (cow_assign h g s) = (views s)[h := views s ! g]"
    and "store_ok (cow_move_assign h g s)" "views (cow_move_assign h g s) = (views s)[h := views s ! g, g := []]"
    and "store_ok (cow_swap h g s)" "views (cow_swap h g s) = (views s)[h := views s ! g, g := views s ! h]"
proof -
  note og = handle_ok_nth [OF s g] and oh = handle_ok_nth [OF s h]
  show "store_ok (cow_copy g s)" "views (cow_copy g s) = views s @ [views s ! g]"
    using cow_new_ok [OF s og] g by (simp_all add: cow_copy_def views_nth)
  note hg = retarget_ok [OF s h og]
  show "store_ok (cow_assign h g s)" "views (cow_assign h g s) = (views s)[h := views s ! g]"
    using s hg g by (auto simp: cow_assign_def views_nth simp flip: views_nth)
  let ?t = "set_handle h (handles s ! g) s"
  have ok: "handle_ok ?t c = handle_ok s c" "view ?t c = view s c" for c by (simp_all add: set_handle_def)
  have g': "g < length (handles ?t)" using g by simp
  show "store_ok (cow_swap h g s)" "views (cow_swap h g s) = (views s)[h := views s ! g, g := views s ! h]"
    using retarget_ok [OF hg(1) g', of "handles s ! h"] hg(2) oh h g
    by (simp_all add: cow_swap_def ok views_nth)
  let ?c = "\<lparr>cow_buffer = (if h = g then cow_buffer (handles s ! g) else None), cow_offset = 0, cow_size = 0\<rparr>"
  have "handle_ok s ?c" "view s ?c = []"
    using og by (auto simp: handle_ok_def view_def split: option.splits)
  then show "store_ok (cow_move_assign h g s)" "views (cow_move_assign h g s) = (views s)[h := views s ! g, g := []]"
    using retarget_ok [OF hg(1) g', of ?c] hg(2) g by (simp_all add: cow_move_assign_def Let_def ok views_nth)
qed

lemma Slice_ok:
  assumes s: "store_ok s" and h: "h < length (handles s)" and b: "len + off \<le> cow_size (handles s ! h)"
  shows "store_ok (Slice h off len s)" "views (Slice h off len s) = views s @ [take len (drop off (views s ! h))]"
proof -
  let ?c = "handles s ! h"
  note o = handle_ok_nth [OF s h]
  have "handle_ok s (?c\<lparr>cow_offset := cow_offset ?c + off, cow_size := len\<rparr>)"
    using o b by (auto simp: handle_ok_def split: option.splits)
  moreover have "view s (?c\<lparr>cow_offset := cow_offset ?c + off, cow_size := len\<rparr>) = take len (drop off (view s ?c))"
    using b by (auto simp: view_def cdata_def drop_take min_def add.commute split: option.splits)
  ultimately show "store_ok (Slice h off len s)" "views (Slice h off len s) = views s @ [take len (drop off (views s ! h))]"
    using cow_new_ok [OF s, of "?c\<lparr>cow_offset := cow_offset ?c + off, cow_size := len\<rparr>"] h
    by (simp_all add: Slice_def Let_def views_nth)
qed

section \<open>Sequences of operations\<close>

datatype cow_op =
    Cow_Copy nat
  | Cow_Assign nat nat
  | Cow_Move nat nat
  | Cow_Swap nat nat
  | Cow_Slice nat nat nat
  | Cow_SetData nat "byte_cell block"
  | Cow_AppendData nat "byte_cell block"
  | Cow_Write nat nat byte_cell

fun cow_exec :: "(nat \<Rightarrow> nat \<Rightarrow> cow_store \<Rightarrow> cow_store) \<Rightarrow> cow_op \<Rightarrow> cow_store \<Rightarrow> cow_store" where
  "cow_exec unshare (Cow_Copy g) s = cow_copy g s"
| "cow_exec unshare (Cow_Assign h g) s = cow_assign h g s"
| "cow_exec unshare (Cow_Move h g) s = cow_move_assign h g s"
| "cow_exec unshare (Cow_Swap h g) s = cow_swap h g s"
| "cow_exec unshare (Cow_Slice h off len) s = Slice h off len s"
| "cow_exec unshare (Cow_SetData h data) s = cow_SetData h data s"
| "cow_exec unshare (Cow_AppendData h data) s = cow_AppendData unshare h data s"
| "cow_exec unshare (Cow_Write h i x) s = cow_write unshare h i x s"

text \<open>The specification: each handle has a list of its own, and taking over is copying.\<close>

fun copy_exec :: "cow_op \<Rightarrow> byte_cell block list \<Rightarrow> byte_cell block list" where
  "copy_exec (Cow_Copy g) xs = xs @ [xs ! g]"
| "copy_exec (Cow_Assign h g) xs = xs[h := xs ! g]"
| "copy_exec (Cow_Move h g) xs = xs[h := xs ! g, g := []]"
| "copy_exec (Cow_Swap h g) xs = xs[h := xs ! g, g := xs ! h]"
| "copy_exec (Cow_Slice h off len) xs = xs @ [take len (drop off (xs ! h))]"
| "copy_exec (Cow_SetData h data) xs = xs[h := data]"
| "copy_exec (Cow_AppendData h data) xs = xs[h := xs ! h @ data]"
| "copy_exec (Cow_Write h i x) xs = xs[h := (xs ! h)[i := Some x]]"

text \<open>What the debug checks ask of a call: handles that exist, a slice and an index within the size.\<close>

fun op_valid :: "cow_op \<Rightarrow> byte_cell block list \<Rightarrow> bool" where
  "op_valid (Cow_Copy g) xs \<longleftrightarrow> g < length xs"
| "op_valid (Cow_Assign h g) xs \<longleftrightarrow> h < length xs \<and> g < length xs"
| "op_valid (Cow_Move h g) xs \<longleftrightarrow> h < length xs \<and> g < length xs"
| "op_valid (Cow_Swap h g) xs \<longleftrightarrow> h < length xs \<and> g < length xs"
| "op_valid (Cow_Slice h off len) xs \<longleftrightarrow> h < length xs \<and> len + off \<le> length (xs ! h)"
| "op_valid (Cow_SetData h data) xs \<longleftrightarrow> h < length xs"
| "op_valid (Cow_AppendData h data) xs \<longleftrightarrow> h < length xs"
| "op_valid (Cow_Write h i x) xs \<longleftrightarrow> h < length xs \<and> i < length (xs ! h)"

fun cow_run :: "(nat \<Rightarrow> nat \<Rightarrow> cow_store \<Rightarrow> cow_store) \<Rightarrow> cow_op list \<Rightarrow> cow_store \<Rightarrow> cow_store" where
  "cow_run unshare [] s = s"
| "cow_run unshare (c # cs) s = cow_run unshare cs (cow_exec unshare c s)"

fun copy_run :: "cow_op list \<Rightarrow> byte_cell block list \<Rightarrow> byte_cell block list" where
  "copy_run [] xs = xs"
| "copy_run (c # cs) xs = copy_run cs (copy_exec c xs)"

fun run_valid :: "cow_op list \<Rightarrow> byte_cell block list \<Rightarrow> bool" where
  "run_valid [] xs \<longleftrightarrow> True"
| "run_valid (c # cs) xs \<longleftrightarrow> op_valid c xs \<and> run_valid cs (copy_exec c xs)"

lemma cow_exec_ok:
  assumes u: "unshare_ok unshare" and s: "store_ok s" and v: "op_valid c (views s)"
  shows "store_ok (cow_exec unshare c s) \<and> views (cow_exec unshare c s) = copy_exec c (views s)"
proof (cases c)
  case (Cow_Slice h off len)
  with v have h: "h < length (handles s)" "len + off \<le> cow_size (handles s ! h)"
    using view_length [OF s, of h] by (auto simp: views_nth)
  from Slice_ok [OF s h] Cow_Slice show ?thesis by simp
next
  case (Cow_Write h i x)
  with v have h: "h < length (handles s)" "i < cow_size (handles s ! h)"
    using view_length [OF s, of h] by (auto simp: views_nth)
  from write_ok [OF u s h] Cow_Write show ?thesis by simp
qed (use v u s other_ops_ok [OF s] SetData_ok [OF s] AppendData_ok [OF u s] in simp_all)

lemma cow_run_ok:
  "unshare_ok unshare \<Longrightarrow> store_ok s \<Longrightarrow> run_valid cs (views s) \<Longrightarrow>
    store_ok (cow_run unshare cs s) \<and> views (cow_run unshare cs s) = copy_run cs (views s)"
  by (induction cs arbitrary: s) (simp_all add: cow_exec_ok)

definition null_handles :: "nat \<Rightarrow> cow_store" where
  "null_handles n = \<lparr>buffers = (\<lambda>a. buffer_empty), next_address = 0, handles = replicate n null_handle\<rparr>"

lemma null_handles_ok [simp]: "store_ok (null_handles n)" "views (null_handles n) = replicate n []"
  by (simp_all add: null_handles_def store_ok_def handle_ok_def null_handle_def good_def buffer_ok_def no_traces_def
      buffer_empty_def block_of_def views_def view_def)

text \<open>An instance of the contract, as the comment describes it.\<close>

definition unshare_copy :: "nat \<Rightarrow> nat \<Rightarrow> cow_store \<Rightarrow> cow_store" where
  "unshare_copy h n s =
     (let c = handles s ! h in
      case cow_buffer c of
        None \<Rightarrow> s
      | Some a \<Rightarrow>
          if HasOneRef s a \<and> n \<le> cow_capacity s c then s
          else
            (case new_buffer (buffer_of (view s c) n) s of (s1, a') \<Rightarrow>
               set_handle h \<lparr>cow_buffer = Some a', cow_offset = 0, cow_size = cow_size c\<rparr> s1))"

lemma fresh_one_ref:
  assumes s: "store_ok s" and h: "h < length (handles s)" and c: "cow_buffer c = Some (next_address s)"
  shows "length (filter (\<lambda>d. cow_buffer d = Some (next_address s)) ((handles s)[h := c])) = 1"
proof -
  have "cow_buffer (handles s ! g) \<noteq> Some (next_address s)" if "g < length (handles s)" for g
    using handle_ok_nth [OF s that] by (auto simp: handle_ok_def)
  then have "{i. i < length (handles s) \<and> cow_buffer ((handles s)[h := c] ! i) = Some (next_address s)} = {h}"
    using h c by (auto simp: nth_list_update split: if_splits)
  then show ?thesis by (simp add: length_filter_conv_card)
qed

lemma unshare_copy_ok: "unshare_ok unshare_copy"
  unfolding unshare_ok_def
proof (intro allI impI, elim conjE)
  fix s h n
  assume s: "store_ok s" and h: "h < length (handles s)" and "cow_buffer (handles s ! h) \<noteq> None"
  then obtain a where a: "cow_buffer (handles s ! h) = Some a" by auto
  show "store_ok (unshare_copy h n s) \<and> views (unshare_copy h n s) = views s \<and>
    (\<exists>a. cow_buffer (handles (unshare_copy h n s) ! h) = Some a \<and> HasOneRef (unshare_copy h n s) a \<and>
       n \<le> cow_capacity (unshare_copy h n s) (handles (unshare_copy h n s) ! h))"
  proof (cases "HasOneRef s a \<and> n \<le> cow_capacity s (handles s ! h)")
    case True
    with a s show ?thesis by (simp add: unshare_copy_def)
  next
    case False
    let ?v = "view s (handles s ! h)"
    have l: "length ?v = cow_size (handles s ! h)" by (rule view_length [OF s h])
    have same: "(views s)[h := ?v] = views s" using h by (simp flip: views_nth)
    let ?c = "\<lparr>cow_buffer = Some (next_address s), cow_offset = 0, cow_size = length ?v\<rparr>"
    have "unshare_copy h n s = (case new_buffer (buffer_of ?v n) s of (s1, a') \<Rightarrow>
        set_handle h \<lparr>cow_buffer = Some a', cow_offset = 0, cow_size = length ?v\<rparr> s1)"
      using a False by (auto simp: unshare_copy_def Let_def l)
    moreover from this have "HasOneRef (unshare_copy h n s) (next_address s)"
      using fresh_one_ref [OF s h, of ?c] by (simp add: HasOneRef_def references_def new_buffer_def)
    moreover have "n \<le> cow_capacity (unshare_copy h n s) ?c"
      using calculation(1)
      by (simp add: cow_capacity_def new_buffer_def set_handle_def buffer_of_def buffer_sized_def Let_def)
    ultimately show ?thesis
      using new_buffer_handle [OF s h, where cap = n and data = ?v] h same by (simp add: new_buffer_def)
  qed
qed

section \<open>Properties\<close>

text \<open>
  C11: Sharing cannot be observed: for whatever implementation of \<open>UnshareAndEnsureCapacity\<close> that does what its comment says,
  any sequence of copies, assignments, moves, swaps, slices, replacements, appends and writes through a
  mutable pointer leaves every handle with exactly the bytes it would have if each handle had a list of
  its own and taking over were copying.
\<close>

theorem copy_on_write_is_copying:
  assumes "unshare_ok unshare" and "run_valid cs (replicate n [])"
  shows "views (cow_run unshare cs (null_handles n)) = copy_run cs (replicate n []) \<and>
    store_ok (cow_run unshare cs (null_handles n))"
  using cow_run_ok [OF assms(1), of "null_handles n" cs] assms(2) by simp

theorem copy_on_write_is_copying_witness:
  "views (cow_run unshare_copy [Cow_SetData 0 [Some 1, Some 2, Some 3], Cow_Slice 0 1 2, Cow_Copy 1, Cow_Write 1 0 9,
        Cow_AppendData 2 [Some 4]] (null_handles 1)) =
      copy_run [Cow_SetData 0 [Some 1, Some 2, Some 3], Cow_Slice 0 1 2, Cow_Copy 1, Cow_Write 1 0 9, Cow_AppendData 2 [Some 4]]
        (replicate 1 []) \<and>
    store_ok (cow_run unshare_copy [Cow_SetData 0 [Some 1, Some 2, Some 3], Cow_Slice 0 1 2, Cow_Copy 1, Cow_Write 1 0 9,
        Cow_AppendData 2 [Some 4]] (null_handles 1))"
  by (rule copy_on_write_is_copying [OF unshare_copy_ok]) simp

text \<open>
  The header's own check does not survive \<open>AppendData\<close> of no bytes to an empty handle: the new buffer has capacity 0,
  which \<open>SetData\<close> avoids by leaving the pointer null. The same kind of buffer results from \<open>SetData\<close> of no bytes
  to a handle that shares a buffer and stands for nothing at its end.
\<close>

lemma append_nothing_inconsistent:
  "\<not> cow_consistent (cow_AppendData unshare 0 [] (null_handles 1)) (handles (cow_AppendData unshare 0 [] (null_handles 1)) ! 0)"
  "cow_consistent (cow_SetData 0 [] (null_handles 1)) (handles (cow_SetData 0 [] (null_handles 1)) ! 0)"
  by (simp_all add: cow_AppendData_def cow_SetData_def null_handles_def null_handle_def new_buffer_def set_handle_def
      cow_consistent_def buffer_of_def buffer_sized_def)

lemma set_nothing_inconsistent:
  fixes unshare
  defines "t \<equiv> cow_run unshare [Cow_SetData 0 [Some 1], Cow_Slice 0 1 0, Cow_SetData 1 []] (null_handles 1)"
  shows "\<not> cow_consistent t (handles t ! 1)"
  by (simp add: t_def cow_SetData_def Slice_def cow_new_def Let_def null_handles_def null_handle_def new_buffer_def set_handle_def
      cow_consistent_def buffer_of_def buffer_sized_def HasOneRef_def references_def cow_capacity_def)

end
