(* ===== verification/Spec2Isabelle.thy ===== *)
theory Spec2Isabelle
  imports Json_Claims Janus_Claims Janus_Program Byte_Io Seq_Num Sigslot
    Tcp_Echo Demos Signal_Demo Units Swap_Queue Percentile Flat_Tree Json_Layout
    Json_Documents Json_Flatten Binary_Claims Ubjson_Claims Dtoa_Claims Rtc_Buffer Cow_Buffer
begin

text \<open>
  A verification library for the WebRTC demo programs of this repository: the Janus client of
  \<open>src/11_rtc_janus\<close> with the JSON library it carries, the small programs \<open>src/01_hello_rtc\<close> to
  \<open>src/10_rtc_peer_connection\<close>, and those parts of the WebRTC headers (\<open>src/webrtc/include/rtc\<close>) that
  hold code and not only declarations. The bodies of the WebRTC library are a binary that is not
  in the repository; Boost, the C library and the network are not either. What the programs ask
  of them is recorded as a value (a request, an effect, a log line), and what they answer comes in
  as an argument or as an event of a run, with nothing assumed of it but the documented contract
  written at the place.

  \<^bold>\<open>The parts and how they interact.\<close> The Janus program has two threads. \<open>main\<close> creates a session, the
  session owns a WebSocket transport and a timer, all callbacks run on the io thread. The session
  turns requests into JSON text and messages back into values; a transaction table pairs responses
  with requests; the timer sends keep-alives. The TCP demos are a client and a server whose sockets
  report through \<open>sigslot\<close> signals. The other headers are self-contained containers and arithmetic
  used by RTP code.

  \<^bold>\<open>Theories, bottom up.\<close>

  \<^item> \<open>Prelude\<close>: machine integers, results of code that throws, decimal printing. \<open>Map_Contract\<close>: the
  contract of an associative container as a locale (\<open>map_interface\<close>) and what follows for clients.
  \<open>Sorted_Map\<close>: \<open>std::map\<close> as sorted entries, an instance. \<open>Logging\<close>: severities of
  \<open>rtc_base/logging.h\<close>.

  \<^item> JSON (\<open>11_rtc_janus/nlohmann/json.hpp\<close>): \<open>Json_Value\<close> (values, \<open>operator[]\<close>, \<open>value\<close>), \<open>Json_Lexer\<close>
  (\<open>class lexer\<close>), \<open>Json_Parser\<close> (\<open>sax_parse_internal\<close> with the DOM handler), \<open>Json_Dump\<close> (\<open>class serializer\<close>
  without indentation). \<open>Json_Roundtrip\<close>, \<open>Json_Utf8\<close> and \<open>Json_Valid\<close> prove what the lexer reads of
  printed text, which strings the table-driven UTF-8 check accepts, and what the parser builds;
  \<open>Json_Claims\<close> states the properties. Functions on input take the rest of the input and return
  what is left; their recursion is on its length, so no fuel is needed.

  \<^item> JSON printing with all options: \<open>Json_Escape\<close> (the escaper with its 512 byte buffer and the three
  error handlers), \<open>Json_Serializer\<close> (indentation, integers, binary values), \<open>Json_Options\<close> (what the
  parser reads of such text), \<open>Json_Layout\<close> (the properties).

  \<^item> JSON numbers: \<open>Dtoa\<close> (\<open>dtoa_impl\<close>: the Grisu2 algorithm on 64-bit words with its table of powers,
  \<open>to_chars\<close>, \<open>dump_float\<close>), \<open>Dtoa_Words\<close> (what the word arithmetic computes, the value of a
  double and its rounding interval), \<open>Dtoa_Powers\<close> (the accuracy of the table and of the index into it),
  \<open>Dtoa_Digits\<close> (the digit loops), \<open>Dtoa_Grisu\<close> (the digits stand for a number inside the rounding
  interval), \<open>Dtoa_Format\<close> (the text, its value, and that the lexer takes all of it),
  \<open>Dtoa_Claims\<close> (the properties, and a \<open>strtod\<close> as an executable instance of its contract). The loops
  that are not bounded in the source are partial functions; that they return is part of the results.

  \<^item> JSON documents: \<open>Json_Compare\<close> (\<open>operator==\<close>, \<open>operator<\<close>), \<open>Json_Pointer\<close> (\<open>class json_pointer\<close>: text,
  tokens, access by pointer with its effects on the value), \<open>Json_Patch\<close> (\<open>patch\<close>, \<open>diff\<close>,
  \<open>merge_patch\<close>), \<open>Json_Flatten\<close> (\<open>flatten\<close>, \<open>unflatten\<close>, and why the one undoes the other),
  \<open>Json_Documents\<close> (the properties). A pointer into a value is a function that puts a
  new value at its place (\<open>at_path\<close>), which is how the proofs follow the references of the source.

  \<^item> JSON in binary formats: \<open>Binary_Numbers\<close> (numbers in network order, input with its end, the locale
  \<open>binary_format\<close> of what a document asks of a format), \<open>Json_Cbor\<close>, \<open>Json_Msgpack\<close>, \<open>Json_Bson\<close> and
  \<open>Json_Ubjson\<close> (\<open>write_cbor\<close>, \<open>parse_cbor_internal\<close> and so on, with what they call), \<open>Cbor_Roundtrip\<close>,
  \<open>Msgpack_Roundtrip\<close>, \<open>Bson_Roundtrip\<close> and \<open>Ubjson_Roundtrip\<close> (what the readers make of written and of longer
  text), \<open>Binary_Claims\<close> and \<open>Ubjson_Claims\<close>
  (the properties). The readers recurse on the input that is left; that it shrinks is proved with their
  termination, so no fuel is needed.

  \<^item> Janus (\<open>11_rtc_janus/websocket_transport.{h,cc}\<close>, \<open>janus_session.{h,cc}\<close>, \<open>main.cc\<close>): \<open>Asio\<close> (the requests
  to Boost), \<open>Websocket_Transport\<close> (one definition per method), \<open>Ws_Loop\<close> (the event loop: a world of
  outstanding operations, posted closures and timer waits, and the steps by which the library may
  complete them), \<open>Ws_Client\<close> and \<open>Ws_Timer\<close> (the transport's guarantees for any owner, as locales),
  \<open>Janus_Session\<close> (the session as such an owner, with the interpretations), \<open>Janus_Owner\<close> (the invariant
  of the session's own state), \<open>Janus_Claims\<close> (properties of all runs), \<open>Janus_Program\<close> (both threads
  interleaved).

  \<^item> Signals: \<open>Sigslot\<close> (\<open>rtc_base/third_party/sigslot/sigslot.h\<close>: an explicit store of signals and slots
  with both halves of every link, so that dangling links are states like any other, and a machine whose
  call stack holds the running emissions, into whose loops the called slots return), \<open>Signal_Demo\<close>
  (\<open>04_rtc_sigslot/main.cc\<close>), \<open>Tcp_Echo\<close> (\<open>05_rtc_socket/tcp/client.cc\<close> and \<open>server.cc\<close> over it), \<open>Demos\<close> (the other \<open>main.cc\<close> files as log lines
  and exit code).

  \<^item> WebRTC headers: \<open>Byte_Io\<close> (\<open>byte_io.h\<close>, \<open>byte_order.h\<close>), \<open>Seq_Num\<close> (\<open>mod_ops.h\<close>,
  \<open>sequence_number_util.h\<close>, \<open>module_common_types_public.h\<close>), \<open>Units\<close> (\<open>unit_base.h\<close>, \<open>api/units\<close>),
  \<open>Swap_Queue\<close> (\<open>swap_queue.h\<close>, both threads step by step), \<open>Percentile\<close> (\<open>percentile_filter.h\<close>),
  \<open>Flat_Tree\<close> (\<open>flat_tree.h\<close>, \<open>flat_map.h\<close>, \<open>flat_set.h\<close>), \<open>Rtc_Buffer\<close> (\<open>buffer.h\<close>, with the memory it gives
  back), \<open>Cow_Buffer\<close> (\<open>copy_on_write_buffer.h\<close>: handles on a store of shared buffers).

  \<^bold>\<open>What the lemmas show.\<close> For the transport: messages leave in the order of acceptance, one write at a
  time, one chain of reads, and what a failure leaves behind (after a failed write nothing is ever
  sent again). For the session: one timer wait, responses once, what each message does. For JSON:
  printing and parsing undo each other under every option, exactly the well-formed strings can be
  printed, a difference applied as a patch gives the target, pointers and their text determine each
  other, flattening is undone by \<open>unflatten\<close>, CBOR, MessagePack, BSON and UBJSON documents are read back,
  CBOR and MessagePack delimit themselves, and the text of every finite double lies inside its rounding
  interval, so that documents with doubles survive. For signals: no dangling call as long as names are
  used as the header demands and no signal is destroyed by its own emission, and what becomes of
  programs that do otherwise. For the echo pair: order, liveness without failures, and the signal
  that is destroyed while it is emitted. For the containers and the arithmetic: each optimised routine
  equals its mathematical counterpart (extended integers, bounded queue, order statistic, finite
  map, list, independent copies, integers unwrapped from a circle), with the inputs on which it does not stated in the theorem.

  \<^bold>\<open>Bounds and fuel.\<close> The device loop of the audio program asks for its bound in every round; the
  answer is 16 bits wide, so \<open>2 ^ 15\<close> rounds are enough, which \<open>audio_devices_listed\<close> proves. The busy wait
  of the platform thread program is a step count until the flag is seen. All other functions are
  total.

  \<^bold>\<open>Not modelled.\<close> Floating point: \<open>strtod\<close>, the conversions of \<open>double\<close> in the binary formats and
  those of the units are parameters. Of
  \<open>json.hpp\<close> iterators and the SAX interface for users.
  The locks of \<open>sigslot\<close>. Headers that only declare (the \<open>api\<close> interfaces, \<open>media\<close>, \<open>pc\<close>), data
  (\<open>ssl_roots.h\<close>), macros (\<open>trace_event.h\<close>, \<open>checks.h\<close>) and the vendored Abseil.
\<close>

end
